(* ===== verification/Prelude.thy ===== *)
theory Prelude
  imports Main "HOL-Library.Word"
begin

text \<open>
  Shared vocabulary of the development.

  \<^item> Machine integers are words of the width the Rust type has. Buffers
    (\<^verbatim>\<open>Bytes\<close>, \<^verbatim>\<open>BytesMut\<close>, \<^verbatim>\<open>BytePages\<close>, \<^verbatim>\<open>&[u8]\<close>) are represented by their contents, a list
    of bytes; their lengths and indices (\<^verbatim>\<open>usize\<close>) are natural numbers.
  \<^item> A Rust \<^verbatim>\<open>Result<T, E>\<close> is the sum type \<open>'e + 'a\<close> with \<open>Inl\<close> for \<^verbatim>\<open>Err\<close>.
  \<^item> Byte-order conversions of the standard library (\<^verbatim>\<open>to_be_bytes\<close>, \<^verbatim>\<open>from_le_bytes\<close>, ...)
    are built from the base-256 digits \<open>le_bytes\<close> and \<open>le_nat\<close>, with the lemmas
    that relate them to bits.
  \<^item> The string functions of the standard library that the sources use on ASCII
    bytes: case folding, trimming, splitting.
\<close>

unbundle bit_operations_syntax

type_synonym u8 = "8 word"
type_synonym u16 = "16 word"
type_synonym u32 = "32 word"
type_synonym u64 = "64 word"
type_synonym bytes = "u8 list"
type_synonym ('e, 'a) result = "'e + 'a"

text \<open>
  Operations that can both return an error and panic (\<^verbatim>\<open>unwrap\<close>, \<^verbatim>\<open>expect\<close>, an index out of
  range, a failed \<^verbatim>\<open>assert!\<close>) fail with a \<open>failure\<close>.
\<close>

datatype 'e failure = Err 'e | Panic

named_theorems wire_simps \<open>normalisation of concatenated wire images\<close>

section \<open>Byte-order conversions\<close>

text \<open>Base-256 digits of a number, least significant first, and back.\<close>

fun le_bytes :: "nat \<Rightarrow> nat \<Rightarrow> bytes" where
  "le_bytes 0 n = []"
| "le_bytes (Suc k) n = of_nat n # le_bytes k (n div 256)"

fun le_nat :: "bytes \<Rightarrow> nat" where
  "le_nat [] = 0"
| "le_nat (b # bs) = unat b + 256 * le_nat bs"

definition be_bytes :: "nat \<Rightarrow> nat \<Rightarrow> bytes" where
  "be_bytes k n = rev (le_bytes k n)"

definition be_nat :: "bytes \<Rightarrow> nat" where
  "be_nat bs = le_nat (rev bs)"

text \<open>\<^verbatim>\<open>u16::to_be_bytes\<close>, \<^verbatim>\<open>u16::from_be_bytes\<close> and their 32- and 64-bit versions.\<close>

definition u16_to_be_bytes :: "u16 \<Rightarrow> bytes" where
  "u16_to_be_bytes w = be_bytes 2 (unat w)"

definition u16_from_be_bytes :: "bytes \<Rightarrow> u16" where
  "u16_from_be_bytes bs = of_nat (be_nat bs)"

definition u32_to_be_bytes :: "u32 \<Rightarrow> bytes" where
  "u32_to_be_bytes w = be_bytes 4 (unat w)"

definition u32_from_be_bytes :: "bytes \<Rightarrow> u32" where
  "u32_from_be_bytes bs = of_nat (be_nat bs)"

definition u64_to_be_bytes :: "u64 \<Rightarrow> bytes" where
  "u64_to_be_bytes w = be_bytes 8 (unat w)"

definition u64_from_be_bytes :: "bytes \<Rightarrow> u64" where
  "u64_from_be_bytes bs = of_nat (be_nat bs)"

section \<open>Buffers\<close>

text \<open>\<^verbatim>\<open>buf[at..at + src.len()].copy_from_slice(src)\<close>, within the bounds of \<^verbatim>\<open>buf\<close>.\<close>

definition copy_at :: "nat \<Rightarrow> bytes \<Rightarrow> bytes \<Rightarrow> bytes" where
  "copy_at at src buf = take at buf @ src @ drop (at + length src) buf"

section \<open>ASCII text on bytes\<close>

definition ascii :: "string \<Rightarrow> bytes" where
  "ascii s = map of_char s"

definition to_ascii_lowercase :: "u8 \<Rightarrow> u8" where
  "to_ascii_lowercase b = (if 65 \<le> b \<and> b \<le> 90 then b + 32 else b)"

definition eq_ignore_ascii_case :: "bytes \<Rightarrow> bytes \<Rightarrow> bool" where
  "eq_ignore_ascii_case xs ys \<longleftrightarrow> map to_ascii_lowercase xs = map to_ascii_lowercase ys"

definition is_ascii_digit :: "u8 \<Rightarrow> bool" where
  "is_ascii_digit b \<longleftrightarrow> 48 \<le> b \<and> b \<le> 57"

definition is_ascii_alphanumeric :: "u8 \<Rightarrow> bool" where
  "is_ascii_alphanumeric b \<longleftrightarrow>
     is_ascii_digit b \<or> (65 \<le> b \<and> b \<le> 90) \<or> (97 \<le> b \<and> b \<le> 122)"

definition is_ascii_hexdigit :: "u8 \<Rightarrow> bool" where
  "is_ascii_hexdigit b \<longleftrightarrow>
     is_ascii_digit b \<or> (65 \<le> b \<and> b \<le> 70) \<or> (97 \<le> b \<and> b \<le> 102)"

text \<open>\<^verbatim>\<open>u8::is_ascii_whitespace\<close>: space, HTAB, LF, FF, CR.\<close>

definition is_ascii_whitespace :: "u8 \<Rightarrow> bool" where
  "is_ascii_whitespace b \<longleftrightarrow> b = 32 \<or> b = 9 \<or> b = 10 \<or> b = 12 \<or> b = 13"

definition trim_ascii :: "bytes \<Rightarrow> bytes" where
  "trim_ascii bs =
     rev (dropWhile is_ascii_whitespace (rev (dropWhile is_ascii_whitespace bs)))"

text \<open>\<^verbatim>\<open>slice::split\<close> at every element equal to a separator; never the empty list.\<close>

fun split_on :: "'a \<Rightarrow> 'a list \<Rightarrow> 'a list list" where
  "split_on s [] = [[]]"
| "split_on s (x # xs) =
     (if x = s then [] # split_on s xs
      else case split_on s xs of [] \<Rightarrow> [[x]] | y # ys \<Rightarrow> (x # y) # ys)"

text \<open>\<^verbatim>\<open>std::str::from_utf8\<close>: well-formed UTF-8 byte sequences.\<close>

definition utf8_cont :: "u8 \<Rightarrow> bool" where
  "utf8_cont b \<longleftrightarrow> 0x80 \<le> b \<and> b \<le> 0xBF"

definition utf8_second3 :: "u8 \<Rightarrow> u8 \<Rightarrow> bool" where
  "utf8_second3 b c \<longleftrightarrow>
     (if b = 0xE0 then 0xA0 \<le> c \<and> c \<le> 0xBF
      else if b = 0xED then 0x80 \<le> c \<and> c \<le> 0x9F
      else utf8_cont c)"

definition utf8_second4 :: "u8 \<Rightarrow> u8 \<Rightarrow> bool" where
  "utf8_second4 b c \<longleftrightarrow>
     (if b = 0xF0 then 0x90 \<le> c \<and> c \<le> 0xBF
      else if b = 0xF4 then 0x80 \<le> c \<and> c \<le> 0x8F
      else utf8_cont c)"

fun utf8_valid :: "bytes \<Rightarrow> bool" where
  "utf8_valid [] = True"
| "utf8_valid (b # bs) =
     (if b < 0x80 then utf8_valid bs
      else if 0xC2 \<le> b \<and> b \<le> 0xDF then
        (case bs of c # r \<Rightarrow> utf8_cont c \<and> utf8_valid r | _ \<Rightarrow> False)
      else if 0xE0 \<le> b \<and> b \<le> 0xEF then
        (case bs of c # d # r \<Rightarrow> utf8_second3 b c \<and> utf8_cont d \<and> utf8_valid r | _ \<Rightarrow> False)
      else if 0xF0 \<le> b \<and> b \<le> 0xF4 then
        (case bs of c # d # f # r \<Rightarrow>
           utf8_second4 b c \<and> utf8_cont d \<and> utf8_cont f \<and> utf8_valid r | _ \<Rightarrow> False)
      else False)"

text \<open>
  \<^verbatim>\<open>str::trim\<close> on UTF-8 bytes: white space is U+0009 to U+000D, U+0020, U+0085, U+00A0,
  U+1680, U+2000 to U+200A, U+2028, U+2029, U+202F, U+205F and U+3000.
\<close>

fun trim_start :: "bytes \<Rightarrow> bytes" where
  "trim_start [] = []"
| "trim_start (a # bs) =
     (if (9 \<le> a \<and> a \<le> 13) \<or> a = 32 then trim_start bs
      else case bs of
        b # cs \<Rightarrow>
          if a = 0xC2 \<and> (b = 0x85 \<or> b = 0xA0) then trim_start cs
          else (case cs of
            c # ds \<Rightarrow>
              if (a = 0xE1 \<and> b = 0x9A \<and> c = 0x80)
                \<or> (a = 0xE2 \<and> b = 0x80 \<and> ((0x80 \<le> c \<and> c \<le> 0x8A) \<or> c = 0xA8 \<or> c = 0xA9 \<or> c = 0xAF))
                \<or> (a = 0xE2 \<and> b = 0x81 \<and> c = 0x9F) \<or> (a = 0xE3 \<and> b = 0x80 \<and> c = 0x80)
              then trim_start ds else a # bs
          | [] \<Rightarrow> a # bs)
      | [] \<Rightarrow> a # bs)"

text \<open>The same from the other end: the argument is the text in reverse.\<close>

fun trim_rev :: "bytes \<Rightarrow> bytes" where
  "trim_rev [] = []"
| "trim_rev (c # bs) =
     (if (9 \<le> c \<and> c \<le> 13) \<or> c = 32 then trim_rev bs
      else case bs of
        b # as \<Rightarrow>
          if b = 0xC2 \<and> (c = 0x85 \<or> c = 0xA0) then trim_rev as
          else (case as of
            a # zs \<Rightarrow>
              if (a = 0xE1 \<and> b = 0x9A \<and> c = 0x80)
                \<or> (a = 0xE2 \<and> b = 0x80 \<and> ((0x80 \<le> c \<and> c \<le> 0x8A) \<or> c = 0xA8 \<or> c = 0xA9 \<or> c = 0xAF))
                \<or> (a = 0xE2 \<and> b = 0x81 \<and> c = 0x9F) \<or> (a = 0xE3 \<and> b = 0x80 \<and> c = 0x80)
              then trim_rev zs else c # bs
          | [] \<Rightarrow> c # bs)
      | [] \<Rightarrow> c # bs)"

definition str_trim :: "bytes \<Rightarrow> bytes" where
  "str_trim bs = rev (trim_rev (rev (trim_start bs)))"

section \<open>Lemmas on byte-order conversions\<close>

lemma length_le_bytes [simp]: "length (le_bytes k n) = k"
  by (induction k arbitrary: n) auto

lemma le_bytes_numeral: "le_bytes (numeral k) n = of_nat n # le_bytes (pred_numeral k) (n div 256)"
  using le_bytes.simps(2) [of "pred_numeral k" n] by (metis numeral_eq_Suc)

lemma length_be_bytes [simp]: "length (be_bytes k n) = k"
  by (simp add: be_bytes_def)

lemma le_nat_le_bytes: "le_nat (le_bytes k n) = n mod 256 ^ k"
proof (induction k arbitrary: n)
  case (Suc k)
  have "n mod 256 + 256 * (n div 256 mod 256 ^ k) = n mod (256 * 256 ^ k)"
    by (simp add: mod_mult2_eq)
  then show ?case by (simp add: Suc unat_of_nat)
qed simp

lemma be_nat_be_bytes: "be_nat (be_bytes k n) = n mod 256 ^ k"
  by (simp add: be_nat_def be_bytes_def le_nat_le_bytes)

lemma le_nat_less: "le_nat bs < 256 ^ length bs"
proof (induction bs)
  case (Cons b bs)
  have "unat b < 256" using unsigned_less [of b] by simp
  then have "unat b + 256 * le_nat bs < 256 + 256 * le_nat bs" by simp
  also have "\<dots> \<le> 256 * 256 ^ length bs" using Cons by (simp add: Suc_le_eq)
  finally show ?case by simp
qed simp

lemma be_nat_less: "be_nat bs < 256 ^ length bs"
  using le_nat_less [of "rev bs"] by (simp add: be_nat_def)

lemma unat_u8_less: "unat (b :: u8) < 256"
  using unsigned_less [of b] by simp

lemma unat_u16_less: "unat (b :: u16) < 65536"
  using unsigned_less [of b] by simp

lemma unat_u32_less: "unat (b :: u32) < 4294967296"
  using unsigned_less [of b] by simp

lemma unat_u64_less: "unat (b :: u64) < 18446744073709551616"
  using unsigned_less [of b] by simp

lemma le_bytes_le_nat: "le_bytes (length bs) (le_nat bs) = bs"
proof (induction bs)
  case (Cons b bs)
  have "(unat b + 256 * le_nat bs) div 256 = le_nat bs"
    using unat_u8_less [of b] by simp
  moreover have "(of_nat (256 * le_nat bs) :: u8) = 0"
    by (simp only: word_of_nat_eq_0_iff) simp
  then have "(of_nat (unat b + 256 * le_nat bs) :: u8) = b"
    by (simp only: of_nat_add) simp
  ultimately show ?case using Cons by simp
qed simp

lemma be_bytes_be_nat: "be_bytes (length bs) (be_nat bs) = bs"
  using le_bytes_le_nat [of "rev bs"] by (simp add: be_bytes_def be_nat_def)

lemma bit_nat_split:
  fixes a x :: nat
  assumes "a < 2 ^ k"
  shows "bit (a + 2 ^ k * x) n \<longleftrightarrow> (if n < k then bit a n else bit x (n - k))"
proof (cases "n < k")
  case True
  then obtain d where d: "k = n + Suc d" using less_iff_Suc_add by auto
  have "(a + 2 ^ k * x) div 2 ^ n = a div 2 ^ n + 2 ^ Suc d * x"
    unfolding d power_add mult.assoc by simp
  then show ?thesis using True by (simp add: bit_iff_odd)
next
  case False
  then have p: "(2 :: nat) ^ n = 2 ^ k * 2 ^ (n - k)" by (simp flip: power_add)
  have "(a + 2 ^ k * x) div 2 ^ n = (a + 2 ^ k * x) div 2 ^ k div 2 ^ (n - k)"
    unfolding p by (rule div_mult2_eq)
  also have "\<dots> = x div 2 ^ (n - k)" using assms by simp
  finally show ?thesis using False by (simp add: bit_iff_odd)
qed

text \<open>Bit \<open>n\<close> of a little-endian number is bit \<open>n mod 8\<close> of byte \<open>n div 8\<close>.\<close>

lemma bit_le_nat:
  "bit (le_nat bs) n \<longleftrightarrow> n div 8 < length bs \<and> bit (bs ! (n div 8)) (n mod 8)"
proof (induction bs arbitrary: n)
  case (Cons b bs)
  have "bit (le_nat (b # bs)) n = (if n < 8 then bit b n else bit (le_nat bs) (n - 8))"
    using bit_nat_split [of "unat b" 8 "le_nat bs" n] unat_u8_less [of b]
    by (simp add: bit_unsigned_iff)
  then show ?case
    by (cases "n < 8") (auto simp: Cons le_div_geq le_mod_geq not_less nth_Cons')
qed simp

lemma nth_le_bytes: "i < k \<Longrightarrow> le_bytes k n ! i = of_nat (n div 256 ^ i)"
  by (induction k arbitrary: n i) (auto simp: nth_Cons' div_mult2_eq gr0_conv_Suc)

lemma bit_nth_le_bytes:
  assumes "i < k"
  shows "bit (le_bytes k n ! i) j \<longleftrightarrow> j < 8 \<and> bit n (8 * i + j)"
proof -
  have "(256 :: nat) ^ i = 2 ^ (8 * i)" by (simp add: power_mult)
  then have "le_bytes k n ! i = of_nat (drop_bit (8 * i) n)"
    using assms by (simp add: nth_le_bytes drop_bit_eq_div)
  then show ?thesis by (simp add: bit_of_nat_iff bit_drop_bit_eq)
qed

text \<open>Exclusive or acts byte by byte.\<close>

lemma le_nat_xor:
  assumes "length xs = length ys"
  shows "le_nat xs XOR le_nat ys = le_nat (map2 (XOR) xs ys)"
  by (rule bit_eqI) (use assms in \<open>auto simp: bit_xor_iff bit_le_nat\<close>)

lemma be_nat_xor:
  assumes "length xs = length ys"
  shows "be_nat xs XOR be_nat ys = be_nat (map2 (XOR) xs ys)"
  using assms by (simp add: be_nat_def le_nat_xor rev_map zip_rev)

section \<open>Byte values\<close>

lemma and_exp_u8: "(b :: u8) AND 2 ^ n = (if bit b n then 2 ^ n else 0)"
  by (rule bit_word_eqI) (auto simp: bit_and_iff bit_exp_iff)

lemma and_0x80: "(b :: u8) AND 0x80 = (if bit b 7 then 0x80 else 0)"
  using and_exp_u8 [of b 7] by simp

lemma and_0x40: "(b :: u8) AND 0x40 = (if bit b 6 then 0x40 else 0)"
  using and_exp_u8 [of b 6] by simp

lemma bit7_iff: "bit (b :: u8) 7 \<longleftrightarrow> 128 \<le> b"
proof -
  have "bit b 7 \<longleftrightarrow> bit (unat b) 7" by (simp add: bit_unsigned_iff)
  also have "\<dots> \<longleftrightarrow> odd (unat b div 128)" by (simp add: bit_iff_odd)
  also have "unat b div 128 = (if 128 \<le> unat b then 1 else 0)"
    using unat_u8_less [of b] by (simp add: le_div_geq)
  also have "odd (if 128 \<le> unat b then 1 else 0 :: nat) \<longleftrightarrow> 128 \<le> unat b" by simp
  finally show ?thesis by (simp add: word_le_nat_alt)
qed

lemma u8_split_fields: "b = (b AND 0x0F) OR (b AND 0x30) OR (b AND 0x40) OR (b AND 0x80)"
  for b :: u8
proof -
  have "(b AND 0x0F) OR (b AND 0x30) OR (b AND 0x40) OR (b AND 0x80)
      = b AND (0x0F OR 0x30 OR 0x40 OR 0x80)"
    by (simp only: bit.conj_disj_distrib)
  also have "(0x0F OR 0x30 OR 0x40 OR 0x80 :: u8) = -1" by simp
  finally show ?thesis by simp
qed

lemma u8_split_top: "b = (b AND 0x80) OR (b AND 0x7F)" for b :: u8
proof -
  have "(b AND 0x80) OR (b AND 0x7F) = b AND (0x80 OR 0x7F)"
    by (simp only: bit.conj_disj_distrib)
  also have "(0x80 OR 0x7F :: u8) = -1" by simp
  finally show ?thesis by simp
qed

lemma top_bit_clear: "(b :: u8) AND 0x80 = 0 \<longleftrightarrow> b < 128"
  by (auto simp: and_0x80 bit7_iff)

lemma low7_self: "(b :: u8) < 128 \<Longrightarrow> b AND 0x7F = b"
  using u8_split_top [of b] top_bit_clear [of b] by simp

lemma low7_less: "(b :: u8) AND 0x7F < 128"
  using bit7_iff [of "b AND 0x7F"] by (simp add: bit_and_iff)

lemma le_bytes_snoc: "le_bytes (Suc k) n = le_bytes k n @ [of_nat (n div 256 ^ k)]"
  by (induction k arbitrary: n) (simp_all add: div_mult2_eq)

lemma be_bytes_Suc: "be_bytes (Suc k) n = of_nat (n div 256 ^ k) # be_bytes k n"
  unfolding be_bytes_def le_bytes_snoc by simp

lemma u16_be_roundtrip [simp]: "u16_from_be_bytes (u16_to_be_bytes w) = w"
  using unat_u16_less [of w]
  by (simp add: u16_from_be_bytes_def u16_to_be_bytes_def be_nat_be_bytes)

lemma u64_be_roundtrip [simp]: "u64_from_be_bytes (u64_to_be_bytes w) = w"
  using unat_u64_less [of w]
  by (simp add: u64_from_be_bytes_def u64_to_be_bytes_def be_nat_be_bytes)

lemma u16_be_roundtrip_bytes: "length bs = 2 \<Longrightarrow> u16_to_be_bytes (u16_from_be_bytes bs) = bs"
  using be_bytes_be_nat [of bs] be_nat_less [of bs]
  by (simp add: u16_from_be_bytes_def u16_to_be_bytes_def unsigned_of_nat take_bit_nat_eq_self)

lemma u64_be_roundtrip_bytes: "length bs = 8 \<Longrightarrow> u64_to_be_bytes (u64_from_be_bytes bs) = bs"
  using be_bytes_be_nat [of bs] be_nat_less [of bs]
  by (simp add: u64_from_be_bytes_def u64_to_be_bytes_def unsigned_of_nat take_bit_nat_eq_self)

lemma length_u16_to_be_bytes [simp]: "length (u16_to_be_bytes w) = 2"
  by (simp add: u16_to_be_bytes_def)

lemma length_u64_to_be_bytes [simp]: "length (u64_to_be_bytes w) = 8"
  by (simp add: u64_to_be_bytes_def)

lemma unat_of_nat_u8: "n < 256 \<Longrightarrow> unat (of_nat n :: u8) = n"
  by (simp add: unsigned_of_nat take_bit_nat_eq_self)

lemma unat_of_nat_u16: "n < 65536 \<Longrightarrow> unat (of_nat n :: u16) = n"
  by (simp add: unsigned_of_nat take_bit_nat_eq_self)

lemma unat_of_nat_u64: "n < 18446744073709551616 \<Longrightarrow> unat (of_nat n :: u64) = n"
  by (simp add: unsigned_of_nat take_bit_nat_eq_self)

section \<open>Buffer updates\<close>

lemma length_copy_at [simp]: "at + length src \<le> length buf \<Longrightarrow> length (copy_at at src buf) = length buf"
  by (simp add: copy_at_def)

lemma drop_copy_at:
  "at \<le> length buf \<Longrightarrow> drop at (copy_at at src buf) = src @ drop (at + length src) buf"
  by (simp add: copy_at_def)

section \<open>Results\<close>

lemma result_option_cases:
  obtains e where "r = Inl e" | "r = Inr None" | x where "r = Inr (Some x)"
  by (metis option.exhaust sum.exhaust)

end
