(* ===== verification/Ws_Mask.thy ===== *)
theory Ws_Mask
  imports Prelude
begin

text \<open>
  Masking of WebSocket payloads, \<^verbatim>\<open>ntex/src/ws/mask.rs\<close>.

  The code XORs a buffer with a 4-byte key eight bytes at a time: an unaligned head, a
  middle part that is reinterpreted as \<^verbatim>\<open>u64\<close> values, and an unaligned tail. The model
  keeps that structure: the address of the buffer and the byte order of the target are
  parameters, and memory reinterpretation is the native-endian conversion. The interface
  \<open>byte_order\<close> states what the routine needs of the conversions; it is interpreted for both
  byte orders. The main result is that for every byte order, address and length the routine
  is the byte-wise XOR of RFC 6455 (\<open>mask_from\<close>).
\<close>

section \<open>The code\<close>

datatype endian = Little | Big

definition u64_from_ne_bytes :: "endian \<Rightarrow> bytes \<Rightarrow> u64" where
  "u64_from_ne_bytes e bs = of_nat (case e of Little \<Rightarrow> le_nat bs | Big \<Rightarrow> be_nat bs)"

definition u64_to_ne_bytes :: "endian \<Rightarrow> u64 \<Rightarrow> bytes" where
  "u64_to_ne_bytes e w =
     (case e of Little \<Rightarrow> le_bytes 8 (unat w) | Big \<Rightarrow> be_bytes 8 (unat w))"

definition u32_from_ne_bytes :: "endian \<Rightarrow> bytes \<Rightarrow> u32" where
  "u32_from_ne_bytes e bs = of_nat (case e of Little \<Rightarrow> le_nat bs | Big \<Rightarrow> be_nat bs)"

definition u32_to_ne_bytes :: "endian \<Rightarrow> u32 \<Rightarrow> bytes" where
  "u32_to_ne_bytes e w =
     (case e of Little \<Rightarrow> le_bytes 4 (unat w) | Big \<Rightarrow> be_bytes 4 (unat w))"

text \<open>Extends the mask to 64 bits.\<close>

definition mask_u64 :: "u32 \<Rightarrow> u64" where
  "mask_u64 mask_u32 = push_bit 32 (ucast mask_u32) OR ucast mask_u32"

text \<open>The rotation after a head of \<open>n\<close> bits, to the left on a big-endian target.\<close>

definition rotate_ne :: "endian \<Rightarrow> nat \<Rightarrow> u64 \<Rightarrow> u64" where
  "rotate_ne e n m = (case e of Big \<Rightarrow> word_rotl n m | Little \<Rightarrow> word_rotr n m)"

text \<open>
  A \<^verbatim>\<open>ShortSlice\<close> (fewer than 8 bytes) is copied into the start of a zeroed \<^verbatim>\<open>u64\<close>, XORed
  and copied back.
\<close>

definition xor_short :: "endian \<Rightarrow> bytes \<Rightarrow> u64 \<Rightarrow> bytes" where
  "xor_short e buf msk =
     (let len = length buf;
          b = u64_from_ne_bytes e (buf @ replicate (8 - len) 0);
          b = b XOR msk
      in take len (u64_to_ne_bytes e b))"

text \<open>\<^verbatim>\<open>slice::from_raw_parts_mut\<close> over the aligned middle: \<^verbatim>\<open>buf.len() >> 3\<close> values.\<close>

fun cast_slice :: "endian \<Rightarrow> bytes \<Rightarrow> u64 list" where
  "cast_slice e buf =
     (if length buf < 8 then []
      else u64_from_ne_bytes e (take 8 buf) # cast_slice e (drop 8 buf))"

declare cast_slice.simps [simp del]

text \<open>
  Splits a buffer at address \<open>start_ptr\<close> into an unaligned short head, an aligned middle and a
  short tail. \<open>(start_ptr + 7) & !7\<close> rounds up and \<open>end_ptr & !7\<close> rounds down to a multiple
  of 8; an object never wraps around the address space, so addresses are natural numbers.
\<close>

definition align_buf :: "nat \<Rightarrow> bytes \<Rightarrow> bytes \<times> bytes \<times> bytes" where
  "align_buf start_ptr buf =
     (let end_ptr = start_ptr + length buf;
          start_aligned = (start_ptr + 7) div 8 * 8;
          end_aligned = end_ptr div 8 * 8
      in if end_aligned \<ge> start_aligned
         then let tmp = take (end_aligned - start_ptr) buf;
                  tail = drop (end_aligned - start_ptr) buf;
                  head = take (start_aligned - start_ptr) tmp;
                  mid = drop (start_aligned - start_ptr) tmp
              in (head, mid, tail)
         else (buf, [], []))"

definition apply_mask :: "endian \<Rightarrow> nat \<Rightarrow> bytes \<Rightarrow> u32 \<Rightarrow> bytes" where
  "apply_mask e start_ptr buf mask_u32 =
     (let m = mask_u64 mask_u32;
          (head, mid, tail) = align_buf start_ptr buf;
          head_len = length head;
          head' = (if head_len > 0 then xor_short e head m else head);
          m' = (if head_len > 0 then rotate_ne e (8 * head_len) m else m);
          mid' = concat (map (\<lambda>v. u64_to_ne_bytes e (v XOR m')) (cast_slice e mid));
          tail' = (if length tail > 0 then xor_short e tail m' else tail)
      in head' @ mid' @ tail')"

section \<open>Specification\<close>

text \<open>
  RFC 6455, section 5.3: octet \<open>i\<close> of the result is octet \<open>i\<close> of the input XOR octet
  \<open>i mod 4\<close> of the key. \<open>mask_from k\<close> starts at position \<open>k\<close> of the stream.
\<close>

fun mask_from :: "nat \<Rightarrow> bytes \<Rightarrow> bytes \<Rightarrow> bytes" where
  "mask_from k key [] = []"
| "mask_from k key (b # bs) = (b XOR key ! (k mod 4)) # mask_from (Suc k) key bs"

lemma length_mask_from [simp]: "length (mask_from k key bs) = length bs"
  by (induction k key bs rule: mask_from.induct) auto

lemma mask_from_append [wire_simps]:
  "mask_from k key (xs @ ys) = mask_from k key xs @ mask_from (k + length xs) key ys"
  by (induction k key xs rule: mask_from.induct) auto

lemma mask_from_mod: "k mod 4 = j mod 4 \<Longrightarrow> mask_from k key bs = mask_from j key bs"
proof (induction bs arbitrary: k j)
  case (Cons b bs)
  from Cons.prems have "Suc (k mod 4) mod 4 = Suc (j mod 4) mod 4" by simp
  then have "Suc k mod 4 = Suc j mod 4" by (simp only: mod_Suc_eq)
  from Cons.IH [OF this] Cons.prems show ?case by simp
qed simp

lemma mask_from_add: "4 dvd d \<Longrightarrow> mask_from (k + d) key bs = mask_from k key bs"
  by (rule mask_from_mod) (elim dvdE, simp)

lemma mask_from_involution: "mask_from k key (mask_from k key bs) = bs"
  by (induction k key bs rule: mask_from.induct) (auto simp: xor.assoc)

lemma nth_mask_from:
  "i < length bs \<Longrightarrow> mask_from k key bs ! i = bs ! i XOR key ! ((k + i) mod 4)"
  by (induction k key bs arbitrary: i rule: mask_from.induct) (auto simp: nth_Cons')

section \<open>What the routine needs of the byte order\<close>

text \<open>
  \<open>enc\<close> and \<open>dec\<close> view eight bytes of memory as a \<^verbatim>\<open>u64\<close>, \<open>rot\<close> is the rotation the code
  uses, \<open>ext\<close> a 64-bit key built from the four key bytes \<open>key\<close>.
\<close>

locale byte_order =
  fixes enc :: "u64 \<Rightarrow> bytes"
    and dec :: "bytes \<Rightarrow> u64"
    and rot :: "nat \<Rightarrow> u64 \<Rightarrow> u64"
  assumes enc_dec: "length bs = 8 \<Longrightarrow> enc (dec bs) = bs"
    and dec_xor: "length xs = 8 \<Longrightarrow> length ys = 8 \<Longrightarrow>
          dec xs XOR dec ys = dec (map2 (XOR) xs ys)"
    and rot_dec: "length bs = 8 \<Longrightarrow> rot (8 * k) (dec bs) = dec (rotate k bs)"
begin

lemma rot_key:
  assumes "length key = 4" "i < 8"
  shows "rotate k (key @ key) ! i = key ! ((k + i) mod 4)"
proof -
  have *: "(key @ key) ! j = key ! (j mod 4)" if "j < 8" for j
    using that assms(1) by (auto simp: nth_append le_mod_geq)
  have "rotate k (key @ key) ! i = (key @ key) ! ((k + i) mod 8)"
    using assms by (simp add: nth_rotate)
  also have "\<dots> = key ! ((k + i) mod 8 mod 4)" by (rule *) simp
  also have "(k + i) mod 8 mod 4 = (k + i) mod 4" by (simp add: mod_mod_cancel)
  finally show ?thesis .
qed

lemma xor_key:
  assumes "length key = 4" "length bs \<le> 8"
  shows "take (length bs) (map2 (XOR) (bs @ replicate (8 - length bs) 0) (rotate k (key @ key)))
       = mask_from k key bs"
  by (rule nth_equalityI) (use assms in \<open>auto simp: rot_key nth_mask_from nth_append\<close>)

lemma block_short:
  assumes "length key = 4" "length bs \<le> 8"
  shows "take (length bs)
           (enc (dec (bs @ replicate (8 - length bs) 0) XOR dec (rotate k (key @ key))))
       = mask_from k key bs"
proof -
  have "dec (bs @ replicate (8 - length bs) 0) XOR dec (rotate k (key @ key)) =
        dec (map2 (XOR) (bs @ replicate (8 - length bs) 0) (rotate k (key @ key)))"
    using assms by (intro dec_xor) auto
  then show ?thesis using assms by (simp add: enc_dec xor_key)
qed

lemma block_full:
  assumes "length key = 4" "length bs = 8"
  shows "enc (dec bs XOR dec (rotate k (key @ key))) = mask_from k key bs"
  using block_short [of key bs k] assms by (simp add: dec_xor enc_dec)

end

section \<open>Both byte orders provide it\<close>

lemma word64_le_nat: "length bs = 8 \<Longrightarrow> unat (of_nat (le_nat bs) :: u64) = le_nat bs"
  using le_nat_less [of bs] by (simp add: unsigned_of_nat take_bit_nat_eq_self)

lemma word64_xor:
  "length xs = 8 \<Longrightarrow> length ys = 8 \<Longrightarrow>
     (of_nat (le_nat xs) :: u64) XOR of_nat (le_nat ys) = of_nat (le_nat (map2 (XOR) xs ys))"
  by (simp flip: of_nat_xor_eq add: le_nat_xor)

lemma word64_rotr:
  assumes "length bs = 8"
  shows "word_rotr (8 * k) (of_nat (le_nat bs) :: u64) = of_nat (le_nat (rotate k bs))"
proof (rule bit_word_eqI)
  fix n assume "n < LENGTH(64)"
  then have n: "n < 64" by simp
  have "(n + 8 * k) mod 64 = 8 * ((n + 8 * k) div 8 mod 8) + (n + 8 * k) mod 8"
    using mod_mult2_eq [of "n + 8 * k" 8 8] by simp
  then have "(n + 8 * k) mod 64 div 8 = (k + n div 8) mod 8"
    "(n + 8 * k) mod 64 mod 8 = n mod 8" by (simp_all add: mod_mod_cancel)
  then show "bit (word_rotr (8 * k) (of_nat (le_nat bs) :: u64)) n
             = bit (of_nat (le_nat (rotate k bs)) :: u64) n"
    using n assms
    by (auto simp: bit_word_rotr_iff bit_of_nat_iff bit_le_nat nth_rotate add.commute)
qed

lemma rev_rotate8:
  assumes "length bs = 8"
  shows "rev (rotate k bs) = rotate (8 - k mod 8) (rev bs)"
proof -
  have "k mod 8 < 8" by simp
  then have "(8 - (8 - k mod 8) mod 8) mod 8 = k mod 8"
    by (cases "k mod 8 = 0") auto
  then have "rotate (8 - (8 - k mod 8) mod 8) bs = rotate k bs"
    using assms rotate_conv_mod by metis
  then show ?thesis using assms by (simp add: rotate_rev)
qed

interpretation ne: byte_order "u64_to_ne_bytes e" "u64_from_ne_bytes e" "rotate_ne e" for e
proof
  fix bs :: bytes assume bs: "length bs = 8"
  then show "u64_to_ne_bytes e (u64_from_ne_bytes e bs) = bs"
    using le_bytes_le_nat [of bs] be_bytes_be_nat [of bs] word64_le_nat [of bs]
      word64_le_nat [of "rev bs"]
    by (auto simp: u64_to_ne_bytes_def u64_from_ne_bytes_def be_nat_def split: endian.split)
  fix k
  have "rev (rotate k bs) = rotate (8 - k mod 8) (rev bs)"
    using bs by (simp add: rev_rotate8)
  moreover have "64 - 8 * k mod 64 = 8 * (8 - k mod 8)"
    using mult_mod_right [of 8 k 8] by simp
  ultimately show "rotate_ne e (8 * k) (u64_from_ne_bytes e bs)
      = u64_from_ne_bytes e (rotate k bs)"
    using bs word64_rotr [of "rev bs" "8 - k mod 8"]
    by (simp add: rotate_ne_def u64_from_ne_bytes_def be_nat_def word64_rotr
        word_rotl_eq_word_rotr split: endian.split)
next
  fix xs ys :: bytes assume "length xs = 8" "length ys = 8"
  then show "u64_from_ne_bytes e xs XOR u64_from_ne_bytes e ys
      = u64_from_ne_bytes e (map2 (XOR) xs ys)"
    using word64_xor [of "rev xs" "rev ys"]
    by (auto simp: u64_from_ne_bytes_def be_nat_def word64_xor rev_map zip_rev
        split: endian.split)
qed

text \<open>The extended key reads as the four key bytes twice, in either byte order.\<close>

lemma mask_u64_le:
  "mask_u64 m = of_nat (le_nat (le_bytes 4 (unat m) @ le_bytes 4 (unat m)))"
proof (rule bit_word_eqI)
  fix n assume "n < LENGTH(64)"
  then have n: "n < 64" by simp
  show "bit (mask_u64 m) n
      = bit (of_nat (le_nat (le_bytes 4 (unat m) @ le_bytes 4 (unat m))) :: u64) n"
  proof (cases "n < 32")
    case True
    then show ?thesis
      by (simp add: mask_u64_def bit_or_iff bit_push_bit_iff bit_ucast_iff bit_of_nat_iff
          bit_le_nat nth_append bit_nth_le_bytes bit_unsigned_iff less_mult_imp_div_less)
  next
    case False
    have "\<not> bit m n" using False bit_imp_le_length [of m n] by auto
    moreover have d: "4 \<le> n div 8" "n div 8 - 4 < 4" "n div 8 < 8" "n - 32 < 64"
      using False n by auto
    moreover have "8 * (n div 8 - 4) + n mod 8 = n - 32"
      using d div_mult_mod_eq [of n 8] by (simp add: diff_mult_distrib2)
    ultimately show ?thesis using n False
      by (simp add: mask_u64_def bit_or_iff bit_push_bit_iff bit_ucast_iff bit_of_nat_iff
          bit_le_nat nth_append bit_nth_le_bytes bit_unsigned_iff)
  qed
qed

lemma mask_u64_ne:
  "mask_u64 m = u64_from_ne_bytes e (u32_to_ne_bytes e m @ u32_to_ne_bytes e m)"
  by (simp add: mask_u64_le u64_from_ne_bytes_def u32_to_ne_bytes_def be_nat_def be_bytes_def
      split: endian.split)

lemma length_u32_to_ne_bytes [simp]: "length (u32_to_ne_bytes e m) = 4"
  by (simp add: u32_to_ne_bytes_def split: endian.split)

lemma u32_ne_roundtrip [simp]: "u32_from_ne_bytes e (u32_to_ne_bytes e m) = m"
  using unat_u32_less [of m]
  by (simp add: u32_from_ne_bytes_def u32_to_ne_bytes_def le_nat_le_bytes be_nat_be_bytes
      split: endian.split)

lemma u32_ne_roundtrip_bytes:
  "length bs = 4 \<Longrightarrow> u32_to_ne_bytes e (u32_from_ne_bytes e bs) = bs"
  using le_bytes_le_nat [of bs] be_bytes_be_nat [of bs] le_nat_less [of bs] be_nat_less [of bs]
  by (simp add: u32_from_ne_bytes_def u32_to_ne_bytes_def unsigned_of_nat take_bit_nat_eq_self
      split: endian.split)

section \<open>Correctness of the block-wise routine\<close>

lemma align_buf_parts:
  assumes "align_buf a buf = (head, mid, tail)"
  shows "head @ mid @ tail = buf" "length head < 8" "8 dvd length mid" "length tail < 8"
proof -
  let ?s = "(a + 7) div 8 * 8" and ?e = "(a + length buf) div 8 * 8"
  have s: "a \<le> ?s" "?s < a + 8" and e: "?e \<le> a + length buf" "a + length buf < ?e + 8"
    by linarith+
  have "head @ mid @ tail = buf \<and> length head < 8 \<and> 8 dvd length mid \<and> length tail < 8"
  proof (cases "?s \<le> ?e")
    case True
    then have eq: "head = take (?s - a) (take (?e - a) buf)"
      "mid = drop (?s - a) (take (?e - a) buf)" "tail = drop (?e - a) buf"
      using assms by (auto simp: align_buf_def Let_def)
    have "length mid = ?e - ?s" using s e True by (simp add: eq)
    then have "8 dvd length mid" by simp
    moreover have "head @ mid = take (?e - a) buf"
      unfolding eq by (rule append_take_drop_id)
    then have "head @ mid @ tail = buf"
      by (metis append.assoc append_take_drop_id eq(3))
    moreover have "length head < 8" "length tail < 8" using s e True by (auto simp: eq)
    ultimately show ?thesis by blast
  next
    case False
    then have "(a + length buf) div 8 < (a + 7) div 8" by simp
    then have "length buf < 7" by (metis add_less_cancel_left div_le_mono linorder_not_le)
    with False assms show ?thesis by (auto simp: align_buf_def Let_def)
  qed
  then show "head @ mid @ tail = buf" "length head < 8" "8 dvd length mid" "length tail < 8"
    by auto
qed

lemma xor_short_mask:
  assumes "length key = 4" "length buf < 8"
  shows "xor_short e buf (u64_from_ne_bytes e (rotate k (key @ key))) = mask_from k key buf"
  using ne.block_short [of key buf e k] assms by (simp add: xor_short_def Let_def)

lemma cast_slice_mask:
  assumes "length key = 4" "8 dvd length mid"
  shows "concat (map (\<lambda>v. u64_to_ne_bytes e (v XOR u64_from_ne_bytes e (rotate k (key @ key))))
           (cast_slice e mid)) = mask_from k key mid"
  using assms
proof (induction e mid rule: cast_slice.induct)
  case (1 e mid)
  show ?case
  proof (cases "length mid < 8")
    case True
    then have "mid = []" using "1.prems" by (auto dest: dvd_imp_le)
    then show ?thesis by (simp add: cast_slice.simps)
  next
    case False
    then have "8 dvd length (drop 8 mid)" using "1.prems" by (simp add: dvd_diff_nat)
    then have IH: "concat (map (\<lambda>v. u64_to_ne_bytes e
        (v XOR u64_from_ne_bytes e (rotate k (key @ key)))) (cast_slice e (drop 8 mid)))
        = mask_from k key (drop 8 mid)"
      using "1.IH" False "1.prems" by blast
    have "mask_from k key (take 8 mid @ drop 8 mid)
        = mask_from k key (take 8 mid) @ mask_from k key (drop 8 mid)"
      using False by (simp only: mask_from_append) (simp add: mask_from_add)
    then show ?thesis
      using False IH "1.prems" by (simp add: cast_slice.simps [of e mid] ne.block_full)
  qed
qed

lemma apply_mask_correct:
  "apply_mask e a buf m = mask_from 0 (u32_to_ne_bytes e m) buf"
proof -
  let ?key = "u32_to_ne_bytes e m"
  obtain head mid tail where al: "align_buf a buf = (head, mid, tail)"
    using prod_cases3 by blast
  note parts = align_buf_parts [OF al]
  let ?h = "length head"
  let ?m = "if 0 < ?h then rotate_ne e (8 * ?h) (mask_u64 m) else mask_u64 m"
  have m1: "?m = u64_from_ne_bytes e (rotate ?h (?key @ ?key))"
    by (simp add: mask_u64_ne [of m e] ne.rot_dec)
  have "4 dvd length mid" using parts(3) by (elim dvdE) simp
  then have t: "mask_from (?h + length mid) ?key tail = mask_from ?h ?key tail"
    by (rule mask_from_add)
  have hd: "(if 0 < ?h then xor_short e head (mask_u64 m) else head) = mask_from 0 ?key head"
    using xor_short_mask [of ?key head e 0] parts(2) by (simp add: mask_u64_ne [of m e])
  have md: "concat (map (\<lambda>v. u64_to_ne_bytes e (v XOR ?m)) (cast_slice e mid))
      = mask_from ?h ?key mid"
    unfolding m1 using parts(3) by (simp add: cast_slice_mask)
  have tl: "(if 0 < length tail then xor_short e tail ?m else tail) = mask_from ?h ?key tail"
    unfolding m1 using parts(4) by (simp add: xor_short_mask)
  have "apply_mask e a buf m = mask_from 0 ?key head @ mask_from ?h ?key mid @ mask_from ?h ?key tail"
    unfolding apply_mask_def Let_def al prod.case hd md tl ..
  also have "\<dots> = mask_from 0 ?key (head @ mid @ tail)"
    by (simp add: mask_from_append t)
  finally show ?thesis by (simp add: parts(1))
qed

text \<open>C34. Masking equals the byte-wise specification of RFC 6455 for either byte order, any address
  and any length of the buffer: byte \<open>i\<close> of the result is byte \<open>i\<close> of the buffer XOR key byte
  \<open>i mod 4\<close>.
\<close>

theorem apply_mask_bytewise:
  "apply_mask e a buf m =
     map (\<lambda>i. buf ! i XOR u32_to_ne_bytes e m ! (i mod 4)) [0..<length buf]"
  by (rule nth_equalityI) (auto simp: apply_mask_correct nth_mask_from)

end
