(* ===== verification/Ws_Proto.thy ===== *)
theory Ws_Proto
  imports Prelude
begin

text \<open>
  WebSocket protocol values: operation codes, close codes and reasons
  (\<^verbatim>\<open>ntex/src/ws/proto.rs\<close>), and the protocol errors (\<^verbatim>\<open>ntex/src/ws/error.rs\<close>).
\<close>

section \<open>Operation codes\<close>

datatype OpCode = Continue | Text | Binary | Close | Ping | Pong

fun u8_from_OpCode :: "OpCode \<Rightarrow> u8" where
  "u8_from_OpCode Continue = 0"
| "u8_from_OpCode Text = 1"
| "u8_from_OpCode Binary = 2"
| "u8_from_OpCode Close = 8"
| "u8_from_OpCode Ping = 9"
| "u8_from_OpCode Pong = 10"

definition OpCode_try_from :: "u8 \<Rightarrow> OpCode option" where
  "OpCode_try_from byte =
     (if byte = 0 then Some Continue
      else if byte = 1 then Some Text
      else if byte = 2 then Some Binary
      else if byte = 8 then Some Close
      else if byte = 9 then Some Ping
      else if byte = 10 then Some Pong
      else None)"

fun is_control :: "OpCode \<Rightarrow> bool" where
  "is_control Close = True"
| "is_control Ping = True"
| "is_control Pong = True"
| "is_control _ = False"

section \<open>Close codes\<close>

datatype CloseCode =
    Normal | Away | Protocol | Unsupported | Abnormal | Invalid | Policy | Size
  | Extension | Error | Restart | Again | BadGateway | Tls | Other u16

fun u16_from_CloseCode :: "CloseCode \<Rightarrow> u16" where
  "u16_from_CloseCode Normal = 1000"
| "u16_from_CloseCode Away = 1001"
| "u16_from_CloseCode Protocol = 1002"
| "u16_from_CloseCode Unsupported = 1003"
| "u16_from_CloseCode Abnormal = 1006"
| "u16_from_CloseCode Invalid = 1007"
| "u16_from_CloseCode Policy = 1008"
| "u16_from_CloseCode Size = 1009"
| "u16_from_CloseCode Extension = 1010"
| "u16_from_CloseCode Error = 1011"
| "u16_from_CloseCode Restart = 1012"
| "u16_from_CloseCode Again = 1013"
| "u16_from_CloseCode BadGateway = 1014"
| "u16_from_CloseCode Tls = 1015"
| "u16_from_CloseCode (Other code) = code"

definition CloseCode_from :: "u16 \<Rightarrow> CloseCode" where
  "CloseCode_from code =
     (if code = 1000 then Normal
      else if code = 1001 then Away
      else if code = 1002 then Protocol
      else if code = 1003 then Unsupported
      else if code = 1006 then Abnormal
      else if code = 1007 then Invalid
      else if code = 1008 then Policy
      else if code = 1009 then Size
      else if code = 1010 then Extension
      else if code = 1011 then Error
      else if code = 1012 then Restart
      else if code = 1013 then Again
      else if code = 1014 then BadGateway
      else if code = 1015 then Tls
      else Other code)"

fun CloseCode_is_valid :: "CloseCode \<Rightarrow> bool" where
  "CloseCode_is_valid Abnormal = False"
| "CloseCode_is_valid Tls = False"
| "CloseCode_is_valid (Other code) \<longleftrightarrow> 3000 \<le> code \<and> code \<le> 4999"
| "CloseCode_is_valid _ = True"

text \<open>A \<^verbatim>\<open>String\<close> is represented by its UTF-8 bytes.\<close>

record CloseReason =
  code :: CloseCode
  description :: "bytes option"

section \<open>Protocol errors\<close>

datatype ProtocolError =
    UnmaskedFrame
  | MaskedFrame
  | InvalidOpcode u8
  | ReservedBits u8
  | FragmentedControlFrame OpCode
  | InvalidLength nat
  | InvalidLengthEncoding
  | InvalidCloseCode u16
  | InvalidClosePayload
  | InvalidUtf8
  | Closed
  | Overflow
  | ContinuationNotStarted
  | ContinuationStarted
  | InvalidCompressedData

section \<open>Round trips\<close>

lemma OpCode_try_from_u8 [simp]: "OpCode_try_from (u8_from_OpCode op) = Some op"
  by (cases op) (auto simp: OpCode_try_from_def)

lemma OpCode_try_from_Some: "OpCode_try_from b = Some op \<Longrightarrow> b = u8_from_OpCode op"
  by (auto simp: OpCode_try_from_def split: if_splits)

lemma u16_CloseCode_from [simp]: "u16_from_CloseCode (CloseCode_from w) = w"
  by (simp add: CloseCode_from_def)

text \<open>A code that may be sent survives the conversion; \<open>Other 1000\<close> would not.\<close>

lemma CloseCode_from_u16:
  "CloseCode_is_valid c \<Longrightarrow> CloseCode_from (u16_from_CloseCode c) = c"
  by (cases c) (auto simp: CloseCode_from_def)

lemma CloseCode_from_valid_range:
  "CloseCode_is_valid (CloseCode_from w) \<Longrightarrow> 1000 \<le> w \<and> w \<le> 4999"
  by (auto simp: CloseCode_from_def word_less_nat_alt word_le_nat_alt split: if_splits)

end
