(* ===== verification/Incremental.thy ===== *)
theory Incremental
  imports Prelude
begin

text \<open>
  The contract of an incremental decoder (\<^verbatim>\<open>ntex_codec::Decoder\<close>): it is called with the
  bytes received so far, removes a complete item from the front of the buffer or asks for
  more data. The interface \<open>incremental\<close> states how the result may depend on bytes that
  have not arrived yet; from it follows, once for all decoders, that the decoded items do
  not depend on how the byte stream is cut into reads.
\<close>

text \<open>Calls the decoder until it needs more data or fails.\<close>

fun drain :: "('st \<Rightarrow> bytes \<Rightarrow> ('e + 'a option) \<times> 'st \<times> bytes) \<Rightarrow> nat \<Rightarrow> 'st \<Rightarrow> bytes
    \<Rightarrow> 'a list \<times> 'e option \<times> 'st \<times> bytes" where
  "drain p 0 st s = ([], None, st, s)"
| "drain p (Suc n) st s =
     (case p st s of
        (Inl e, st', s') \<Rightarrow> ([], Some e, st', s')
      | (Inr None, st', s') \<Rightarrow> ([], None, st', s')
      | (Inr (Some a), st', s') \<Rightarrow>
          (case drain p n st' s' of (as, r) \<Rightarrow> (a # as, r)))"

text \<open>Every item consumes input, so this many calls are enough (lemma \<open>drain_fuel\<close>).\<close>

definition drain_all :: "('st \<Rightarrow> bytes \<Rightarrow> ('e + 'a option) \<times> 'st \<times> bytes) \<Rightarrow> 'st \<Rightarrow> bytes
    \<Rightarrow> 'a list \<times> 'e option \<times> 'st \<times> bytes" where
  "drain_all p st s = drain p (Suc (length s)) st s"

text \<open>The read loop: each chunk is appended to the read buffer, then decoded.\<close>

fun feed :: "('st \<Rightarrow> bytes \<Rightarrow> ('e + 'a option) \<times> 'st \<times> bytes) \<Rightarrow> 'st \<Rightarrow> bytes \<Rightarrow> bytes list
    \<Rightarrow> 'a list \<times> 'e option \<times> 'st \<times> bytes" where
  "feed p st buf [] = ([], None, st, buf)"
| "feed p st buf (c # cs) =
     (case drain_all p st (buf @ c) of
        (as, Some e, st', s') \<Rightarrow> (as, Some e, st', s' @ concat cs)
      | (as, None, st', s') \<Rightarrow> (case feed p st' s' cs of (bs, r) \<Rightarrow> (as @ bs, r)))"

locale incremental =
  fixes p :: "'st \<Rightarrow> bytes \<Rightarrow> ('e + 'a option) \<times> 'st \<times> bytes"
  assumes more: "p st s = (Inr None, st', s') \<Longrightarrow> p st' (s' @ t) = p st (s @ t)"
    and item: "p st s = (Inr (Some a), st', s') \<Longrightarrow> p st (s @ t) = (Inr (Some a), st', s' @ t)"
    and fail: "p st s = (Inl e, st', s') \<Longrightarrow> p st (s @ t) = (Inl e, st', s' @ t)"
    and progress: "p st s = (Inr (Some a), st', s') \<Longrightarrow> length s' < length s"
begin

lemma drain_fuel:
  "length s < n \<Longrightarrow> length s < m \<Longrightarrow> drain p n st s = drain p m st s"
proof (induction n arbitrary: m st s)
  case (Suc n)
  then obtain k where m: "m = Suc k" by (cases m) auto
  show ?case
  proof (cases "\<exists>a st' s'. p st s = (Inr (Some a), st', s')")
    case True
    then obtain a st' s' where p: "p st s = (Inr (Some a), st', s')" by blast
    then have "length s' < length s" by (rule progress)
    then have "drain p n st' s' = drain p k st' s'"
      using Suc.prems m by (intro Suc.IH) auto
    then show ?thesis by (simp add: m p)
  next
    case False
    then show ?thesis by (auto simp: m split: prod.splits sum.splits option.splits)
  qed
qed simp

lemma drain_all_fuel: "length s < n \<Longrightarrow> drain p n st s = drain_all p st s"
  unfolding drain_all_def by (rule drain_fuel) auto

lemma drain_all_item:
  assumes "p st s = (Inr (Some a), st', s')"
  shows "drain_all p st s = (case drain_all p st' s' of (as, r) \<Rightarrow> (a # as, r))"
proof -
  have "length s' < length s" using assms by (rule progress)
  then have "drain p (length s) st' s' = drain_all p st' s'" by (rule drain_all_fuel)
  then show ?thesis by (simp add: drain_all_def assms)
qed

lemma drain_all_more: "p st s = (Inr None, st', s') \<Longrightarrow> drain_all p st s = ([], None, st', s')"
  by (simp add: drain_all_def)

lemma drain_all_fail: "p st s = (Inl e, st', s') \<Longrightarrow> drain_all p st s = ([], Some e, st', s')"
  by (simp add: drain_all_def)

lemma drain_all_cong:
  assumes "p st s = p st' s'"
  shows "drain_all p st s = drain_all p st' s'"
proof -
  obtain r st1 s1 where r: "p st s = (r, st1, s1)" by (metis prod_cases3)
  with assms have r': "p st' s' = (r, st1, s1)" by simp
  show ?thesis
  proof (cases r)
    case (Inl e)
    then show ?thesis using r r' by (simp add: drain_all_fail)
  next
    case (Inr x)
    then show ?thesis using r r' by (cases x) (simp_all add: drain_all_more drain_all_item)
  qed
qed

text \<open>Bytes that arrive later continue the decoding where it stopped.\<close>

lemma drain_all_append:
  "drain_all p st (s @ t) =
     (case drain_all p st s of
        (as, Some e, st', s') \<Rightarrow> (as, Some e, st', s' @ t)
      | (as, None, st', s') \<Rightarrow> (case drain_all p st' (s' @ t) of (bs, r) \<Rightarrow> (as @ bs, r)))"
proof (induction "length s" arbitrary: st s rule: less_induct)
  case less
  obtain r st1 s1 where r: "p st s = (r, st1, s1)" by (metis prod_cases3)
  show ?case
  proof (cases r)
    case (Inl e)
    then show ?thesis using r fail [of st s e st1 s1 t] by (simp add: drain_all_fail)
  next
    case (Inr x)
    show ?thesis
    proof (cases x)
      case None
      then have "drain_all p st1 (s1 @ t) = drain_all p st (s @ t)"
        using Inr r more by (intro drain_all_cong) auto
      then show ?thesis using r Inr None by (simp add: drain_all_more split: prod.splits)
    next
      case (Some a)
      then have p1: "p st s = (Inr (Some a), st1, s1)" using r Inr by simp
      have p2: "p st (s @ t) = (Inr (Some a), st1, s1 @ t)" using p1 by (rule item)
      have IH: "drain_all p st1 (s1 @ t) =
          (case drain_all p st1 s1 of
             (as, Some e, st', s') \<Rightarrow> (as, Some e, st', s' @ t)
           | (as, None, st', s') \<Rightarrow>
               (case drain_all p st' (s' @ t) of (bs, r) \<Rightarrow> (as @ bs, r)))"
        by (rule less) (rule progress [OF p1])
      show ?thesis
        unfolding drain_all_item [OF p1] drain_all_item [OF p2] IH
        by (auto split: prod.splits option.splits)
    qed
  qed
qed

lemma drain_all_stuck:
  "drain_all p st s = (as, None, st', s') \<Longrightarrow> p st' s' = (Inr None, st', s')"
proof (induction "length s" arbitrary: st s as rule: less_induct)
  case less
  obtain r st1 s1 where r: "p st s = (r, st1, s1)" by (metis prod_cases3)
  show ?case
  proof (cases r)
    case (Inl e)
    then show ?thesis using r less.prems by (simp add: drain_all_fail)
  next
    case (Inr x)
    show ?thesis
    proof (cases x)
      case None
      then show ?thesis
        using r Inr less.prems more [of st s st1 s1 "[]"] by (simp add: drain_all_more)
    next
      case (Some a)
      then have p1: "p st s = (Inr (Some a), st1, s1)" using r Inr by simp
      from less.prems obtain bs where "drain_all p st1 s1 = (bs, None, st', s')"
        by (auto simp: drain_all_item [OF p1] split: prod.splits)
      then show ?thesis by (rule less.hyps [OF progress [OF p1]])
    qed
  qed
qed

text \<open>
  Segmentation independence: however a stream is cut into reads, the same items come out, in
  the same order, with the same final state and error.
\<close>

lemma feed_concat:
  assumes "p st buf = (Inr None, st, buf)"
  shows "feed p st buf cs = drain_all p st (buf @ concat cs)"
  using assms
proof (induction cs arbitrary: st buf)
  case Nil
  then show ?case by (simp add: drain_all_more)
next
  case (Cons c cs)
  obtain as e st' s' where d: "drain_all p st (buf @ c) = (as, e, st', s')"
    by (metis prod_cases4)
  show ?case
  proof (cases e)
    case (Some err)
    then show ?thesis using drain_all_append [of st "buf @ c" "concat cs"] d by simp
  next
    case None
    then have "feed p st' s' cs = drain_all p st' (s' @ concat cs)"
      using d by (intro Cons.IH) (auto dest: drain_all_stuck)
    then show ?thesis using None drain_all_append [of st "buf @ c" "concat cs"] d by simp
  qed
qed

end

end
