(* ===== verification/Ws_Frame.thy ===== *)
theory Ws_Frame
  imports Ws_Mask Ws_Proto Incremental
begin

text \<open>
  The WebSocket frame parser and writer, \<^verbatim>\<open>ntex/src/ws/frame.rs\<close>.

  \<open>parse_metadata\<close> and \<open>write_frame\<close> follow the code branch by branch. The byte order of
  the target and the address of the payload, on which \<^verbatim>\<open>apply_mask\<close> depends, are parameters,
  and so is the masking key, which the code draws from \<^verbatim>\<open>fastrand\<close>. Payload lengths are at
  most \<^verbatim>\<open>isize::MAX\<close>, so they fit in the 63 bits the wire format has for them.
\<close>

section \<open>The code\<close>

text \<open>The payload length: its value and the position after it.\<close>

definition parse_length :: "bytes \<Rightarrow> u8 \<Rightarrow> nat \<Rightarrow> (ProtocolError, (nat \<times> nat) option) result" where
  "parse_length src len max_size =
     (if len = 126 then
        if length src < 4 then Inr None
        else let len = unat (u16_from_be_bytes (take 2 (drop 2 src)))
             in if len < 126 then Inl InvalidLengthEncoding
                else Inr (Some (len, 4))
      else if len = 127 then
        if length src < 10 then Inr None
        else if src ! 2 AND 0x80 \<noteq> 0 then Inl InvalidLengthEncoding
        else let len = unat (u64_from_be_bytes (take 8 (drop 2 src)))
             in if len < 65536 then Inl InvalidLengthEncoding
                else if len > max_size then Inl Overflow
                else Inr (Some (len, 10))
      else Inr (Some (unat len, 2)))"

definition parse_metadata ::
    "endian \<Rightarrow> bytes \<Rightarrow> bool \<Rightarrow> nat \<Rightarrow> bool
     \<Rightarrow> (ProtocolError, (nat \<times> bool \<times> bool \<times> OpCode \<times> nat \<times> u32 option) option) result" where
  "parse_metadata e src server max_size allow_rsv1 =
     (let chunk_len = length src in
      if chunk_len < 2 then Inr None else
      let first = src ! 0;
          second = src ! 1;
          finished = (first AND 0x80 \<noteq> 0);
          rsv1 = (allow_rsv1 \<and> first AND 0x40 \<noteq> 0);
          reserved = first AND (if allow_rsv1 then 0x30 else 0x70)
      in if reserved \<noteq> 0 then Inl (ReservedBits (drop_bit 4 reserved)) else
      let masked = (second AND 0x80 \<noteq> 0)
      in if \<not> masked \<and> server then Inl UnmaskedFrame
         else if masked \<and> \<not> server then Inl MaskedFrame else
      let raw_opcode = first AND 0x0F
      in case OpCode_try_from raw_opcode of None \<Rightarrow> Inl (InvalidOpcode raw_opcode)
         | Some opcode \<Rightarrow>
      if is_control opcode \<and> \<not> finished then Inl (FragmentedControlFrame opcode) else
      case parse_length src (second AND 0x7F) max_size of
        Inl err \<Rightarrow> Inl err
      | Inr None \<Rightarrow> Inr None
      | Inr (Some (len, idx)) \<Rightarrow>
      if is_control opcode \<and> len > 125 then Inl (InvalidLength len) else
      if len > max_size then Inl Overflow else
      if server then
        if chunk_len < idx + 4 then Inr None
        else Inr (Some (idx + 4, finished, rsv1, opcode, len,
               Some (u32_from_ne_bytes e (take 4 (drop idx src)))))
      else Inr (Some (idx, finished, rsv1, opcode, len, None)))"

text \<open>The frame and the rest of the buffer; an incomplete frame consumes nothing.\<close>

definition parse_frame ::
    "endian \<Rightarrow> nat \<Rightarrow> bytes \<Rightarrow> bool \<Rightarrow> nat \<Rightarrow> bool
     \<Rightarrow> (ProtocolError, (bool \<times> bool \<times> OpCode \<times> bytes option) option) result \<times> bytes" where
  "parse_frame e addr src server max_size allow_rsv1 =
     (case parse_metadata e src server max_size allow_rsv1 of
        Inl err \<Rightarrow> (Inl err, src)
      | Inr None \<Rightarrow> (Inr None, src)
      | Inr (Some (idx, finished, rsv1, opcode, len, msk)) \<Rightarrow>
          if length src < idx + len then (Inr None, src)
          else
            let src = drop idx src in
            if len = 0 then (Inr (Some (finished, rsv1, opcode, None)), src)
            else
              let src = (case msk of
                     Some m \<Rightarrow> apply_mask e addr (take len src) m @ drop len src
                   | None \<Rightarrow> src)
              in (Inr (Some (finished, rsv1, opcode, Some (take len src))), drop len src))"

definition parse ::
    "endian \<Rightarrow> nat \<Rightarrow> bytes \<Rightarrow> bool \<Rightarrow> nat
     \<Rightarrow> (ProtocolError, (bool \<times> OpCode \<times> bytes option) option) result \<times> bytes" where
  "parse e addr src server max_size =
     (case parse_frame e addr src server max_size False of
        (Inl err, src) \<Rightarrow> (Inl err, src)
      | (Inr r, src) \<Rightarrow>
          (Inr (map_option (\<lambda>(finished, _, opcode, payload). (finished, opcode, payload)) r), src))"

definition parse_close_payload :: "bytes \<Rightarrow> (ProtocolError, CloseReason option) result" where
  "parse_close_payload payload =
     (if payload = [] then Inr None
      else if length payload = 1 then Inl InvalidClosePayload
      else
        let raw_code = u16_from_be_bytes (take 2 payload);
            c = CloseCode_from raw_code
        in if \<not> CloseCode_is_valid c then Inl (InvalidCloseCode raw_code)
           else if length payload > 2 then
             if utf8_valid (drop 2 payload)
             then Inr (Some \<lparr>code = c, description = Some (drop 2 payload)\<rparr>)
             else Inl InvalidUtf8
           else Inr (Some \<lparr>code = c, description = None\<rparr>))"

text \<open>\<open>key\<close> is the masking key drawn by \<^verbatim>\<open>fastrand::u32(..)\<close>.\<close>

definition write_frame ::
    "endian \<Rightarrow> nat \<Rightarrow> u32 \<Rightarrow> bytes \<Rightarrow> bytes \<Rightarrow> OpCode \<Rightarrow> bool \<Rightarrow> bool \<Rightarrow> bool
     \<Rightarrow> (ProtocolError, bytes) result" where
  "write_frame e addr key dst payload op fin rsv1 msk =
     (if is_control op \<and> \<not> fin then Inl (FragmentedControlFrame op)
      else if is_control op \<and> length payload > 125 then Inl (InvalidLength (length payload))
      else
        let one = u8_from_OpCode op;
            one = (if fin then one OR 0x80 else one);
            one = (if rsv1 then one OR 0x40 else one);
            payload_len = length payload;
            two = (if msk then 0x80 else 0);
            dst = (if payload_len < 126 then dst @ [one, two OR of_nat payload_len]
                   else if payload_len \<le> 65535
                   then dst @ [one, two OR 0x7e] @ u16_to_be_bytes (of_nat payload_len)
                   else dst @ [one, two OR 127] @ u64_to_be_bytes (of_nat payload_len))
        in Inr (if msk then dst @ u32_to_ne_bytes e key @ apply_mask e addr payload key
                else dst @ payload))"

definition write_message ::
    "endian \<Rightarrow> nat \<Rightarrow> u32 \<Rightarrow> bytes \<Rightarrow> bytes \<Rightarrow> OpCode \<Rightarrow> bool \<Rightarrow> bool
     \<Rightarrow> (ProtocolError, bytes) result" where
  "write_message e addr key dst pl op fin msk = write_frame e addr key dst pl op fin False msk"

definition write_close ::
    "endian \<Rightarrow> nat \<Rightarrow> u32 \<Rightarrow> bytes \<Rightarrow> CloseReason option \<Rightarrow> bool
     \<Rightarrow> (ProtocolError, bytes) result" where
  "write_close e addr key dst reason msk =
     (case reason of
        None \<Rightarrow> write_message e addr key dst [] Close True msk
      | Some reason \<Rightarrow>
          if \<not> CloseCode_is_valid (code reason) \<or> (\<not> msk \<and> code reason = Extension)
          then Inl (InvalidCloseCode (u16_from_CloseCode (code reason)))
          else
            let payload = u16_to_be_bytes (u16_from_CloseCode (code reason));
                payload = (case description reason of
                     Some d \<Rightarrow> payload @ d | None \<Rightarrow> payload)
            in write_message e addr key dst payload Close True msk)"

section \<open>Header bytes\<close>

text \<open>The two leading bytes as the writer composes them, and what the parser reads off them.\<close>

definition first_byte :: "OpCode \<Rightarrow> bool \<Rightarrow> bool \<Rightarrow> u8" where
  "first_byte op fin rsv1 =
     (let one = u8_from_OpCode op;
          one = (if fin then one OR 0x80 else one)
      in if rsv1 then one OR 0x40 else one)"

definition second_byte :: "bool \<Rightarrow> u8 \<Rightarrow> u8" where
  "second_byte msk c = (if msk then 0x80 else 0) OR c"

lemma first_byte_fin: "first_byte op fin rsv1 AND 0x80 \<noteq> 0 \<longleftrightarrow> fin"
  by (cases op; cases fin; cases rsv1; simp add: first_byte_def)

lemma first_byte_rsv1: "first_byte op fin rsv1 AND 0x40 \<noteq> 0 \<longleftrightarrow> rsv1"
  by (cases op; cases fin; cases rsv1; simp add: first_byte_def)

lemma first_byte_rsv23: "first_byte op fin rsv1 AND 0x30 = 0"
  by (cases op; cases fin; cases rsv1; simp add: first_byte_def)

lemma first_byte_rsv: "first_byte op fin False AND 0x70 = 0"
  by (cases op; cases fin; simp add: first_byte_def)

lemma first_byte_op: "first_byte op fin rsv1 AND 0x0F = u8_from_OpCode op"
  by (cases op; cases fin; cases rsv1; simp add: first_byte_def)

lemmas first_byte_bits =
  first_byte_fin first_byte_rsv1 first_byte_rsv23 first_byte_rsv first_byte_op

text \<open>Conversely, a byte that passes the parser's checks is one the writer composes.\<close>

lemma first_byte_canonical:
  assumes "b AND 0x30 = 0" "OpCode_try_from (b AND 0x0F) = Some op"
  shows "b = first_byte op (b AND 0x80 \<noteq> 0) (b AND 0x40 \<noteq> 0)"
proof -
  have "b AND 0x0F = u8_from_OpCode op" using assms(2) by (rule OpCode_try_from_Some)
  then have "b = u8_from_OpCode op OR (b AND 0x40) OR (b AND 0x80)"
    using u8_split_fields [of b] assms(1) by simp
  moreover have "b AND 0x40 = 0 \<or> b AND 0x40 = 0x40" "b AND 0x80 = 0 \<or> b AND 0x80 = 0x80"
    by (simp_all add: and_0x40 and_0x80)
  ultimately show ?thesis
    by (cases op) (auto simp: first_byte_def or.commute or.left_commute)
qed

lemma rsv_bits: "b AND 0x70 = 0 \<Longrightarrow> b AND 0x30 = 0 \<and> b AND 0x40 = 0" for b :: u8
proof -
  assume *: "b AND 0x70 = 0"
  have "(b AND 0x70) AND 0x30 = b AND 0x30" "(b AND 0x70) AND 0x40 = b AND 0x40"
    by (simp only: and.assoc, simp)+
  then show ?thesis using * by simp
qed

lemma second_byte_split: "b = second_byte (b AND 0x80 \<noteq> 0) (b AND 0x7F)"
  using u8_split_top [of b] by (simp add: second_byte_def and_0x80 split: if_splits)

lemma second_byte_mask: "c < 128 \<Longrightarrow> second_byte msk c AND 0x80 \<noteq> 0 \<longleftrightarrow> msk"
  using bit7_iff [of c] by (auto simp: second_byte_def and_0x80 bit_or_iff)

lemma second_byte_len: "c < 128 \<Longrightarrow> second_byte msk c AND 0x7F = c"
  by (simp add: second_byte_def bit.conj_disj_distrib2 low7_self)

section \<open>Round trip\<close>

text \<open>The bytes after the first two that carry a long payload length, and the length field.\<close>

definition len_field :: "nat \<Rightarrow> u8" where
  "len_field n = (if n < 126 then of_nat n else if n \<le> 65535 then 126 else 127)"

definition len_ext :: "nat \<Rightarrow> bytes" where
  "len_ext n = (if n < 126 then [] else if n \<le> 65535 then u16_to_be_bytes (of_nat n)
     else u64_to_be_bytes (of_nat n))"

definition frame_image :: "endian \<Rightarrow> u32 \<Rightarrow> bytes \<Rightarrow> OpCode \<Rightarrow> bool \<Rightarrow> bool \<Rightarrow> bool \<Rightarrow> bytes" where
  "frame_image e key payload op fin rsv1 msk =
     [first_byte op fin rsv1, second_byte msk (len_field (length payload))]
     @ len_ext (length payload)
     @ (if msk then u32_to_ne_bytes e key @ mask_from 0 (u32_to_ne_bytes e key) payload
        else payload)"

lemma write_frame_image:
  "write_frame e addr key dst payload op fin rsv1 msk =
     (if is_control op \<and> \<not> fin then Inl (FragmentedControlFrame op)
      else if is_control op \<and> length payload > 125 then Inl (InvalidLength (length payload))
      else Inr (dst @ frame_image e key payload op fin rsv1 msk))"
  by (simp add: write_frame_def frame_image_def first_byte_def second_byte_def len_field_def
      len_ext_def apply_mask_correct Let_def)

lemma len_field_less: "len_field n < 128"
proof -
  have "n < 126 \<Longrightarrow> unat (of_nat n :: u8) < 128" by (simp add: unat_of_nat_u8)
  then show ?thesis by (simp add: len_field_def word_less_nat_alt)
qed

lemma len_field_126: "len_field n = 126 \<longleftrightarrow> 126 \<le> n \<and> n \<le> 65535"
proof -
  have "(of_nat n :: u8) \<noteq> 126" if "n < 126"
    using that unat_of_nat_u8 [of n] by auto
  then show ?thesis by (auto simp: len_field_def)
qed

lemma len_field_127: "len_field n = 127 \<longleftrightarrow> 65535 < n"
proof -
  have "(of_nat n :: u8) \<noteq> 127" if "n < 126"
    using that unat_of_nat_u8 [of n] by auto
  then show ?thesis by (auto simp: len_field_def)
qed

lemma length_len_ext: "length (len_ext n) = (if n < 126 then 0 else if n \<le> 65535 then 2 else 8)"
  by (simp add: len_ext_def)

lemma len_ext_top:
  assumes "65535 < n" "n < 2 ^ 63"
  shows "len_ext n ! 0 AND 0x80 = 0"
proof -
  have "n div 256 ^ 7 < 128" using assms by (simp add: less_mult_imp_div_less)
  then have "(of_nat (n div 256 ^ 7) :: u8) < 128"
    by (simp add: word_less_nat_alt unat_of_nat_u8)
  then show ?thesis
    using assms be_bytes_Suc [of 7 n]
    by (simp add: len_ext_def u64_to_be_bytes_def unat_of_nat_u64 top_bit_clear)
qed

text \<open>The parser on the image of a header, whatever follows it.\<close>

lemma parse_length_image:
  assumes "n \<le> max_size" "n < 2 ^ 63"
  shows "parse_length (a # b # len_ext n @ rest) (len_field n) max_size
    = Inr (Some (n, 2 + length (len_ext n)))"
proof -
  consider "n < 126" | "126 \<le> n" "n \<le> 65535" | "65535 < n" by linarith
  then show ?thesis
  proof cases
    case 1
    then have "len_field n \<noteq> 126" "len_field n \<noteq> 127"
      by (simp_all add: len_field_126 len_field_127)
    then show ?thesis
      using 1 by (simp add: parse_length_def length_len_ext len_field_def unat_of_nat_u8)
  next
    case 2
    then have "len_field n = 126" by (simp add: len_field_126)
    then show ?thesis
      using 2 by (simp add: parse_length_def Let_def len_ext_def unat_of_nat_u16)
  next
    case 3
    then have "len_field n = 127" by (simp add: len_field_127)
    moreover have "(len_ext n @ rest) ! 0 AND 0x80 = 0"
      using len_ext_top [of n] 3 assms by (simp add: nth_append length_len_ext)
    ultimately show ?thesis
      using 3 assms by (simp add: parse_length_def Let_def len_ext_def unat_of_nat_u64)
  qed
qed

lemma parse_metadata_image:
  assumes "is_control op \<longrightarrow> fin \<and> n \<le> 125"
    and "n \<le> max_size" and "n < 2 ^ 63" and "rsv1 \<longrightarrow> allow"
    and "msk \<longrightarrow> length key = 4"
  shows "parse_metadata e
      ([first_byte op fin rsv1, second_byte msk (len_field n)] @ len_ext n
        @ (if msk then key else []) @ rest) msk max_size allow
    = Inr (Some (2 + length (len_ext n) + (if msk then 4 else 0), fin, rsv1, op, n,
        if msk then Some (u32_from_ne_bytes e key) else None))"
proof -
  note second = second_byte_mask [OF len_field_less] second_byte_len [OF len_field_less]
  have "first_byte op fin rsv1 AND (if allow then 0x30 else 0x70) = 0"
    using assms(4) first_byte_rsv by (cases rsv1) (auto simp: first_byte_rsv23)
  moreover have "(allow \<and> first_byte op fin rsv1 AND 0x40 \<noteq> 0) = rsv1"
    using assms(4) by (auto simp: first_byte_rsv1)
  ultimately show ?thesis
    using assms parse_length_image [OF assms(2,3)]
    by (auto simp: parse_metadata_def Let_def first_byte_fin first_byte_op second)
qed

lemma parse_frame_image:
  assumes "is_control op \<longrightarrow> fin \<and> length payload \<le> 125"
    and "length payload \<le> max_size" "length payload < 2 ^ 63" "rsv1 \<longrightarrow> allow"
  shows "parse_frame e addr (frame_image e key payload op fin rsv1 msk @ rest) msk max_size allow
    = (Inr (Some (fin, rsv1, op, if payload = [] then None else Some payload)), rest)"
proof -
  let ?key = "u32_to_ne_bytes e key"
  define body where "body = (if msk then mask_from 0 ?key payload else payload)"
  define src where "src = frame_image e key payload op fin rsv1 msk @ rest"
  define idx where "idx = 2 + length (len_ext (length payload)) + (if msk then 4 else 0)"
  have img: "src = [first_byte op fin rsv1, second_byte msk (len_field (length payload))]
      @ len_ext (length payload) @ (if msk then ?key else []) @ (body @ rest)"
    by (simp add: src_def body_def frame_image_def)
  have meta: "parse_metadata e src msk max_size allow
      = Inr (Some (idx, fin, rsv1, op, length payload, if msk then Some key else None))"
    unfolding img idx_def
    using parse_metadata_image [OF assms, of msk ?key e "body @ rest"] by simp
  have "drop idx src = body @ rest" "length src \<ge> idx + length payload"
    unfolding img idx_def by (simp_all add: body_def)
  then show ?thesis unfolding src_def [symmetric]
    by (simp add: parse_frame_def meta Let_def body_def apply_mask_correct mask_from_involution)
qed

text \<open>What the parser guarantees of the header it accepts.\<close>

lemma parse_length_bounds:
  assumes "parse_length src c max_size = Inr (Some (len, idx))" "c < 128" "2 \<le> length src"
  shows "idx \<le> 10" "idx \<le> length src" "len < 2 ^ 63"
    "c = len_field len" "take (idx - 2) (drop 2 src) = len_ext len" "2 \<le> idx"
proof -
  have "idx \<le> 10 \<and> idx \<le> length src \<and> len < 2 ^ 63 \<and> c = len_field len
      \<and> take (idx - 2) (drop 2 src) = len_ext len \<and> 2 \<le> idx"
  proof -
    consider "c = 126" | "c = 127" | "c \<noteq> 126" "c \<noteq> 127" by blast
    then show ?thesis
    proof cases
      case 1
      let ?l = "take 2 (drop 2 src)"
      have "len = unat (u16_from_be_bytes ?l)" "126 \<le> len" "idx = 4" "4 \<le> length src"
        using assms 1 by (auto simp: parse_length_def Let_def split: if_splits)
      then show ?thesis
        using unat_u16_less [of "u16_from_be_bytes ?l"] u16_be_roundtrip_bytes [of ?l] 1
        by (simp add: len_field_def len_ext_def)
    next
      case 2
      let ?l = "take 8 (drop 2 src)"
      have l: "len = unat (u64_from_be_bytes ?l)" "65536 \<le> len" "idx = 10" "10 \<le> length src"
        "src ! 2 AND 0x80 = 0"
        using assms 2 by (auto simp: parse_length_def Let_def split: if_splits)
      have img: "len_ext len = ?l"
        using l u64_be_roundtrip_bytes [of ?l] by (simp add: len_ext_def)
      have "len < 2 ^ 63"
      proof -
        have "len < 2 ^ 64" using unat_u64_less l(1) by simp
        then have "be_bytes 8 len = ?l"
          using img l(2) by (simp add: len_ext_def u64_to_be_bytes_def unat_of_nat_u64)
        have "(of_nat (len div 256 ^ 7) :: u8) = be_bytes 8 len ! 0"
          using be_bytes_Suc [of 7 len] by simp
        also have "\<dots> = src ! 2" unfolding \<open>be_bytes 8 len = ?l\<close> using l(4) by simp
        finally have "(of_nat (len div 256 ^ 7) :: u8) < 128"
          using l(5) by (simp add: top_bit_clear)
        moreover have "len div 256 ^ 7 < 256"
          using \<open>len < 2 ^ 64\<close> by (simp add: less_mult_imp_div_less)
        ultimately have "len div 256 ^ 7 < 128"
          by (simp add: word_less_nat_alt unat_of_nat_u8)
        then show ?thesis by (simp add: div_less_iff_less_mult)
      qed
      then show ?thesis using l img 2 by (simp add: len_field_def)
    next
      case 3
      then have l: "len = unat c" "idx = 2" using assms by (auto simp: parse_length_def)
      then have "len < 126" using assms(2) 3
        by unat_arith
      then show ?thesis using l assms by (simp add: len_field_def len_ext_def)
    qed
  qed
  then show "idx \<le> 10" "idx \<le> length src" "len < 2 ^ 63"
    "c = len_field len" "take (idx - 2) (drop 2 src) = len_ext len" "2 \<le> idx" by auto
qed

text \<open>The checks on the first two bytes, and what follows them.\<close>

definition meta_head :: "u8 \<Rightarrow> u8 \<Rightarrow> bool \<Rightarrow> bool \<Rightarrow> (ProtocolError, OpCode) result" where
  "meta_head a b server allow =
     (let reserved = a AND (if allow then 0x30 else 0x70) in
      if reserved \<noteq> 0 then Inl (ReservedBits (drop_bit 4 reserved))
      else if \<not> b AND 0x80 \<noteq> 0 \<and> server then Inl UnmaskedFrame
      else if b AND 0x80 \<noteq> 0 \<and> \<not> server then Inl MaskedFrame
      else case OpCode_try_from (a AND 0x0F) of
        None \<Rightarrow> Inl (InvalidOpcode (a AND 0x0F))
      | Some op \<Rightarrow> if is_control op \<and> \<not> a AND 0x80 \<noteq> 0 then Inl (FragmentedControlFrame op) else Inr op)"

definition meta_tail where
  "meta_tail e src server max_size a allow op =
     (\<lambda>(len, idx).
        if is_control op \<and> len > 125 then Inl (InvalidLength len)
        else if len > max_size then Inl Overflow
        else if server then
          if length src < idx + 4 then Inr None
          else Inr (Some (idx + 4, a AND (0x80 :: u8) \<noteq> 0, allow \<and> a AND 0x40 \<noteq> 0, op, len,
               Some (u32_from_ne_bytes e (take 4 (drop idx src)))))
        else Inr (Some (idx, a AND 0x80 \<noteq> 0, allow \<and> a AND 0x40 \<noteq> 0, op, len, None)))"

lemma parse_metadata_split:
  "parse_metadata e (a # b # s) server max_size allow =
     (case meta_head a b server allow of
        Inl err \<Rightarrow> Inl err
      | Inr op \<Rightarrow>
          (case parse_length (a # b # s) (b AND 0x7F) max_size of
             Inl err \<Rightarrow> Inl err
           | Inr None \<Rightarrow> Inr None
           | Inr (Some li) \<Rightarrow> meta_tail e (a # b # s) server max_size a allow op li))"
  by (cases "OpCode_try_from (a AND 0x0F)";
      cases "parse_length (a # b # s) (b AND 0x7F) max_size" rule: result_option_cases)
     (auto simp: parse_metadata_def meta_head_def meta_tail_def Let_def)

lemma parse_metadata_SomeD:
  assumes "parse_metadata e src server max_size allow
      = Inr (Some (idx, fin, rsv1, op, len, m))"
  obtains idx0 where "2 \<le> length src"
    "parse_length src (src ! 1 AND 0x7F) max_size = Inr (Some (len, idx0))"
    "idx = (if server then idx0 + 4 else idx0)" "server \<longrightarrow> idx \<le> length src"
    "m = (if server then Some (u32_from_ne_bytes e (take 4 (drop idx0 src))) else None)"
    "src ! 0 AND (if allow then 0x30 else 0x70) = 0"
    "rsv1 = (allow \<and> src ! 0 AND 0x40 \<noteq> 0)" "fin = (src ! 0 AND 0x80 \<noteq> 0)"
    "OpCode_try_from (src ! 0 AND 0x0F) = Some op" "server = (src ! 1 AND 0x80 \<noteq> 0)"
    "is_control op \<longrightarrow> fin \<and> len \<le> 125" "len \<le> max_size"
proof -
  have "2 \<le> length src"
    by (rule ccontr) (use assms in \<open>simp add: parse_metadata_def\<close>)
  then obtain a b s where src: "src = a # b # s" by (cases src; cases "tl src") auto
  from assms obtain op' idx0 len' where h: "meta_head a b server allow = Inr op'"
    and l: "parse_length src (b AND 0x7F) max_size = Inr (Some (len', idx0))"
    and t: "meta_tail e src server max_size a allow op' (len', idx0)
        = Inr (Some (idx, fin, rsv1, op, len, m))"
    by (auto simp: src parse_metadata_split split: sum.splits option.splits)
  from h have h': "a AND (if allow then 0x30 else 0x70) = 0" "server = (b AND 0x80 \<noteq> 0)"
    "OpCode_try_from (a AND 0x0F) = Some op'" "is_control op' \<longrightarrow> a AND 0x80 \<noteq> 0"
    by (auto simp: meta_head_def Let_def split: if_splits option.splits)
  from t have t': "idx = (if server then idx0 + 4 else idx0)" "server \<longrightarrow> idx \<le> length src"
    "m = (if server then Some (u32_from_ne_bytes e (take 4 (drop idx0 src))) else None)"
    "rsv1 = (allow \<and> a AND 0x40 \<noteq> 0)" "fin = (a AND 0x80 \<noteq> 0)" "op' = op" "len' = len"
    "len \<le> max_size" "is_control op \<longrightarrow> len \<le> 125"
    by (auto simp: meta_tail_def split: if_splits)
  show ?thesis by (rule that [of idx0]) (use h' t' l in \<open>auto simp: src\<close>)
qed

lemma parse_metadata_bounds:
  assumes "parse_metadata e src server max_size allow
      = Inr (Some (idx, fin, rsv1, op, len, m))"
  shows "2 \<le> idx" "idx \<le> 14" "idx \<le> length src" "len \<le> max_size" "len < 2 ^ 63"
    "is_control op \<longrightarrow> fin \<and> len \<le> 125"
proof -
  from assms obtain idx0 where *: "2 \<le> length src"
    "parse_length src (src ! 1 AND 0x7F) max_size = Inr (Some (len, idx0))"
    "idx = (if server then idx0 + 4 else idx0)" "server \<longrightarrow> idx \<le> length src"
    "is_control op \<longrightarrow> fin \<and> len \<le> 125" "len \<le> max_size"
    by (elim parse_metadata_SomeD)
  then show "2 \<le> idx" "idx \<le> 14" "idx \<le> length src" "len \<le> max_size" "len < 2 ^ 63"
    "is_control op \<longrightarrow> fin \<and> len \<le> 125"
    using parse_length_bounds [OF *(2) low7_less *(1)] by auto
qed

text \<open>The header the parser accepts is the header the writer produces.\<close>

lemma parse_metadata_canonical:
  assumes "parse_metadata e src server max_size allow
      = Inr (Some (idx, fin, rsv1, op, len, m))"
  shows "\<exists>key. length key = 4 \<and> (server \<longrightarrow> m = Some (u32_from_ne_bytes e key)) \<and>
    (\<not> server \<longrightarrow> m = None) \<and>
    take idx src = [first_byte op fin rsv1, second_byte server (len_field len)]
      @ len_ext len @ (if server then key else [])"
proof -
  from assms obtain idx0 where *: "2 \<le> length src"
    "parse_length src (src ! 1 AND 0x7F) max_size = Inr (Some (len, idx0))"
    "idx = (if server then idx0 + 4 else idx0)" "server \<longrightarrow> idx \<le> length src"
    "m = (if server then Some (u32_from_ne_bytes e (take 4 (drop idx0 src))) else None)"
    "src ! 0 AND (if allow then 0x30 else 0x70) = 0"
    "rsv1 = (allow \<and> src ! 0 AND 0x40 \<noteq> 0)" "fin = (src ! 0 AND 0x80 \<noteq> 0)"
    "OpCode_try_from (src ! 0 AND 0x0F) = Some op" "server = (src ! 1 AND 0x80 \<noteq> 0)"
    by (elim parse_metadata_SomeD)
  note len = parse_length_bounds [OF *(2) low7_less *(1)]
  have "src ! 0 AND 0x30 = 0" "rsv1 = (src ! 0 AND 0x40 \<noteq> 0)"
    using *(6,7) rsv_bits [of "src ! 0"] by (auto split: if_splits)
  then have b0: "src ! 0 = first_byte op fin rsv1"
    using first_byte_canonical *(8,9) by simp
  have b1: "src ! 1 = second_byte server (len_field len)"
    using second_byte_split [of "src ! 1"] *(10) len(4) by simp
  have src: "src = [src ! 0, src ! 1] @ drop 2 src"
    using *(1) by (cases src; cases "tl src") auto
  have "take idx0 src = [src ! 0, src ! 1] @ take (idx0 - 2) (drop 2 src)"
    using len(6) by (subst src, subst take_append) (simp add: numeral_2_eq_2)
  then have t0: "take idx0 src = [first_byte op fin rsv1, second_byte server (len_field len)]
      @ len_ext len" unfolding b0 b1 len(5) .
  show ?thesis
  proof (cases server)
    case True
    then have "take idx src = take idx0 src @ take 4 (drop idx0 src)"
      using *(3) by (simp add: take_add)
    then show ?thesis using True * t0
      by (intro exI [of _ "take 4 (drop idx0 src)"]) simp
  next
    case False
    then show ?thesis using * t0 by (intro exI [of _ "replicate 4 0"]) simp
  qed
qed

lemma parse_frame_SomeD:
  assumes "parse_frame e addr src server max_size allow
      = (Inr (Some (fin, rsv1, op, pl)), rest)"
  obtains idx len m where
    "parse_metadata e src server max_size allow = Inr (Some (idx, fin, rsv1, op, len, m))"
    "idx + len \<le> length src" "rest = drop len (drop idx src)"
    "(case pl of None \<Rightarrow> [] | Some p \<Rightarrow> p) =
       (case m of Some m \<Rightarrow> mask_from 0 (u32_to_ne_bytes e m) (take len (drop idx src))
        | None \<Rightarrow> take len (drop idx src))"
proof (cases "parse_metadata e src server max_size allow" rule: result_option_cases)
  case (3 x)
  then obtain idx f r o' len m where x:
    "parse_metadata e src server max_size allow = Inr (Some (idx, f, r, o', len, m))"
    by (cases x) auto
  have "idx + len \<le> length src"
    by (rule ccontr) (use assms in \<open>simp add: parse_frame_def x\<close>)
  then show ?thesis using assms that
    by (cases m; cases "len = 0") (auto simp: parse_frame_def x Let_def apply_mask_correct)
qed (use assms in \<open>auto simp: parse_frame_def\<close>)

lemma parse_frame_canonical:
  assumes "parse_frame e addr src server max_size allow
      = (Inr (Some (fin, rsv1, op, pl)), rest)"
  shows "\<exists>key. src = frame_image e key (case pl of None \<Rightarrow> [] | Some p \<Rightarrow> p) op fin rsv1 server @ rest
    \<and> (is_control op \<longrightarrow> fin \<and> length (case pl of None \<Rightarrow> [] | Some p \<Rightarrow> p) \<le> 125)
    \<and> length (case pl of None \<Rightarrow> [] | Some p \<Rightarrow> p) < 2 ^ 63
    \<and> length (case pl of None \<Rightarrow> [] | Some p \<Rightarrow> p) \<le> max_size"
proof -
  let ?p = "case pl of None \<Rightarrow> [] | Some p \<Rightarrow> p"
  from assms obtain idx len m where
    meta: "parse_metadata e src server max_size allow = Inr (Some (idx, fin, rsv1, op, len, m))"
    and len: "idx + len \<le> length src"
    and rest: "rest = drop len (drop idx src)"
    and pl: "?p = (case m of Some m \<Rightarrow> mask_from 0 (u32_to_ne_bytes e m) (take len (drop idx src))
                   | None \<Rightarrow> take len (drop idx src))"
    by (rule parse_frame_SomeD)
  from parse_metadata_canonical [OF meta] obtain key where key: "length key = 4"
    "server \<longrightarrow> m = Some (u32_from_ne_bytes e key)" "\<not> server \<longrightarrow> m = None"
    "take idx src = [first_byte op fin rsv1, second_byte server (len_field len)]
      @ len_ext len @ (if server then key else [])" by blast
  have plen: "length ?p = len" using pl len by (auto split: option.splits)
  have "src = take idx src @ take len (drop idx src) @ rest"
    unfolding rest by (simp only: append_take_drop_id)
  also have "\<dots> = frame_image e (u32_from_ne_bytes e key) ?p op fin rsv1 server @ rest"
    unfolding key(4)
    using key pl plen
    by (simp add: frame_image_def u32_ne_roundtrip_bytes mask_from_involution)
  finally show ?thesis using parse_metadata_bounds [OF meta] plen by auto
qed

section \<open>Incremental parsing\<close>

lemma parse_length_append:
  assumes "parse_length src c max_size \<noteq> Inr None"
  shows "parse_length (src @ t) c max_size = parse_length src c max_size"
proof -
  consider "c = 126" "4 \<le> length src" | "c = 127" "10 \<le> length src" | "c \<noteq> 126" "c \<noteq> 127"
    using assms by (fastforce simp: parse_length_def)
  then show ?thesis
  proof cases
    case 1
    then show ?thesis by (simp add: parse_length_def)
  next
    case 2
    then have "(src @ t) ! 2 = src ! 2" by (simp add: nth_append)
    then show ?thesis using 2 by (simp add: parse_length_def)
  next
    case 3
    then show ?thesis by (simp add: parse_length_def)
  qed
qed

lemma meta_tail_append:
  "meta_tail e src server max_size a allow op li = r \<Longrightarrow> r \<noteq> Inr None \<Longrightarrow>
     meta_tail e (src @ t) server max_size a allow op li = r"
  by (auto simp: meta_tail_def split: prod.splits if_splits)

lemma parse_metadata_append:
  assumes "parse_metadata e src server max_size allow = r" "r \<noteq> Inr None"
  shows "parse_metadata e (src @ t) server max_size allow = r"
proof (cases "length src < 2")
  case True
  then show ?thesis using assms by (auto simp: parse_metadata_def)
next
  case False
  then obtain a b s where src: "src = a # b # s"
    by (cases src; cases "tl src") auto
  have pl: "parse_length (a # b # s @ t) (b AND 0x7F) max_size
      = parse_length (a # b # s) (b AND 0x7F) max_size"
    if "parse_length (a # b # s) (b AND 0x7F) max_size \<noteq> Inr None"
    using parse_length_append [OF that, of t] by simp
  have tl: "meta_tail e (a # b # s @ t) server max_size a allow op li = r"
    if "meta_tail e (a # b # s) server max_size a allow op li = r" for op li
    using meta_tail_append [OF that assms(2), of t] by simp
  show ?thesis
  proof (cases "meta_head a b server allow")
    case (Inl err)
    then show ?thesis using assms by (simp add: src parse_metadata_split)
  next
    case (Inr op)
    then show ?thesis using assms pl tl
      by (cases "parse_length (a # b # s) (b AND 0x7F) max_size" rule: result_option_cases)
         (simp_all add: src parse_metadata_split)
  qed
qed

lemma parse_frame_more:
  assumes "parse_frame e addr src server max_size allow = (Inr None, rest)"
  shows "rest = src"
  using assms
  by (cases "parse_metadata e src server max_size allow" rule: result_option_cases)
     (auto simp: parse_frame_def Let_def split: prod.splits if_splits)

lemma parse_frame_fail:
  assumes "parse_frame e addr src server max_size allow = (Inl err, rest)"
  shows "parse_frame e addr (src @ t) server max_size allow = (Inl err, rest @ t)"
proof -
  have "parse_metadata e src server max_size allow = Inl err \<and> rest = src"
    using assms
    by (cases "parse_metadata e src server max_size allow" rule: result_option_cases)
       (auto simp: parse_frame_def Let_def split: prod.splits if_splits)
  then show ?thesis using parse_metadata_append [of e src server max_size allow "Inl err"]
    by (simp add: parse_frame_def)
qed

lemma parse_frame_item:
  assumes "parse_frame e addr src server max_size allow = (Inr (Some f), rest)"
  shows "parse_frame e addr (src @ t) server max_size allow = (Inr (Some f), rest @ t)"
proof -
  obtain fin rsv1 op pl where f: "f = (fin, rsv1, op, pl)" by (cases f) auto
  let ?p = "case pl of None \<Rightarrow> [] | Some p \<Rightarrow> p"
  from parse_frame_canonical [OF assms [unfolded f]] obtain key where
    "src = frame_image e key ?p op fin rsv1 server @ rest"
    "is_control op \<longrightarrow> fin \<and> length ?p \<le> 125" "length ?p < 2 ^ 63" "length ?p \<le> max_size"
    by blast
  moreover have "rsv1 \<longrightarrow> allow"
    using assms unfolding f by (elim parse_frame_SomeD parse_metadata_SomeD) simp
  ultimately show ?thesis using assms parse_frame_image [of op fin ?p max_size rsv1 allow e addr key server]
    by (simp add: f)
qed

lemma parse_frame_progress:
  assumes "parse_frame e addr src server max_size allow = (Inr (Some f), rest)"
  shows "length rest < length src"
proof -
  obtain fin rsv1 op pl where f: "f = (fin, rsv1, op, pl)" by (cases f) auto
  from parse_frame_canonical [OF assms [unfolded f]] show ?thesis
    by (auto simp: frame_image_def)
qed

text \<open>The frame parser as an incremental decoder without state of its own.\<close>

definition frame_decoder :: "endian \<Rightarrow> nat \<Rightarrow> bool \<Rightarrow> nat \<Rightarrow> bool \<Rightarrow> unit \<Rightarrow> bytes
    \<Rightarrow> (ProtocolError + (bool \<times> bool \<times> OpCode \<times> bytes option) option) \<times> unit \<times> bytes" where
  "frame_decoder e addr server max_size allow_rsv1 st src =
     (case parse_frame e addr src server max_size allow_rsv1 of (r, rest) \<Rightarrow> (r, (), rest))"

interpretation frames: incremental "frame_decoder e addr server max_size allow_rsv1"
  for e addr server max_size allow_rsv1
proof unfold_locales
  show "frame_decoder e addr server max_size allow_rsv1 st' (s' @ t)
      = frame_decoder e addr server max_size allow_rsv1 st (s @ t)"
    if "frame_decoder e addr server max_size allow_rsv1 st s = (Inr None, st', s')" for st st' s s' t
    using that by (auto simp: frame_decoder_def split: prod.splits dest: parse_frame_more)
next
  show "frame_decoder e addr server max_size allow_rsv1 st (s @ t) = (Inr (Some a), st', s' @ t)"
    if "frame_decoder e addr server max_size allow_rsv1 st s = (Inr (Some a), st', s')"
    for st st' s s' t a
    using that parse_frame_item [of e addr s server max_size allow_rsv1 a s' t]
    by (simp add: frame_decoder_def split: prod.splits)
next
  show "frame_decoder e addr server max_size allow_rsv1 st (s @ t) = (Inl err, st', s' @ t)"
    if "frame_decoder e addr server max_size allow_rsv1 st s = (Inl err, st', s')"
    for st st' s s' t err
    using that parse_frame_fail [of e addr s server max_size allow_rsv1 err s' t]
    by (simp add: frame_decoder_def split: prod.splits)
next
  show "length s' < length s"
    if "frame_decoder e addr server max_size allow_rsv1 st s = (Inr (Some a), st', s')"
    for st st' s s' a
    using that by (auto simp: frame_decoder_def split: prod.splits dest: parse_frame_progress)
qed

section \<open>Properties\<close>

text \<open>C33. Frame round trip: whatever \<^verbatim>\<open>write_frame\<close> appends to the buffer,
  \<^verbatim>\<open>parse_frame\<close> on the other side reads back as the same frame, whichever frames follow it in
  the stream. Masked frames are read by a server, unmasked ones by a client, and an empty payload
  comes back as \<open>None\<close>. The addresses of both buffers are arbitrary.\<close>

theorem frame_roundtrip:
  assumes "write_frame e addr key dst payload op fin rsv1 msk = Inr out"
    and "length payload \<le> max_size" and "length payload < 2 ^ 63" and "rsv1 \<longrightarrow> allow_rsv1"
  shows "take (length dst) out = dst \<and>
    parse_frame e addr' (drop (length dst) out @ rest) msk max_size allow_rsv1
      = (Inr (Some (fin, rsv1, op, if payload = [] then None else Some payload)), rest)"
  using assms parse_frame_image [of op fin payload max_size rsv1 allow_rsv1 e addr' key msk rest]
  by (auto simp: write_frame_image split: if_splits)

theorem frame_roundtrip_witness:
  "parse_frame Big 5 ([0x81, 0x85, 0x37, 0xfa, 0x21, 0x3d, 0x7f, 0x9f, 0x4d, 0x51, 0x58] @ [0x8a])
     True 65536 False
   = (Inr (Some (True, False, Text, Some (ascii ''Hello''))), [0x8a])"
proof -
  have "write_frame Big 3 0x37fa213d [] (ascii ''Hello'') Text True False True
    = Inr [0x81, 0x85, 0x37, 0xfa, 0x21, 0x3d, 0x7f, 0x9f, 0x4d, 0x51, 0x58]"
    by (simp add: write_frame_def apply_mask_correct u32_to_ne_bytes_def u32_to_be_bytes_def
      be_bytes_def le_bytes_numeral ascii_def)
  from frame_roundtrip [OF this, of 65536 False 5 "[0x8a]"] show ?thesis by (simp add: ascii_def)
qed

text \<open>C19. Canonical encoding: the parser accepts nothing the writer would not produce.
  Every frame that \<^verbatim>\<open>parse_frame\<close> takes off the buffer is, byte for byte, what \<^verbatim>\<open>write_frame\<close>
  writes for the parsed fields under some masking key: the shortest length encoding, no reserved
  bit, no fragmented or oversized control frame, masked exactly when the reader is a server.\<close>

theorem frame_canonical:
  assumes "parse_frame e addr src server max_size allow_rsv1
      = (Inr (Some (fin, rsv1, op, payload)), rest)"
  shows "\<exists>key img. src = img @ rest \<and>
    write_frame e addr' key [] (case payload of None \<Rightarrow> [] | Some p \<Rightarrow> p) op fin rsv1 server = Inr img"
  using parse_frame_canonical [OF assms] by (auto simp: write_frame_image)

theorem frame_canonical_witness:
  "\<exists>key img. [0x8a, 0x01, 0x2a, 0x00] = img @ [0x00] \<and>
    write_frame Little 0 key [] [0x2a] Pong True False False = Inr img"
proof -
  have "parse_frame Little 8 [0x8a, 0x01, 0x2a, 0x00] False 10 False
      = (Inr (Some (True, False, Pong, Some [0x2a])), [0x00])"
    by (simp add: parse_frame_def parse_metadata_def parse_length_def OpCode_try_from_def)
  from frame_canonical [OF this, of 0] show ?thesis by simp
qed

text \<open>Bounds of an accepted header: it is at most 14 bytes, all of them received; the
  payload length is within the configured maximum and the end of the frame does not overflow
  \<^verbatim>\<open>usize\<close>; control frames are final and at most 125 bytes; a masking key is present exactly for
  a server.\<close>

lemma frame_header_bounds:
  assumes "parse_metadata e src server max_size allow_rsv1
      = Inr (Some (idx, fin, rsv1, op, len, m))"
  shows "idx \<le> 14 \<and> idx \<le> length src \<and> len \<le> max_size \<and> idx + len < 2 ^ 64
    \<and> (is_control op \<longrightarrow> fin \<and> len \<le> 125) \<and> (m = None) = (\<not> server)"
  using parse_metadata_bounds [OF assms] parse_metadata_canonical [OF assms] by auto

end
