(* ===== verification/Ws_Codec.thy ===== *)
theory Ws_Codec
  imports Ws_Frame
begin

text \<open>
  The WebSocket codec, \<^verbatim>\<open>ntex/src/ws/codec.rs\<close>: the state machine on top of the frame parser
  and writer that tracks fragmented messages, the close handshake and compression.

  The codec's \<^verbatim>\<open>bitflags\<close> are a set of flags. The \<^verbatim>\<open>permessage-deflate\<close> state is an abstract
  value of type \<open>'d\<close> used through the record \<open>deflate_ops\<close> of the three methods the codec
  calls; \<open>deflate = None\<close> is the codec without the extension. Every operation also takes the
  parameters of the frame layer: byte order, buffer address and masking key.
\<close>

section \<open>The code\<close>

datatype Item = FirstText bytes | FirstBinary bytes | Item_Continue bytes | Last bytes

datatype Message =
    Message_Text bytes
  | Message_Binary bytes
  | Message_Continuation Item
  | Message_Ping bytes
  | Message_Pong bytes
  | Message_Close "CloseReason option"

datatype Frame =
    Frame_Text bytes
  | Frame_Binary bytes
  | Frame_Continuation Item
  | Frame_Ping bytes
  | Frame_Pong bytes
  | Frame_Close "CloseReason option"

datatype Flag = SERVER | R_CONTINUATION | W_CONTINUATION | CLOSED | R_CLOSED | R_COMPRESSED

record 'd Codec =
  flags :: "Flag set"
  max_size :: nat
  deflate :: "'d option"

text \<open>\<^verbatim>\<open>Deflate::is_skipped\<close>, \<^verbatim>\<open>Deflate::compress\<close> and \<^verbatim>\<open>Deflate::decompress\<close>.\<close>

record 'd deflate_ops =
  is_skipped :: "'d \<Rightarrow> nat \<Rightarrow> bool \<Rightarrow> bool"
  compress :: "'d \<Rightarrow> bytes \<Rightarrow> bool \<Rightarrow> bool \<Rightarrow> bytes \<times> 'd"
  decompress :: "'d \<Rightarrow> bytes \<Rightarrow> bool \<Rightarrow> bool \<Rightarrow> nat \<Rightarrow> (ProtocolError, bytes) result \<times> 'd"

definition new :: "'d Codec" where
  "new = \<lparr>flags = {SERVER}, max_size = 65536, deflate = None\<rparr>"

definition set_max_size :: "nat \<Rightarrow> 'd Codec \<Rightarrow> 'd Codec" where
  "set_max_size sz c = c\<lparr>max_size := sz\<rparr>"

definition insert_flags :: "Flag \<Rightarrow> 'd Codec \<Rightarrow> 'd Codec" where
  "insert_flags f c = c\<lparr>flags := insert f (flags c)\<rparr>"

definition remove_flags :: "Flag \<Rightarrow> 'd Codec \<Rightarrow> 'd Codec" where
  "remove_flags f c = c\<lparr>flags := flags c - {f}\<rparr>"

definition set_client_mode :: "'d Codec \<Rightarrow> 'd Codec" where
  "set_client_mode c = remove_flags SERVER c"

definition set_deflate :: "'d \<Rightarrow> 'd Codec \<Rightarrow> 'd Codec" where
  "set_deflate d c = c\<lparr>deflate := Some d\<rparr>"

definition is_closed :: "'d Codec \<Rightarrow> bool" where
  "is_closed c \<longleftrightarrow> CLOSED \<in> flags c"

definition is_server :: "'d Codec \<Rightarrow> bool" where
  "is_server c \<longleftrightarrow> SERVER \<in> flags c"

definition is_compressed :: "'d Codec \<Rightarrow> bool" where
  "is_compressed c \<longleftrightarrow> deflate c \<noteq> None"

definition write_data ::
    "'d deflate_ops \<Rightarrow> endian \<Rightarrow> nat \<Rightarrow> u32 \<Rightarrow> 'd Codec \<Rightarrow> bytes \<Rightarrow> bytes \<Rightarrow> OpCode \<Rightarrow> bool \<Rightarrow> bool
     \<Rightarrow> (ProtocolError, bytes) result \<times> 'd Codec" where
  "write_data D e addr key c dst payload op first fin =
     (case deflate c of
        Some d \<Rightarrow>
          if \<not> (first \<and> fin \<and> is_skipped D d (length payload) (is_server c)) then
            case compress D d payload fin (is_server c) of (payload, d) \<Rightarrow>
              (write_frame e addr key dst payload op fin first (\<not> is_server c),
               c\<lparr>deflate := Some d\<rparr>)
          else (write_frame e addr key dst payload op fin False (\<not> is_server c), c)
      | None \<Rightarrow> (write_frame e addr key dst payload op fin False (\<not> is_server c), c))"

definition decompress_data ::
    "'d deflate_ops \<Rightarrow> 'd Codec \<Rightarrow> bytes option \<Rightarrow> bool
     \<Rightarrow> (ProtocolError failure, bytes) result \<times> 'd Codec" where
  "decompress_data D c payload fin =
     (let payload = (case payload of None \<Rightarrow> [] | Some p \<Rightarrow> p);
          c = (if fin then remove_flags R_COMPRESSED c else c)
      in case deflate c of
           None \<Rightarrow> (Inl Panic, c)
         | Some d \<Rightarrow>
             (case decompress D d payload fin (is_server c) (max_size c) of
                (Inl err, d) \<Rightarrow> (Inl (Err err), c\<lparr>deflate := Some d\<rparr>)
              | (Inr out, d) \<Rightarrow> (Inr out, c\<lparr>deflate := Some d\<rparr>)))"

definition read_data ::
    "'d deflate_ops \<Rightarrow> 'd Codec \<Rightarrow> bytes option \<Rightarrow> bool
     \<Rightarrow> (ProtocolError failure, bytes) result \<times> 'd Codec" where
  "read_data D c payload fin =
     (if R_COMPRESSED \<in> flags c then decompress_data D c payload fin
      else (Inr (case payload of None \<Rightarrow> [] | Some p \<Rightarrow> p), c))"

text \<open>The result of a successful call is the extended output buffer.\<close>

definition encode_page ::
    "'d deflate_ops \<Rightarrow> endian \<Rightarrow> nat \<Rightarrow> u32 \<Rightarrow> 'd Codec \<Rightarrow> bytes \<Rightarrow> bytes
     \<Rightarrow> (ProtocolError failure, bytes) result \<times> 'd Codec" where
  "encode_page D e addr key c page dst =
     (if is_closed c then (Inl (Err Closed), c)
      else if W_CONTINUATION \<in> flags c then (Inl (Err ContinuationStarted), c)
      else case write_data D e addr key c dst page Binary True True of
             (Inl _, c) \<Rightarrow> (Inl Panic, c)
           | (Inr dst, c) \<Rightarrow> (Inr dst, c))"

definition encode ::
    "'d deflate_ops \<Rightarrow> endian \<Rightarrow> nat \<Rightarrow> u32 \<Rightarrow> 'd Codec \<Rightarrow> Message \<Rightarrow> bytes
     \<Rightarrow> (ProtocolError, bytes) result \<times> 'd Codec" where
  "encode D e addr key c item dst =
     (if is_closed c then (Inl Closed, c) else
      case item of
        Message_Text txt \<Rightarrow>
          if W_CONTINUATION \<in> flags c then (Inl ContinuationStarted, c)
          else write_data D e addr key c dst txt Text True True
      | Message_Binary bin \<Rightarrow>
          if W_CONTINUATION \<in> flags c then (Inl ContinuationStarted, c)
          else write_data D e addr key c dst bin Binary True True
      | Message_Ping txt \<Rightarrow> (write_message e addr key dst txt Ping True (\<not> is_server c), c)
      | Message_Pong txt \<Rightarrow> (write_message e addr key dst txt Pong True (\<not> is_server c), c)
      | Message_Close reason \<Rightarrow>
          (case write_close e addr key dst reason (\<not> is_server c) of
             Inl err \<Rightarrow> (Inl err, c)
           | Inr dst \<Rightarrow> (Inr dst, insert_flags CLOSED c))
      | Message_Continuation cont \<Rightarrow>
          (case cont of
             FirstText data \<Rightarrow>
               if W_CONTINUATION \<in> flags c then (Inl ContinuationStarted, c)
               else write_data D e addr key (insert_flags W_CONTINUATION c) dst data Text True False
           | FirstBinary data \<Rightarrow>
               if W_CONTINUATION \<in> flags c then (Inl ContinuationStarted, c)
               else write_data D e addr key (insert_flags W_CONTINUATION c) dst data Binary True False
           | Item_Continue data \<Rightarrow>
               if W_CONTINUATION \<in> flags c
               then write_data D e addr key c dst data Continue False False
               else (Inl ContinuationNotStarted, c)
           | Last data \<Rightarrow>
               if W_CONTINUATION \<in> flags c
               then write_data D e addr key (remove_flags W_CONTINUATION c) dst data Continue False True
               else (Inl ContinuationNotStarted, c)))"

text \<open>The continuation of \<^verbatim>\<open>?\<close> after \<^verbatim>\<open>read_data\<close>: wrap the payload into a frame.\<close>

definition read_frame ::
    "(bytes \<Rightarrow> Frame) \<Rightarrow> (ProtocolError failure, bytes) result \<times> 'd Codec
     \<Rightarrow> (ProtocolError failure, Frame option) result \<times> 'd Codec" where
  "read_frame frame r = (case r of
       (Inl err, c) \<Rightarrow> (Inl err, c) | (Inr data, c) \<Rightarrow> (Inr (Some (frame data)), c))"

text \<open>The match on the operation code at the end of \<^verbatim>\<open>decode\<close>.\<close>

definition decode_opcode ::
    "'d deflate_ops \<Rightarrow> 'd Codec \<Rightarrow> bool \<Rightarrow> OpCode \<Rightarrow> bytes option
     \<Rightarrow> (ProtocolError failure, Frame option) result \<times> 'd Codec" where
  "decode_opcode D c finished opcode payload =
     (if finished then
        case opcode of
          Continue \<Rightarrow>
            if R_CONTINUATION \<in> flags c
            then read_frame (\<lambda>d. Frame_Continuation (Last d))
                   (read_data D (remove_flags R_CONTINUATION c) payload True)
            else (Inl (Err ContinuationNotStarted), c)
        | Close \<Rightarrow>
            (case (case payload of Some pl \<Rightarrow> parse_close_payload pl | None \<Rightarrow> Inr None) of
               Inl err \<Rightarrow> (Inl (Err err), c)
             | Inr reason \<Rightarrow> (Inr (Some (Frame_Close reason)), insert_flags R_CLOSED c))
        | Ping \<Rightarrow> (Inr (Some (Frame_Ping (case payload of None \<Rightarrow> [] | Some p \<Rightarrow> p))), c)
        | Pong \<Rightarrow> (Inr (Some (Frame_Pong (case payload of None \<Rightarrow> [] | Some p \<Rightarrow> p))), c)
        | Binary \<Rightarrow>
            if R_CONTINUATION \<in> flags c then (Inl (Err ContinuationStarted), c)
            else read_frame Frame_Binary (read_data D c payload True)
        | Text \<Rightarrow>
            if R_CONTINUATION \<in> flags c then (Inl (Err ContinuationStarted), c)
            else read_frame Frame_Text (read_data D c payload True)
      else
        case opcode of
          Continue \<Rightarrow>
            if R_CONTINUATION \<in> flags c
            then read_frame (\<lambda>d. Frame_Continuation (Item_Continue d)) (read_data D c payload False)
            else (Inl (Err ContinuationNotStarted), c)
        | Binary \<Rightarrow>
            if R_CONTINUATION \<in> flags c then (Inl (Err ContinuationStarted), c)
            else read_frame (\<lambda>d. Frame_Continuation (FirstBinary d))
                   (read_data D (insert_flags R_CONTINUATION c) payload False)
        | Text \<Rightarrow>
            if R_CONTINUATION \<in> flags c then (Inl (Err ContinuationStarted), c)
            else read_frame (\<lambda>d. Frame_Continuation (FirstText d))
                   (read_data D (insert_flags R_CONTINUATION c) payload False)
        | _ \<Rightarrow> (Inl (Err (FragmentedControlFrame opcode)), c))"

text \<open>The part of \<^verbatim>\<open>decode\<close> after a frame was parsed: the RSV1 bit, then the operation code.\<close>

definition decode_frame ::
    "'d deflate_ops \<Rightarrow> 'd Codec \<Rightarrow> bool \<Rightarrow> bool \<Rightarrow> OpCode \<Rightarrow> bytes option
     \<Rightarrow> (ProtocolError failure, Frame option) result \<times> 'd Codec" where
  "decode_frame D c finished rsv1 opcode payload =
     (if rsv1 then
        if \<not> (opcode = Text \<or> opcode = Binary) then (Inl (Err (ReservedBits 4)), c)
        else if R_CONTINUATION \<notin> flags c
        then decode_opcode D (insert_flags R_COMPRESSED c) finished opcode payload
        else decode_opcode D c finished opcode payload
      else decode_opcode D c finished opcode payload)"

definition decode ::
    "'d deflate_ops \<Rightarrow> endian \<Rightarrow> nat \<Rightarrow> 'd Codec \<Rightarrow> bytes
     \<Rightarrow> (ProtocolError failure, Frame option) result \<times> 'd Codec \<times> bytes" where
  "decode D e addr c src =
     (if R_CLOSED \<in> flags c then (Inr None, c, []) else
      case parse_frame e addr src (is_server c) (max_size c) (is_compressed c) of
        (Inl err, src) \<Rightarrow> (Inl (Err err), c, src)
      | (Inr None, src) \<Rightarrow> (Inr None, c, src)
      | (Inr (Some (finished, rsv1, opcode, payload)), src) \<Rightarrow>
          (case decode_frame D c finished rsv1 opcode payload of (r, c) \<Rightarrow> (r, c, src)))"

section \<open>Flags\<close>

lemma flags_insert_flags [simp]: "flags (insert_flags f c) = insert f (flags c)"
  by (simp add: insert_flags_def)

lemma flags_remove_flags [simp]: "flags (remove_flags f c) = flags c - {f}"
  by (simp add: remove_flags_def)

lemma insert_flags_fields [simp]:
  "max_size (insert_flags f c) = max_size c" "deflate (insert_flags f c) = deflate c"
  by (simp_all add: insert_flags_def)

lemma remove_flags_fields [simp]:
  "max_size (remove_flags f c) = max_size c" "deflate (remove_flags f c) = deflate c"
  by (simp_all add: remove_flags_def)

lemma is_server_insert [simp]: "f \<noteq> SERVER \<Longrightarrow> is_server (insert_flags f c) = is_server c"
  by (auto simp: is_server_def)

lemma is_server_remove [simp]: "f \<noteq> SERVER \<Longrightarrow> is_server (remove_flags f c) = is_server c"
  by (auto simp: is_server_def)

lemma is_server_deflate [simp]: "is_server (c\<lparr>deflate := d\<rparr>) = is_server c"
  by (simp add: is_server_def)

section \<open>Incremental decoding\<close>

lemma read_frame_not_None [simp]: "read_frame f r \<noteq> (Inr None, c)"
  by (auto simp: read_frame_def split: prod.splits sum.splits)

lemma decode_frame_not_None: "decode_frame D c finished rsv1 opcode payload \<noteq> (Inr None, c')"
  by (cases opcode) (auto simp: decode_frame_def decode_opcode_def split: sum.splits)

text \<open>A frame that the parser delivers decides the outcome of \<open>decode\<close>.\<close>

lemma decode_cases:
  obtains (closed) "R_CLOSED \<in> flags c" "decode D e addr c s = (Inr None, c, [])"
  | (fail) err s' where "R_CLOSED \<notin> flags c"
      "parse_frame e addr s (is_server c) (max_size c) (is_compressed c) = (Inl err, s')"
      "decode D e addr c s = (Inl (Err err), c, s')"
  | (more) "R_CLOSED \<notin> flags c"
      "parse_frame e addr s (is_server c) (max_size c) (is_compressed c) = (Inr None, s)"
      "decode D e addr c s = (Inr None, c, s)"
  | (frame) fin rsv1 op pl s' r c' where "R_CLOSED \<notin> flags c"
      "parse_frame e addr s (is_server c) (max_size c) (is_compressed c)
         = (Inr (Some (fin, rsv1, op, pl)), s')"
      "decode_frame D c fin rsv1 op pl = (r, c')" "r \<noteq> Inr None"
      "decode D e addr c s = (r, c', s')"
proof (cases "R_CLOSED \<in> flags c")
  case True
  then show ?thesis by (intro closed) (simp_all add: decode_def)
next
  case False
  obtain r s' where p: "parse_frame e addr s (is_server c) (max_size c) (is_compressed c) = (r, s')"
    by fastforce
  show ?thesis
  proof (cases r rule: result_option_cases)
    case (1 err)
    then show ?thesis using False p by (intro fail) (auto simp: decode_def)
  next
    case 2
    then have "s' = s" using p parse_frame_more by auto
    then show ?thesis using 2 False p by (intro more) (auto simp: decode_def)
  next
    case (3 x)
    obtain fin rsv1 op pl where x: "x = (fin, rsv1, op, pl)" by (cases x) auto
    obtain r c' where d: "decode_frame D c fin rsv1 op pl = (r, c')" by fastforce
    then have "r \<noteq> Inr None" using decode_frame_not_None by metis
    then show ?thesis using 3 False p x d
      by (intro frame [of fin rsv1 op pl s' r c']) (simp_all add: decode_def)
  qed
qed

lemma decode_more:
  assumes "decode D e addr c s = (Inr None, c', s')"
  shows "decode D e addr c' (s' @ t) = decode D e addr c (s @ t)"
  using assms by (cases rule: decode_cases [of c D e addr s]) (auto simp: decode_def)

lemma decode_result_append:
  assumes "decode D e addr c s = (r, c', s')" "r \<noteq> Inr None"
  shows "decode D e addr c (s @ t) = (r, c', s' @ t)"
proof (cases rule: decode_cases [of c D e addr s])
  case (fail err s1)
  then show ?thesis using assms parse_frame_fail [OF fail(2), of t] by (simp add: decode_def)
next
  case (frame fin rsv1 op pl s1 r1 c1)
  then show ?thesis using assms parse_frame_item [OF frame(2), of t] by (simp add: decode_def)
qed (use assms in auto)

lemma decode_progress:
  assumes "decode D e addr c s = (Inr (Some f), c', s')"
  shows "length s' < length s"
proof (cases rule: decode_cases [of c D e addr s])
  case (frame fin rsv1 op pl s1 r1 c1)
  then show ?thesis using assms parse_frame_progress [OF frame(2)] by simp
qed (use assms in auto)

interpretation codec: incremental "decode D e addr" for D e addr
  by unfold_locales
     (blast dest: decode_more, simp_all add: decode_result_append decode_progress)

lemma parse_frame_Nil [simp]: "parse_frame e addr [] server ms allow = (Inr None, [])"
  by (simp add: parse_frame_def parse_metadata_def)

lemma decode_Nil: "decode D e addr c [] = (Inr None, c, [])"
  by (simp add: decode_def)

section \<open>Sender and receiver\<close>

text \<open>The payload a message is sent with, and the frame the peer sees.\<close>

definition close_payload :: "CloseReason option \<Rightarrow> bytes" where
  "close_payload reason = (case reason of None \<Rightarrow> []
     | Some r \<Rightarrow> u16_to_be_bytes (u16_from_CloseCode (code r))
                @ (case description r of None \<Rightarrow> [] | Some d \<Rightarrow> d))"

lemma close_payload_Nil [simp]: "close_payload r = [] \<longleftrightarrow> r = None"
  by (auto simp: close_payload_def length_0_conv [symmetric] simp del: length_0_conv
      split: option.splits)

fun item_payload :: "Item \<Rightarrow> bytes" where
  "item_payload (FirstText d) = d"
| "item_payload (FirstBinary d) = d"
| "item_payload (Item_Continue d) = d"
| "item_payload (Last d) = d"

fun message_payload :: "Message \<Rightarrow> bytes" where
  "message_payload (Message_Text d) = d"
| "message_payload (Message_Binary d) = d"
| "message_payload (Message_Continuation i) = item_payload i"
| "message_payload (Message_Ping d) = d"
| "message_payload (Message_Pong d) = d"
| "message_payload (Message_Close r) = close_payload r"

text \<open>An empty close description is indistinguishable on the wire from none.\<close>

definition received_reason :: "CloseReason \<Rightarrow> CloseReason" where
  "received_reason r = r\<lparr>description := (case description r of Some [] \<Rightarrow> None | d \<Rightarrow> d)\<rparr>"

fun received :: "Message \<Rightarrow> Frame" where
  "received (Message_Text d) = Frame_Text d"
| "received (Message_Binary d) = Frame_Binary d"
| "received (Message_Continuation i) = Frame_Continuation i"
| "received (Message_Ping d) = Frame_Ping d"
| "received (Message_Pong d) = Frame_Pong d"
| "received (Message_Close r) = Frame_Close (map_option received_reason r)"

text \<open>A close description is a Rust \<^verbatim>\<open>String\<close>, hence UTF-8.\<close>

fun description_utf8 :: "Message \<Rightarrow> bool" where
  "description_utf8 (Message_Close (Some r)) =
     (case description r of None \<Rightarrow> True | Some d \<Rightarrow> utf8_valid d)"
| "description_utf8 _ = True"

definition fits :: "nat \<Rightarrow> Message \<Rightarrow> bool" where
  "fits n m \<longleftrightarrow> length (message_payload m) \<le> n \<and> length (message_payload m) < 2 ^ 63
     \<and> description_utf8 m"

text \<open>
  The frame a codec without compression writes: operation code and FIN bit by message, and
  the sender's fragmentation state before and after.
\<close>

fun message_frame :: "Message \<Rightarrow> OpCode \<times> bool" where
  "message_frame (Message_Text d) = (Text, True)"
| "message_frame (Message_Binary d) = (Binary, True)"
| "message_frame (Message_Continuation (FirstText d)) = (Text, False)"
| "message_frame (Message_Continuation (FirstBinary d)) = (Binary, False)"
| "message_frame (Message_Continuation (Item_Continue d)) = (Continue, False)"
| "message_frame (Message_Continuation (Last d)) = (Continue, True)"
| "message_frame (Message_Ping d) = (Ping, True)"
| "message_frame (Message_Pong d) = (Pong, True)"
| "message_frame (Message_Close r) = (Close, True)"

lemma write_close_image:
  assumes "write_close e addr key dst reason msk = Inr out"
  shows "out = dst @ frame_image e key (close_payload reason) Close True False msk"
    and "\<forall>r. reason = Some r \<longrightarrow> CloseCode_is_valid (code r)"
    and "length (close_payload reason) \<le> 125"
  using assms
  by (auto simp: write_close_def write_message_def write_frame_image close_payload_def Let_def
      split: option.splits if_splits)

lemma parse_close_payload_image:
  assumes "\<forall>r. reason = Some r \<longrightarrow> CloseCode_is_valid (code r)"
    and "description_utf8 (Message_Close reason)"
  shows "parse_close_payload (close_payload reason) = Inr (map_option received_reason reason)"
proof (cases reason)
  case None
  then show ?thesis by (simp add: parse_close_payload_def close_payload_def)
next
  case (Some r)
  let ?w = "u16_to_be_bytes (u16_from_CloseCode (code r))"
  let ?d = "case description r of None \<Rightarrow> [] | Some d \<Rightarrow> d"
  have "close_payload reason = ?w @ ?d" by (simp add: Some close_payload_def)
  moreover have "?w @ ?d \<noteq> []" "length (?w @ ?d) \<noteq> 1" "length ?w = 2"
    by (auto simp: length_0_conv [symmetric] simp del: length_0_conv)
  ultimately show ?thesis using Some assms
    by (cases r)
       (auto simp: parse_close_payload_def Let_def CloseCode_from_u16 received_reason_def
         split: option.splits list.splits)
qed

section \<open>The message protocol\<close>

text \<open>
  The abstract state machine both directions of a connection follow: no fragmented message in
  progress, one in progress, or the close message was sent. It says which frame may come next.
\<close>

datatype phase = Idle | Fragmented | Finished

fun phase_step :: "phase \<Rightarrow> Frame \<Rightarrow> phase option" where
  "phase_step Finished f = None"
| "phase_step p (Frame_Ping d) = Some p"
| "phase_step p (Frame_Pong d) = Some p"
| "phase_step p (Frame_Close r) = Some Finished"
| "phase_step Idle (Frame_Text d) = Some Idle"
| "phase_step Idle (Frame_Binary d) = Some Idle"
| "phase_step Idle (Frame_Continuation (FirstText d)) = Some Fragmented"
| "phase_step Idle (Frame_Continuation (FirstBinary d)) = Some Fragmented"
| "phase_step Fragmented (Frame_Continuation (Item_Continue d)) = Some Fragmented"
| "phase_step Fragmented (Frame_Continuation (Last d)) = Some Idle"
| "phase_step p f = None"

text \<open>A sequence of frames that the state machine allows from a state.\<close>

fun phase_run :: "phase \<Rightarrow> Frame list \<Rightarrow> phase option" where
  "phase_run p [] = Some p"
| "phase_run p (f # fs) = (case phase_step p f of None \<Rightarrow> None | Some q \<Rightarrow> phase_run q fs)"

definition write_phase :: "'d Codec \<Rightarrow> phase" where
  "write_phase c = (if CLOSED \<in> flags c then Finished
     else if W_CONTINUATION \<in> flags c then Fragmented else Idle)"

definition read_phase :: "'d Codec \<Rightarrow> phase" where
  "read_phase c = (if R_CLOSED \<in> flags c then Finished
     else if R_CONTINUATION \<in> flags c then Fragmented else Idle)"

lemma phase_Finished [simp]:
  "write_phase c = Finished \<longleftrightarrow> CLOSED \<in> flags c"
  "read_phase c = Finished \<longleftrightarrow> R_CLOSED \<in> flags c"
  by (simp_all add: write_phase_def read_phase_def)

text \<open>The reading half of a codec leaves the flags of the writing half alone and vice versa.\<close>

lemma write_data_flags:
  "write_data D e addr key c dst pl op first fin = (r, c') \<Longrightarrow>
     flags c' = flags c \<and> max_size c' = max_size c \<and> (deflate c' = None) = (deflate c = None)"
  by (auto simp: write_data_def split: option.splits if_splits prod.splits)

lemma write_data_data:
  "\<not> is_control op \<Longrightarrow> \<exists>out c'. write_data D e addr key c dst pl op first fin = (Inr out, c')"
  by (auto simp: write_data_def write_frame_image split: option.splits prod.splits)

lemma write_data_phase:
  "write_data D e addr key c dst pl op first fin = (r, c') \<Longrightarrow> write_phase c' = write_phase c"
  by (simp add: write_phase_def write_data_flags)

lemma write_phase_flags:
  "CLOSED \<notin> flags c \<Longrightarrow> write_phase (insert_flags W_CONTINUATION c) = Fragmented"
  "CLOSED \<notin> flags c \<Longrightarrow> write_phase (remove_flags W_CONTINUATION c) = Idle"
  "write_phase (insert_flags CLOSED c) = Finished"
  by (simp_all add: write_phase_def)

lemma phase_step_control [simp]:
  "p \<noteq> Finished \<Longrightarrow> phase_step p (Frame_Ping d) = Some p"
  "p \<noteq> Finished \<Longrightarrow> phase_step p (Frame_Pong d) = Some p"
  "p \<noteq> Finished \<Longrightarrow> phase_step p (Frame_Close r) = Some Finished"
  by (cases p; simp)+

lemma encode_phase:
  assumes "encode D e addr key c m dst = (Inr out, c')"
  shows "phase_step (write_phase c) (received m) = Some (write_phase c')"
proof -
  have nc: "CLOSED \<notin> flags c" using assms by (auto simp: encode_def is_closed_def split: if_splits)
  then have wp: "write_phase c = (if W_CONTINUATION \<in> flags c then Fragmented else Idle)"
    by (simp add: write_phase_def)
  show ?thesis
    using assms nc
    by (cases m rule: message_frame.cases)
       (auto simp: encode_def is_closed_def wp write_phase_flags write_data_phase
         split: if_splits sum.splits)
qed

lemma read_data_flags:
  "read_data D c pl fin = (r, c') \<Longrightarrow>
     flags c' - {R_COMPRESSED} = flags c - {R_COMPRESSED}
     \<and> max_size c' = max_size c \<and> (deflate c' = None) = (deflate c = None)"
  by (auto simp: read_data_def decompress_data_def Let_def remove_flags_def
      split: option.splits if_splits prod.splits sum.splits)

lemma read_phase_cong:
  assumes "flags c' - {R_COMPRESSED} = flags c - {R_COMPRESSED}"
  shows "read_phase c' = read_phase c"
proof -
  have "(f \<in> flags c') = (f \<in> flags c)" if "f \<noteq> R_COMPRESSED" for f
    using that assms by blast
  then show ?thesis by (simp add: read_phase_def)
qed

lemma read_frame_phase:
  "read_frame f (read_data D c pl fin) = (Inr (Some y), c') \<Longrightarrow> \<exists>d. y = f d \<and> read_phase c' = read_phase c"
  by (auto simp: read_frame_def split: prod.splits sum.splits dest: read_data_flags intro: read_phase_cong)

lemma read_phase_flags:
  "R_CLOSED \<notin> flags c \<Longrightarrow> read_phase (insert_flags R_CONTINUATION c) = Fragmented"
  "R_CLOSED \<notin> flags c \<Longrightarrow> read_phase (remove_flags R_CONTINUATION c) = Idle"
  "read_phase (insert_flags R_CLOSED c) = Finished"
  "read_phase (insert_flags R_COMPRESSED c) = read_phase c"
  by (simp_all add: read_phase_def)

lemma decode_opcode_phase:
  assumes "decode_opcode D c fin op pl = (Inr (Some f), c')" "R_CLOSED \<notin> flags c"
  shows "phase_step (read_phase c) f = Some (read_phase c')"
proof -
  have rp: "read_phase c = (if R_CONTINUATION \<in> flags c then Fragmented else Idle)"
    using assms(2) by (simp add: read_phase_def)
  show ?thesis
    using assms
    by (cases fin; cases op)
       (auto simp: decode_opcode_def rp read_phase_flags
         split: if_splits sum.splits dest!: read_frame_phase)
qed

lemma decode_frame_phase:
  assumes "decode_frame D c fin rsv1 op pl = (Inr (Some f), c')" "R_CLOSED \<notin> flags c"
  shows "phase_step (read_phase c) f = Some (read_phase c')"
  using assms decode_opcode_phase [of D c fin op pl f c']
    decode_opcode_phase [of D "insert_flags R_COMPRESSED c" fin op pl f c']
  by (auto simp: decode_frame_def read_phase_flags split: if_splits)

lemma decode_phase:
  assumes "decode D e addr c s = (Inr (Some f), c', s')"
  shows "phase_step (read_phase c) f = Some (read_phase c')"
proof (cases rule: decode_cases [of c D e addr s])
  case (frame fin rsv1 op pl s1 r1 c1)
  then show ?thesis using assms by (auto intro: decode_frame_phase)
qed (use assms in auto)

lemma drain_phase:
  "drain (decode D e addr) n c s = (fs, err, c', s') \<Longrightarrow> phase_run (read_phase c) fs \<noteq> None"
proof (induction n arbitrary: c s fs)
  case (Suc n)
  obtain r c1 s1 where d: "decode D e addr c s = (r, c1, s1)" by (metis prod_cases3)
  show ?case
  proof (cases r rule: result_option_cases)
    case (3 f)
    then have "phase_step (read_phase c) f = Some (read_phase c1)" using d decode_phase by blast
    then show ?thesis using Suc d 3 by (auto split: prod.splits)
  qed (use Suc.prems d in auto)
qed simp

section \<open>Transmission\<close>

lemma frame_image_endian:
  "frame_image e key p op fin rsv1 msk
     = frame_image e' (u32_from_ne_bytes e' (u32_to_ne_bytes e key)) p op fin rsv1 msk"
  by (simp add: frame_image_def u32_ne_roundtrip_bytes)

text \<open>What a codec without the extension puts on the wire.\<close>

lemma encode_image:
  assumes "encode D e addr key c m dst = (Inr out, c')" and "deflate c = None"
  shows "out = dst @ frame_image e key (message_payload m) (fst (message_frame m))
      (snd (message_frame m)) False (\<not> is_server c)
    \<and> (is_control (fst (message_frame m)) \<longrightarrow> length (message_payload m) \<le> 125)
    \<and> (\<forall>r. m = Message_Close (Some r) \<longrightarrow> CloseCode_is_valid (code r))"
  using assms
  by (cases m rule: message_frame.cases)
     (auto simp: encode_def write_data_def write_message_def write_frame_image write_close_image
       split: if_splits sum.splits dest: write_close_image)

lemma write_data_fields:
  "write_data D e addr key c dst pl op first fin = (r, c') \<Longrightarrow>
     is_server c' = is_server c \<and> (deflate c' = None) = (deflate c = None)"
  by (simp add: is_server_def write_data_flags)

lemma encode_fields:
  assumes "encode D e addr key c m dst = (Inr out, c')"
  shows "is_server c' = is_server c \<and> (deflate c' = None) = (deflate c = None)"
  using assms
  by (cases m rule: message_frame.cases)
     (auto simp: encode_def split: if_splits sum.splits dest: write_data_fields)

text \<open>The two ends of a connection in one direction: same protocol state, opposite roles.\<close>

definition in_sync :: "'d Codec \<Rightarrow> 'd Codec \<Rightarrow> bool" where
  "in_sync s r \<longleftrightarrow> write_phase s = read_phase r \<and> is_server s \<noteq> is_server r
     \<and> deflate s = None \<and> deflate r = None \<and> R_COMPRESSED \<notin> flags r"

lemma decode_received:
  assumes "phase_step (read_phase c) (received m) = Some p"
    and "R_COMPRESSED \<notin> flags c" "deflate c = None"
    and "\<forall>r. m = Message_Close (Some r) \<longrightarrow> CloseCode_is_valid (code r)" "description_utf8 m"
  shows "\<exists>c'. decode_frame D c (snd (message_frame m)) False (fst (message_frame m))
      (if message_payload m = [] then None else Some (message_payload m))
      = (Inr (Some (received m)), c')
    \<and> is_server c' = is_server c \<and> max_size c' = max_size c \<and> deflate c' = None
    \<and> R_COMPRESSED \<notin> flags c'"
proof -
  have rd: "read_data D c' x fin = (Inr (case x of None \<Rightarrow> [] | Some p \<Rightarrow> p), c')"
    if "R_COMPRESSED \<notin> flags c'" for c' x fin
    using that by (simp add: read_data_def)
  have rp: "R_CONTINUATION \<in> flags c \<longleftrightarrow> read_phase c = Fragmented" "R_CLOSED \<notin> flags c"
    using assms(1) by (auto simp: read_phase_def)
  show ?thesis
    using assms rp parse_close_payload_image
    by (cases m rule: message_frame.cases; cases "read_phase c")
       (auto simp: decode_frame_def decode_opcode_def rd read_frame_def)
qed

lemma decode_encoded:
  assumes "encode D e addr key s m dst = (Inr out, s')" "in_sync s r" "fits (max_size r) m"
  obtains img r' where "out = dst @ img" "in_sync s' r'" "max_size r' = max_size r"
    "\<And>rest. decode D' e' addr' r (img @ rest) = (Inr (Some (received m)), r', rest)"
proof -
  let ?op = "fst (message_frame m)" and ?fin = "snd (message_frame m)" and ?pl = "message_payload m"
  let ?img = "frame_image e key ?pl ?op ?fin False (\<not> is_server s)"
  note [simp] = in_sync_def
  have d: "deflate s = None" "deflate r = None" using assms(2) by simp_all
  have img: "out = dst @ ?img" and ctl: "is_control ?op \<longrightarrow> length ?pl \<le> 125"
    and code: "\<forall>r. m = Message_Close (Some r) \<longrightarrow> CloseCode_is_valid (code r)"
    using encode_image [OF assms(1) d(1)] by blast+
  have phase: "phase_step (read_phase r) (received m) = Some (write_phase s')"
    using encode_phase [OF assms(1)] assms(2) by simp
  then have nc: "R_CLOSED \<notin> flags r" by (auto simp flip: phase_Finished(2))
  obtain r' where df: "decode_frame D' r ?fin False ?op (if ?pl = [] then None else Some ?pl)
      = (Inr (Some (received m)), r')"
    and r': "is_server r' = is_server r" "max_size r' = max_size r" "deflate r' = None"
      "R_COMPRESSED \<notin> flags r'"
    using decode_received [OF phase _ _ code] assms(2,3) unfolding fits_def by fastforce
  have fin: "is_control ?op \<longrightarrow> ?fin" by (cases m rule: message_frame.cases) auto
  have pf: "parse_frame e' addr' (?img @ rest) (is_server r) (max_size r) (is_compressed r)
      = (Inr (Some (?fin, False, ?op, if ?pl = [] then None else Some ?pl)), rest)" for rest
    using parse_frame_image [of ?op ?fin ?pl "max_size r" False] ctl fin assms(2,3)
    by (subst frame_image_endian [of _ _ _ _ _ _ _ e']) (simp add: fits_def is_compressed_def)
  have "decode D' e' addr' r (?img @ rest) = (Inr (Some (received m)), r', rest)" for rest
    using nc df pf by (simp add: decode_def)
  moreover have "in_sync s' r'"
    using decode_frame_phase [OF df nc] phase r' encode_fields [OF assms(1)] assms(2) by simp
  ultimately show thesis using that img r'(2) by blast
qed

text \<open>Sends messages in order; each frame is written at some address under a fresh key.\<close>

fun encode_all :: "'d deflate_ops \<Rightarrow> endian \<Rightarrow> 'd Codec \<Rightarrow> (nat \<times> u32 \<times> Message) list \<Rightarrow> bytes
    \<Rightarrow> (ProtocolError, bytes) result \<times> 'd Codec" where
  "encode_all D e c [] dst = (Inr dst, c)"
| "encode_all D e c ((addr, key, m) # ms) dst =
     (case encode D e addr key c m dst of
        (Inl err, c) \<Rightarrow> (Inl err, c)
      | (Inr dst, c) \<Rightarrow> encode_all D e c ms dst)"

lemma drain_encoded:
  assumes "encode_all D e s ms dst = (Inr out, s')" "in_sync s r"
    and "\<forall>(_, _, m) \<in> set ms. fits (max_size r) m"
  shows "\<exists>img r'. out = dst @ img \<and> in_sync s' r' \<and>
    drain_all (decode D' e' addr') r img = (map (\<lambda>(_, _, m). received m) ms, None, r', [])"
  using assms
proof (induction ms arbitrary: s r dst)
  case Nil
  then show ?case by (auto simp: codec.drain_all_more [OF decode_Nil])
next
  case (Cons am ms)
  obtain addr key m where am: "am = (addr, key, m)" by (cases am)
  from Cons.prems(1) obtain dst1 s1 where enc: "encode D e addr key s m dst = (Inr dst1, s1)"
    and all: "encode_all D e s1 ms dst1 = (Inr out, s')"
    by (auto simp: am split: prod.splits sum.splits)
  have fit: "fits (max_size r) m" using Cons.prems(3) by (simp add: am)
  obtain img1 r1 where 1: "dst1 = dst @ img1" "in_sync s1 r1" "max_size r1 = max_size r"
    "\<And>rest. decode D' e' addr' r (img1 @ rest) = (Inr (Some (received m)), r1, rest)"
    using decode_encoded [OF enc Cons.prems(2) fit] by blast
  obtain img2 r2 where 2: "out = dst1 @ img2" "in_sync s' r2"
    "drain_all (decode D' e' addr') r1 img2 = (map (\<lambda>(_, _, m). received m) ms, None, r2, [])"
    using Cons.IH [OF all 1(2)] Cons.prems(3) 1(3) by auto
  have "drain_all (decode D' e' addr') r (img1 @ img2)
      = (map (\<lambda>(_, _, m). received m) (am # ms), None, r2, [])"
    using codec.drain_all_item [OF 1(4), of img2] 2(3) by (simp add: am)
  then show ?case using 1(1) 2(1,2) by auto
qed

section \<open>Failures\<close>

text \<open>A compressed message can only be in progress when the extension is in use.\<close>

definition codec_ok :: "'d Codec \<Rightarrow> bool" where
  "codec_ok c \<longleftrightarrow> (R_COMPRESSED \<in> flags c \<longrightarrow> deflate c \<noteq> None)"

lemma read_frame_read_data_ok:
  assumes "read_frame f (read_data D c pl fin) = (r, c')" "codec_ok c"
  shows "codec_ok c' \<and> r \<noteq> Inl Panic"
  using assms
  by (auto simp: read_frame_def read_data_def decompress_data_def codec_ok_def Let_def
      split: prod.splits sum.splits if_splits option.splits)

lemma codec_ok_flags:
  "codec_ok c \<Longrightarrow> f \<noteq> R_COMPRESSED \<Longrightarrow> codec_ok (insert_flags f c)"
  "codec_ok c \<Longrightarrow> codec_ok (remove_flags f c)"
  "deflate c \<noteq> None \<Longrightarrow> codec_ok (insert_flags f c)"
  by (auto simp: codec_ok_def)

lemma decode_opcode_ok:
  assumes "decode_opcode D c fin op pl = (r, c')" "codec_ok c"
  shows "codec_ok c' \<and> r \<noteq> Inl Panic"
  using assms
  by (cases fin; cases op)
     (auto simp: decode_opcode_def codec_ok_flags split: if_splits sum.splits
       dest: read_frame_read_data_ok)

lemma decode_ok:
  assumes "decode D e addr c s = (r, c', s')" "codec_ok c"
  shows "codec_ok c' \<and> r \<noteq> Inl Panic"
proof (cases rule: decode_cases [of c D e addr s])
  case (frame fin rsv1 op pl s1 r1 c1)
  have "rsv1 \<longrightarrow> deflate c \<noteq> None"
    using frame(2) by (elim parse_frame_SomeD parse_metadata_SomeD) (simp add: is_compressed_def)
  then show ?thesis using frame assms
    by (auto simp: decode_frame_def codec_ok_flags split: if_splits dest: decode_opcode_ok)
qed (use assms in auto)

lemma drain_ok:
  "drain (decode D e addr) n c s = (fs, err, c', s') \<Longrightarrow> codec_ok c
     \<Longrightarrow> codec_ok c' \<and> err \<noteq> Some Panic"
proof (induction n arbitrary: c s fs)
  case (Suc n)
  obtain r c1 s1 where d: "decode D e addr c s = (r, c1, s1)" by (metis prod_cases3)
  then have ok: "codec_ok c1" "r \<noteq> Inl Panic" using decode_ok Suc.prems(2) by blast+
  show ?case
  proof (cases r rule: result_option_cases)
    case (3 f)
    then show ?thesis using Suc d ok by (auto split: prod.splits)
  qed (use Suc.prems d ok in auto)
qed simp

section \<open>Sizes\<close>

fun frame_payload :: "Frame \<Rightarrow> bytes" where
  "frame_payload (Frame_Text d) = d"
| "frame_payload (Frame_Binary d) = d"
| "frame_payload (Frame_Continuation i) = item_payload i"
| "frame_payload (Frame_Ping d) = d"
| "frame_payload (Frame_Pong d) = d"
| "frame_payload (Frame_Close r) = close_payload r"

fun is_control_frame :: "Frame \<Rightarrow> bool" where
  "is_control_frame (Frame_Ping d) = True"
| "is_control_frame (Frame_Pong d) = True"
| "is_control_frame (Frame_Close r) = True"
| "is_control_frame _ = False"

lemma parse_close_payload_canonical:
  assumes "parse_close_payload p = Inr reason"
  shows "close_payload reason = p
    \<and> (\<forall>r. reason = Some r \<longrightarrow> CloseCode_is_valid (code r))
    \<and> description_utf8 (Message_Close reason)"
proof (cases "2 \<le> length p")
  case True
  then have "u16_to_be_bytes (u16_from_be_bytes (take 2 p)) = take 2 p"
    by (simp add: u16_be_roundtrip_bytes)
  then show ?thesis using assms True append_take_drop_id [of 2 p]
    by (auto simp: parse_close_payload_def close_payload_def Let_def split: if_splits
        simp del: append_take_drop_id)
next
  case False
  then show ?thesis using assms
    by (cases p; cases "tl p") (auto simp: parse_close_payload_def close_payload_def)
qed

lemma decode_opcode_payload:
  assumes "decode_opcode D c fin op pl = (Inr (Some f), c')" "R_COMPRESSED \<notin> flags c"
  shows "frame_payload f = (case pl of None \<Rightarrow> [] | Some p \<Rightarrow> p)
    \<and> is_control_frame f = is_control op \<and> R_COMPRESSED \<notin> flags c'"
  using assms
  by (cases fin; cases op; cases pl)
     (auto simp: decode_opcode_def read_data_def read_frame_def split: if_splits sum.splits
       dest: parse_close_payload_canonical)

lemma decode_payload:
  assumes "decode D e addr c s = (Inr (Some f), c', s')" "deflate c = None" "R_COMPRESSED \<notin> flags c"
  shows "length (frame_payload f) \<le> max_size c
    \<and> (is_control_frame f \<longrightarrow> length (frame_payload f) \<le> 125) \<and> R_COMPRESSED \<notin> flags c'"
proof (cases rule: decode_cases [of c D e addr s])
  case (frame fin rsv1 op pl s1 r1 c1)
  have "\<not> rsv1" using frame(2) assms(2)
    by (elim parse_frame_SomeD parse_metadata_SomeD) (simp add: is_compressed_def)
  then have "frame_payload f = (case pl of None \<Rightarrow> [] | Some p \<Rightarrow> p)
      \<and> is_control_frame f = is_control op \<and> R_COMPRESSED \<notin> flags c'"
    using decode_opcode_payload [of D c fin op pl f c'] frame assms by (simp add: decode_frame_def)
  then show ?thesis using parse_frame_canonical [OF frame(2)] by auto
qed (use assms in auto)

lemma read_frame_fields:
  "read_frame f (read_data D c pl fin) = (r, c') \<Longrightarrow>
     max_size c' = max_size c \<and> (deflate c' = None) = (deflate c = None)"
  by (auto simp: read_frame_def split: prod.splits sum.splits dest: read_data_flags)

lemma decode_opcode_fields:
  assumes "decode_opcode D c fin op pl = (r, c')"
  shows "max_size c' = max_size c \<and> (deflate c' = None) = (deflate c = None)"
  using assms
  by (cases fin; cases op)
     (auto simp: decode_opcode_def split: if_splits sum.splits dest: read_frame_fields)

lemma decode_fields:
  assumes "decode D e addr c s = (r, c', s')"
  shows "max_size c' = max_size c \<and> (deflate c' = None) = (deflate c = None)"
proof (cases rule: decode_cases [of c D e addr s])
  case (frame fin rsv1 op pl s1 r1 c1)
  then show ?thesis using assms
    by (auto simp: decode_frame_def split: if_splits dest: decode_opcode_fields)
qed (use assms in auto)

lemma drain_payload:
  "drain (decode D e addr) n c s = (fs, err, c', s') \<Longrightarrow> deflate c = None \<Longrightarrow> R_COMPRESSED \<notin> flags c
     \<Longrightarrow> \<forall>f \<in> set fs. length (frame_payload f) \<le> max_size c
       \<and> (is_control_frame f \<longrightarrow> length (frame_payload f) \<le> 125)"
proof (induction n arbitrary: c s fs)
  case (Suc n)
  obtain r c1 s1 where d: "decode D e addr c s = (r, c1, s1)" by (metis prod_cases3)
  show ?case
  proof (cases r rule: result_option_cases)
    case (3 f)
    with Suc.prems(1) d obtain fs1 where fs: "fs = f # fs1"
      and dr: "drain (decode D e addr) n c1 s1 = (fs1, err, c', s')"
      by (auto split: prod.splits)
    have "deflate c1 = None" "max_size c1 = max_size c"
      using decode_fields [OF d] Suc.prems(2) by simp_all
    then show ?thesis using fs Suc.IH [OF dr] decode_payload [of D e addr c s f c1 s1] d 3 Suc.prems
      by simp
  qed (use Suc.prems d in auto)
qed simp

text \<open>All reads together, as one run of the decoder.\<close>

lemma feed_decodeD:
  assumes "feed (decode D e addr) c [] reads = r"
  shows "drain (decode D e addr) (Suc (length (concat reads))) c (concat reads) = r"
  using assms unfolding codec.feed_concat [OF decode_Nil] drain_all_def by simp

section \<open>Acceptance\<close>

text \<open>The limits on a message other than its place in the message protocol.\<close>

fun sendable :: "bool \<Rightarrow> Message \<Rightarrow> bool" where
  "sendable server (Message_Ping d) \<longleftrightarrow> length d \<le> 125"
| "sendable server (Message_Pong d) \<longleftrightarrow> length d \<le> 125"
| "sendable server (Message_Close None) \<longleftrightarrow> True"
| "sendable server (Message_Close (Some r)) \<longleftrightarrow>
     CloseCode_is_valid (code r) \<and> (server \<longrightarrow> code r \<noteq> Extension)
     \<and> length (close_payload (Some r)) \<le> 125"
| "sendable server m \<longleftrightarrow> True"

lemma write_close_accepts:
  "(\<exists>out. write_close e addr key dst r (\<not> server) = Inr out) \<longleftrightarrow> sendable server (Message_Close r)"
  by (cases r; cases "description (the r)")
     (auto simp: write_close_def write_message_def write_frame_image close_payload_def Let_def)

lemma encode_close_accepts:
  assumes "sendable (is_server c) (Message_Close r)" "\<not> is_closed c"
  shows "\<exists>out c'. encode D e addr key c (Message_Close r) dst = (Inr out, c')"
proof -
  obtain out where "write_close e addr key dst r (\<not> is_server c) = Inr out"
    using assms(1) write_close_accepts by blast
  then show ?thesis using assms(2) by (simp add: encode_def)
qed

section \<open>Properties\<close>

text \<open>C1. End-to-end round trip of a WebSocket direction. Whatever sequence of messages (data,
  fragmented, control, close) one codec accepts for sending, under any masking keys, the codec at
  the other end decodes into exactly these frames, in order, however the byte stream is cut into
  reads, and both ends agree on the protocol state afterwards. The two ends may have different byte
  orders and buffer addresses. Hypotheses: opposite roles, no compression, and the payloads are
  within the receiver's limit.\<close>

theorem message_stream_roundtrip:
  assumes "encode_all D e s ms [] = (Inr out, s')"
    and "in_sync s r" and "\<forall>(_, _, m) \<in> set ms. fits (max_size r) m"
    and "concat reads = out"
  shows "\<exists>r'. feed (decode D' e' addr') r [] reads = (map (\<lambda>(_, _, m). received m) ms, None, r', [])
    \<and> in_sync s' r'"
  using drain_encoded [OF assms(1,2,3), of D' e' addr'] assms(4)
  by (auto simp: codec.feed_concat [OF decode_Nil])

text \<open>A compression extension that does nothing, for concrete runs.\<close>

definition plain :: "unit deflate_ops" where
  "plain = \<lparr>is_skipped = (\<lambda>d n b. True), compress = (\<lambda>d p f b. (p, d)),
     decompress = (\<lambda>d p f b n. (Inr p, d))\<rparr>"

theorem message_stream_roundtrip_witness:
  "\<exists>r'. feed (decode plain Little 0) (set_client_mode new) []
      [[0x01, 0x01], [0x61, 0x89], [0x00, 0x80, 0x01, 0x62, 0x88, 0x00]]
    = ([Frame_Continuation (FirstText [0x61]), Frame_Ping [],
        Frame_Continuation (Last [0x62]), Frame_Close None], None, r', [])"
proof -
  let ?ms = "[(0, 0, Message_Continuation (FirstText [0x61])), (0, 0, Message_Ping []),
    (0, 0, Message_Continuation (Last [0x62])), (0, 0, Message_Close None)]"
  have enc: "encode_all plain Big new ?ms []
    = (Inr [0x01, 0x01, 0x61, 0x89, 0x00, 0x80, 0x01, 0x62, 0x88, 0x00],
       \<lparr>flags = {SERVER, CLOSED}, max_size = 65536, deflate = None\<rparr>)"
    by (auto simp: encode_def new_def write_data_def write_message_def write_close_def write_frame_def
        insert_flags_def remove_flags_def is_closed_def is_server_def)
  have sync: "in_sync (new :: unit Codec) (set_client_mode new)"
    by (simp add: in_sync_def new_def set_client_mode_def remove_flags_def write_phase_def
        read_phase_def is_server_def)
  have fit: "\<forall>(_, _, m) \<in> set ?ms. fits (max_size (set_client_mode (new :: unit Codec))) m"
    by (simp add: fits_def new_def set_client_mode_def close_payload_def)
  show ?thesis
    using message_stream_roundtrip [OF enc sync fit, of
      "[[0x01, 0x01], [0x61, 0x89], [0x00, 0x80, 0x01, 0x62, 0x88, 0x00]]" plain Little 0]
    by (auto simp del: feed.simps)
qed

text \<open>A ping, split between two reads, and a continuation frame out of place.\<close>

lemma feed_example:
  "feed (decode plain Little 0) (set_client_mode new) [] [[0x89], [0x01, 0x2a, 0x80, 0x00]]
    = ([Frame_Ping [0x2a]], Some (Err ContinuationNotStarted), set_client_mode new, [])"
  unfolding codec.feed_concat [OF decode_Nil] drain_all_def
  by (simp add: decode_def new_def set_client_mode_def remove_flags_def parse_frame_def
      parse_metadata_def parse_length_def OpCode_try_from_def decode_frame_def decode_opcode_def
      is_server_def)

text \<open>C5. Whatever bytes the peer sends, the frames the codec delivers are a run of the message
  protocol: a fragment sequence opens with a first fragment, is not interleaved with another data
  message, only control frames intervene, and nothing is delivered after a close frame. This
  holds with and without compression.\<close>

theorem decode_follows_protocol:
  assumes "feed (decode D e addr) c [] reads = (fs, err, c', rest)"
  shows "\<exists>p. phase_run (read_phase c) fs = Some p"
  using drain_phase [OF feed_decodeD [OF assms]] by auto

theorem decode_follows_protocol_witness:
  "\<exists>p. phase_run (read_phase (set_client_mode (new :: unit Codec))) [Frame_Ping [0x2a]] = Some p"
  using decode_follows_protocol [OF feed_example] .

text \<open>C28. Segmentation independence of \<^verbatim>\<open>Codec::decode\<close>: how the byte stream is cut into reads has
  no influence on the decoded frames, the error, the final codec state or the bytes left over.\<close>

theorem decode_segmentation:
  "feed (decode D e addr) c [] reads = drain_all (decode D e addr) c (concat reads)"
  using codec.feed_concat [OF decode_Nil, of D e addr c reads] by simp

text \<open>C27. Exactly which messages \<^verbatim>\<open>Codec::encode\<close> accepts: those the message protocol allows in the
  codec's state and that respect the limits on control frames and close codes.\<close>

theorem encode_accepts_iff:
  "(\<exists>out c'. encode D e addr key c m dst = (Inr out, c'))
     \<longleftrightarrow> phase_step (write_phase c) (received m) \<noteq> None \<and> sendable (is_server c) m"
  (is "?acc \<longleftrightarrow> ?spec")
proof
  assume ?acc
  then obtain out c' where enc: "encode D e addr key c m dst = (Inr out, c')" by blast
  moreover have "sendable (is_server c) m"
    using enc write_close_accepts [of e addr key dst _ "is_server c"]
    by (cases m rule: message_frame.cases)
       (auto simp: encode_def write_message_def write_frame_image split: if_splits sum.splits)
  ultimately show ?spec using encode_phase by fastforce
next
  assume spec: ?spec
  then have "\<not> is_closed c" by (auto simp: is_closed_def simp flip: phase_Finished(1))
  moreover from this have "W_CONTINUATION \<in> flags c \<longleftrightarrow> write_phase c = Fragmented"
    by (simp add: write_phase_def is_closed_def)
  ultimately show ?acc
    using spec encode_close_accepts [of c]
    by (cases m rule: message_frame.cases; cases "write_phase c")
       (auto simp: encode_def write_data_data write_message_def write_frame_image)
qed

text \<open>The decoder never panics: the \<^verbatim>\<open>expect\<close> in \<^verbatim>\<open>decompress\<close> is never reached without the
  extension, whatever bytes arrive, and the invariant behind this is preserved.\<close>

lemma decode_never_panics:
  assumes "codec_ok c" and "feed (decode D e addr) c [] reads = (fs, err, c', rest)"
  shows "codec_ok c' \<and> err \<noteq> Some Panic"
  using drain_ok [OF feed_decodeD [OF assms(2)] assms(1)] .

text \<open>Bounded frames: without compression every delivered payload is within \<^verbatim>\<open>max_size\<close>, and
  those of control frames within 125 bytes, whatever the peer sends.\<close>

lemma decoded_sizes:
  assumes "deflate c = None" and "R_COMPRESSED \<notin> flags c"
    and "feed (decode D e addr) c [] reads = (fs, err, c', rest)" and "f \<in> set fs"
  shows "length (frame_payload f) \<le> max_size c
    \<and> (is_control_frame f \<longrightarrow> length (frame_payload f) \<le> 125)"
  using drain_payload [OF feed_decodeD [OF assms(3)] assms(1,2)] assms(4) by blast

end
