(* ===== verification/Header_Map.thy ===== *)
theory Header_Map
  imports Prelude
begin

text \<open>
  The multimap of HTTP headers, \<^verbatim>\<open>ntex-http/src/map.rs\<close>.

  The inner hash map is a partial function from header names to values; where the code
  iterates over it, the (arbitrary) iteration order is the list of its entries. A header name
  is its canonical byte string; the name parser of the \<^verbatim>\<open>http\<close> crate is a parameter of the
  methods that take a name as text (\<open>parse_name\<close>).

  The interface \<open>multimap\<close> states what the users of a header map rely on; it is interpreted
  on the functions below.
\<close>

section \<open>The code\<close>

type_synonym HeaderName = bytes
type_synonym HeaderValue = bytes

datatype Value = One HeaderValue | Multi "HeaderValue list"

record HeaderMap =
  inner :: "HeaderName \<rightharpoonup> Value"

text \<open>Indexing an empty \<^verbatim>\<open>VecDeque\<close> panics: \<open>None\<close>.\<close>

fun Value_get :: "Value \<Rightarrow> HeaderValue option" where
  "Value_get (One val) = Some val"
| "Value_get (Multi val) = (case val of [] \<Rightarrow> None | v # _ \<Rightarrow> Some v)"

fun Value_append :: "Value \<Rightarrow> HeaderValue \<Rightarrow> Value" where
  "Value_append (One prev_val) val = Multi [prev_val, val]"
| "Value_append (Multi vec) val = Multi (vec @ [val])"

text \<open>The owning iterator: the next value and the iterator that remains.\<close>

fun ValueIntoIter_next :: "Value \<Rightarrow> HeaderValue option \<times> Value" where
  "ValueIntoIter_next (One val) = (Some val, Multi [])"
| "ValueIntoIter_next (Multi []) = (None, Multi [])"
| "ValueIntoIter_next (Multi (val # vec)) = (Some val, Multi vec)"

fun ValueIntoIter_size_hint :: "Value \<Rightarrow> nat \<times> nat option" where
  "ValueIntoIter_size_hint (One _) = (1, Some 1)"
| "ValueIntoIter_size_hint (Multi v) = (length v, Some (length v))"

fun Value_extend :: "Value \<Rightarrow> HeaderValue list \<Rightarrow> Value" where
  "Value_extend v [] = v"
| "Value_extend v (h # hs) = Value_extend (Value_append v h) hs"

definition HeaderMap_new :: HeaderMap where
  "HeaderMap_new = \<lparr>inner = Map.empty\<rparr>"

definition HeaderMap_clear :: "HeaderMap \<Rightarrow> HeaderMap" where
  "HeaderMap_clear m = m\<lparr>inner := Map.empty\<rparr>"

text \<open>A key is a name or a text that is parsed first (\<^verbatim>\<open>AsName\<close>).\<close>

datatype AsName = Left HeaderName | Right bytes

definition get2 :: "(bytes \<Rightarrow> HeaderName option) \<Rightarrow> HeaderMap \<Rightarrow> AsName \<Rightarrow> Value option" where
  "get2 parse_name m name =
     (case name of
        Left name \<Rightarrow> inner m name
      | Right s \<Rightarrow> (case parse_name s of Some name \<Rightarrow> inner m name | None \<Rightarrow> None))"

text \<open>\<open>None\<close>: panic; \<open>Some None\<close>: no value for this name.\<close>

definition HeaderMap_get ::
    "(bytes \<Rightarrow> HeaderName option) \<Rightarrow> HeaderMap \<Rightarrow> AsName \<Rightarrow> HeaderValue option option" where
  "HeaderMap_get parse_name m name =
     (case get2 parse_name m name of None \<Rightarrow> Some None
      | Some v \<Rightarrow> (case Value_get v of None \<Rightarrow> None | Some x \<Rightarrow> Some (Some x)))"

definition contains_key :: "(bytes \<Rightarrow> HeaderName option) \<Rightarrow> HeaderMap \<Rightarrow> AsName \<Rightarrow> bool" where
  "contains_key parse_name m key =
     (case key of
        Left name \<Rightarrow> inner m name \<noteq> None
      | Right s \<Rightarrow> (case parse_name s of Some name \<Rightarrow> inner m name \<noteq> None | None \<Rightarrow> False))"

definition HeaderMap_insert :: "HeaderMap \<Rightarrow> HeaderName \<Rightarrow> HeaderValue \<Rightarrow> HeaderMap" where
  "HeaderMap_insert m key val = m\<lparr>inner := (inner m)(key \<mapsto> One val)\<rparr>"

definition HeaderMap_append :: "HeaderMap \<Rightarrow> HeaderName \<Rightarrow> HeaderValue \<Rightarrow> HeaderMap" where
  "HeaderMap_append m key val =
     (case inner m key of
        Some v \<Rightarrow> m\<lparr>inner := (inner m)(key \<mapsto> Value_append v val)\<rparr>
      | None \<Rightarrow> m\<lparr>inner := (inner m)(key \<mapsto> One val)\<rparr>)"

definition HeaderMap_remove :: "(bytes \<Rightarrow> HeaderName option) \<Rightarrow> HeaderMap \<Rightarrow> AsName \<Rightarrow> HeaderMap" where
  "HeaderMap_remove parse_name m key =
     (case key of
        Left name \<Rightarrow> m\<lparr>inner := (inner m)(name := None)\<rparr>
      | Right s \<Rightarrow> (case parse_name s of Some name \<Rightarrow> m\<lparr>inner := (inner m)(name := None)\<rparr>
                   | None \<Rightarrow> m))"

text \<open>The borrowing iterator over the values of one name.\<close>

record GetAll =
  idx :: nat
  item :: "Value option"

definition get_all :: "(bytes \<Rightarrow> HeaderName option) \<Rightarrow> HeaderMap \<Rightarrow> AsName \<Rightarrow> GetAll" where
  "get_all parse_name m name = \<lparr>idx = 0, item = get2 parse_name m name\<rparr>"

definition GetAll_next :: "GetAll \<Rightarrow> HeaderValue option \<times> GetAll" where
  "GetAll_next g =
     (case item g of
        None \<Rightarrow> (None, g)
      | Some (One val) \<Rightarrow> (Some val, g\<lparr>item := None\<rparr>)
      | Some (Multi vec) \<Rightarrow>
          if idx g < length vec then (Some (vec ! idx g), g\<lparr>idx := idx g + 1\<rparr>)
          else (None, g\<lparr>item := None\<rparr>))"

text \<open>The iterator over all entries; \<open>rest\<close> is what the inner iterator has left.\<close>

record Iter =
  iter_idx :: nat
  current :: "(HeaderName \<times> HeaderValue list) option"
  rest :: "(HeaderName \<times> Value) list"

definition Iter_new :: "(HeaderName \<times> Value) list \<Rightarrow> Iter" where
  "Iter_new entries = \<lparr>iter_idx = 0, current = None, rest = entries\<rparr>"

text \<open>
  \<open>Iter_inner\<close> is the part of \<^verbatim>\<open>next\<close> that advances the inner iterator, with its recursive
  call, which reaches an empty vector only by skipping to the next entry. \<^verbatim>\<open>idx\<close> is 0 whenever
  \<^verbatim>\<open>current\<close> is \<^verbatim>\<open>None\<close>.
\<close>

fun Iter_inner :: "(HeaderName \<times> Value) list \<Rightarrow> (HeaderName \<times> HeaderValue) option \<times> Iter" where
  "Iter_inner [] = (None, \<lparr>iter_idx = 0, current = None, rest = []\<rparr>)"
| "Iter_inner ((name, One val) # es) =
     (Some (name, val), \<lparr>iter_idx = 0, current = None, rest = es\<rparr>)"
| "Iter_inner ((name, Multi []) # es) = Iter_inner es"
| "Iter_inner ((name, Multi (val # vec)) # es) =
     (Some (name, val), \<lparr>iter_idx = 1, current = Some (name, val # vec), rest = es\<rparr>)"

definition Iter_next :: "Iter \<Rightarrow> (HeaderName \<times> HeaderValue) option \<times> Iter" where
  "Iter_next it =
     (case current it of
        Some (name, vec) \<Rightarrow>
          if iter_idx it < length vec
          then (Some (name, vec ! iter_idx it), it\<lparr>iter_idx := iter_idx it + 1\<rparr>)
          else Iter_inner (rest it)
      | None \<Rightarrow> Iter_inner (rest it))"

section \<open>Contents\<close>

text \<open>The values of a name in order of insertion: what a header map stands for.\<close>

fun Value_list :: "Value \<Rightarrow> HeaderValue list" where
  "Value_list (One v) = [v]"
| "Value_list (Multi vs) = vs"

definition values_of :: "HeaderMap \<Rightarrow> HeaderName \<Rightarrow> HeaderValue list" where
  "values_of m n = (case inner m n of None \<Rightarrow> [] | Some v \<Rightarrow> Value_list v)"

text \<open>No entry is empty; \<^verbatim>\<open>get\<close> relies on it.\<close>

definition header_map_ok :: "HeaderMap \<Rightarrow> bool" where
  "header_map_ok m \<longleftrightarrow> (\<forall>n. inner m n \<noteq> Some (Multi []))"

lemma Value_list_append [simp]: "Value_list (Value_append v x) = Value_list v @ [x]"
  by (cases v) auto

lemma Value_list_extend [simp]: "Value_list (Value_extend v xs) = Value_list v @ xs"
  by (induction v xs rule: Value_extend.induct) auto

lemma Value_append_ne [simp]: "Value_append v x \<noteq> Multi []" "Multi [] \<noteq> Value_append v x"
  by (cases v; simp)+

text \<open>Runs an iterator to its end; \<open>n\<close> bounds the number of steps.\<close>

fun collect :: "('s \<Rightarrow> 'a option \<times> 's) \<Rightarrow> nat \<Rightarrow> 's \<Rightarrow> 'a list" where
  "collect nxt 0 s = []"
| "collect nxt (Suc n) s = (case nxt s of (None, _) \<Rightarrow> [] | (Some x, s') \<Rightarrow> x # collect nxt n s')"

lemma collect_GetAll_Multi:
  "length vec \<le> i + n \<Longrightarrow> i \<le> length vec \<Longrightarrow>
     collect GetAll_next n \<lparr>idx = i, item = Some (Multi vec)\<rparr> = drop i vec"
proof (induction n arbitrary: i)
  case (Suc n)
  then show ?case
    by (cases "i < length vec") (simp_all add: GetAll_next_def Cons_nth_drop_Suc)
qed simp

lemma collect_get_all:
  assumes "length (case get2 pn m name of None \<Rightarrow> [] | Some v \<Rightarrow> Value_list v) \<le> n"
  shows "collect GetAll_next n (get_all pn m name)
    = (case get2 pn m name of None \<Rightarrow> [] | Some v \<Rightarrow> Value_list v)"
proof (cases "get2 pn m name")
  case None
  then show ?thesis by (cases n) (simp_all add: get_all_def GetAll_next_def)
next
  case (Some v)
  show ?thesis
  proof (cases v)
    case (One x)
    then obtain k where "n = Suc k" using assms Some by (cases n) auto
    then show ?thesis using Some One
      by (cases k) (simp_all add: get_all_def GetAll_next_def)
  next
    case (Multi vec)
    then show ?thesis using assms Some collect_GetAll_Multi [of vec 0 n]
      by (simp add: get_all_def)
  qed
qed

section \<open>The multimap interface\<close>

locale multimap =
  fixes empty :: 'm
    and add :: "'m \<Rightarrow> 'k \<Rightarrow> 'v \<Rightarrow> 'm"
    and put :: "'m \<Rightarrow> 'k \<Rightarrow> 'v \<Rightarrow> 'm"
    and del :: "'m \<Rightarrow> 'k \<Rightarrow> 'm"
    and vals :: "'m \<Rightarrow> 'k \<Rightarrow> 'v list"
    and ok :: "'m \<Rightarrow> bool"
  assumes vals_empty: "vals empty k = []"
    and vals_add: "vals (add m k v) k' = (if k = k' then vals m k @ [v] else vals m k')"
    and vals_put: "vals (put m k v) k' = (if k = k' then [v] else vals m k')"
    and vals_del: "vals (del m k) k' = (if k = k' then [] else vals m k')"
    and ok_empty: "ok empty"
    and ok_add: "ok m \<Longrightarrow> ok (add m k v)"
    and ok_put: "ok m \<Longrightarrow> ok (put m k v)"
    and ok_del: "ok m \<Longrightarrow> ok (del m k)"
begin

text \<open>Headers appended in sequence are found under their name in the order they came.\<close>

lemma vals_add_all:
  "vals (foldl (\<lambda>m (k, v). add m k v) m kvs) k
     = vals m k @ map snd (filter (\<lambda>p. fst p = k) kvs)"
  by (induction kvs arbitrary: m) (auto simp: vals_add)

lemma vals_add_all_empty:
  "vals (foldl (\<lambda>m (k, v). add m k v) empty kvs) k = map snd (filter (\<lambda>p. fst p = k) kvs)"
  by (simp add: vals_add_all vals_empty)

lemma ok_add_all: "ok m \<Longrightarrow> ok (foldl (\<lambda>m (k, v). add m k v) m kvs)"
  by (induction kvs arbitrary: m) (auto simp: ok_add)

end

interpretation hm: multimap HeaderMap_new HeaderMap_append HeaderMap_insert
  "\<lambda>m n. HeaderMap_remove pn m (Left n)" values_of header_map_ok for pn
  by unfold_locales
     (auto simp: HeaderMap_new_def HeaderMap_append_def HeaderMap_insert_def HeaderMap_remove_def
       values_of_def header_map_ok_def split: option.splits)

section \<open>Properties\<close>

text \<open>Every way a header map is changed.\<close>

datatype HeaderOp =
    Insert HeaderName HeaderValue | Append HeaderName HeaderValue | Remove AsName | Clear

fun HeaderOp_apply :: "(bytes \<Rightarrow> HeaderName option) \<Rightarrow> HeaderMap \<Rightarrow> HeaderOp \<Rightarrow> HeaderMap" where
  "HeaderOp_apply pn m (Insert k v) = HeaderMap_insert m k v"
| "HeaderOp_apply pn m (Append k v) = HeaderMap_append m k v"
| "HeaderOp_apply pn m (Remove k) = HeaderMap_remove pn m k"
| "HeaderOp_apply pn m Clear = HeaderMap_clear m"

lemma HeaderMap_clear_ok: "header_map_ok (HeaderMap_clear m)"
  by (simp add: HeaderMap_clear_def header_map_ok_def)

lemma HeaderMap_remove_ok: "header_map_ok m \<Longrightarrow> header_map_ok (HeaderMap_remove pn m k)"
  using hm.ok_del [of m pn]
  by (auto simp: HeaderMap_remove_def split: AsName.splits option.splits)

lemma HeaderOp_ok: "header_map_ok m \<Longrightarrow> header_map_ok (HeaderOp_apply pn m op)"
  by (cases op) (auto simp: hm.ok_put hm.ok_add HeaderMap_clear_ok HeaderMap_remove_ok)

lemma foldl_HeaderOp_ok:
  "header_map_ok m \<Longrightarrow> header_map_ok (foldl (HeaderOp_apply pn) m ops)"
  by (induction ops arbitrary: m) (simp_all add: HeaderOp_ok)

lemma HeaderMap_get_values:
  assumes "header_map_ok m"
  shows "HeaderMap_get pn m name = Some (case collect GetAll_next (Suc 0) (get_all pn m name) of
      [] \<Rightarrow> None | v # _ \<Rightarrow> Some v)"
proof (cases "get2 pn m name")
  case None
  then show ?thesis by (simp add: HeaderMap_get_def get_all_def GetAll_next_def)
next
  case (Some v)
  then have "v \<noteq> Multi []"
    using assms by (auto simp: get2_def header_map_ok_def split: AsName.splits option.splits)
  then show ?thesis using Some
    by (cases v rule: Value_get.cases)
       (auto simp: HeaderMap_get_def get_all_def GetAll_next_def split: list.splits)
qed

text \<open>After any sequence of insertions, appends, removals and clears, \<^verbatim>\<open>HeaderMap::get\<close> does
  not panic on an empty entry and returns the first value that \<^verbatim>\<open>get_all\<close> iterates over, or none if
  that iterator is empty.\<close>

lemma header_map_get_first:
  "HeaderMap_get pn (foldl (HeaderOp_apply pn) HeaderMap_new ops) name
     = Some (case collect GetAll_next (Suc 0)
               (get_all pn (foldl (HeaderOp_apply pn) HeaderMap_new ops) name) of
               [] \<Rightarrow> None | v # _ \<Rightarrow> Some v)"
  by (rule HeaderMap_get_values) (rule foldl_HeaderOp_ok, rule hm.ok_empty)

text \<open>Headers appended one after the other are all found again: iterating over \<^verbatim>\<open>get_all\<close> for a
  name yields the values appended under it, in the order in which they were appended.\<close>

lemma header_map_append_lookup:
  "collect GetAll_next (Suc (length kvs))
     (get_all pn (foldl (\<lambda>m (k, v). HeaderMap_append m k v) HeaderMap_new kvs) (Left k))
   = map snd (filter (\<lambda>p. fst p = k) kvs)"
proof -
  let ?m = "foldl (\<lambda>m (k, v). HeaderMap_append m k v) HeaderMap_new kvs"
  have v: "(case get2 pn ?m (Left k) of None \<Rightarrow> [] | Some v \<Rightarrow> Value_list v)
      = map snd (filter (\<lambda>p. fst p = k) kvs)"
    using hm.vals_add_all_empty [of kvs k] by (simp add: get2_def values_of_def)
  have "length (map snd (filter (\<lambda>p. fst p = k) kvs)) \<le> Suc (length kvs)"
    by (simp add: le_SucI)
  then show ?thesis using collect_get_all [of pn ?m "Left k" "Suc (length kvs)"] unfolding v by simp
qed

text \<open>Iterating over the whole map.\<close>

definition entry_values :: "(HeaderName \<times> Value) list \<Rightarrow> (HeaderName \<times> HeaderValue) list" where
  "entry_values es = concat (map (\<lambda>(n, v). map (Pair n) (Value_list v)) es)"

definition iter_left :: "Iter \<Rightarrow> (HeaderName \<times> HeaderValue) list" where
  "iter_left it = (case current it of None \<Rightarrow> [] | Some (n, vec) \<Rightarrow> map (Pair n) (drop (iter_idx it) vec))
     @ entry_values (rest it)"

lemma Iter_inner_left:
  "case Iter_inner es of (None, it) \<Rightarrow> entry_values es = []
   | (Some p, it) \<Rightarrow> entry_values es = p # iter_left it"
  by (induction es rule: Iter_inner.induct)
     (auto simp: entry_values_def iter_left_def split: prod.splits option.splits)

lemma Iter_next_left:
  "case Iter_next it of (None, it') \<Rightarrow> iter_left it = [] | (Some p, it') \<Rightarrow> iter_left it = p # iter_left it'"
proof (cases "current it")
  case None
  then show ?thesis using Iter_inner_left [of "rest it"]
    by (auto simp: Iter_next_def iter_left_def [of it] split: prod.splits option.splits)
next
  case (Some c)
  obtain n vec where c: "c = (n, vec)" by fastforce
  show ?thesis
  proof (cases "iter_idx it < length vec")
    case True
    then have "drop (iter_idx it) vec = vec ! iter_idx it # drop (Suc (iter_idx it)) vec"
      by (simp add: Cons_nth_drop_Suc)
    then show ?thesis using Some c True by (simp add: Iter_next_def iter_left_def)
  next
    case False
    then show ?thesis using Some c Iter_inner_left [of "rest it"]
      by (auto simp: Iter_next_def iter_left_def [of it] split: prod.splits option.splits)
  qed
qed

lemma collect_Iter: "length (iter_left it) \<le> n \<Longrightarrow> collect Iter_next n it = iter_left it"
proof (induction n arbitrary: it)
  case (Suc n)
  then show ?case using Iter_next_left [of it] by (auto split: prod.splits option.splits)
qed simp

text \<open>Iterating over a header map yields every name with every one of its values, in order,
  and nothing else, for any order of the hash map's entries.\<close>

lemma header_map_iter_complete:
  "collect Iter_next (Suc (length (entry_values es))) (Iter_new es) = entry_values es"
proof -
  have "iter_left (Iter_new es) = entry_values es" by (simp add: Iter_new_def iter_left_def)
  then show ?thesis using collect_Iter [of "Iter_new es" "Suc (length (entry_values es))"]
    by (simp del: collect.simps)
qed

end
