(* ===== verification/Http_Types.thy ===== *)
theory Http_Types
  imports Header_Map
begin

text \<open>
  HTTP values shared by the encoder and the decoder: protocol versions, connection types,
  body sizes, errors, and the message heads of \<^verbatim>\<open>ntex/src/http/message.rs\<close>.

  \<^verbatim>\<open>Version\<close>, \<^verbatim>\<open>Method\<close> and \<^verbatim>\<open>StatusCode\<close> are types of the \<^verbatim>\<open>http\<close> crate: versions are
  ordered, a method is its name, a status its number. Of a \<^verbatim>\<open>Url\<close> the heads keep the results
  of the accessors that the encoder calls.
\<close>

section \<open>Versions\<close>

datatype Version = HTTP_09 | HTTP_10 | HTTP_11 | HTTP_2 | HTTP_3

fun version_rank :: "Version \<Rightarrow> nat" where
  "version_rank HTTP_09 = 0"
| "version_rank HTTP_10 = 1"
| "version_rank HTTP_11 = 2"
| "version_rank HTTP_2 = 3"
| "version_rank HTTP_3 = 4"

lemma version_rank_inj [simp]: "version_rank v = version_rank w \<longleftrightarrow> v = w"
  by (cases v; cases w) auto

instantiation Version :: linorder
begin

definition less_eq_Version :: "Version \<Rightarrow> Version \<Rightarrow> bool" where
  "less_eq_Version v w \<longleftrightarrow> version_rank v \<le> version_rank w"

definition less_Version :: "Version \<Rightarrow> Version \<Rightarrow> bool" where
  "less_Version v w \<longleftrightarrow> version_rank v < version_rank w"

instance
  by standard (auto simp: less_eq_Version_def less_Version_def)

end

section \<open>Connections, bodies and errors\<close>

datatype ConnectionType = Close | KeepAlive | Upgrade

datatype BodySize = BodySize_None | Empty | Sized u64 | BodySize_Stream

datatype EncodeError = UnsupportedVersion Version | UnexpectedEof | UnknownLength

datatype DecodeError =
    Method | Uri | DecodeError_Version | Header | MaxHeaders | TooLarge nat | StartLineTooLong nat
  | UnsupportedTransferCoding | Incomplete | Status | InvalidInput string | Utf8

section \<open>Header names and values\<close>

abbreviation "CONTENT_LENGTH \<equiv> ascii ''content-length''"
abbreviation "TRANSFER_ENCODING \<equiv> ascii ''transfer-encoding''"
abbreviation "CONNECTION \<equiv> ascii ''connection''"
abbreviation "DATE \<equiv> ascii ''date''"
abbreviation "HOST \<equiv> ascii ''host''"
abbreviation "H_UPGRADE \<equiv> ascii ''upgrade''"
abbreviation "H_EXPECT \<equiv> ascii ''expect''"

definition HeaderValue_is_valid :: "u8 \<Rightarrow> bool" where
  "HeaderValue_is_valid b \<longleftrightarrow> (b \<ge> 32 \<and> b \<noteq> 127) \<or> b = 9"

definition HeaderValue_try_from :: "bytes \<Rightarrow> HeaderValue option" where
  "HeaderValue_try_from s = (if list_all HeaderValue_is_valid s then Some s else None)"

section \<open>Message heads\<close>

datatype HeadFlag = CLOSE | KEEP_ALIVE | UPGRADE | EXPECT | NO_CHUNKING

record Url =
  uri_host :: "bytes option"
  uri_port_u16 :: "u16 option"
  uri_scheme_str :: "bytes option"
  uri_path_and_query :: bytes

text \<open>A header as received, with the spelling of its name.\<close>

record HeaderItem =
  hi_name :: HeaderName
  hi_origin :: bytes
  hi_value :: HeaderValue

record RequestHead =
  req_uri :: Url
  req_method :: bytes
  req_version :: Version
  req_headers :: HeaderMap
  req_headers_vec :: "HeaderItem list"
  req_flags :: "HeadFlag set"

record ResponseHead =
  res_version :: Version
  res_status :: nat
  res_headers :: HeaderMap
  res_headers_vec :: "HeaderItem list"
  res_reason :: bytes
  res_flags :: "HeadFlag set"

fun ctype_flag :: "ConnectionType \<Rightarrow> HeadFlag" where
  "ctype_flag Close = CLOSE"
| "ctype_flag KeepAlive = KEEP_ALIVE"
| "ctype_flag Upgrade = UPGRADE"

definition req_set_connection_type :: "ConnectionType \<Rightarrow> RequestHead \<Rightarrow> RequestHead" where
  "req_set_connection_type ctype h = h\<lparr>req_flags := insert (ctype_flag ctype) (req_flags h)\<rparr>"

definition res_set_connection_type :: "ConnectionType \<Rightarrow> ResponseHead \<Rightarrow> ResponseHead" where
  "res_set_connection_type ctype h = h\<lparr>res_flags := insert (ctype_flag ctype) (res_flags h)\<rparr>"

text \<open>Both heads read their flags and version in the same way.\<close>

definition connection_type :: "HeadFlag set \<Rightarrow> Version \<Rightarrow> ConnectionType" where
  "connection_type flags version =
     (if CLOSE \<in> flags then Close
      else if KEEP_ALIVE \<in> flags then KeepAlive
      else if UPGRADE \<in> flags then Upgrade
      else if version < HTTP_11 then Close
      else KeepAlive)"

definition req_connection_type :: "RequestHead \<Rightarrow> ConnectionType" where
  "req_connection_type h = connection_type (req_flags h) (req_version h)"

definition res_connection_type :: "ResponseHead \<Rightarrow> ConnectionType" where
  "res_connection_type h = connection_type (res_flags h) (res_version h)"

definition req_upgrade :: "RequestHead \<Rightarrow> bool" where
  "req_upgrade h \<longleftrightarrow> UPGRADE \<in> req_flags h"

definition req_chunked :: "RequestHead \<Rightarrow> bool" where
  "req_chunked h \<longleftrightarrow> NO_CHUNKING \<notin> req_flags h"

definition res_chunked :: "ResponseHead \<Rightarrow> bool" where
  "res_chunked h \<longleftrightarrow> NO_CHUNKING \<notin> res_flags h"

definition req_no_chunking :: "bool \<Rightarrow> RequestHead \<Rightarrow> RequestHead" where
  "req_no_chunking val h = h\<lparr>req_flags :=
     (if val then insert NO_CHUNKING (req_flags h) else req_flags h - {NO_CHUNKING})\<rparr>"

definition req_set_expect :: "RequestHead \<Rightarrow> RequestHead" where
  "req_set_expect h = h\<lparr>req_flags := insert EXPECT (req_flags h)\<rparr>"

definition req_set_upgrade :: "RequestHead \<Rightarrow> RequestHead" where
  "req_set_upgrade h = h\<lparr>req_flags := insert UPGRADE (req_flags h)\<rparr>"

text \<open>Close wins over keep-alive, keep-alive over upgrade, whatever the order of the calls.\<close>

lemma connection_type_calls:
  "connection_type (ctype_flag ` set ctypes) version =
     (if Close \<in> set ctypes then Close else if KeepAlive \<in> set ctypes then KeepAlive
      else if Upgrade \<in> set ctypes then Upgrade
      else if version < HTTP_11 then Close else KeepAlive)"
proof -
  have inj: "inj ctype_flag"
    by (rule injI) (metis ConnectionType.exhaust HeadFlag.distinct(1,3,9) ctype_flag.simps)
  then have "CLOSE \<in> ctype_flag ` set ctypes \<longleftrightarrow> Close \<in> set ctypes"
    "KEEP_ALIVE \<in> ctype_flag ` set ctypes \<longleftrightarrow> KeepAlive \<in> set ctypes"
    "UPGRADE \<in> ctype_flag ` set ctypes \<longleftrightarrow> Upgrade \<in> set ctypes"
    using inj_image_mem_iff [OF inj, of _ "set ctypes"] by (metis ctype_flag.simps)+
  then show ?thesis by (simp add: connection_type_def)
qed

end
