(* ===== verification/Ws_Handshake.thy ===== *)
theory Ws_Handshake
  imports Http_Types
begin

text \<open>
  The WebSocket opening handshake: \<^verbatim>\<open>verify_handshake\<close> and \<^verbatim>\<open>handshake_response\<close> of
  \<^verbatim>\<open>ntex/src/ws/handshake.rs\<close>, the challenge response \<^verbatim>\<open>hash_key\<close> with its own SHA-1 of
  \<^verbatim>\<open>ntex/src/ws/proto.rs\<close>, and the part of \<^verbatim>\<open>ResponseBuilder\<close> (\<^verbatim>\<open>ntex/src/http/response.rs\<close>)
  that the response is built with. The \<^verbatim>\<open>base64\<close> crate is a pair of parameters.
\<close>

section \<open>Challenge response\<close>

datatype HandshakeError =
    GetMethodRequired | NoWebsocketUpgrade | NoConnectionUpgrade | NoVersionHeader
  | UnsupportedVersion | BadWebsocketKey | BadWebsocketProtocol

definition WS_GUID :: bytes where
  "WS_GUID = ascii ''258EAFA5-E914-47DA-95CA-C5AB0DC85B11''"

function pad_loop :: "bytes \<Rightarrow> nat \<Rightarrow> bytes \<times> nat" where
  "pad_loop input cur =
     (if (cur * 8) mod 512 \<noteq> 448 then pad_loop (input[cur := 0]) (cur + 1) else (input, cur))"
  by auto

lemma pad_step:
  fixes cur :: nat
  assumes "(cur * 8) mod 512 \<noteq> 448"
  shows "(120 - (cur + 1) mod 64) mod 64 < (120 - cur mod 64) mod 64"
proof -
  define c where "c = cur mod 64"
  have "(cur * 8) mod (64 * 8) = cur mod 64 * 8" by (rule mult_mod_left [symmetric])
  then have c: "c \<noteq> 56" "c < 64" using assms by (auto simp: c_def)
  have s: "(cur + 1) mod 64 = (if c = 63 then 0 else c + 1)" by (simp add: c_def mod_Suc)
  consider "c < 56" | "56 < c" "c < 63" | "c = 63" using c by linarith
  then show ?thesis
  proof cases
    case 1
    then have "(120 - c) mod 64 = 56 - c" "(120 - (c + 1)) mod 64 = 56 - (c + 1)"
      by (simp_all add: le_mod_geq)
    then show ?thesis using s 1 by (simp flip: c_def)
  next
    case 2
    then have "(120 - c) mod 64 = 120 - c" "(120 - (c + 1)) mod 64 = 120 - (c + 1)" by simp_all
    then show ?thesis using s 2 by (simp flip: c_def)
  next
    case 3
    then show ?thesis using s by (simp flip: c_def)
  qed
qed

termination pad_loop
  by (relation "measure (\<lambda>(input, cur). (120 - cur mod 64) mod 64)")
     (use pad_step in \<open>simp_all\<close>)

declare pad_loop.simps [simp del]

definition pad_message :: "nat \<Rightarrow> bytes \<Rightarrow> bytes" where
  "pad_message len input =
     (let cur = len + 1;
          bit_length = of_nat len * (8 :: u64);
          input = input[len := 0x80];
          (input, cur) = pad_loop input cur;
          orig_len = u64_to_be_bytes bit_length;
          total = cur + length orig_len
      in take total (copy_at cur orig_len input))"

text \<open>\<^verbatim>\<open>slice::chunks\<close>.\<close>

function chunks :: "nat \<Rightarrow> 'a list \<Rightarrow> 'a list list" where
  "chunks n xs = (if xs = [] \<or> n = 0 then [] else take n xs # chunks n (drop n xs))"
  by auto
termination by (relation "measure (\<lambda>(n, xs). length xs)") auto

declare chunks.simps [simp del]

definition sha1_extend :: "u32 list \<Rightarrow> nat \<Rightarrow> u32 list" where
  "sha1_extend s i =
     (let s = s[i := s ! (i - 3) XOR s ! (i - 8) XOR s ! (i - 14) XOR s ! (i - 16)]
      in s[i := word_rotl 1 (s ! i)])"

definition sha1_schedule :: "bytes \<Rightarrow> u32 list" where
  "sha1_schedule chunk =
     (let s = replicate 80 0;
          s = foldl (\<lambda>s (i, block). s[i := u32_from_be_bytes block]) s
                (List.enumerate 0 (chunks 4 chunk))
      in foldl sha1_extend s [16..<80])"

type_synonym sha1_state = "u32 \<times> u32 \<times> u32 \<times> u32 \<times> u32"

definition sha1_round :: "sha1_state \<Rightarrow> nat \<times> u32 \<Rightarrow> sha1_state" where
  "sha1_round st isch =
     (case (st, isch) of ((a, b, c, d, e), (i, sch)) \<Rightarrow>
        let (f, k) = (if i \<le> 19 then ((b AND c) OR (NOT b AND d), 0x5A827999)
                      else if i \<le> 39 then (b XOR c XOR d, 0x6ED9EBA1)
                      else if i \<le> 59 then ((b AND c) OR (b AND d) OR (c AND d), 0x8F1BBCDC)
                      else (b XOR c XOR d, 0xCA62C1D6));
            temp = word_rotl 5 a + f + e + k + sch
        in (temp, a, word_rotl 30 b, c, d))"

definition sha1_chunk :: "sha1_state \<Rightarrow> bytes \<Rightarrow> sha1_state" where
  "sha1_chunk h chunk =
     (case h of (h0, h1, h2, h3, h4) \<Rightarrow>
      case foldl sha1_round h (List.enumerate 0 (sha1_schedule chunk)) of
        (a, b, c, d, e) \<Rightarrow> (h0 + a, h1 + b, h2 + c, h3 + d, h4 + e))"

definition hash_key :: "(bytes \<Rightarrow> bytes) \<Rightarrow> bytes \<Rightarrow> (HandshakeError, bytes) result" where
  "hash_key b64_encode key =
     (if length key > 32 then Inl BadWebsocketKey
      else
        let input = replicate 192 0;
            klen = length key;
            len = klen + 36;
            input = copy_at 0 key input;
            input = copy_at klen WS_GUID input;
            msg = pad_message len input;
            (h0, h1, h2, h3, h4) =
              foldl sha1_chunk (0x67452301, 0xEFCDAB89, 0x98BADCFE, 0x10325476, 0xC3D2E1F0)
                (chunks 64 msg)
        in Inr (b64_encode (u32_to_be_bytes h0 @ u32_to_be_bytes h1 @ u32_to_be_bytes h2
                 @ u32_to_be_bytes h3 @ u32_to_be_bytes h4)))"

section \<open>Request validation\<close>

abbreviation "SEC_WEBSOCKET_VERSION \<equiv> ascii ''sec-websocket-version''"
abbreviation "SEC_WEBSOCKET_KEY \<equiv> ascii ''sec-websocket-key''"
abbreviation "SEC_WEBSOCKET_ACCEPT \<equiv> ascii ''sec-websocket-accept''"

text \<open>
  \<open>values_of\<close> is what iterating over \<^verbatim>\<open>get_all\<close> yields (theorem
  \<open>header_map_get_first\<close> and lemma \<open>collect_get_all\<close> in \<open>Header_Map\<close>).
\<close>

definition header_contains_token :: "HeaderMap \<Rightarrow> HeaderName \<Rightarrow> bytes \<Rightarrow> bool" where
  "header_contains_token headers name expected \<longleftrightarrow>
     list_ex (\<lambda>v. utf8_valid v \<and>
         list_ex (\<lambda>token. eq_ignore_ascii_case (str_trim token) expected) (split_on 44 v))
       (values_of headers name)"

definition verify_handshake ::
    "(bytes \<Rightarrow> bytes option) \<Rightarrow> RequestHead \<Rightarrow> (HandshakeError, unit) result" where
  "verify_handshake b64_decode req =
     (if req_method req \<noteq> ascii ''GET'' then Inl GetMethodRequired
      else if \<not> header_contains_token (req_headers req) H_UPGRADE (ascii ''websocket'')
      then Inl NoWebsocketUpgrade
      else if \<not> header_contains_token (req_headers req) CONNECTION (ascii ''upgrade'')
      then Inl NoConnectionUpgrade
      else if inner (req_headers req) SEC_WEBSOCKET_VERSION = None then Inl NoVersionHeader
      else if (case values_of (req_headers req) SEC_WEBSOCKET_VERSION of
                 [] \<Rightarrow> True | ver # vs \<Rightarrow> ver \<noteq> ascii ''13'' \<or> vs \<noteq> [])
      then Inl UnsupportedVersion
      else if \<not> (case values_of (req_headers req) SEC_WEBSOCKET_KEY of
                   [] \<Rightarrow> False
                 | k # ks \<Rightarrow> (case b64_decode k of None \<Rightarrow> False | Some d \<Rightarrow> length d = 16) \<and> ks = [])
      then Inl BadWebsocketKey
      else Inr ())"

section \<open>Response\<close>

record ResponseBuilder =
  status :: nat
  conn_upgrade :: bool
  rb_headers :: HeaderMap
  rb_err :: bool

text \<open>The keys the handshake uses are header names already.\<close>

definition rb_header :: "HeaderName \<Rightarrow> bytes \<Rightarrow> ResponseBuilder \<Rightarrow> ResponseBuilder" where
  "rb_header key val rb =
     (if rb_err rb then rb
      else case HeaderValue_try_from val of
             Some v \<Rightarrow> rb\<lparr>rb_headers := HeaderMap_append (rb_headers rb) key v\<rparr>
           | None \<Rightarrow> rb\<lparr>rb_err := True\<rparr>)"

definition rb_set_header :: "HeaderName \<Rightarrow> bytes \<Rightarrow> ResponseBuilder \<Rightarrow> ResponseBuilder" where
  "rb_set_header key val rb =
     (if rb_err rb then rb
      else case HeaderValue_try_from val of
             Some v \<Rightarrow> rb\<lparr>rb_headers := HeaderMap_insert (rb_headers rb) key v\<rparr>
           | None \<Rightarrow> rb\<lparr>rb_err := True\<rparr>)"

definition rb_upgrade :: "bytes \<Rightarrow> ResponseBuilder \<Rightarrow> ResponseBuilder" where
  "rb_upgrade val rb =
     rb_set_header H_UPGRADE val (if rb_err rb then rb else rb\<lparr>conn_upgrade := True\<rparr>)"

text \<open>\<open>None\<close>: a panic in \<^verbatim>\<open>unwrap\<close> or \<^verbatim>\<open>expect\<close>.\<close>

definition handshake_response :: "(bytes \<Rightarrow> bytes) \<Rightarrow> RequestHead \<Rightarrow> ResponseBuilder option" where
  "handshake_response b64_encode req =
     (case values_of (req_headers req) SEC_WEBSOCKET_KEY of
        [] \<Rightarrow> None
      | key # _ \<Rightarrow>
          (case hash_key b64_encode key of
             Inl _ \<Rightarrow> None
           | Inr key \<Rightarrow> Some (rb_header SEC_WEBSOCKET_ACCEPT key (rb_upgrade (ascii ''websocket'')
               \<lparr>status = 101, conn_upgrade = False, rb_headers = HeaderMap_new, rb_err = False\<rparr>))))"

definition handshake ::
    "(bytes \<Rightarrow> bytes) \<Rightarrow> (bytes \<Rightarrow> bytes option) \<Rightarrow> RequestHead
     \<Rightarrow> (HandshakeError failure, ResponseBuilder) result" where
  "handshake b64_encode b64_decode req =
     (case verify_handshake b64_decode req of
        Inl err \<Rightarrow> Inl (Err err)
      | Inr _ \<Rightarrow> (case handshake_response b64_encode req of None \<Rightarrow> Inl Panic | Some r \<Rightarrow> Inr r))"

section \<open>SHA-1\<close>

text \<open>
  The hash function as the standard (FIPS 180-4) defines it: padding to a multiple of 64 bytes, the
  message schedule as a recurrence, 80 rounds per block.
\<close>

definition sha1_pad :: "bytes \<Rightarrow> bytes" where
  "sha1_pad m = m @ [0x80] @ replicate ((120 - (length m + 1) mod 64) mod 64) 0
     @ be_bytes 8 (8 * length m)"

function sha1_w :: "u32 list \<Rightarrow> nat \<Rightarrow> u32" where
  "sha1_w blk t = (if t < 16 then blk ! t
     else word_rotl 1 (sha1_w blk (t - 3) XOR sha1_w blk (t - 8) XOR sha1_w blk (t - 14)
            XOR sha1_w blk (t - 16)))"
  by auto
termination by (relation "measure (\<lambda>(blk, t). t)") auto

declare sha1_w.simps [simp del]

definition Ch :: "u32 \<Rightarrow> u32 \<Rightarrow> u32 \<Rightarrow> u32" where
  "Ch x y z = (x AND y) XOR (NOT x AND z)"

definition Parity :: "u32 \<Rightarrow> u32 \<Rightarrow> u32 \<Rightarrow> u32" where
  "Parity x y z = x XOR y XOR z"

definition Maj :: "u32 \<Rightarrow> u32 \<Rightarrow> u32 \<Rightarrow> u32" where
  "Maj x y z = (x AND y) XOR (x AND z) XOR (y AND z)"

definition sha1_f :: "nat \<Rightarrow> u32 \<Rightarrow> u32 \<Rightarrow> u32 \<Rightarrow> u32" where
  "sha1_f t = (if t < 20 then Ch else if t < 40 then Parity else if t < 60 then Maj else Parity)"

definition sha1_k :: "nat \<Rightarrow> u32" where
  "sha1_k t = (if t < 20 then 0x5A827999 else if t < 40 then 0x6ED9EBA1
     else if t < 60 then 0x8F1BBCDC else 0xCA62C1D6)"

fun sha1_step :: "u32 list \<Rightarrow> nat \<Rightarrow> sha1_state \<Rightarrow> sha1_state" where
  "sha1_step blk t (a, b, c, d, e) =
     (word_rotl 5 a + sha1_f t b c d + e + sha1_k t + sha1_w blk t, a, word_rotl 30 b, c, d)"

fun sha1_add :: "sha1_state \<Rightarrow> sha1_state \<Rightarrow> sha1_state" where
  "sha1_add (a, b, c, d, e) (a', b', c', d', e') = (a + a', b + b', c + c', d + d', e + e')"

definition sha1_block :: "sha1_state \<Rightarrow> bytes \<Rightarrow> sha1_state" where
  "sha1_block h blk =
     sha1_add h (fold (sha1_step (map u32_from_be_bytes (chunks 4 blk))) [0..<80] h)"

fun sha1_digest :: "sha1_state \<Rightarrow> bytes" where
  "sha1_digest (a, b, c, d, e) = concat (map u32_to_be_bytes [a, b, c, d, e])"

definition sha1 :: "bytes \<Rightarrow> bytes" where
  "sha1 m = sha1_digest (foldl sha1_block
     (0x67452301, 0xEFCDAB89, 0x98BADCFE, 0x10325476, 0xC3D2E1F0) (chunks 64 (sha1_pad m)))"

lemma code_Ch: "(b AND c) OR (NOT b AND d) = Ch b c d" for b c d :: u32
  by (rule bit_word_eqI) (auto simp: Ch_def bit_simps)

lemma code_Maj: "(b AND c) OR (b AND d) OR (c AND d) = Maj b c d" for b c d :: u32
  by (rule bit_word_eqI) (auto simp: Maj_def bit_simps)

lemma code_round: "sha1_round (a, b, c, d, e) (t, w) =
    (word_rotl 5 a + sha1_f t b c d + e + sha1_k t + w, a, word_rotl 30 b, c, d)"
  by (simp add: sha1_round_def sha1_f_def sha1_k_def code_Ch code_Maj Parity_def)

lemma foldl_update_enumerate:
  "k + length bs \<le> length s \<Longrightarrow>
     foldl (\<lambda>s (i, b). s[i := f b]) s (List.enumerate k bs)
     = take k s @ map f bs @ drop (k + length bs) s"
proof (induction bs arbitrary: s k)
  case (Cons b bs)
  have "foldl (\<lambda>s (i, b). s[i := f b]) (s[k := f b]) (List.enumerate (Suc k) bs)
      = take (Suc k) (s[k := f b]) @ map f bs @ drop (Suc k + length bs) (s[k := f b])"
    using Cons.prems by (intro Cons.IH) simp
  also have "take (Suc k) (s[k := f b]) = take k s @ [f b]"
    using Cons.prems by (simp add: take_Suc_conv_app_nth)
  finally show ?case using Cons.prems by simp
qed simp

lemma length_chunks: "0 < n \<Longrightarrow> length xs = n * k \<Longrightarrow> length (chunks n xs) = k"
proof (induction k arbitrary: xs)
  case 0
  then show ?case by (simp add: chunks.simps [of n "[]"])
next
  case (Suc k)
  then show ?case by (subst chunks.simps) auto
qed

lemma chunks_length: "b \<in> set (chunks n xs) \<Longrightarrow> n dvd length xs \<Longrightarrow> length b = n"
proof (induction n xs rule: chunks.induct)
  case (1 n xs)
  from "1.prems"(1) have ne: "\<not> (xs = [] \<or> n = 0)" by (subst (asm) chunks.simps) (auto split: if_splits)
  then have le: "n \<le> length xs" using "1.prems"(2) by (auto dest: dvd_imp_le)
  from "1.prems"(1) ne have "b = take n xs \<or> b \<in> set (chunks n (drop n xs))"
    by (subst (asm) chunks.simps) auto
  then show ?case
  proof
    assume "b \<in> set (chunks n (drop n xs))"
    then show ?thesis using "1.IH" [OF ne] "1.prems"(2) le by (simp add: dvd_diff_nat)
  qed (use le in simp)
qed

lemma length_foldl_extend [simp]: "length (foldl sha1_extend s is) = length s"
  by (induction "is" arbitrary: s) (simp_all add: sha1_extend_def Let_def)

lemma foldl_extend:
  assumes "length s = 80" "\<And>t. t < 16 \<Longrightarrow> s ! t = blk ! t" "16 \<le> n" "n \<le> 80" "t < n"
  shows "foldl sha1_extend s [16..<n] ! t = sha1_w blk t"
  using assms(3-5)
proof (induction n arbitrary: t rule: dec_induct)
  case base
  then show ?case using assms(2) by (simp add: sha1_w.simps)
next
  case (step n)
  let ?s = "foldl sha1_extend s [16..<n]"
  have IH: "?s ! t = sha1_w blk t" if "t < n" for t using step that by simp
  have "foldl sha1_extend s [16..<Suc n] = sha1_extend ?s n" using step.hyps by simp
  moreover have "sha1_extend ?s n ! t = sha1_w blk t"
  proof (cases "t = n")
    case True
    have "sha1_extend ?s n ! n
        = word_rotl 1 (?s ! (n - 3) XOR ?s ! (n - 8) XOR ?s ! (n - 14) XOR ?s ! (n - 16))"
      using step.prems assms(1) by (simp add: sha1_extend_def Let_def)
    also have "\<dots> = sha1_w blk n"
      using step.hyps by (subst sha1_w.simps [of blk n]) (simp add: IH)
    finally show ?thesis using True by simp
  next
    case False
    then show ?thesis using step.prems IH by (simp add: sha1_extend_def Let_def)
  qed
  ultimately show ?case by simp
qed

lemma sha1_schedule_correct:
  assumes "length chunk = 64"
  shows "sha1_schedule chunk = map (sha1_w (map u32_from_be_bytes (chunks 4 chunk))) [0..<80]"
proof -
  let ?blk = "map u32_from_be_bytes (chunks 4 chunk)"
  let ?s = "?blk @ replicate 64 0"
  have len: "length (chunks 4 chunk) = 16" using assms by (intro length_chunks) simp_all
  have "sha1_schedule chunk = foldl sha1_extend ?s [16..<80]"
    using foldl_update_enumerate [of 0 "chunks 4 chunk" "replicate 80 0" u32_from_be_bytes] len
    by (simp add: sha1_schedule_def Let_def del: upt_rec_numeral)
  moreover have "foldl sha1_extend ?s [16..<80] ! t = sha1_w ?blk t" if "t < 80" for t
    using foldl_extend [of ?s ?blk 80 t] len that by (simp add: nth_append del: upt_rec_numeral)
  ultimately show ?thesis
    using len by (intro nth_equalityI) (simp_all del: upt_rec_numeral)
qed

lemma rounds_correct:
  "foldl sha1_round h (List.enumerate k (map (sha1_w blk) [k..<m])) = fold (sha1_step blk) [k..<m] h"
proof (induction "m - k" arbitrary: h k)
  case (Suc n)
  then have "[k..<m] = k # [Suc k..<m]" by (simp add: upt_conv_Cons)
  moreover have "sha1_round h (k, sha1_w blk k) = sha1_step blk k h"
    by (cases h) (simp add: code_round)
  ultimately show ?case using Suc.hyps by simp
qed simp

lemma sha1_chunk_correct: "length chunk = 64 \<Longrightarrow> sha1_chunk h chunk = sha1_block h chunk"
  using rounds_correct [of h 0 "map u32_from_be_bytes (chunks 4 chunk)" 80]
  by (cases h)
     (simp add: sha1_chunk_def sha1_block_def sha1_schedule_correct split: prod.splits
       del: upt_rec_numeral)

lemma foldl_sha1_chunk:
  "64 dvd length msg \<Longrightarrow> foldl sha1_chunk h (chunks 64 msg) = foldl sha1_block h (chunks 64 msg)"
  by (rule foldl_cong) (auto simp: sha1_chunk_correct dest: chunks_length)

lemma pad_zeros: "(120 - n mod 64) mod 64 = (if n mod 64 \<le> 56 then 56 - n mod 64 else 120 - n mod 64)"
  for n :: nat
proof (cases "n mod 64 \<le> 56")
  case True
  then have "120 - n mod 64 = 64 + (56 - n mod 64)" by simp
  then show ?thesis using True by (simp only: mod_add_self1) simp
qed simp

lemma length_sha1_pad: "64 dvd length (sha1_pad m)"
proof -
  define n where "n = length m + 1"
  define q r where "q = n div 64" and "r = n mod 64"
  have "n = 64 * q + r" "r < 64" by (simp_all add: q_def r_def)
  moreover have "(120 - n mod 64) mod 64 = (if r \<le> 56 then 56 - r else 120 - r)"
    using pad_zeros [of n] by (simp only: r_def)
  ultimately have "n + (120 - n mod 64) mod 64 + 8 = 64 * (q + (if r \<le> 56 then 1 else 2))" by simp
  moreover have "length (sha1_pad m) = n + (120 - n mod 64) mod 64 + 8"
    by (simp add: sha1_pad_def n_def)
  ultimately show ?thesis by (metis dvd_triv_left)
qed

lemma pad_loop_eq:
  "cur + (120 - cur mod 64) mod 64 \<le> length input \<Longrightarrow>
     pad_loop input cur = (copy_at cur (replicate ((120 - cur mod 64) mod 64) 0) input,
       cur + (120 - cur mod 64) mod 64)"
proof (induction input cur rule: pad_loop.induct)
  case (1 input cur)
  have eq: "(cur * 8) mod 512 = cur mod 64 * 8" using mult_mod_left [of cur 64 8] by simp
  show ?case
  proof (cases "cur mod 64 = 56")
    case True
    then show ?thesis by (simp add: pad_loop.simps [of input cur] eq copy_at_def)
  next
    case False
    then have ne: "(cur * 8) mod 512 \<noteq> 448" using eq by simp
    define k where "k = (120 - Suc cur mod 64) mod 64"
    have k: "(120 - cur mod 64) mod 64 = Suc k"
      using False mod_less_divisor [of 64 cur] unfolding k_def pad_zeros by (auto simp: mod_Suc)
    have "cur < length input" using "1.prems" k by simp
    then have "copy_at (Suc cur) (replicate k 0) (input[cur := 0]) = copy_at cur (replicate (Suc k) 0) input"
      by (simp add: copy_at_def take_Suc_conv_app_nth)
    moreover have "pad_loop input cur = pad_loop (input[cur := 0]) (cur + 1)"
      using ne by (subst pad_loop.simps) simp
    ultimately show ?thesis using "1.IH" [OF ne] "1.prems" k by (simp add: k_def [symmetric])
  qed
qed

lemma pad_message_correct:
  assumes "length m \<le> 68"
  shows "pad_message (length m) (m @ replicate (192 - length m) 0) = sha1_pad m"
proof -
  let ?n = "length m + 1" and ?in = "m @ replicate (192 - length m) 0"
  define k where "k = (120 - Suc (length m) mod 64) mod 64"
  have kl: "k < 64" by (simp add: k_def)
  have "192 - length m = Suc (191 - length m)" using assms by simp
  then have "?in[length m := 0x80] = m @ [0x80] @ replicate (191 - length m) 0"
    by (simp only: list_update_append replicate_Suc) simp
  moreover have "pad_loop (m @ [0x80] @ replicate (191 - length m) 0) ?n
      = (m @ [0x80] @ replicate (191 - length m) 0, ?n + k)"
    using pad_loop_eq [of ?n "m @ [0x80] @ replicate (191 - length m) 0"] assms kl
    by (simp add: k_def [symmetric] copy_at_def flip: replicate_add)
  moreover have "unat (of_nat (length m) * 8 :: u64) = 8 * length m"
    using assms by (simp add: unat_of_nat_u64 unat_word_ariths)
  moreover have "be_bytes 8 (8 * length m) \<noteq> []" by (simp flip: length_greater_0_conv)
  ultimately show ?thesis using assms kl
    by (simp add: pad_message_def sha1_pad_def copy_at_def u64_to_be_bytes_def k_def [symmetric]
        min_def Let_def)
qed

lemma hash_key_eq:
  "hash_key b64_encode key =
     (if length key > 32 then Inl BadWebsocketKey else Inr (b64_encode (sha1 (key @ WS_GUID))))"
proof (cases "length key > 32")
  case False
  let ?m = "key @ WS_GUID"
  have guid: "length WS_GUID = 36" by (simp add: WS_GUID_def ascii_def)
  have "copy_at (length key) WS_GUID (copy_at 0 key (replicate 192 0))
      = ?m @ replicate (192 - length ?m) 0"
    using False guid by (simp add: copy_at_def)
  moreover have "pad_message (length ?m) (?m @ replicate (192 - length ?m) 0) = sha1_pad ?m"
    using False guid by (intro pad_message_correct) simp
  moreover have "length key + 36 = length ?m" using guid by simp
  ultimately show ?thesis using False foldl_sha1_chunk [OF length_sha1_pad]
    by (simp add: hash_key_def sha1_def Let_def split: prod.splits)
qed (simp add: hash_key_def)

text \<open>C35. The hand-written SHA-1 of \<^verbatim>\<open>hash_key\<close>, on its fixed 192-byte buffer, computes the
  \<^verbatim>\<open>Sec-WebSocket-Accept\<close> value of RFC 6455: the base64 text of the SHA-1 digest of the key
  followed by the protocol's GUID. Keys of more than 32 bytes are refused.\<close>

theorem hash_key_sha1:
  "hash_key b64_encode key =
     (if length key > 32 then Inl BadWebsocketKey else Inr (b64_encode (sha1 (key @ WS_GUID))))"
  by (rule hash_key_eq)

section \<open>Handshake\<close>

text \<open>
  What the code relies on of the \<^verbatim>\<open>base64\<close> crate: the standard alphabet consists of printable
  characters, and the decoder accepts only padded input, four characters for three bytes.
\<close>

definition base64_padded :: "(bytes \<Rightarrow> bytes option) \<Rightarrow> bool" where
  "base64_padded dec \<longleftrightarrow> (\<forall>k d. dec k = Some d \<longrightarrow> length k = 4 * ((length d + 2) div 3))"

definition base64_printable :: "(bytes \<Rightarrow> bytes) \<Rightarrow> bool" where
  "base64_printable enc \<longleftrightarrow> (\<forall>d. list_all HeaderValue_is_valid (enc d))"

lemma verify_handshake_key:
  assumes "verify_handshake dec req = Inr ()" "base64_padded dec"
  obtains k where "values_of (req_headers req) SEC_WEBSOCKET_KEY = [k]" "length k = 24"
proof -
  from assms(1) obtain k d where "values_of (req_headers req) SEC_WEBSOCKET_KEY = [k]"
    "dec k = Some d" "length d = 16"
    by (auto simp: verify_handshake_def split: if_splits list.splits option.splits)
  with assms(2) that show thesis by (fastforce simp: base64_padded_def)
qed

lemma ascii_headers_distinct: "H_UPGRADE \<noteq> SEC_WEBSOCKET_ACCEPT"
  by (simp add: ascii_def)

lemma handshake_response_ok:
  assumes "values_of (req_headers req) SEC_WEBSOCKET_KEY = [k]" "length k = 24" "base64_printable enc"
  shows "\<exists>r. handshake_response enc req = Some r \<and> status r = 101 \<and> conn_upgrade r \<and> \<not> rb_err r
    \<and> values_of (rb_headers r) H_UPGRADE = [ascii ''websocket'']
    \<and> values_of (rb_headers r) SEC_WEBSOCKET_ACCEPT = [enc (sha1 (k @ WS_GUID))]"
proof -
  have ws: "HeaderValue_try_from (ascii ''websocket'') = Some (ascii ''websocket'')"
    by (simp add: HeaderValue_try_from_def HeaderValue_is_valid_def ascii_def)
  have "HeaderValue_try_from (enc (sha1 (k @ WS_GUID))) = Some (enc (sha1 (k @ WS_GUID)))"
    using assms(3) by (simp add: HeaderValue_try_from_def base64_printable_def)
  moreover have "hash_key enc k = Inr (enc (sha1 (k @ WS_GUID)))"
    using assms(2) hash_key_eq by simp
  ultimately show ?thesis using assms(1) ws ascii_headers_distinct
    by (simp add: handshake_response_def rb_upgrade_def rb_set_header_def rb_header_def
        hm.vals_add hm.vals_put hm.vals_empty)
qed

text \<open>C36. The server side of the opening handshake: it never panics (the \<^verbatim>\<open>unwrap\<close> and
  \<^verbatim>\<open>expect\<close> in \<^verbatim>\<open>handshake_response\<close> are guarded by the validation), and an accepted request is
  answered with status 101, the upgrade header and the challenge response for the one key of the
  request.\<close>

theorem handshake_correct:
  assumes "base64_padded dec" and "base64_printable enc"
  shows "handshake enc dec req \<noteq> Inl Panic
    \<and> (\<forall>r. handshake enc dec req = Inr r \<longrightarrow> status r = 101 \<and> conn_upgrade r \<and> \<not> rb_err r
        \<and> values_of (rb_headers r) H_UPGRADE = [ascii ''websocket'']
        \<and> (\<exists>k. values_of (req_headers req) SEC_WEBSOCKET_KEY = [k]
             \<and> values_of (rb_headers r) SEC_WEBSOCKET_ACCEPT = [enc (sha1 (k @ WS_GUID))]))"
proof (cases "verify_handshake dec req")
  case (Inr u)
  then have v: "verify_handshake dec req = Inr ()" by simp
  obtain k where k: "values_of (req_headers req) SEC_WEBSOCKET_KEY = [k]" "length k = 24"
    using v assms(1) by (rule verify_handshake_key)
  from handshake_response_ok [OF k assms(2)] show ?thesis using v k by (auto simp: handshake_def)
qed (simp add: handshake_def)

theorem handshake_correct_witness:
  "handshake (\<lambda>d. [0x61]) (\<lambda>k. if length k = 24 then Some (replicate 16 0) else None)
     \<lparr>req_uri = \<lparr>uri_host = None, uri_port_u16 = None, uri_scheme_str = None,
        uri_path_and_query = ascii ''/chat''\<rparr>,
      req_method = ascii ''GET'', req_version = HTTP_11, req_headers = HeaderMap_append (HeaderMap_append (HeaderMap_append
        (HeaderMap_append HeaderMap_new H_UPGRADE (ascii ''WebSocket''))
        CONNECTION (ascii ''keep-alive, Upgrade''))
        SEC_WEBSOCKET_VERSION (ascii ''13''))
        SEC_WEBSOCKET_KEY (ascii ''dGhlIHNhbXBsZSBub25jZQ==''), req_headers_vec = [], req_flags = {}\<rparr> \<noteq> Inl Panic"
  by (rule handshake_correct [THEN conjunct1])
     (auto simp: base64_padded_def base64_printable_def HeaderValue_is_valid_def)

end
