(* ===== verification/H1_Encoder.thy ===== *)
theory H1_Encoder
  imports Http_Types
begin

text \<open>
  The HTTP/1 message encoder, \<^verbatim>\<open>ntex/src/http/h1/encoder.rs\<close>: status line and headers, the
  framing headers chosen for a body, the transfer encodings, and the number formatting the
  encoder does by hand on fixed buffers. Written bytes are appended to the output contents.

  The iteration order of a header map's hash table is a parameter (\<open>entries\<close>), and so is the
  text of the cached date header.
\<close>

section \<open>Numbers\<close>

text \<open>The two-digit table; the source's continuation backslash skips the indentation.\<close>

definition DEC_DIGITS_LUT :: bytes where
  "DEC_DIGITS_LUT =
     ascii ''0001020304050607080910111213141516171819'' @
     ascii ''2021222324252627282930313233343536373839'' @
     ascii ''4041424344454647484950515253545556575859'' @
     ascii ''6061626364656667686970717273747576777879'' @
     ascii ''8081828384858687888990919293949596979899''"

text \<open>\<^verbatim>\<open>ptr::copy_nonoverlapping(lut_ptr.offset(d), buf_ptr.offset(at), 2)\<close>.\<close>

definition copy_lut :: "nat \<Rightarrow> nat \<Rightarrow> bytes \<Rightarrow> bytes" where
  "copy_lut d at buf = copy_at at (take 2 (drop d DEC_DIGITS_LUT)) buf"

text \<open>The loop that decodes four characters at a time.\<close>

function convert_loop :: "nat \<Rightarrow> nat \<Rightarrow> bytes \<Rightarrow> nat \<times> nat \<times> bytes" where
  "convert_loop n cur buf =
     (if n \<ge> 10000 then
        let rem = n mod 10000;
            n = n div 10000;
            d1 = (rem div 100) * 2;
            d2 = (rem mod 100) * 2;
            cur = cur - 4;
            buf = copy_lut d1 cur buf;
            buf = copy_lut d2 (cur + 2) buf
        in convert_loop n cur buf
      else (n, cur, buf))"
  by auto
termination by (relation "measure fst") (auto intro: div_less_dividend)

declare convert_loop.simps [simp del]

definition convert_usize :: "u64 \<Rightarrow> bytes \<Rightarrow> bool \<Rightarrow> bytes" where
  "convert_usize n bytes eol =
     (let cur = 39;
          buf = replicate 39 0 @ [13, 10];
          (n, cur, buf) = convert_loop (unat n) cur buf;
          (n, cur, buf) =
            (if n \<ge> 100 then
               let d1 = (n mod 100) * 2; n = n div 100; cur = cur - 2
               in (n, cur, copy_lut d1 cur buf)
             else (n, cur, buf));
          (cur, buf) =
            (if n < 10 then (cur - 1, buf[cur - 1 := of_nat n + 48])
             else (cur - 2, copy_lut (n * 2) (cur - 2) buf))
      in if eol then bytes @ take (41 - cur) (drop cur buf)
         else bytes @ take (39 - cur) (drop cur buf))"

definition write_content_length :: "u64 \<Rightarrow> bytes \<Rightarrow> bytes" where
  "write_content_length n bytes =
     (if n < 10 then
        bytes @ ([13, 10] @ ascii ''content-length: 0'' @ [13, 10])[18 := ucast n + 48]
      else if n < 100 then
        bytes @ copy_lut (unat n * 2) 18 ([13, 10] @ ascii ''content-length: 00'' @ [13, 10])
      else if n < 1000 then
        (let buf = [13, 10] @ ascii ''content-length: 000'' @ [13, 10];
             d1 = (unat n mod 100) * 2;
             n = unat n div 100;
             buf = copy_lut d1 19 buf
         in bytes @ buf[18 := of_nat n + 48])
      else convert_usize n (bytes @ [13, 10] @ ascii ''content-length: '') True)"

text \<open>\<^verbatim>\<open>usize::ilog2\<close>.\<close>

fun ilog2 :: "nat \<Rightarrow> nat" where
  "ilog2 n = (if n < 2 then 0 else Suc (ilog2 (n div 2)))"

declare ilog2.simps [simp del]

definition HEX :: bytes where
  "HEX = ascii ''0123456789ABCDEF''"

text \<open>The loop body for \<^verbatim>\<open>pos\<close>: \<^verbatim>\<open>buf[pos] = HEX[n & 0xf]; n >>= 4\<close>.\<close>

fun chunk_size_loop :: "nat list \<Rightarrow> nat \<Rightarrow> bytes \<Rightarrow> bytes" where
  "chunk_size_loop [] n buf = buf"
| "chunk_size_loop (pos # ps) n buf = chunk_size_loop ps (n div 16) (buf[pos := HEX ! (n mod 16)])"

definition write_chunk_size :: "nat \<Rightarrow> bytes \<Rightarrow> bytes" where
  "write_chunk_size n bytes =
     (let buf = replicate 18 0;
          digits = (if n = 0 then 1 else ilog2 n div 4 + 1);
          buf = chunk_size_loop (rev [0..<digits]) n buf;
          buf = buf[digits := 13];
          buf = buf[digits + 1 := 10]
      in bytes @ take (digits + 2) buf)"

section \<open>Transfer encodings\<close>

datatype TransferEncodingKind = Chunked bool | Length u64 | Eof

record TransferEncoding =
  te_kind :: TransferEncodingKind

definition te_empty :: TransferEncoding where
  "te_empty = \<lparr>te_kind = Length 0\<rparr>"

definition te_eof :: TransferEncoding where
  "te_eof = \<lparr>te_kind = Eof\<rparr>"

definition te_chunked :: TransferEncoding where
  "te_chunked = \<lparr>te_kind = Chunked False\<rparr>"

definition te_length :: "u64 \<Rightarrow> TransferEncoding" where
  "te_length len = \<lparr>te_kind = Length len\<rparr>"

text \<open>The output, the returned flag and the new state; \<open>msg\<close> is shorter than \<open>2\<^sup>6\<^sup>4\<close> bytes.\<close>

definition te_encode :: "TransferEncoding \<Rightarrow> bytes \<Rightarrow> bytes \<Rightarrow> bytes \<times> bool \<times> TransferEncoding" where
  "te_encode te msg buf =
     (case te_kind te of
        Eof \<Rightarrow> if msg = [] then (buf, True, te) else (buf @ msg, False, te)
      | Chunked eof \<Rightarrow>
          if eof then (buf, True, te)
          else if msg \<noteq> [] then
            let buf = write_chunk_size (length msg) buf
            in (buf @ msg @ [13, 10], False, te)
          else (buf, False, te)
      | Length remaining \<Rightarrow>
          if remaining > 0 then
            if msg = [] then (buf, remaining = 0, te)
            else
              let len = min remaining (of_nat (length msg));
                  buf = buf @ take (unat len) msg;
                  remaining = remaining - len
              in (buf, remaining = 0, te\<lparr>te_kind := Length remaining\<rparr>)
          else (buf, True, te))"

definition te_encode_eof ::
    "TransferEncoding \<Rightarrow> bytes \<Rightarrow> (EncodeError, bytes) result \<times> TransferEncoding" where
  "te_encode_eof te buf =
     (case te_kind te of
        Eof \<Rightarrow> (Inr buf, te)
      | Length rem \<Rightarrow> (if rem \<noteq> 0 then Inl UnexpectedEof else Inr buf, te)
      | Chunked eof \<Rightarrow>
          if \<not> eof then (Inr (buf @ ascii ''0'' @ [13, 10, 13, 10]), te\<lparr>te_kind := Chunked True\<rparr>)
          else (Inr buf, te))"

section \<open>Head\<close>

text \<open>Both branches of \<^verbatim>\<open>put_header\<close> append the same bytes; one of them reuses spare room.\<close>

definition put_header :: "bytes \<Rightarrow> bytes \<Rightarrow> bytes \<Rightarrow> bytes" where
  "put_header dst name val = dst @ name @ ascii '': '' @ val @ [13, 10]"

definition write_status_line :: "nat \<Rightarrow> bytes \<Rightarrow> bytes \<Rightarrow> bytes" where
  "write_status_line n reason dst =
     (let line = ascii ''HTTP/1.1 000 '';
          line = line[9 := 48 + of_nat (n div 100)];
          line = line[10 := 48 + of_nat (n div 10 mod 10)];
          line = line[11 := 48 + of_nat (n mod 10)]
      in dst @ line @ reason)"

definition is_informational :: "nat \<Rightarrow> bool" where
  "is_informational s \<longleftrightarrow> 100 \<le> s \<and> s < 200"

definition is_bodyless :: "nat \<Rightarrow> bool" where
  "is_bodyless s \<longleftrightarrow> s = 204 \<or> s = 304 \<or> (is_informational s \<and> s \<noteq> 101)"

text \<open>The two message types the encoder is used with.\<close>

datatype Msg = Req RequestHead | Res ResponseHead

fun msg_status :: "Msg \<Rightarrow> nat option" where
  "msg_status (Req h) = None"
| "msg_status (Res h) = Some (res_status h)"

fun msg_headers :: "Msg \<Rightarrow> HeaderMap" where
  "msg_headers (Req h) = req_headers h"
| "msg_headers (Res h) = res_headers h"

fun msg_chunked :: "Msg \<Rightarrow> bool" where
  "msg_chunked (Req h) \<longleftrightarrow> req_chunked h \<and> req_version h \<ge> HTTP_11"
| "msg_chunked (Res h) \<longleftrightarrow> res_chunked h \<and> res_version h \<ge> HTTP_11"

text \<open>\<^verbatim>\<open>u16::to_string\<close> is the decimal representation.\<close>

fun dec_digits :: "nat \<Rightarrow> bytes" where
  "dec_digits n = (if n < 10 then [of_nat n + 48] else dec_digits (n div 10) @ [of_nat (n mod 10) + 48])"

declare dec_digits.simps [simp del]

fun encode_status :: "Msg \<Rightarrow> bytes \<Rightarrow> bytes" where
  "encode_status (Res h) dst = write_status_line (res_status h) (res_reason h) dst"
| "encode_status (Req h) dst =
     (let dst = dst @ req_method h @ [32];
          dst = (case (req_method h = ascii ''CONNECT'', uri_host (req_uri h)) of
              (True, Some host) \<Rightarrow>
                let port = (case uri_port_u16 (req_uri h) of
                      Some p \<Rightarrow> unat p
                    | None \<Rightarrow>
                        if uri_scheme_str (req_uri h) = Some (ascii ''https'')
                          \<or> uri_scheme_str (req_uri h) = Some (ascii ''wss'') then 443 else 80)
                in dst @ host @ [58] @ dec_digits port
            | _ \<Rightarrow>
                let target = uri_path_and_query (req_uri h)
                in dst @ (if target = [] then [47] else target));
          dst = dst @ [32]
      in dst @ (case req_version h of
             HTTP_09 \<Rightarrow> ascii ''HTTP/0.9''
           | HTTP_10 \<Rightarrow> ascii ''HTTP/1.0''
           | _ \<Rightarrow> ascii ''HTTP/1.1''))"


text \<open>The closure \<^verbatim>\<open>write\<close>: the output and the \<^verbatim>\<open>has_date\<close> flag are its captured state.\<close>

fun write_values :: "bytes \<Rightarrow> HeaderName \<Rightarrow> Value \<Rightarrow> bytes" where
  "write_values dst key (One val) = put_header dst key val"
| "write_values dst key (Multi vec) = foldl (\<lambda>dst val. put_header dst key val) dst vec"

definition write_entry :: "bool \<Rightarrow> bytes \<times> bool \<Rightarrow> HeaderName \<times> Value \<Rightarrow> bytes \<times> bool" where
  "write_entry skip_len st kv =
     (case (st, kv) of ((dst, has_date), (key, val)) \<Rightarrow>
        if key = CONNECTION then (dst, has_date)
        else if (key = TRANSFER_ENCODING \<or> key = CONTENT_LENGTH) \<and> skip_len then (dst, has_date)
        else (write_values dst key val, has_date \<or> key = DATE))"

definition encode_headers ::
    "(HeaderMap \<Rightarrow> (HeaderName \<times> Value) list) \<Rightarrow> bytes \<Rightarrow> Msg \<Rightarrow> bytes \<Rightarrow> Version \<Rightarrow> BodySize
     \<Rightarrow> ConnectionType \<Rightarrow> HeaderMap option \<Rightarrow> bytes" where
  "encode_headers entries date msg dst version body_size ctype extra_headers =
     (let chunked = msg_chunked msg;
          skip_len = (body_size \<noteq> BodySize_Stream);
          (skip_len, body_size) =
            (case msg_status msg of
               Some s \<Rightarrow> if s = 101 then (True, BodySize_None)
                         else if is_bodyless s then (skip_len, BodySize_None)
                         else (skip_len, body_size)
             | None \<Rightarrow> (skip_len, body_size));
          (skip_len, dst) =
            (case body_size of
               BodySize_None \<Rightarrow> (skip_len, dst @ [13, 10])
             | Empty \<Rightarrow> (skip_len, dst @ [13, 10] @ ascii ''content-length: 0'' @ [13, 10])
             | Sized len \<Rightarrow> (skip_len, write_content_length len dst)
             | BodySize_Stream \<Rightarrow>
                 if chunked
                 then (True, dst @ [13, 10] @ ascii ''transfer-encoding: chunked'' @ [13, 10])
                 else (False, dst @ [13, 10]));
          dst =
            (case ctype of
               Upgrade \<Rightarrow> dst @ ascii ''connection: upgrade'' @ [13, 10]
             | KeepAlive \<Rightarrow>
                 if version < HTTP_11 then dst @ ascii ''connection: keep-alive'' @ [13, 10] else dst
             | Close \<Rightarrow>
                 if version \<ge> HTTP_11 \<or> msg_status msg \<noteq> None
                 then dst @ ascii ''connection: close'' @ [13, 10] else dst);
          (dst, has_date) =
            (case extra_headers of
               Some extra \<Rightarrow>
                 foldl (write_entry skip_len)
                   (foldl (write_entry skip_len) (dst, False)
                     (filter (\<lambda>(key, _). inner extra key = None) (entries (msg_headers msg))))
                   (entries extra)
             | None \<Rightarrow> foldl (write_entry skip_len) (dst, False) (entries (msg_headers msg)))
      in if has_date \<or> msg_status msg = None then dst @ [13, 10] else dst @ date)"

section \<open>Message encoder\<close>

record MessageEncoder =
  me_length :: BodySize
  me_te :: TransferEncoding

definition me_default :: MessageEncoder where
  "me_default = \<lparr>me_length = BodySize_None, me_te = te_empty\<rparr>"

definition encode_chunk :: "MessageEncoder \<Rightarrow> bytes \<Rightarrow> bytes \<Rightarrow> bytes \<times> bool \<times> MessageEncoder" where
  "encode_chunk me msg buf =
     (case te_encode (me_te me) msg buf of (buf, r, te) \<Rightarrow> (buf, r, me\<lparr>me_te := te\<rparr>))"

definition encode_eof ::
    "MessageEncoder \<Rightarrow> bytes \<Rightarrow> (EncodeError, bytes) result \<times> MessageEncoder" where
  "encode_eof me buf = (case te_encode_eof (me_te me) buf of (r, te) \<Rightarrow> (r, me\<lparr>me_te := te\<rparr>))"

definition is_body_complete :: "MessageEncoder \<Rightarrow> bool" where
  "is_body_complete me \<longleftrightarrow> te_kind (me_te me) = Length 0"

definition encode_message ::
    "(HeaderMap \<Rightarrow> (HeaderName \<times> Value) list) \<Rightarrow> bytes \<Rightarrow> MessageEncoder \<Rightarrow> bytes \<Rightarrow> Msg \<Rightarrow> bool
     \<Rightarrow> bool \<Rightarrow> Version \<Rightarrow> BodySize \<Rightarrow> ConnectionType \<Rightarrow> HeaderMap option
     \<Rightarrow> (EncodeError, bytes \<times> ConnectionType) result \<times> MessageEncoder" where
  "encode_message entries date me dst message head stream version body_size ctype extra_headers =
     (let body_size =
            (case msg_status message of
               Some s \<Rightarrow> if is_bodyless s then BodySize_None
                         else if body_size = BodySize_None \<and> \<not> head \<and> s \<noteq> 101 then Empty
                         else body_size
             | None \<Rightarrow> body_size);
          te = (if head then te_empty
                else if msg_status message = Some 101
                  \<and> (case body_size of Sized _ \<Rightarrow> True | BodySize_Stream \<Rightarrow> True | _ \<Rightarrow> False)
                then te_eof
                else case body_size of
                    Empty \<Rightarrow> te_empty
                  | BodySize_None \<Rightarrow> te_empty
                  | Sized len \<Rightarrow> te_length len
                  | BodySize_Stream \<Rightarrow>
                      if msg_chunked message \<and> \<not> stream then te_chunked else te_eof);
          me = me\<lparr>me_te := te\<rparr>
      in if msg_status message = None \<and> te_kind te = Eof
           \<and> inner (msg_headers message) CONTENT_LENGTH = None
           \<and> \<not> (case extra_headers of None \<Rightarrow> False | Some h \<Rightarrow> inner h CONTENT_LENGTH \<noteq> None)
         then (Inl UnknownLength, me)
         else
           let ctype = (if msg_status message \<noteq> None \<and> \<not> stream \<and> te_kind te = Eof
                          \<and> ctype = KeepAlive then Close else ctype);
               dst = encode_status message dst;
               dst = encode_headers entries date message dst version body_size ctype extra_headers
           in (Inr (dst, ctype), me))"

section \<open>Decimal output\<close>

lemma LUT_table:
  "DEC_DIGITS_LUT = concat (map (\<lambda>d. [of_nat (d div 10) + 48, of_nat (d mod 10) + 48]) [0..<100])"
  by (simp add: DEC_DIGITS_LUT_def ascii_def upt_conv_Cons)

lemma nth_concat_pairs:
  "d < length ds \<Longrightarrow> take 2 (drop (d * 2) (concat (map (\<lambda>d. [f d, g d]) ds))) = [f (ds ! d), g (ds ! d)]"
proof (induction ds arbitrary: d)
  case (Cons x ds)
  then show ?case by (cases d) simp_all
qed simp

lemma copy_lut_eq:
  "d < 100 \<Longrightarrow> copy_lut (d * 2) at buf
     = copy_at at [of_nat (d div 10) + 48, of_nat (d mod 10) + 48] buf"
  using nth_concat_pairs [of d "[0..<100]" "\<lambda>d. of_nat (d div 10) + 48 :: u8"
    "\<lambda>d. of_nat (d mod 10) + 48"]
  by (simp add: copy_lut_def LUT_table del: upt_rec_numeral)

lemma dec_digits_2: "10 \<le> n \<Longrightarrow> n < 100 \<Longrightarrow> dec_digits n = [of_nat (n div 10) + 48, of_nat (n mod 10) + 48]"
proof -
  assume n: "10 \<le> n" "n < 100"
  then have "n div 10 < 10" by (simp add: less_mult_imp_div_less)
  then show ?thesis using n by (simp add: dec_digits.simps [of n] dec_digits.simps [of "n div 10"])
qed

lemma dec_digits_100:
  "100 \<le> n \<Longrightarrow> dec_digits n = dec_digits (n div 100)
     @ [of_nat (n mod 100 div 10) + 48, of_nat (n mod 100 mod 10) + 48]"
proof -
  assume n: "100 \<le> n"
  have "n div 10 mod 10 = n mod 100 div 10" using mod_mult2_eq [of n 10 10] by simp
  moreover have "n mod 100 mod 10 = n mod 10" by (simp add: mod_mod_cancel)
  moreover have "\<not> n div 10 < 10" using n div_le_mono [of 100 n 10] by simp
  ultimately show ?thesis using n
    by (simp add: dec_digits.simps [of n] dec_digits.simps [of "n div 10"] flip: div_mult2_eq)
qed

lemma dec_digits_10000:
  assumes "10000 \<le> n"
  shows "dec_digits n = dec_digits (n div 10000)
     @ [of_nat (n mod 10000 div 100 div 10) + 48, of_nat (n mod 10000 div 100 mod 10) + 48,
        of_nat (n mod 10000 mod 100 div 10) + 48, of_nat (n mod 10000 mod 100 mod 10) + 48]"
proof -
  have "n div 100 mod 100 = n mod 10000 div 100" using mod_mult2_eq [of n 100 100] by simp
  moreover have "n mod 10000 mod 100 = n mod 100" by (simp add: mod_mod_cancel)
  moreover have "100 \<le> n div 100" using assms div_le_mono [of 10000 n 100] by simp
  ultimately show ?thesis using assms
    by (simp add: dec_digits_100 [of n] dec_digits_100 [of "n div 100"] flip: div_mult2_eq)
qed

text \<open>The part of the buffer that is written out.\<close>

lemma drop_copy_at_front:
  "at + length src = at' \<Longrightarrow> at' \<le> length buf \<Longrightarrow> drop at (copy_at at src buf) = src @ drop at' buf"
  by (auto simp: drop_copy_at)

lemma convert_loop_eq:
  assumes "n < 10000 ^ Suc k" "4 * k \<le> cur" "cur \<le> length buf"
  shows "\<exists>n' cur' buf'. convert_loop n cur buf = (n', cur', buf') \<and> n' < 10000
    \<and> cur \<le> cur' + 4 * k \<and> cur' \<le> cur \<and> length buf' = length buf
    \<and> dec_digits n' @ drop cur' buf' = dec_digits n @ drop cur buf"
  using assms
proof (induction k arbitrary: n cur buf)
  case 0
  then show ?case by (simp add: convert_loop.simps)
next
  case (Suc k)
  show ?case
  proof (cases "n \<ge> 10000")
    case True
    define r where "r = n mod 10000"
    define buf1 where "buf1 = copy_lut (r mod 100 * 2) (cur - 4 + 2) (copy_lut (r div 100 * 2) (cur - 4) buf)"
    have r: "r div 100 < 100" "r mod 100 < 100" by (simp_all add: r_def less_mult_imp_div_less)
    have c: "Suc (Suc (Suc (Suc (cur - 4)))) = cur" using Suc.prems by simp
    have len: "length buf1 = length buf"
      using Suc.prems r by (simp add: buf1_def copy_lut_eq)
    have drop: "drop (cur - 4) buf1 = [of_nat (r div 100 div 10) + 48, of_nat (r div 100 mod 10) + 48,
        of_nat (r mod 100 div 10) + 48, of_nat (r mod 100 mod 10) + 48] @ drop cur buf"
      using Suc.prems r c
      by (simp add: buf1_def copy_lut_eq copy_at_def)
    have "n div 10000 < 10000 ^ Suc k" using Suc.prems(1) by (simp add: less_mult_imp_div_less)
    moreover have "4 * k \<le> cur - 4" "cur - 4 \<le> length buf" using Suc.prems by simp_all
    ultimately obtain n' cur' buf' where *:
      "convert_loop (n div 10000) (cur - 4) buf1 = (n', cur', buf')" "n' < 10000"
      "cur - 4 \<le> cur' + 4 * k" "cur' \<le> cur - 4" "length buf' = length buf"
      "dec_digits n' @ drop cur' buf' = dec_digits (n div 10000) @ drop (cur - 4) buf1"
      using Suc.IH [of "n div 10000" "cur - 4" buf1] len by auto
    have "convert_loop n cur buf = (n', cur', buf')"
      using True *(1) by (subst convert_loop.simps) (simp add: Let_def buf1_def r_def)
    moreover have "dec_digits n' @ drop cur' buf' = dec_digits n @ drop cur buf"
      using *(6) True drop by (simp add: dec_digits_10000 r_def)
    ultimately show ?thesis using * by auto
  next
    case False
    then show ?thesis using Suc.prems by (simp add: convert_loop.simps)
  qed
qed

lemma convert_usize_eq:
  "convert_usize n bytes eol = bytes @ dec_digits (unat n) @ (if eol then [13, 10] else [])"
proof -
  let ?buf = "replicate 39 0 @ [13, 10] :: bytes"
  have "unat n < 10000 ^ Suc 4" using unat_u64_less [of n] by simp
  from convert_loop_eq [OF this, of 39 ?buf] obtain m cur buf where
    loop: "convert_loop (unat n) 39 ?buf = (m, cur, buf)" and m: "m < 10000"
    and cur: "23 \<le> cur" "cur \<le> 39" and len: "length buf = 41"
    and dec: "dec_digits m @ drop cur buf = dec_digits (unat n) @ [13, 10]" by auto
  have c2: "Suc (Suc (cur - 2)) = cur" using cur by simp
  define m1 where "m1 = (if m \<ge> 100 then m div 100 else m)"
  define c1 where "c1 = (if m \<ge> 100 then cur - 2 else cur)"
  define b1 where "b1 = (if m \<ge> 100 then copy_lut (m mod 100 * 2) (cur - 2) buf else buf)"
  have 1: "m1 < 100" "21 \<le> c1" "c1 \<le> 39" "length b1 = 41"
    "dec_digits m1 @ drop c1 b1 = dec_digits (unat n) @ [13, 10]"
    using m cur len dec c2
    by (auto simp: m1_def c1_def b1_def copy_lut_eq dec_digits_100 drop_copy_at less_mult_imp_div_less)
  define c2 where "c2 = (if m1 < 10 then c1 - 1 else c1 - 2)"
  define b2 where "b2 = (if m1 < 10 then b1[c1 - 1 := of_nat m1 + 48] else copy_lut (m1 * 2) (c1 - 2) b1)"
  have 2: "length b2 = 41" "drop c2 b2 = dec_digits (unat n) @ [13, 10]"
  proof -
    show "length b2 = 41" using 1 by (simp add: b2_def copy_lut_eq)
    have "drop c2 b2 = dec_digits m1 @ drop c1 b1"
    proof (cases "m1 < 10")
      case True
      have "drop (c1 - 1) (b1[c1 - 1 := of_nat m1 + 48]) = (of_nat m1 + 48) # drop c1 b1"
        using 1 Cons_nth_drop_Suc [of "c1 - 1" "b1[c1 - 1 := of_nat m1 + 48]"] by simp
      then show ?thesis using True by (simp add: c2_def b2_def dec_digits.simps)
    next
      case False
      moreover have "Suc (Suc (c1 - 2)) = c1" using 1 by simp
      ultimately show ?thesis using 1 by (simp add: c2_def b2_def dec_digits_2 copy_lut_eq drop_copy_at)
    qed
    then show "drop c2 b2 = dec_digits (unat n) @ [13, 10]" using 1(5) by simp
  qed
  have "length (drop c2 b2) = length (dec_digits (unat n)) + 2" by (simp add: 2(2))
  then have "41 - c2 = length (dec_digits (unat n)) + 2" using 2(1) by simp
  then have l: "41 - c2 = length (dec_digits (unat n)) + 2" "39 - c2 = length (dec_digits (unat n))" by simp_all
  have "convert_usize n bytes eol = bytes @ (if eol then take (41 - c2) (drop c2 b2) else take (39 - c2) (drop c2 b2))"
    unfolding convert_usize_def Let_def loop
    by (auto simp: m1_def c1_def b1_def c2_def b2_def)
  then show ?thesis using l 2(2) by simp
qed

lemma write_content_length_eq:
  "write_content_length n bytes
     = bytes @ [13, 10] @ ascii ''content-length: '' @ dec_digits (unat n) @ [13, 10]"
proof -
  consider "unat n < 10" | "10 \<le> unat n" "unat n < 100" | "100 \<le> unat n" "unat n < 1000"
    | "1000 \<le> unat n" by linarith
  then show ?thesis
  proof cases
    case 1
    have "(ucast n :: u8) = of_nat (unat n)" by (simp add: unsigned_ucast_eq)
    then show ?thesis using 1
      by (simp add: write_content_length_def word_less_nat_alt ascii_def dec_digits.simps)
  next
    case 2
    then show ?thesis
      by (simp add: write_content_length_def word_less_nat_alt copy_lut_eq copy_at_def ascii_def
          dec_digits_2)
  next
    case 3
    then have "unat n div 100 < 10" by (simp add: less_mult_imp_div_less)
    then show ?thesis using 3
      by (simp add: write_content_length_def word_less_nat_alt copy_lut_eq copy_at_def ascii_def
          dec_digits_100 dec_digits.simps [of "unat n div 100"])
  next
    case 4
    then show ?thesis
      by (simp add: write_content_length_def word_less_nat_alt convert_usize_eq)
  qed
qed

section \<open>Hexadecimal output\<close>

fun hex_digits :: "nat \<Rightarrow> bytes" where
  "hex_digits n = (if n < 16 then [HEX ! n] else hex_digits (n div 16) @ [HEX ! (n mod 16)])"

declare hex_digits.simps [simp del]

lemma ilog2_16: "16 \<le> n \<Longrightarrow> ilog2 n = ilog2 (n div 16) + 4"
proof -
  assume n: "16 \<le> n"
  have "8 \<le> n div 2" "4 \<le> n div 4" "2 \<le> n div 8"
    using n div_le_mono [of 16 n 2] div_le_mono [of 16 n 4] div_le_mono [of 16 n 8] by simp_all
  then show ?thesis using n
    by (simp add: ilog2.simps [of n] ilog2.simps [of "n div 2"] ilog2.simps [of "n div 4"]
        ilog2.simps [of "n div 8"] flip: div_mult2_eq)
qed

lemma length_hex_digits: "length (hex_digits n) = (if n = 0 then 1 else ilog2 n div 4 + 1)"
proof (induction n rule: hex_digits.induct)
  case (1 n)
  show ?case
  proof (cases "n < 16")
    case True
    have "ilog2 n < 4"
      using True by (simp add: ilog2.simps [of n] ilog2.simps [of "n div 2"] ilog2.simps [of "n div 4"]
          ilog2.simps [of "n div 8"] flip: div_mult2_eq)
    then show ?thesis using True by (simp add: hex_digits.simps [of n])
  next
    case False
    then have "n div 16 \<noteq> 0" by (simp add: div_eq_0_iff)
    then show ?thesis using 1 False by (simp add: hex_digits.simps [of n] ilog2_16)
  qed
qed

lemma length_hex_digits_bound: "n < 16 ^ Suc k \<Longrightarrow> length (hex_digits n) \<le> Suc k"
proof (induction k arbitrary: n)
  case (Suc k)
  have "n div 16 < 16 ^ Suc k" using Suc.prems by (simp add: less_mult_imp_div_less)
  then show ?case using Suc.IH [of "n div 16"] by (simp add: hex_digits.simps [of n])
qed (simp add: hex_digits.simps)

lemma chunk_size_loop_eq:
  "length (hex_digits n) \<le> length buf \<Longrightarrow>
     chunk_size_loop (rev [0..<length (hex_digits n)]) n buf
     = hex_digits n @ drop (length (hex_digits n)) buf"
proof (induction n arbitrary: buf rule: hex_digits.induct)
  case (1 n)
  show ?case
  proof (cases "n < 16")
    case True
    then show ?thesis using "1.prems" by (cases buf) (auto simp: hex_digits.simps [of n])
  next
    case False
    let ?k = "length (hex_digits (n div 16))"
    have eq: "hex_digits n = hex_digits (n div 16) @ [HEX ! (n mod 16)]"
      using False by (simp add: hex_digits.simps [of n])
    then have k: "?k < length buf" using "1.prems" by simp
    have "drop ?k (buf[?k := HEX ! (n mod 16)]) = HEX ! (n mod 16) # drop (Suc ?k) buf"
      using k Cons_nth_drop_Suc [of ?k "buf[?k := HEX ! (n mod 16)]"] by simp
    then show ?thesis
      using "1.IH" [OF False, of "buf[?k := HEX ! (n mod 16)]"] k by (simp add: eq)
  qed
qed

lemma write_chunk_size_eq:
  assumes "n < 2 ^ 64"
  shows "write_chunk_size n bytes = bytes @ hex_digits n @ [13, 10]"
proof -
  let ?d = "length (hex_digits n)"
  have d: "?d \<le> 16" using length_hex_digits_bound [of n 15] assms by simp
  have "chunk_size_loop (rev [0..<?d]) n (replicate 18 0) = hex_digits n @ replicate (18 - ?d) 0"
    using d by (subst chunk_size_loop_eq) simp_all
  moreover have "18 - ?d = Suc (Suc (16 - ?d))" using d by simp
  ultimately show ?thesis
    by (simp add: write_chunk_size_def length_hex_digits [symmetric] list_update_append)
qed

section \<open>Bodies\<close>

text \<open>Sends a sequence of data blocks.\<close>

fun te_encode_all :: "TransferEncoding \<Rightarrow> bytes list \<Rightarrow> bytes \<Rightarrow> bytes \<times> TransferEncoding" where
  "te_encode_all te [] buf = (buf, te)"
| "te_encode_all te (msg # msgs) buf =
     (case te_encode te msg buf of (buf, _, te) \<Rightarrow> te_encode_all te msgs buf)"

definition chunk_image :: "bytes \<Rightarrow> bytes" where
  "chunk_image msg = (if msg = [] then [] else hex_digits (length msg) @ [13, 10] @ msg @ [13, 10])"

lemma te_encode_chunked:
  "length msg < 2 ^ 64 \<Longrightarrow> te_encode te_chunked msg buf = (buf @ chunk_image msg, False, te_chunked)"
  by (simp add: te_encode_def te_chunked_def chunk_image_def write_chunk_size_eq)

lemma te_encode_all_chunked:
  "\<forall>msg \<in> set msgs. length msg < 2 ^ 64 \<Longrightarrow>
     te_encode_all te_chunked msgs buf = (buf @ concat (map chunk_image msgs), te_chunked)"
  by (induction msgs arbitrary: buf) (simp_all add: te_encode_chunked)

lemma te_encode_length:
  assumes "length msg < 2 ^ 64"
  shows "te_encode (te_length n) msg buf
    = (buf @ take (unat n) msg, unat n \<le> length msg, te_length (of_nat (unat n - length msg)))"
proof (cases "n = 0 \<or> msg = []")
  case True
  then show ?thesis by (auto simp: te_encode_def te_length_def word_less_nat_alt unsigned_eq_0_iff)
next
  case False
  have len: "unat (of_nat (length msg) :: u64) = length msg" using assms by (simp add: unat_of_nat_u64)
  have m: "unat (min n (of_nat (length msg))) = min (unat n) (length msg)"
    using len by (auto simp: min_def word_le_nat_alt)
  have "unat (n - min n (of_nat (length msg))) = unat n - length msg"
    using m by (subst unat_sub) (auto simp: min_def)
  moreover have "of_nat (unat (n - min n (of_nat (length msg)))) = n - min n (of_nat (length msg))"
    by simp
  ultimately have "n - min n (of_nat (length msg)) = of_nat (unat n - length msg)" by metis
  moreover have "0 < n" using False by (simp add: word_greater_zero_iff)
  ultimately show ?thesis using False m
    by (auto simp: te_encode_def te_length_def Let_def min_def)
qed

lemma te_encode_all_length:
  assumes "\<forall>msg \<in> set msgs. length msg < 2 ^ 64"
  shows "te_encode_all (te_length n) msgs buf
    = (buf @ take (unat n) (concat msgs), te_length (of_nat (unat n - length (concat msgs))))"
  using assms
proof (induction msgs arbitrary: n buf)
  case Nil
  then show ?case by simp
next
  case (Cons msg msgs)
  have "unat n - length msg < 2 ^ 64" using unat_u64_less [of n] by simp
  then have "unat (of_nat (unat n - length msg) :: u64) = unat n - length msg"
    by (simp add: unat_of_nat_u64)
  then show ?case using Cons by (simp add: te_encode_length)
qed

section \<open>Header lines\<close>

definition header_line :: "HeaderName \<times> HeaderValue \<Rightarrow> bytes" where
  "header_line nv = fst nv @ ascii '': '' @ snd nv @ [13, 10]"

text \<open>The head as a list of lines: what \<^verbatim>\<open>encode_headers\<close> writes after the start line.\<close>

definition effective_size :: "Msg \<Rightarrow> BodySize \<Rightarrow> BodySize" where
  "effective_size msg body_size = (case msg_status msg of
     Some s \<Rightarrow> if s = 101 \<or> is_bodyless s then BodySize_None else body_size | None \<Rightarrow> body_size)"

definition framing_lines :: "Msg \<Rightarrow> BodySize \<Rightarrow> (HeaderName \<times> HeaderValue) list" where
  "framing_lines msg body_size = (case effective_size msg body_size of
     BodySize_None \<Rightarrow> []
   | Empty \<Rightarrow> [(CONTENT_LENGTH, ascii ''0'')]
   | Sized n \<Rightarrow> [(CONTENT_LENGTH, dec_digits (unat n))]
   | BodySize_Stream \<Rightarrow> if msg_chunked msg then [(TRANSFER_ENCODING, ascii ''chunked'')] else [])"

definition connection_lines :: "Msg \<Rightarrow> Version \<Rightarrow> ConnectionType \<Rightarrow> (HeaderName \<times> HeaderValue) list" where
  "connection_lines msg version ctype = (case ctype of
     Upgrade \<Rightarrow> [(CONNECTION, ascii ''upgrade'')]
   | KeepAlive \<Rightarrow> if version < HTTP_11 then [(CONNECTION, ascii ''keep-alive'')] else []
   | Close \<Rightarrow> if version \<ge> HTTP_11 \<or> msg_status msg \<noteq> None then [(CONNECTION, ascii ''close'')] else [])"

text \<open>Framing headers of the application are dropped unless the encoder leaves framing to it.\<close>

definition skips_framing :: "Msg \<Rightarrow> BodySize \<Rightarrow> bool" where
  "skips_framing msg body_size \<longleftrightarrow> msg_status msg = Some 101 \<or> body_size \<noteq> BodySize_Stream
     \<or> (msg_chunked msg \<and> effective_size msg body_size = BodySize_Stream)"

definition dropped :: "bool \<Rightarrow> HeaderName \<Rightarrow> bool" where
  "dropped skip key \<longleftrightarrow>
     key = CONNECTION \<or> ((key = TRANSFER_ENCODING \<or> key = CONTENT_LENGTH) \<and> skip)"

definition app_entries ::
    "(HeaderMap \<Rightarrow> (HeaderName \<times> Value) list) \<Rightarrow> Msg \<Rightarrow> HeaderMap option \<Rightarrow> (HeaderName \<times> Value) list" where
  "app_entries entries msg extra_headers = (case extra_headers of
     None \<Rightarrow> entries (msg_headers msg)
   | Some extra \<Rightarrow> filter (\<lambda>(key, _). inner extra key = None) (entries (msg_headers msg)) @ entries extra)"

definition head_lines ::
    "(HeaderMap \<Rightarrow> (HeaderName \<times> Value) list) \<Rightarrow> Msg \<Rightarrow> Version \<Rightarrow> BodySize \<Rightarrow> ConnectionType
     \<Rightarrow> HeaderMap option \<Rightarrow> (HeaderName \<times> HeaderValue) list" where
  "head_lines entries msg version body_size ctype extra_headers =
     framing_lines msg body_size @ connection_lines msg version ctype
     @ entry_values (filter (\<lambda>(key, _). \<not> dropped (skips_framing msg body_size) key)
         (app_entries entries msg extra_headers))"

lemma write_values_eq: "write_values dst key v = dst @ concat (map header_line (map (Pair key) (Value_list v)))"
proof (cases v)
  case (Multi vec)
  have "foldl (\<lambda>dst val. put_header dst key val) dst vec
      = dst @ concat (map header_line (map (Pair key) vec))"
    by (induction vec arbitrary: dst) (simp_all add: put_header_def header_line_def)
  then show ?thesis using Multi by simp
qed (simp add: put_header_def header_line_def)

lemma foldl_write_entry:
  "foldl (write_entry skip) (dst, d) es
     = (dst @ concat (map header_line (entry_values (filter (\<lambda>(key, _). \<not> dropped skip key) es))),
        d \<or> DATE \<in> fst ` set es)"
proof (induction es arbitrary: dst d)
  case (Cons e es)
  obtain key v where e: "e = (key, v)" by fastforce
  have nd: "DATE \<noteq> CONNECTION" "DATE \<noteq> TRANSFER_ENCODING" "DATE \<noteq> CONTENT_LENGTH"
    by (simp_all add: ascii_def)
  show ?case
  proof (cases "dropped skip key")
    case True
    then have "write_entry skip (dst, d) e = (dst, d)" by (auto simp: e write_entry_def dropped_def)
    moreover have "key \<noteq> DATE" using True nd by (auto simp: dropped_def)
    ultimately show ?thesis using True Cons by (auto simp: e)
  next
    case False
    then have "write_entry skip (dst, d) e = (write_values dst key v, d \<or> key = DATE)"
      by (auto simp: e write_entry_def dropped_def)
    then show ?thesis using False Cons by (auto simp: e write_values_eq entry_values_def)
  qed
qed (simp add: entry_values_def)

lemma encode_headers_eq:
  "encode_headers entries date msg dst version body_size ctype extra
     = dst @ [13, 10] @ concat (map header_line (head_lines entries msg version body_size ctype extra))
       @ (if DATE \<in> fst ` set (app_entries entries msg extra) \<or> msg_status msg = None
          then [13, 10] else date)"
proof -
  define skip where "skip = skips_framing msg body_size"
  define es where "es = app_entries entries msg extra"
  define d1 where "d1 = dst @ [13, 10] @ concat (map header_line (framing_lines msg body_size))"
  define d2 where "d2 = d1 @ concat (map header_line (connection_lines msg version ctype))"
  have body: "(case effective_size msg body_size of
       BodySize_None \<Rightarrow> (skip1, dst @ [13, 10])
     | Empty \<Rightarrow> (skip1, dst @ [13, 10] @ ascii ''content-length: 0'' @ [13, 10])
     | Sized len \<Rightarrow> (skip1, write_content_length len dst)
     | BodySize_Stream \<Rightarrow>
         if msg_chunked msg
         then (True, dst @ [13, 10] @ ascii ''transfer-encoding: chunked'' @ [13, 10])
         else (False, dst @ [13, 10])) = (skip, d1)"
    if "skip1 = (msg_status msg = Some 101 \<or> body_size \<noteq> BodySize_Stream)" for skip1
    using that
    by (auto simp: skip_def skips_framing_def d1_def framing_lines_def header_line_def
        write_content_length_eq effective_size_def ascii_def is_bodyless_def is_informational_def
        split: BodySize.splits option.splits if_splits)
  have conn: "(case ctype of
       Upgrade \<Rightarrow> d1 @ ascii ''connection: upgrade'' @ [13, 10]
     | KeepAlive \<Rightarrow> if version < HTTP_11 then d1 @ ascii ''connection: keep-alive'' @ [13, 10] else d1
     | Close \<Rightarrow> if version \<ge> HTTP_11 \<or> msg_status msg \<noteq> None
                then d1 @ ascii ''connection: close'' @ [13, 10] else d1) = d2"
    by (simp add: d2_def connection_lines_def header_line_def ascii_def split: ConnectionType.splits)
  have hdrs: "(case extra of
       Some extra \<Rightarrow> foldl (write_entry skip) (foldl (write_entry skip) (d2, False)
           (filter (\<lambda>(key, _). inner extra key = None) (entries (msg_headers msg)))) (entries extra)
     | None \<Rightarrow> foldl (write_entry skip) (d2, False) (entries (msg_headers msg)))
     = foldl (write_entry skip) (d2, False) es"
    by (simp add: es_def app_entries_def split: option.splits)
  have st: "(case msg_status msg of
       Some s \<Rightarrow> if s = 101 then (True, BodySize_None)
         else if is_bodyless s then (body_size \<noteq> BodySize_Stream, BodySize_None)
         else (body_size \<noteq> BodySize_Stream, body_size)
     | None \<Rightarrow> (body_size \<noteq> BodySize_Stream, body_size))
     = (msg_status msg = Some 101 \<or> body_size \<noteq> BodySize_Stream, effective_size msg body_size)"
    by (auto simp: effective_size_def split: option.splits)
  show ?thesis
    unfolding encode_headers_def Let_def st prod.case body [OF refl] conn hdrs
    by (simp add: foldl_write_entry head_lines_def skip_def es_def d2_def d1_def)
qed

lemma header_names_distinct:
  "CONNECTION \<noteq> CONTENT_LENGTH" "CONNECTION \<noteq> TRANSFER_ENCODING" "CONTENT_LENGTH \<noteq> TRANSFER_ENCODING"
  by (simp_all add: ascii_def)

text \<open>What the application's headers may contribute to the head: everything but the connection header,
  and the framing headers only where the encoder leaves the framing to the application.\<close>

definition app_lines ::
    "(HeaderMap \<Rightarrow> (HeaderName \<times> Value) list) \<Rightarrow> Msg \<Rightarrow> BodySize \<Rightarrow> HeaderMap option
     \<Rightarrow> (HeaderName \<times> HeaderValue) list" where
  "app_lines entries msg body_size extra_headers =
     filter (\<lambda>nv. fst nv \<noteq> CONNECTION
       \<and> (skips_framing msg body_size \<longrightarrow> fst nv \<notin> {CONTENT_LENGTH, TRANSFER_ENCODING}))
       (entry_values (app_entries entries msg extra_headers))"

lemma filter_entry_values:
  "filter (\<lambda>nv. Q (fst nv)) (entry_values es) = entry_values (filter (\<lambda>(key, _). Q key) es)"
proof (induction es)
  case (Cons e es)
  obtain key v where "e = (key, v)" by fastforce
  with Cons show ?case by (cases "Q key") (auto simp: entry_values_def filter_empty_conv)
qed (simp add: entry_values_def)

lemma head_lines_parts:
  "head_lines entries msg version body_size ctype extra =
     framing_lines msg body_size @ connection_lines msg version ctype @ app_lines entries msg body_size extra"
proof -
  define Q where "Q key \<longleftrightarrow> \<not> dropped (skips_framing msg body_size) key" for key
  have "(fst nv \<noteq> CONNECTION \<and> (skips_framing msg body_size \<longrightarrow> fst nv \<notin> {CONTENT_LENGTH, TRANSFER_ENCODING})) = Q (fst nv)"
    for nv :: "HeaderName \<times> HeaderValue"
    by (auto simp: Q_def dropped_def)
  then show ?thesis by (simp only: head_lines_def app_lines_def filter_entry_values flip: Q_def)
qed

text \<open>The lines of the head that a recipient reads the framing and the persistence from.\<close>

lemma head_lines_framing:
  "filter (\<lambda>nv. fst nv = CONNECTION) (head_lines entries msg version body_size ctype extra) = connection_lines msg version ctype"
  "skips_framing msg body_size \<Longrightarrow>
     filter (\<lambda>nv. fst nv \<in> {CONTENT_LENGTH, TRANSFER_ENCODING}) (head_lines entries msg version body_size ctype extra)
       = framing_lines msg body_size"
  "length (framing_lines msg body_size) \<le> 1"
proof -
  let ?fr = "\<lambda>nv :: HeaderName \<times> HeaderValue. fst nv \<in> {CONTENT_LENGTH, TRANSFER_ENCODING}"
  have fl: "filter ?fr (framing_lines msg body_size) = framing_lines msg body_size"
    "filter (\<lambda>nv. fst nv = CONNECTION) (framing_lines msg body_size) = []"
    using header_names_distinct by (simp_all add: framing_lines_def split: BodySize.splits)
  have cl: "filter ?fr (connection_lines msg version ctype) = []"
    "filter (\<lambda>nv. fst nv = CONNECTION) (connection_lines msg version ctype) = connection_lines msg version ctype"
    using header_names_distinct by (simp_all add: connection_lines_def split: ConnectionType.splits)
  have al: "filter (\<lambda>nv. fst nv = CONNECTION) (app_lines entries msg body_size extra) = []"
    "skips_framing msg body_size \<Longrightarrow> filter ?fr (app_lines entries msg body_size extra) = []"
    by (auto simp: app_lines_def filter_empty_conv)
  show "length (framing_lines msg body_size) \<le> 1" by (simp add: framing_lines_def split: BodySize.splits)
  show "filter (\<lambda>nv. fst nv = CONNECTION) (head_lines entries msg version body_size ctype extra) = connection_lines msg version ctype"
    using fl(2) cl(2) al(1) by (simp add: head_lines_parts)
  show "filter ?fr (head_lines entries msg version body_size ctype extra) = framing_lines msg body_size"
    if "skips_framing msg body_size"
    using fl(1) cl(1) al(2) [OF that] unfolding head_lines_parts filter_append by simp
qed

section \<open>Properties\<close>

text \<open>The hand-written number formatting is exact: \<^verbatim>\<open>convert_usize\<close>, which works
  backwards through a 41-byte buffer with a two-digit table, appends the decimal representation
  of every 64-bit number, and the three fast paths of \<^verbatim>\<open>write_content_length\<close> agree with it.\<close>

lemma decimal_output:
  "convert_usize n bytes eol = bytes @ dec_digits (unat n) @ (if eol then [13, 10] else [])
   \<and> write_content_length n bytes
     = bytes @ [13, 10] @ ascii ''content-length: '' @ dec_digits (unat n) @ [13, 10]"
  using convert_usize_eq write_content_length_eq by blast

text \<open>C6. The head that is written, line by line, and that its framing is unambiguous. After the start
  line come the framing line the encoder chose for the body (at most one), the connection line for
  the connection type, and the headers of the application and the extra headers, which replace those
  of the same name; then the end of the head, with the date for a response that has none. The
  application contributes no \<^verbatim>\<open>Connection\<close> line, and no \<^verbatim>\<open>Content-Length\<close> or \<^verbatim>\<open>Transfer-Encoding\<close> line
  unless the body is a stream without chunked coding (\<open>skips_framing\<close>), so that the framing lines of the
  head are exactly the encoder's.\<close>

theorem framing_headers_exact:
  assumes "lines = framing_lines msg body_size @ connection_lines msg version ctype @ app_lines entries msg body_size extra"
  shows "encode_headers entries date msg dst version body_size ctype extra
      = dst @ [13, 10] @ concat (map header_line lines)
        @ (if DATE \<in> fst ` set (app_entries entries msg extra) \<or> msg_status msg = None then [13, 10] else date)
    \<and> filter (\<lambda>nv. fst nv = CONNECTION) lines = connection_lines msg version ctype
    \<and> (skips_framing msg body_size \<longrightarrow>
         filter (\<lambda>nv. fst nv \<in> {CONTENT_LENGTH, TRANSFER_ENCODING}) lines = framing_lines msg body_size)
    \<and> length (framing_lines msg body_size) \<le> 1"
proof -
  have l: "lines = head_lines entries msg version body_size ctype extra" using assms by (simp only: head_lines_parts)
  show ?thesis unfolding l
    by (intro conjI impI encode_headers_eq head_lines_framing)
qed

text \<open>A response whose application sets \<^verbatim>\<open>Content-Length: 5\<close> on a body of three bytes.\<close>

theorem framing_headers_exact_witness:
  "encode_headers (\<lambda>m. [(CONTENT_LENGTH, One (ascii ''5'')), (CONNECTION, One (ascii ''close''))]) [13, 10]
       (Res \<lparr>res_version = HTTP_11, res_status = 200, res_headers = HeaderMap_new,
             res_headers_vec = [], res_reason = ascii ''OK'', res_flags = {}\<rparr>) [] HTTP_11 (Sized 3) KeepAlive None
      = [13, 10] @ ascii ''content-length: 3'' @ [13, 10] @ [13, 10]"
proof -
  let ?es = "\<lambda>m :: HeaderMap. [(CONTENT_LENGTH, One (ascii ''5'')), (CONNECTION, One (ascii ''close''))]"
  let ?m = "Res \<lparr>res_version = HTTP_11, res_status = 200, res_headers = HeaderMap_new,
             res_headers_vec = [], res_reason = ascii ''OK'', res_flags = {}\<rparr>"
  have s: "skips_framing ?m (Sized 3)" by (simp add: skips_framing_def)
  have "framing_lines ?m (Sized 3) = [(CONTENT_LENGTH, ascii ''3'')]" "connection_lines ?m HTTP_11 KeepAlive = []"
    by (simp_all add: framing_lines_def effective_size_def is_bodyless_def is_informational_def connection_lines_def
        dec_digits.simps ascii_def)
  moreover have "app_lines ?es ?m (Sized 3) None = []" using s
    by (simp add: app_lines_def app_entries_def entry_values_def)
  moreover have "DATE \<notin> fst ` set (app_entries ?es ?m None)" by (simp add: app_entries_def ascii_def)
  moreover have "header_line (CONTENT_LENGTH, ascii ''3'') = ascii ''content-length: 3'' @ [13, 10]"
    by (simp add: header_line_def ascii_def)
  ultimately show ?thesis
    using framing_headers_exact [OF refl, of ?es "[13, 10]" ?m "[]" HTTP_11 "Sized 3" KeepAlive None] by simp
qed

text \<open>C38. A body with a declared length: over any sequence of blocks, each shorter than \<open>2\<^sup>6\<^sup>4\<close> bytes, the
  encoder writes exactly the first \<open>n\<close> bytes of the data, never more, and finishing the body succeeds
  exactly when that many bytes were supplied.\<close>

theorem length_body_exact:
  assumes "\<forall>msg \<in> set msgs. length msg < 2 ^ 64"
    and "te_encode_all (te_length n) msgs buf = (out, te)"
  shows "out = buf @ take (unat n) (concat msgs)
    \<and> ((\<exists>out'. fst (te_encode_eof te out) = Inr out') \<longleftrightarrow> unat n \<le> length (concat msgs))"
proof -
  have te: "te = te_length (of_nat (unat n - length (concat msgs)))"
    and out: "out = buf @ take (unat n) (concat msgs)"
    using te_encode_all_length [OF assms(1), of n buf] assms(2) by simp_all
  have "unat (of_nat (unat n - length (concat msgs)) :: u64) = unat n - length (concat msgs)"
    using unat_u64_less [of n] by (intro unat_of_nat_u64) simp
  then have "(of_nat (unat n - length (concat msgs)) :: u64) = 0 \<longleftrightarrow> unat n \<le> length (concat msgs)"
    by (metis diff_is_0_eq unsigned_eq_0_iff)
  then show ?thesis using te out by (simp add: te_encode_eof_def te_length_def)
qed

text \<open>Four bytes for a body of three: the last one is not written, and the body is complete.\<close>

theorem length_body_exact_witness:
  "\<exists>te. te_encode_all (te_length 3) [[1, 2], [3, 4]] [] = ([1, 2, 3], te) \<and> (\<exists>out'. fst (te_encode_eof te [1, 2, 3]) = Inr out')"
proof -
  obtain out te where e: "te_encode_all (te_length 3) [[1, 2], [3, 4]] [] = (out, te)" by fastforce
  have "\<forall>msg \<in> set [[1, 2], [3, 4] :: bytes]. length msg < 2 ^ 64" by simp
  from length_body_exact [OF this e] e show ?thesis by auto
qed

end
