(* ===== verification/H1_Payload.thy ===== *)
theory H1_Payload
  imports Http_Types "HOL-Library.Sublist"
begin

text \<open>
  The HTTP/1 body decoder, \<^verbatim>\<open>PayloadDecoder\<close> of \<^verbatim>\<open>ntex/src/http/h1/decoder.rs\<close>: fixed-length
  bodies, chunked transfer coding with extensions and trailers, and bodies that end with the
  connection.

  The chunk-size parser of the \<^verbatim>\<open>ntex_httparse\<close> crate (\<open>parse_chunk_size\<close>) and the name
  parser of the \<^verbatim>\<open>http\<close> crate (\<open>name_from_bytes\<close>) are parameters. The loop of \<^verbatim>\<open>decode\<close> runs on
  fuel; \<open>chunked_loop_returns\<close> shows how much is enough.
\<close>

section \<open>Types\<close>

datatype 'a Poll = Pending | Ready 'a

datatype 'a Status = Complete 'a | Partial

datatype PayloadItem = Chunk bytes | Trailers HeaderMap | PayloadItem_Eof

datatype SizeLine = Unknown | Lws | Ext

record ChunkedLimits =
  ext :: u32
  trailers :: u32
  line :: u32
  line_state :: SizeLine

datatype ChunkedState = Size | Body | BodyCr | BodyLf | EndCr | EndLf | ChunkedState_Trailers | End

datatype Kind = Kind_Length u64 | Kind_Chunked ChunkedState u64 ChunkedLimits | Kind_Eof

record PayloadDecoder =
  kind :: Kind

definition MAX_CHUNK_EXTENSIONS :: u32 where
  "MAX_CHUNK_EXTENSIONS = 16 * 1024"

definition MAX_CHUNK_TRAILERS :: u32 where
  "MAX_CHUNK_TRAILERS = 4 * 1024"

definition SMALL_CHUNK :: nat where
  "SMALL_CHUNK = 1024"

definition MAX_MERGED_CHUNKS :: nat where
  "MAX_MERGED_CHUNKS = 16 * 1024"

section \<open>The code\<close>

definition pd_length :: "u64 \<Rightarrow> PayloadDecoder" where
  "pd_length x = \<lparr>kind = Kind_Length x\<rparr>"

definition pd_chunked :: PayloadDecoder where
  "pd_chunked = \<lparr>kind = Kind_Chunked Size 0
     \<lparr>ext = 0, trailers = 0, line = 0, line_state = Unknown\<rparr>\<rparr>"

definition pd_eof :: PayloadDecoder where
  "pd_eof = \<lparr>kind = Kind_Eof\<rparr>"

definition pd_is_eof :: "PayloadDecoder \<Rightarrow> bool" where
  "pd_is_eof d \<longleftrightarrow> kind d = Kind_Eof"

definition fixed_length :: "PayloadDecoder \<Rightarrow> u64 option" where
  "fixed_length d = (case kind d of Kind_Length len \<Rightarrow> Some len | _ \<Rightarrow> None)"

fun is_neutral :: "SizeLine \<Rightarrow> bytes \<Rightarrow> bool" where
  "is_neutral Unknown bytes = False"
| "is_neutral Lws bytes = list_all (\<lambda>b. b = 32 \<or> b = 9) bytes"
| "is_neutral Ext bytes = list_all (\<lambda>b. b = 9 \<or> (b \<ge> 0x20 \<and> b \<noteq> 0x7f)) bytes"

definition is_tchar :: "u8 \<Rightarrow> bool" where
  "is_tchar b \<longleftrightarrow> is_ascii_alphanumeric b \<or>
     b \<in> {0x21, 0x23, 0x24, 0x25, 0x26, 0x27, 0x2a, 0x2b, 0x2d, 0x2e, 0x5e, 0x5f, 0x60, 0x7c, 0x7e}"

text \<open>\<^verbatim>\<open>Iterator::position\<close>.\<close>

fun position :: "('a \<Rightarrow> bool) \<Rightarrow> 'a list \<Rightarrow> nat option" where
  "position P [] = None"
| "position P (x # xs) = (if P x then Some 0 else map_option Suc (position P xs))"

definition trailer_field :: "bytes \<Rightarrow> (bytes \<times> bytes) option" where
  "trailer_field ln =
     (case position (\<lambda>b. b = 58) ln of
        None \<Rightarrow> None
      | Some colon \<Rightarrow>
          let name = take colon ln; val = drop (colon + 1) ln;
              valid = (name \<noteq> [] \<and> list_all is_tchar name
                \<and> list_all (\<lambda>b. b = 9 \<or> (0x20 \<le> b \<and> b \<le> 0x7e) \<or> b \<ge> 0x80) val)
          in if valid then Some (name, trim_ascii val) else None)"

text \<open>The length of complete empty lines at the start of the buffer.\<close>

fun empty_lines :: "bytes \<Rightarrow> nat" where
  "empty_lines buf =
     (case buf of
        [] \<Rightarrow> 0
      | a # as \<Rightarrow>
          if a = 10 then 1 + empty_lines as
          else if a = 13 then (case as of b # bs \<Rightarrow> if b = 10 then 2 + empty_lines bs else 0 | [] \<Rightarrow> 0)
          else 0)"

declare empty_lines.simps [simp del]

text \<open>The position after a complete size line is behind its digits and the line end, so that the
  subtraction of these from it does not underflow.\<close>

definition read_size ::
    "(bytes \<Rightarrow> unit + (nat \<times> u64) Status) \<Rightarrow> bytes \<Rightarrow> u64 \<Rightarrow> ChunkedLimits
     \<Rightarrow> (DecodeError + ChunkedState) Poll \<times> bytes \<times> u64 \<times> ChunkedLimits" where
  "read_size parse_chunk_size rdr csize limits =
     (let maxlen = unat (MAX_CHUNK_EXTENSIONS - ext limits) + 18;
          ln = unat (line limits)
      in if ln \<noteq> 0 \<and> ln \<le> length rdr \<and> is_neutral (line_state limits) (drop ln rdr) then
           if length rdr > maxlen
           then (Ready (Inl (InvalidInput ''Chunk extensions are too large'')), rdr, csize, limits)
           else (Pending, rdr, csize, limits\<lparr>line := of_nat (length rdr)\<rparr>)
         else
           case parse_chunk_size rdr of
             Inr (Complete (pos, sz)) \<Rightarrow>
               let limits = limits\<lparr>line := 0, line_state := Unknown\<rparr>;
                   digits = length (takeWhile is_ascii_hexdigit rdr);
                   add = (of_nat (pos - digits - 2) :: u32);
                   e = (if unat (ext limits) + unat add \<ge> 2 ^ 32 then - 1 else ext limits + add);
                   limits = limits\<lparr>ext := e\<rparr>
               in if ext limits > MAX_CHUNK_EXTENSIONS
                  then (Ready (Inl (InvalidInput ''Chunk extensions are too large'')), rdr, csize, limits)
                  else (Ready (Inr (if sz > 0 then Body else EndCr)), drop pos rdr, sz, limits)
           | Inr Partial \<Rightarrow>
               if length rdr > maxlen
               then (Ready (Inl (InvalidInput ''Chunk extensions are too large'')), rdr, csize, limits)
               else
                 (Pending, rdr, csize,
                  limits\<lparr>line := of_nat (length rdr),
                    line_state :=
                      (if rdr \<noteq> [] \<and> last rdr = 13 then Unknown
                       else if 59 \<in> set rdr then Ext
                       else if list_ex (\<lambda>b. b = 32 \<or> b = 9) rdr then Lws
                       else Unknown)\<rparr>)
           | Inl _ \<Rightarrow>
               (Ready (Inl (InvalidInput ''Invalid chunk size line: Invalid Size'')), rdr, csize, limits))"

definition read_body ::
    "bytes \<Rightarrow> u64 \<Rightarrow> (DecodeError + ChunkedState) Poll \<times> bytes \<times> u64 \<times> bytes option" where
  "read_body rdr rem =
     (if rdr = [] then (Ready (Inr Body), rdr, rem, None)
      else if unat rem > length rdr then
        (Ready (Inr Body), [], rem - of_nat (length rdr), Some rdr)
      else (Ready (Inr BodyCr), drop (unat rem) rdr, 0, Some (take (unat rem) rdr)))"

text \<open>The macro \<^verbatim>\<open>byte!\<close> followed by a match on one expected byte.\<close>

definition expect_byte ::
    "u8 \<Rightarrow> ChunkedState \<Rightarrow> string \<Rightarrow> bytes \<Rightarrow> (DecodeError + ChunkedState) Poll \<times> bytes" where
  "expect_byte b st msg rdr =
     (case rdr of
        [] \<Rightarrow> (Pending, rdr)
      | c # cs \<Rightarrow> (if c = b then Ready (Inr st) else Ready (Inl (InvalidInput msg)), cs))"

definition read_body_cr :: "bytes \<Rightarrow> (DecodeError + ChunkedState) Poll \<times> bytes" where
  "read_body_cr rdr = expect_byte 13 BodyLf ''Invalid chunk body CR'' rdr"

definition read_body_lf :: "bytes \<Rightarrow> (DecodeError + ChunkedState) Poll \<times> bytes" where
  "read_body_lf rdr = expect_byte 10 Size ''Invalid chunk body LF'' rdr"

definition read_end_cr :: "bytes \<Rightarrow> (DecodeError + ChunkedState) Poll \<times> bytes" where
  "read_end_cr rdr =
     (case rdr of
        [] \<Rightarrow> (Pending, rdr)
      | b # bs \<Rightarrow>
          if b = 13 then (Ready (Inr EndLf), bs)
          else if is_tchar b then (Ready (Inr ChunkedState_Trailers), rdr)
          else (Ready (Inl (InvalidInput ''Invalid chunk end CR'')), rdr))"

definition read_end_lf :: "bytes \<Rightarrow> (DecodeError + ChunkedState) Poll \<times> bytes" where
  "read_end_lf rdr = expect_byte 10 End ''Invalid chunk end LF'' rdr"

text \<open>The loop over field lines: it breaks at a position, fails, or finds the final empty line.\<close>

datatype TrailersLoop = Break nat | Fail DecodeError | Done nat

function trailers_loop :: "bytes \<Rightarrow> nat \<Rightarrow> TrailersLoop" where
  "trailers_loop rdr pos =
     (if pos < length rdr then
        if rdr ! pos = 13 then
          if \<not> pos + 1 < length rdr then Break pos
          else if rdr ! (pos + 1) = 10 then Done pos
          else Fail (InvalidInput ''Invalid chunk end LF'')
        else if \<not> is_tchar (rdr ! pos) then Fail (InvalidInput ''Invalid chunked trailer field'')
        else
          case position (\<lambda>b. b = 13) (drop pos rdr) of
            None \<Rightarrow> Break pos
          | Some e \<Rightarrow>
              if trailer_field (take e (drop pos rdr)) = None
              then Fail (InvalidInput ''Invalid chunked trailer field'')
              else if \<not> pos + e + 1 < length rdr then Break pos
              else if rdr ! (pos + e + 1) = 10 then
                if pos + e + 2 > unat MAX_CHUNK_TRAILERS
                then Fail (InvalidInput ''Chunked trailers are too large'')
                else trailers_loop rdr (pos + e + 2)
              else Fail (InvalidInput ''Invalid chunked trailer field LF'')
      else Break pos)"
  by auto
termination by (relation "measure (\<lambda>(rdr, pos). length rdr - pos)") auto

declare trailers_loop.simps [simp del]

text \<open>The header map of a complete section; lines without a final CR are skipped.\<close>

fun trailers_map ::
    "(bytes \<Rightarrow> HeaderName option) \<Rightarrow> HeaderMap \<Rightarrow> bytes list \<Rightarrow> HeaderMap option" where
  "trailers_map name_from_bytes hdrs [] = Some hdrs"
| "trailers_map name_from_bytes hdrs (ln # lns) =
     (if ln = [] \<or> last ln \<noteq> 13 then trailers_map name_from_bytes hdrs lns
      else case trailer_field (butlast ln) of
             None \<Rightarrow> None
           | Some (name, val) \<Rightarrow>
               (case (name_from_bytes name, HeaderValue_try_from val) of
                  (Some n, Some v) \<Rightarrow> trailers_map name_from_bytes (HeaderMap_append hdrs n v) lns
                | _ \<Rightarrow> None))"

definition read_trailers ::
    "(bytes \<Rightarrow> HeaderName option) \<Rightarrow> bytes \<Rightarrow> ChunkedLimits
     \<Rightarrow> (DecodeError + ChunkedState) Poll \<times> bytes \<times> ChunkedLimits \<times> HeaderMap option" where
  "read_trailers name_from_bytes rdr limits =
     (case trailers_loop rdr (unat (trailers limits)) of
        Done pos \<Rightarrow>
          (case trailers_map name_from_bytes HeaderMap_new (split_on 10 (take pos rdr)) of
             None \<Rightarrow> (Ready (Inl (InvalidInput ''Invalid chunked trailer field'')),
                        drop (pos + 2) rdr, limits, None)
           | Some hdrs \<Rightarrow> (Ready (Inr End), drop (pos + 2) rdr, limits, Some hdrs))
      | Fail e \<Rightarrow> (Ready (Inl e), rdr, limits, None)
      | Break pos \<Rightarrow>
          let limits = limits\<lparr>trailers := of_nat pos\<rparr>
          in if length rdr > unat MAX_CHUNK_TRAILERS \<and> \<not> (pos < length rdr \<and> rdr ! pos = 13)
             then (Ready (Inl (InvalidInput ''Chunked trailers are too large'')), rdr, limits, None)
             else (Pending, rdr, limits, None))"

text \<open>One step: the outcome, the buffer, the chunk size, the limits, data and trailers.\<close>

definition step ::
    "(bytes \<Rightarrow> unit + (nat \<times> u64) Status) \<Rightarrow> (bytes \<Rightarrow> HeaderName option)
     \<Rightarrow> ChunkedState \<Rightarrow> bytes \<Rightarrow> u64 \<Rightarrow> ChunkedLimits
     \<Rightarrow> (DecodeError + ChunkedState) Poll \<times> bytes \<times> u64 \<times> ChunkedLimits \<times> bytes option \<times> HeaderMap option" where
  "step parse_chunk_size name_from_bytes st body csize limits =
     (case st of
        Size \<Rightarrow> (case read_size parse_chunk_size body csize limits of
            (r, body, csize, limits) \<Rightarrow> (r, body, csize, limits, None, None))
      | Body \<Rightarrow> (case read_body body csize of
            (r, body, csize, buf) \<Rightarrow> (r, body, csize, limits, buf, None))
      | BodyCr \<Rightarrow> (case read_body_cr body of (r, body) \<Rightarrow> (r, body, csize, limits, None, None))
      | BodyLf \<Rightarrow> (case read_body_lf body of (r, body) \<Rightarrow> (r, body, csize, limits, None, None))
      | EndCr \<Rightarrow> (case read_end_cr body of (r, body) \<Rightarrow> (r, body, csize, limits, None, None))
      | EndLf \<Rightarrow> (case read_end_lf body of (r, body) \<Rightarrow> (r, body, csize, limits, None, None))
      | ChunkedState_Trailers \<Rightarrow> (case read_trailers name_from_bytes body limits of
            (r, body, limits, tr) \<Rightarrow> (r, body, csize, limits, None, tr))
      | End \<Rightarrow> (Ready (Inr End), body, csize, limits, None, None))"

text \<open>Adds a block of data to the first block or the merged ones; \<open>len\<close> is the size so far.\<close>

definition merge_data ::
    "bytes option \<Rightarrow> bytes option \<Rightarrow> bytes option \<Rightarrow> nat \<times> bytes option \<times> bytes option" where
  "merge_data buf data merged =
     (case buf of
        None \<Rightarrow> (0, data, merged)
      | Some buf \<Rightarrow>
          (case data of
             Some first \<Rightarrow>
               let m = (case merged of Some m \<Rightarrow> m | None \<Rightarrow> first) @ buf
               in (length m, data, Some m)
           | None \<Rightarrow> (length buf, Some buf, merged)))"

text \<open>
  The loop of \<^verbatim>\<open>decode\<close> for a chunked body. \<open>data\<close> is the first block of data, \<open>merged\<close> the
  merged blocks. \<open>None\<close>: the fuel was not enough.
\<close>

type_synonym chunked_result =
  "(DecodeError + PayloadItem option) \<times> ChunkedState \<times> u64 \<times> ChunkedLimits \<times> bytes
   \<times> bytes option \<times> bytes option"

primrec chunked_loop ::
    "(bytes \<Rightarrow> unit + (nat \<times> u64) Status) \<Rightarrow> (bytes \<Rightarrow> HeaderName option) \<Rightarrow> nat
     \<Rightarrow> ChunkedState \<Rightarrow> u64 \<Rightarrow> ChunkedLimits \<Rightarrow> bytes \<Rightarrow> bytes option \<Rightarrow> bytes option
     \<Rightarrow> chunked_result option" where
  "chunked_loop p nb 0 st csize limits src data merged = None"
| "chunked_loop p nb (Suc fuel) st csize limits src data merged =
     (if st = Body \<and> unat csize \<ge> SMALL_CHUNK \<and> data \<noteq> None
      then Some (Inr None, st, csize, limits, src, data, merged)
      else if st = ChunkedState_Trailers \<and> data \<noteq> None
      then Some (Inr None, st, csize, limits, src, data, merged)
      else
        case step p nb st src csize limits of
          (Pending, src, csize, limits, buf, tr) \<Rightarrow>
            Some (Inr None, st, csize, limits, src, data, merged)
        | (Ready (Inl e), src, csize, limits, buf, tr) \<Rightarrow>
            Some (Inl e, st, csize, limits, src, data, merged)
        | (Ready (Inr st), src, csize, limits, buf, tr) \<Rightarrow>
            if st = End then
              Some (Inr (Some (case tr of Some t \<Rightarrow> Trailers t | None \<Rightarrow> PayloadItem_Eof)),
                st, csize, limits, src, data, merged)
            else
              let (len, data, merged) = merge_data buf data merged
              in if buf \<noteq> None \<and> len \<ge> SMALL_CHUNK \<and> (merged = None \<or> len \<ge> MAX_MERGED_CHUNKS)
                 then Some (Inr None, st, csize, limits, src, data, merged)
                 else if src = [] then Some (Inr None, st, csize, limits, src, data, merged)
                 else chunked_loop p nb fuel st csize limits src data merged)"

definition loop_fuel :: "bytes \<Rightarrow> nat" where
  "loop_fuel src = 2 * length src + 3"

text \<open>\<^verbatim>\<open>PayloadDecoder::decode\<close>; the outer \<open>None\<close> is a loop that does not end.\<close>

definition pd_decode ::
    "(bytes \<Rightarrow> unit + (nat \<times> u64) Status) \<Rightarrow> (bytes \<Rightarrow> HeaderName option) \<Rightarrow> PayloadDecoder \<Rightarrow> bytes
     \<Rightarrow> ((DecodeError + PayloadItem option) \<times> PayloadDecoder \<times> bytes) option" where
  "pd_decode p nb d src =
     (case kind d of
        Kind_Length remaining \<Rightarrow>
          if remaining = 0 then Some (Inr (Some PayloadItem_Eof), d, src)
          else if src = [] then Some (Inr None, d, src)
          else if unat remaining > length src then
            Some (Inr (Some (Chunk src)), d\<lparr>kind := Kind_Length (remaining - of_nat (length src))\<rparr>, [])
          else
            Some (Inr (Some (Chunk (take (unat remaining) src))), d\<lparr>kind := Kind_Length 0\<rparr>,
              drop (unat remaining) src)
      | Kind_Chunked st csize limits \<Rightarrow>
          (case chunked_loop p nb (loop_fuel src) st csize limits src None None of
             None \<Rightarrow> None
           | Some (result, st, csize, limits, src, data, merged) \<Rightarrow>
               let d = d\<lparr>kind := Kind_Chunked st csize limits\<rparr>
               in case (result, data) of
                    (Inr _, Some first) \<Rightarrow>
                      Some (Inr (Some (Chunk (case merged of Some m \<Rightarrow> m | None \<Rightarrow> first))), d, src)
                  | _ \<Rightarrow> Some (result, d, src))
      | Kind_Eof \<Rightarrow>
          if src = [] then Some (Inr None, d, src)
          else Some (Inr (Some (Chunk src)), d, []))"

section \<open>The chunked wire format\<close>

definition hex_val :: "u8 \<Rightarrow> nat" where
  "hex_val b = (if b \<le> 57 then unat b - 48 else if b \<le> 70 then unat b - 55 else unat b - 87)"

definition hex_value :: "bytes \<Rightarrow> nat" where
  "hex_value ds = foldl (\<lambda>v b. 16 * v + hex_val b) 0 ds"

text \<open>The digits of a chunk size: at most 16, so the size fits in 64 bits.\<close>

definition size_digits :: "bytes \<Rightarrow> bool" where
  "size_digits ds \<longleftrightarrow> ds \<noteq> [] \<and> length ds \<le> 16 \<and> list_all is_ascii_hexdigit ds"

text \<open>
  What the code relies on of \<^verbatim>\<open>parse_chunk_size\<close>: a complete size line without extensions gives
  its length and value, a part of one asks for more.
\<close>

definition chunk_size_parser :: "(bytes \<Rightarrow> unit + (nat \<times> u64) Status) \<Rightarrow> bool" where
  "chunk_size_parser p \<longleftrightarrow> (\<forall>ds. size_digits ds \<longrightarrow>
     (\<forall>t. p (ds @ [13, 10] @ t) = Inr (Complete (length ds + 2, of_nat (hex_value ds)))) \<and>
     (\<forall>q. strict_prefix q (ds @ [13, 10]) \<longrightarrow> p q = Inr Partial))"

text \<open>Chunks with their size digits, and the last chunk.\<close>

definition chunks_ok :: "(bytes \<times> bytes) list \<Rightarrow> bytes \<Rightarrow> bool" where
  "chunks_ok cs z \<longleftrightarrow> size_digits z \<and> hex_value z = 0 \<and>
     (\<forall>(ds, d) \<in> set cs. size_digits ds \<and> d \<noteq> [] \<and> hex_value ds = length d \<and> length d < 2 ^ 64)"

definition chunks_wire :: "(bytes \<times> bytes) list \<Rightarrow> bytes \<Rightarrow> bytes" where
  "chunks_wire cs z = concat (map (\<lambda>(ds, d). ds @ [13, 10] @ d @ [13, 10]) cs) @ z @ [13, 10, 13, 10]"

definition chunks_body :: "(bytes \<times> bytes) list \<Rightarrow> bytes" where
  "chunks_body cs = concat (map snd cs)"

text \<open>
  What is still to come on the wire (\<open>w\<close>) in each state, for a remaining body \<open>b\<close> and the bytes
  \<open>r\<close> after it.
\<close>

fun state_rel :: "ChunkedState \<Rightarrow> u64 \<Rightarrow> (bytes \<times> bytes) list \<Rightarrow> bytes \<Rightarrow> bytes \<Rightarrow> bytes \<Rightarrow> bytes \<Rightarrow> bool" where
  "state_rel Size sz cs z w b r \<longleftrightarrow> w = chunks_wire cs z @ r \<and> b = chunks_body cs"
| "state_rel Body sz cs z w b r \<longleftrightarrow> (\<exists>x. x \<noteq> [] \<and> unat sz = length x
     \<and> w = x @ [13, 10] @ chunks_wire cs z @ r \<and> b = x @ chunks_body cs)"
| "state_rel BodyCr sz cs z w b r \<longleftrightarrow> w = [13, 10] @ chunks_wire cs z @ r \<and> b = chunks_body cs"
| "state_rel BodyLf sz cs z w b r \<longleftrightarrow> w = [10] @ chunks_wire cs z @ r \<and> b = chunks_body cs"
| "state_rel EndCr sz cs z w b r \<longleftrightarrow> w = [13, 10] @ r \<and> b = []"
| "state_rel EndLf sz cs z w b r \<longleftrightarrow> w = [10] @ r \<and> b = []"
| "state_rel End sz cs z w b r \<longleftrightarrow> w = r \<and> b = []"
| "state_rel ChunkedState_Trailers sz cs z w b r \<longleftrightarrow> False"

lemma hexdigit_not: "is_ascii_hexdigit b \<Longrightarrow> b \<noteq> 13 \<and> b \<noteq> 59 \<and> b \<noteq> 32 \<and> b \<noteq> 9"
  by (auto simp: is_ascii_hexdigit_def is_ascii_digit_def)

text \<open>Limits of a body without extensions.\<close>

definition plain_limits :: "ChunkedLimits \<Rightarrow> bool" where
  "plain_limits lim \<longleftrightarrow> ext lim = 0 \<and> line_state lim = Unknown"

lemma read_size_complete:
  assumes "chunk_size_parser p" "size_digits ds" "plain_limits lim"
  shows "\<exists>lim'. read_size p (ds @ [13, 10] @ t) sz lim
    = (Ready (Inr (if (of_nat (hex_value ds) :: u64) > 0 then Body else EndCr)), t, of_nat (hex_value ds), lim')
    \<and> plain_limits lim'"
proof -
  have "p (ds @ [13, 10] @ t) = Inr (Complete (length ds + 2, of_nat (hex_value ds)))"
    using assms unfolding chunk_size_parser_def by blast
  moreover have "takeWhile is_ascii_hexdigit (ds @ [13, 10] @ t) = ds"
    using assms(2) hexdigit_not [of 13]
    by (subst takeWhile_append2) (auto simp: size_digits_def list_all_iff)
  ultimately show ?thesis using assms(3)
    by (simp add: read_size_def plain_limits_def Let_def MAX_CHUNK_EXTENSIONS_def)
qed

lemma read_size_partial:
  assumes "chunk_size_parser p" "size_digits ds" "plain_limits lim" "strict_prefix q (ds @ [13, 10])"
  shows "\<exists>lim'. read_size p q sz lim = (Pending, q, sz, lim') \<and> plain_limits lim'"
proof -
  have p: "p q = Inr Partial" using assms unfolding chunk_size_parser_def by blast
  from assms(4) have len: "length q < length ds + 2"
    by (auto dest: prefix_length_less)
  then have short: "length q \<le> unat MAX_CHUNK_EXTENSIONS + 18"
    using assms(2) by (simp add: size_digits_def MAX_CHUNK_EXTENSIONS_def)
  have "b \<noteq> 59 \<and> b \<noteq> 32 \<and> b \<noteq> 9" if "b \<in> set q" for b
  proof -
    from assms(4) obtain t where "ds @ [13, 10] = q @ t" by (auto simp: strict_prefix_def prefix_def)
    then have "b \<in> set (ds @ [13, 10])" using that by (metis Un_iff set_append)
    then show ?thesis using assms(2) hexdigit_not [of b]
      by (auto simp: size_digits_def list_all_iff)
  qed
  then have "59 \<notin> set q" "\<not> list_ex (\<lambda>b. b = 32 \<or> b = 9) q" by (auto simp: list_ex_iff)
  then show ?thesis using p short assms(3)
    by (auto simp: read_size_def plain_limits_def Let_def)
qed

text \<open>A prefix of a wire that starts with a size line.\<close>

lemma size_line_cases:
  assumes "src @ fut = ds @ [13, 10] @ t"
  obtains s where "src = ds @ [13, 10] @ s" "s @ fut = t"
  | "strict_prefix src (ds @ [13, 10])" "fut \<noteq> []"
proof -
  from assms have "src @ fut = (ds @ [13, 10]) @ t" by simp
  then consider us where "src = (ds @ [13, 10]) @ us" "us @ fut = t"
    | us where "src @ us = ds @ [13, 10]" "fut = us @ t"
    unfolding append_eq_append_conv2 by blast
  then show thesis
  proof cases
    case (1 us)
    then show ?thesis using that(1) [of us] by simp
  next
    case (2 us)
    show ?thesis
    proof (cases "us = []")
      case True
      then show ?thesis using 2 that(1) [of "[]"] by simp
    next
      case False
      then have "src \<noteq> ds @ [13, 10]" using 2(1) by auto
      then have "strict_prefix src (ds @ [13, 10])"
        using prefixI [OF 2(1) [symmetric]] by (simp add: strict_prefix_def)
      then show ?thesis using 2(2) False that(2) by simp
    qed
  qed
qed

section \<open>Steps\<close>

text \<open>Enough of the wire is left for a step: it makes progress and keeps the relation.\<close>

lemma expect_byte_cases:
  assumes "src @ fut = b # t"
  shows "src = [] \<and> fut = b # t \<and> expect_byte b st msg src = (Pending, src)
    \<or> (\<exists>s. src = b # s \<and> s @ fut = t \<and> expect_byte b st msg src = (Ready (Inr st), s))"
  using assms by (cases src) (auto simp: expect_byte_def)

definition opt_bytes :: "bytes option \<Rightarrow> bytes" where
  "opt_bytes x = (case x of None \<Rightarrow> [] | Some d \<Rightarrow> d)"

text \<open>The outcome of a step that has not failed.\<close>

definition good_step where
  "good_step st src sz r fut b z out \<longleftrightarrow>
     (case out of (res, src', sz', lim', buf, tr) \<Rightarrow> tr = None \<and> plain_limits lim' \<and>
        (res = Pending \<and> src' = src \<and> sz' = sz \<and> buf = None \<and> fut \<noteq> [] \<or>
         (\<exists>st' cs' b'. res = Ready (Inr st') \<and> chunks_ok cs' z \<and> b = opt_bytes buf @ b'
            \<and> state_rel st' sz' cs' z (src' @ fut) b' r \<and> buf \<noteq> Some []
            \<and> (length src' < length src \<or> src = [] \<and> src' = [] \<and> st' = Body \<and> fut \<noteq> []))))"

lemma good_step_pendingI:
  "plain_limits lim \<Longrightarrow> fut \<noteq> [] \<Longrightarrow> good_step st src sz r fut b z (Pending, src, sz, lim, None, None)"
  by (simp add: good_step_def)

lemma good_step_readyI:
  assumes "state_rel st' sz' cs z (src' @ fut) b' r" "chunks_ok cs z" "plain_limits lim"
    and "b = opt_bytes buf @ b'" "buf \<noteq> Some []"
    and "length src' < length src \<or> src = [] \<and> src' = [] \<and> st' = Body \<and> fut \<noteq> []"
  shows "good_step st src sz r fut b z (Ready (Inr st'), src', sz', lim, buf, None)"
  using assms unfolding good_step_def by auto

lemma chunks_wire_Cons: "chunks_wire ((ds, d) # cs) z = ds @ [13, 10] @ d @ [13, 10] @ chunks_wire cs z"
  by (simp add: chunks_wire_def)

lemma good_step_Size:
  assumes "chunk_size_parser p" "plain_limits lim" "chunks_ok cs z"
    and "state_rel Size sz cs z (src @ fut) b r"
  shows "good_step Size src sz r fut b z (step p nb Size src sz lim)"
proof (cases cs)
  case Nil
  have z: "size_digits z" "hex_value z = 0" using assms(3) by (simp_all add: chunks_ok_def)
  have w: "src @ fut = z @ [13, 10] @ [13, 10] @ r" and b: "b = []"
    using assms(4) Nil by (simp_all add: chunks_wire_def chunks_body_def)
  from w show ?thesis
  proof (cases rule: size_line_cases)
    case (1 s)
    then show ?thesis using read_size_complete [OF assms(1) z(1) assms(2), of s sz] z b assms(3)
      by (auto simp: good_step_def step_def opt_bytes_def)
  next
    case 2
    then show ?thesis using read_size_partial [OF assms(1) z(1) assms(2), of src sz]
      by (auto simp: good_step_def step_def)
  qed
next
  case (Cons c cs')
  obtain ds d where c: "c = (ds, d)" by fastforce
  have d: "size_digits ds" "d \<noteq> []" "hex_value ds = length d" "length d < 2 ^ 64" and ok: "chunks_ok cs' z"
    using assms(3) by (auto simp: chunks_ok_def Cons c)
  have w: "src @ fut = ds @ [13, 10] @ d @ [13, 10] @ chunks_wire cs' z @ r"
    and b: "b = d @ chunks_body cs'"
    using assms(4) by (simp_all add: Cons c chunks_wire_Cons chunks_body_def)
  have u: "unat (of_nat (length d) :: u64) = length d" using d(4) by (simp add: unat_of_nat_u64)
  have "(of_nat (length d) :: u64) \<noteq> 0" using u d(2) by (metis length_0_conv unsigned_0)
  then have pos: "(of_nat (length d) :: u64) > 0" by (simp add: word_greater_zero_iff)
  from w show ?thesis
  proof (cases rule: size_line_cases)
    case (1 s)
    have "state_rel Body (of_nat (length d)) cs' z (s @ fut) b r"
      using 1 d u b by (auto intro!: exI [of _ d])
    then have "good_step Size src sz r fut b z (Ready (Inr Body), s, of_nat (length d), lim', None, None)"
      if "plain_limits lim'" for lim'
      using that ok 1 by (intro good_step_readyI) (simp_all add: opt_bytes_def)
    then show ?thesis using read_size_complete [OF assms(1) d(1) assms(2), of s sz] d(3) pos 1
      by (auto simp: step_def)
  next
    case 2
    then show ?thesis using read_size_partial [OF assms(1) d(1) assms(2), of src sz]
      by (auto simp: good_step_def step_def)
  qed
qed

lemma good_step_Body:
  assumes "plain_limits lim" "chunks_ok cs z" "state_rel Body sz cs z (src @ fut) b r"
  shows "good_step Body src sz r fut b z (step p nb Body src sz lim)"
proof -
  from assms(3) obtain x where x: "x \<noteq> []" "unat sz = length x"
    "src @ fut = x @ [13, 10] @ chunks_wire cs z @ r" "b = x @ chunks_body cs" by auto
  show ?thesis
  proof (cases "length src < length x")
    case True
    then have src: "src = take (length src) x" "fut = drop (length src) x @ [13, 10] @ chunks_wire cs z @ r"
      using x(3) by (auto simp: append_eq_append_conv_if)
    have "unat (of_nat (length src) :: u64) = length src"
      using True x(2) unat_u64_less [of sz] by (intro unat_of_nat_u64) simp
    then have "unat (sz - of_nat (length src)) = length x - length src"
      using True x(2) by (subst unat_sub) (simp_all add: word_le_nat_alt)
    then have "state_rel Body (sz - of_nat (length src)) cs z fut (drop (length src) x @ chunks_body cs) r"
      using True src(2) by (auto intro!: exI [of _ "drop (length src) x"])
    moreover have "b = src @ drop (length src) x @ chunks_body cs"
      using x(4) src(1) by (metis append.assoc append_take_drop_id)
    moreover have "fut \<noteq> []" using src(2) by auto
    ultimately show ?thesis using assms True x
      by (cases "src = []")
         (auto simp: step_def read_body_def opt_bytes_def simp del: state_rel.simps
           intro!: good_step_readyI [where cs = cs])
  next
    case False
    then obtain s where "src = x @ s" "s @ fut = [13, 10] @ chunks_wire cs z @ r"
      using x(3) by (auto simp: append_eq_append_conv2 append_eq_append_conv_if)
    then show ?thesis using assms(1,2) x
      by (auto simp: step_def read_body_def opt_bytes_def intro!: good_step_readyI [where cs = cs])
  qed
qed

lemma good_step_bytes:
  assumes "plain_limits lim" "chunks_ok cs z" "state_rel st sz cs z (src @ fut) b r"
    and "st \<in> {BodyCr, BodyLf, EndCr, EndLf}"
  shows "good_step st src sz r fut b z (step p nb st src sz lim)"
  using assms
  by (cases src)
     (auto simp: step_def read_body_cr_def read_body_lf_def read_end_cr_def
       read_end_lf_def expect_byte_def opt_bytes_def
       intro!: good_step_pendingI good_step_readyI [where cs = cs])

lemma step_good:
  assumes "chunk_size_parser p" "plain_limits lim" "chunks_ok cs z"
    and "state_rel st sz cs z (src @ fut) b r" "st \<noteq> End"
  shows "good_step st src sz r fut b z (step p nb st src sz lim)"
  using assms good_step_Size good_step_Body good_step_bytes by (cases st) auto

section \<open>The loop\<close>

definition collected :: "bytes option \<Rightarrow> bytes option \<Rightarrow> bytes" where
  "collected data merged = (case merged of Some m \<Rightarrow> m | None \<Rightarrow> opt_bytes data)"

definition data_ok :: "bytes option \<Rightarrow> bytes option \<Rightarrow> bool" where
  "data_ok data merged \<longleftrightarrow> (data = None \<longrightarrow> merged = None) \<and> data \<noteq> Some [] \<and> merged \<noteq> Some []"

lemma merge_data_ok:
  assumes "merge_data buf data merged = (len, data', merged')" "data_ok data merged" "buf \<noteq> Some []"
  shows "data_ok data' merged' \<and> collected data' merged' = collected data merged @ opt_bytes buf
    \<and> (buf \<noteq> None \<longrightarrow> data' \<noteq> None) \<and> (data \<noteq> None \<longrightarrow> data' \<noteq> None)"
  using assms
  by (auto simp: merge_data_def data_ok_def collected_def opt_bytes_def Let_def split: option.splits)

lemma collected_None: "data_ok None merged \<Longrightarrow> collected None merged = []"
  by (simp add: data_ok_def collected_def opt_bytes_def)

lemma step_End_buf:
  "step p nb st src sz lim = (Ready (Inr End), src', sz', lim', buf, tr) \<Longrightarrow> buf = None"
  by (cases st) (auto simp: step_def read_body_def split: prod.splits if_splits)

lemma chunked_loop_good:
  assumes "chunk_size_parser p" "plain_limits lim" "chunks_ok cs z"
    and "state_rel st sz cs z (src @ fut) b r" "data_ok data merged" "length src < fuel"
  shows "\<exists>res st' sz' lim' src' data' merged' cs' b'.
    chunked_loop p nb fuel st sz lim src data merged = Some (res, st', sz', lim', src', data', merged')
    \<and> plain_limits lim' \<and> chunks_ok cs' z \<and> state_rel st' sz' cs' z (src' @ fut) b' r
    \<and> data_ok data' merged' \<and> collected data merged @ b = collected data' merged' @ b'
    \<and> (res = Inr None \<and> (data' = None \<longrightarrow> fut \<noteq> []) \<or> res = Inr (Some PayloadItem_Eof) \<and> st' = End)"
  using assms(2-6)
proof (induction fuel arbitrary: st sz lim src data merged b cs)
  case (Suc fuel)
  show ?case
  proof (cases "st = Body \<and> unat sz \<ge> SMALL_CHUNK \<and> data \<noteq> None")
    case True
    then show ?thesis using Suc.prems by auto
  next
    case large: False
    have nt: "st \<noteq> ChunkedState_Trailers" using Suc.prems(3) by auto
    show ?thesis
    proof (cases "st = End")
      case True
      then have "step p nb st src sz lim = (Ready (Inr End), src, sz, lim, None, None)"
        by (simp add: step_def)
      then have "chunked_loop p nb (Suc fuel) st sz lim src data merged
          = Some (Inr (Some PayloadItem_Eof), End, sz, lim, src, data, merged)"
        using True by simp
      then show ?thesis using Suc.prems True by auto
    next
      case False
      obtain res src1 sz1 lim1 buf tr where st1:
        "step p nb st src sz lim = (res, src1, sz1, lim1, buf, tr)" by (metis prod_cases6)
      from step_good [OF assms(1) Suc.prems(1-3) False, of nb] have
        good: "good_step st src sz r fut b z (res, src1, sz1, lim1, buf, tr)" by (simp add: st1)
      then have tr: "tr = None" and lim1: "plain_limits lim1" by (simp_all add: good_step_def)
      from good consider (pending) "res = Pending" "src1 = src" "sz1 = sz" "fut \<noteq> []"
        | (ready) st2 cs2 b2 where "res = Ready (Inr st2)" "chunks_ok cs2 z" "b = opt_bytes buf @ b2"
            "state_rel st2 sz1 cs2 z (src1 @ fut) b2 r" "buf \<noteq> Some []"
            "length src1 < length src \<or> src = [] \<and> src1 = [] \<and> st2 = Body \<and> fut \<noteq> []"
        unfolding good_step_def by auto
      then show ?thesis
      proof cases
        case pending
        then have "chunked_loop p nb (Suc fuel) st sz lim src data merged
            = Some (Inr None, st, sz, lim1, src, data, merged)"
          using st1 large nt by auto
        then show ?thesis using Suc.prems lim1 pending by blast
      next
        case ready
        obtain len data1 merged1 where m: "merge_data buf data merged = (len, data1, merged1)"
          by (metis prod_cases3)
        note mo = merge_data_ok [OF m Suc.prems(4) ready(5)]
        then have col: "collected data merged @ b = collected data1 merged1 @ b2"
          using ready(3) by simp
        show ?thesis
        proof (cases "st2 = End")
          case True
          then have "chunked_loop p nb (Suc fuel) st sz lim src data merged
              = Some (Inr (Some PayloadItem_Eof), st2, sz1, lim1, src1, data, merged)"
            using st1 large nt ready(1) tr by auto
          moreover have "b = b2"
            using step_End_buf [of p nb st src sz lim] st1 True ready(1,3) by (auto simp: opt_bytes_def)
          ultimately show ?thesis using Suc.prems lim1 ready True by fastforce
        next
          case ne: False
          show ?thesis
          proof (cases "src1 = [] \<or> (buf \<noteq> None \<and> len \<ge> SMALL_CHUNK \<and> (merged1 = None \<or> len \<ge> MAX_MERGED_CHUNKS))")
            case True
            then have loop: "chunked_loop p nb (Suc fuel) st sz lim src data merged
                = Some (Inr None, st2, sz1, lim1, src1, data1, merged1)"
              using st1 large nt ready(1) ne m by auto
            have "fut \<noteq> []" if "data1 = None"
            proof
              assume "fut = []"
              have "buf = None" using that mo by auto
              then have "src1 = []" using True by simp
              then show False using \<open>fut = []\<close> ready(4) ne
                by (cases st2) (auto simp: chunks_wire_def)
            qed
            then show ?thesis using loop mo lim1 ready col by blast
          next
            case go: False
            then have eq: "chunked_loop p nb (Suc fuel) st sz lim src data merged
                = chunked_loop p nb fuel st2 sz1 lim1 src1 data1 merged1"
              using st1 large nt ready(1) ne m by auto
            have "length src1 < fuel" using ready(6) Suc.prems(5) go by auto
            moreover have "data_ok data1 merged1" using mo by blast
            ultimately show ?thesis
              using Suc.IH [OF lim1 ready(2) ready(4)] unfolding eq col by blast
          qed
        qed
      qed
    qed
  qed
qed simp

section \<open>Body decoders\<close>

text \<open>
  The reader of a body: it calls the decoder until the end of the body, adding the next read
  to the buffer whenever the decoder needs more data. The result is the body and the bytes
  after it; \<open>n\<close> bounds the number of calls.
\<close>

fun body_run ::
    "('k \<Rightarrow> bytes \<Rightarrow> ((DecodeError + PayloadItem option) \<times> 'k \<times> bytes) option) \<Rightarrow> nat \<Rightarrow> 'k \<Rightarrow> bytes
     \<Rightarrow> bytes list \<Rightarrow> (bytes \<times> bytes) option" where
  "body_run dec 0 k s reads = None"
| "body_run dec (Suc n) k s reads =
     (case dec k s of
        Some (Inr (Some (Chunk d)), k', s') \<Rightarrow>
          map_option (\<lambda>(b, r). (d @ b, r)) (body_run dec n k' s' reads)
      | Some (Inr (Some PayloadItem_Eof), k', s') \<Rightarrow> Some ([], s' @ concat reads)
      | Some (Inr None, k', s') \<Rightarrow>
          (case reads of [] \<Rightarrow> None | x # xs \<Rightarrow> body_run dec n k' (s' @ x) xs)
      | _ \<Rightarrow> None)"

text \<open>
  The contract of a body decoder: \<open>rel k w b r\<close> says that in state \<open>k\<close> the bytes \<open>w\<close> still to be
  read are the rest \<open>b\<close> of a body followed by \<open>r\<close>. Whatever part of \<open>w\<close> has arrived, a call takes
  a piece of the body off the buffer, or reports the end of the body exactly there, or asks for
  more although something is missing.
\<close>

locale body_decoder =
  fixes dec :: "'k \<Rightarrow> bytes \<Rightarrow> ((DecodeError + PayloadItem option) \<times> 'k \<times> bytes) option"
    and rel :: "'k \<Rightarrow> bytes \<Rightarrow> bytes \<Rightarrow> bytes \<Rightarrow> bool"
  assumes dec_cases: "rel k (s @ fut) b r \<Longrightarrow> \<exists>k' s'.
      (\<exists>d b'. dec k s = Some (Inr (Some (Chunk d)), k', s') \<and> d \<noteq> [] \<and> b = d @ b' \<and> rel k' (s' @ fut) b' r)
    \<or> (dec k s = Some (Inr (Some PayloadItem_Eof), k', s') \<and> b = [] \<and> s' @ fut = r)
    \<or> (dec k s = Some (Inr None, k', s') \<and> fut \<noteq> [] \<and> rel k' (s' @ fut) b r)"
begin

lemma body_run_correct:
  "rel k (s @ concat reads) b r \<Longrightarrow> length b + length reads < n \<Longrightarrow> body_run dec n k s reads = Some (b, r)"
proof (induction n arbitrary: k s reads b)
  case (Suc n)
  from dec_cases [OF Suc.prems(1)] consider
    (chunk) k' s' d b' where "dec k s = Some (Inr (Some (Chunk d)), k', s')" "d \<noteq> []" "b = d @ b'"
      "rel k' (s' @ concat reads) b' r"
  | (eof) k' s' where "dec k s = Some (Inr (Some PayloadItem_Eof), k', s')" "b = []" "s' @ concat reads = r"
  | (more) k' s' where "dec k s = Some (Inr None, k', s')" "concat reads \<noteq> []" "rel k' (s' @ concat reads) b r"
    by blast
  then show ?case
  proof cases
    case chunk
    then obtain m where "length d = Suc m" by (cases d) auto
    then have "length b' + length reads < n" using chunk(3) Suc.prems(2) by simp
    with chunk(4) have "body_run dec n k' s' reads = Some (b', r)" by (rule Suc.IH)
    then show ?thesis using chunk by simp
  next
    case eof
    then show ?thesis by simp
  next
    case more
    then obtain x xs where reads: "reads = x # xs" by (cases reads) auto
    have "rel k' ((s' @ x) @ concat xs) b r" using more reads by simp
    then have "body_run dec n k' (s' @ x) xs = Some (b, r)"
      using Suc.prems(2) reads by (intro Suc.IH) simp_all
    then show ?thesis using more reads by simp
  qed
qed simp

end

text \<open>Fixed-length bodies.\<close>

definition length_rel :: "PayloadDecoder \<Rightarrow> bytes \<Rightarrow> bytes \<Rightarrow> bytes \<Rightarrow> bool" where
  "length_rel d w b r \<longleftrightarrow> (\<exists>n. kind d = Kind_Length n \<and> unat n = length b \<and> w = b @ r)"

lemma length_rel_decode:
  assumes "length_rel d (s @ fut) b r"
  shows "\<exists>k' s'.
      (\<exists>x b'. pd_decode p nb d s = Some (Inr (Some (Chunk x)), k', s') \<and> x \<noteq> [] \<and> b = x @ b'
         \<and> length_rel k' (s' @ fut) b' r)
    \<or> (pd_decode p nb d s = Some (Inr (Some PayloadItem_Eof), k', s') \<and> b = [] \<and> s' @ fut = r)
    \<or> (pd_decode p nb d s = Some (Inr None, k', s') \<and> fut \<noteq> [] \<and> length_rel k' (s' @ fut) b r)"
proof -
  from assms obtain n where n: "kind d = Kind_Length n" "unat n = length b" and w: "s @ fut = b @ r"
    by (auto simp: length_rel_def)
  have zero: "n = 0 \<longleftrightarrow> b = []" using n(2) by (metis length_0_conv unsigned_eq_0_iff)
  consider "b = []" | "b \<noteq> []" "s = []" | "b \<noteq> []" "s \<noteq> []" "length s < length b"
    | "b \<noteq> []" "s \<noteq> []" "length b \<le> length s" by linarith
  then show ?thesis
  proof cases
    case 1
    then show ?thesis using n w zero by (simp add: pd_decode_def)
  next
    case 2
    then show ?thesis using n w zero by (auto simp: pd_decode_def length_rel_def)
  next
    case 3
    have u: "unat (of_nat (length s) :: u64) = length s"
      using 3 n(2) unat_u64_less [of n] by (intro unat_of_nat_u64) simp
    then have "unat (n - of_nat (length s)) = length b - length s"
      using 3 n(2) by (subst unat_sub) (simp_all add: word_le_nat_alt)
    moreover have "s = take (length s) b" and "fut = drop (length s) b @ r"
      using w 3 by (auto simp: append_eq_append_conv_if)
    moreover from this(1) have "b = s @ drop (length s) b" by (metis append_take_drop_id)
    ultimately show ?thesis using 3 n zero
      by (auto simp: pd_decode_def length_rel_def intro!: exI [of _ "drop (length s) b"])
  next
    case 4
    then obtain s' where "s = b @ s'" "s' @ fut = r"
      using w by (auto simp: append_eq_append_conv2)
    then show ?thesis using 4 n zero
      by (auto simp: pd_decode_def length_rel_def intro!: exI [of _ "[]"])
  qed
qed

interpretation fixed: body_decoder "pd_decode p nb" length_rel for p nb
  by unfold_locales (rule length_rel_decode)

text \<open>Chunked bodies without extensions and trailers.\<close>

definition chunked_rel ::
    "(bytes \<Rightarrow> unit + (nat \<times> u64) Status) \<Rightarrow> PayloadDecoder \<Rightarrow> bytes \<Rightarrow> bytes \<Rightarrow> bytes \<Rightarrow> bool" where
  "chunked_rel p d w b r \<longleftrightarrow> chunk_size_parser p \<and>
     (\<exists>st sz lim cs z. kind d = Kind_Chunked st sz lim \<and> plain_limits lim \<and> chunks_ok cs z
        \<and> state_rel st sz cs z w b r)"

lemma chunked_rel_decode:
  assumes "chunked_rel p d (s @ fut) b r"
  shows "\<exists>k' s'.
      (\<exists>x b'. pd_decode p nb d s = Some (Inr (Some (Chunk x)), k', s') \<and> x \<noteq> [] \<and> b = x @ b'
         \<and> chunked_rel p k' (s' @ fut) b' r)
    \<or> (pd_decode p nb d s = Some (Inr (Some PayloadItem_Eof), k', s') \<and> b = [] \<and> s' @ fut = r)
    \<or> (pd_decode p nb d s = Some (Inr None, k', s') \<and> fut \<noteq> [] \<and> chunked_rel p k' (s' @ fut) b r)"
proof -
  from assms obtain st sz lim cs z where p: "chunk_size_parser p"
    and k: "kind d = Kind_Chunked st sz lim"
    and *: "plain_limits lim" "chunks_ok cs z" "state_rel st sz cs z (s @ fut) b r"
    by (auto simp: chunked_rel_def)
  have "data_ok None None" "length s < loop_fuel s" "collected None None = []"
    by (simp_all add: data_ok_def loop_fuel_def collected_def opt_bytes_def)
  with chunked_loop_good [OF p *, of None None "loop_fuel s" nb] obtain res st' sz' lim' s' data merged cs' b' where
    loop: "chunked_loop p nb (loop_fuel s) st sz lim s None None = Some (res, st', sz', lim', s', data, merged)"
    and r': "plain_limits lim'" "chunks_ok cs' z" "state_rel st' sz' cs' z (s' @ fut) b' r"
    and ok: "data_ok data merged" and col: "b = collected data merged @ b'"
    and res: "res = Inr None \<and> (data = None \<longrightarrow> fut \<noteq> []) \<or> res = Inr (Some PayloadItem_Eof) \<and> st' = End"
    by (metis append_Nil)
  have rel: "chunked_rel p (d\<lparr>kind := Kind_Chunked st' sz' lim'\<rparr>) (s' @ fut) b' r"
    using p r' by (auto simp: chunked_rel_def)
  show ?thesis
  proof (cases data)
    case None
    then have "b = b'" using col ok collected_None by simp
    then show ?thesis using None loop k res rel r' by (auto simp: pd_decode_def)
  next
    case (Some x)
    have "pd_decode p nb d s = Some (Inr (Some (Chunk (collected data merged))),
        d\<lparr>kind := Kind_Chunked st' sz' lim'\<rparr>, s')"
      using loop k res Some by (auto simp: pd_decode_def collected_def opt_bytes_def split: option.splits)
    moreover have "collected data merged \<noteq> []"
      using ok Some by (auto simp: data_ok_def collected_def opt_bytes_def split: option.splits)
    ultimately show ?thesis using col rel by blast
  qed
qed

interpretation chunked: body_decoder "pd_decode p nb" "chunked_rel p" for p nb
  by unfold_locales (rule chunked_rel_decode)

section \<open>Termination and limits\<close>

text \<open>A complete size line is not empty and lies within the buffer.\<close>

definition size_parser_consumes :: "(bytes \<Rightarrow> unit + (nat \<times> u64) Status) \<Rightarrow> bool" where
  "size_parser_consumes p \<longleftrightarrow> (\<forall>s pos sz. p s = Inr (Complete (pos, sz)) \<longrightarrow> 0 < pos \<and> pos \<le> length s)"

text \<open>States in which a step may advance without taking bytes off the buffer.\<close>

fun rank :: "ChunkedState \<Rightarrow> nat" where
  "rank Body = 1"
| "rank EndCr = 1"
| "rank _ = 0"

lemma read_size_progress:
  assumes "size_parser_consumes p" "read_size p src sz lim = (Ready (Inr st'), src', sz', lim')"
  shows "length src' < length src \<and> (st' = Body \<or> st' = EndCr)"
proof -
  from assms(2) obtain pos n where "p src = Inr (Complete (pos, n))" "src' = drop pos src"
    "st' = Body \<or> st' = EndCr"
    by (auto simp: read_size_def Let_def split: if_splits sum.splits Status.splits prod.splits)
  moreover from this(1) have "0 < pos" "pos \<le> length src"
    using assms(1) unfolding size_parser_consumes_def by blast+
  ultimately show ?thesis by auto
qed

lemma step_progress:
  assumes "size_parser_consumes p" "step p nb st src sz lim = (Ready (Inr st'), src', sz', lim', buf, tr)"
    and "st' \<noteq> End" "src' \<noteq> []"
  shows "2 * length src' + rank st' < 2 * length src + rank st"
proof (cases st)
  case Size
  then have "length src' < length src \<and> (st' = Body \<or> st' = EndCr)"
    using assms(2) by (intro read_size_progress [OF assms(1)]) (auto simp: step_def split: prod.splits)
  then show ?thesis by (cases st'; cases st) auto
next
  case ChunkedState_Trailers
  then show ?thesis using assms(2,3)
    by (auto simp: step_def read_trailers_def Let_def split: prod.splits TrailersLoop.splits option.splits if_splits)
qed (use assms(2-4) in \<open>auto simp: step_def read_body_def read_body_cr_def read_body_lf_def
       read_end_cr_def read_end_lf_def expect_byte_def split: if_splits list.splits\<close>)

lemma chunked_loop_returns:
  assumes "size_parser_consumes p" "2 * length src + rank st < fuel"
  shows "chunked_loop p nb fuel st sz lim src data merged \<noteq> None"
  using assms(2)
proof (induction fuel arbitrary: st sz lim src data merged)
  case (Suc fuel)
  obtain res src1 sz1 lim1 buf tr where st1:
    "step p nb st src sz lim = (res, src1, sz1, lim1, buf, tr)" by (metis prod_cases6)
  obtain len data1 merged1 where m: "merge_data buf data merged = (len, data1, merged1)"
    by (metis prod_cases3)
  have "chunked_loop p nb fuel st2 sz1 lim1 src1 data1 merged1 \<noteq> None"
    if "res = Ready (Inr st2)" "st2 \<noteq> End" "src1 \<noteq> []" for st2
    using step_progress [OF assms(1), of nb st src sz lim st2] st1 that Suc.prems by (intro Suc.IH) auto
  then show ?case using st1 m by (auto split: Poll.splits sum.splits)
qed simp

text \<open>
  The counters of a chunked body are within their limits: extension bytes, the position in the
  trailers and the length of a size line that is not complete.
\<close>

definition lims_ok :: "ChunkedLimits \<Rightarrow> bool" where
  "lims_ok lim \<longleftrightarrow> ext lim \<le> MAX_CHUNK_EXTENSIONS \<and> trailers lim \<le> MAX_CHUNK_TRAILERS
     \<and> unat (line lim) \<le> unat MAX_CHUNK_EXTENSIONS + 18"

definition limits_ok :: "PayloadDecoder \<Rightarrow> bool" where
  "limits_ok d \<longleftrightarrow> (case kind d of Kind_Chunked st sz lim \<Rightarrow> lims_ok lim | _ \<Rightarrow> True)"

text \<open>The bytes that a decoder may leave in the buffer when it asks for more.\<close>

definition lims_held :: "ChunkedState \<Rightarrow> ChunkedLimits \<Rightarrow> nat" where
  "lims_held st lim = (case st of
     Size \<Rightarrow> unat (MAX_CHUNK_EXTENSIONS - ext lim) + 18
   | ChunkedState_Trailers \<Rightarrow> unat MAX_CHUNK_TRAILERS + 1
   | _ \<Rightarrow> 0)"

definition held_back :: "PayloadDecoder \<Rightarrow> nat" where
  "held_back d = (case kind d of Kind_Chunked st sz lim \<Rightarrow> lims_held st lim | _ \<Rightarrow> 0)"

lemma read_size_limits:
  assumes "read_size p src sz lim = (res, src', sz', lim')" "lims_ok lim" "\<forall>e. res \<noteq> Ready (Inl e)"
  shows "lims_ok lim'" "res = Pending \<Longrightarrow> length src' \<le> lims_held Size lim'"
proof -
  have "unat (MAX_CHUNK_EXTENSIONS - ext lim) \<le> unat MAX_CHUNK_EXTENSIONS"
    using assms(2) by (simp add: lims_ok_def unat_sub)
  then have "unat (of_nat (length src) :: u32) \<le> unat MAX_CHUNK_EXTENSIONS + 18"
    if "length src \<le> unat (MAX_CHUNK_EXTENSIONS - ext lim) + 18"
    using that by (simp add: unsigned_of_nat MAX_CHUNK_EXTENSIONS_def take_bit_nat_eq_self)
  then show "lims_ok lim'" "res = Pending \<Longrightarrow> length src' \<le> lims_held Size lim'"
    using assms
    by (auto simp: read_size_def lims_ok_def lims_held_def not_less Let_def split: if_splits sum.splits Status.splits prod.splits)
qed

lemma trailers_loop_Break:
  "trailers_loop rdr pos = Break pos' \<Longrightarrow> pos \<le> unat MAX_CHUNK_TRAILERS \<Longrightarrow> pos' \<le> unat MAX_CHUNK_TRAILERS
    \<and> (pos' < length rdr \<and> rdr ! pos' = 13 \<longrightarrow> length rdr = Suc pos')"
proof (induction rdr pos rule: trailers_loop.induct)
  case (1 rdr pos)
  show ?case
  proof (cases "pos' = pos")
    case False
    then obtain e where "position (\<lambda>b. b = 13) (drop pos rdr) = Some e" "pos < length rdr" "rdr ! pos \<noteq> 13"
      "is_tchar (rdr ! pos)" "trailer_field (take e (drop pos rdr)) \<noteq> None" "pos + e + 1 < length rdr"
      "rdr ! (pos + e + 1) = 10" "\<not> pos + e + 2 > unat MAX_CHUNK_TRAILERS"
      "trailers_loop rdr (pos + e + 2) = Break pos'"
      using "1.prems"(1) by (subst (asm) trailers_loop.simps) (auto split: if_splits option.splits)
    then show ?thesis using "1.IH" by auto
  next
    case True
    then have "length rdr = Suc pos" if "pos < length rdr" "rdr ! pos = 13"
      using "1.prems"(1) that by (subst (asm) trailers_loop.simps) (auto split: if_splits)
    then show ?thesis using True "1.prems"(2) by simp
  qed
qed

lemma read_trailers_limits:
  assumes "read_trailers nb src lim = (res, src', lim', tr)" "lims_ok lim"
  shows "lims_ok lim'" "res = Pending \<Longrightarrow> length src' \<le> lims_held ChunkedState_Trailers lim'"
proof -
  have "lims_ok lim' \<and> (res = Pending \<longrightarrow> length src' \<le> lims_held ChunkedState_Trailers lim')"
  proof (cases "trailers_loop src (unat (trailers lim))")
    case (Break pos)
    have pos: "pos \<le> unat MAX_CHUNK_TRAILERS" "pos < length src \<and> src ! pos = 13 \<longrightarrow> length src = Suc pos"
      using trailers_loop_Break [OF Break] assms(2) by (auto simp: lims_ok_def word_le_nat_alt)
    then have "of_nat pos \<le> MAX_CHUNK_TRAILERS"
      by (simp add: MAX_CHUNK_TRAILERS_def word_le_nat_alt unsigned_of_nat take_bit_nat_eq_self)
    then show ?thesis using assms Break pos
      by (auto simp: read_trailers_def lims_ok_def lims_held_def not_less Let_def split: if_splits)
  qed (use assms in \<open>auto simp: read_trailers_def split: option.splits\<close>)
  then show "lims_ok lim'" "res = Pending \<Longrightarrow> length src' \<le> lims_held ChunkedState_Trailers lim'" by auto
qed

lemma step_limits:
  assumes "step p nb st src sz lim = (res, src', sz', lim', buf, tr)" "\<forall>e. res \<noteq> Ready (Inl e)" "lims_ok lim"
  shows "lims_ok lim' \<and> (res = Pending \<longrightarrow> length src' \<le> lims_held st lim')"
proof (cases st)
  case Size
  then have "read_size p src sz lim = (res, src', sz', lim')"
    using assms(1) by (auto simp: step_def split: prod.splits)
  from read_size_limits [OF this assms(3,2)] Size show ?thesis by simp
next
  case ChunkedState_Trailers
  then have "read_trailers nb src lim = (res, src', lim', tr)"
    using assms(1) by (auto simp: step_def split: prod.splits)
  from read_trailers_limits [OF this assms(3)] ChunkedState_Trailers show ?thesis by simp
qed (use assms in \<open>auto simp: step_def read_body_def read_body_cr_def read_body_lf_def read_end_cr_def read_end_lf_def
    expect_byte_def lims_held_def split: prod.splits list.splits if_splits\<close>)

lemma chunked_loop_limits:
  "chunked_loop p nb fuel st sz lim src data merged = Some (Inr res, st', sz', lim', src', data', merged')
     \<Longrightarrow> lims_ok lim \<Longrightarrow> lims_ok lim' \<and> (res = None \<and> data' = None \<longrightarrow> length src' \<le> lims_held st' lim')"
proof (induction fuel arbitrary: st sz lim src data merged)
  case (Suc fuel)
  obtain r1 src1 sz1 lim1 buf tr where st1:
    "step p nb st src sz lim = (r1, src1, sz1, lim1, buf, tr)" by (metis prod_cases6)
  obtain len data1 merged1 where m: "merge_data buf data merged = (len, data1, merged1)"
    by (metis prod_cases3)
  have lims: "lims_ok lim1 \<and> (r1 = Pending \<longrightarrow> length src1 \<le> lims_held st lim1)" if "\<forall>e. r1 \<noteq> Ready (Inl e)"
    using step_limits [OF st1 that Suc.prems(2)] .
  have m0: "buf \<noteq> None \<Longrightarrow> data1 \<noteq> None"
    using m by (auto simp: merge_data_def Let_def split: option.splits)
  show ?case
  proof (cases r1)
    case Pending
    then show ?thesis using lims Suc.prems st1 by (auto split: if_splits)
  next
    case (Ready x)
    show ?thesis
    proof (cases x)
      case (Inl e)
      then show ?thesis using Suc.prems st1 Ready by (auto split: if_splits)
    next
      case (Inr st2)
      then show ?thesis
        using lims m0 Suc.prems st1 m Ready Suc.IH [of st2 sz1 lim1 src1 data1 merged1]
        by (auto split: if_splits)
    qed
  qed
qed simp

text \<open>A chunked body from its start: bytes arrive, and the decoder is called as long as no call fails.\<close>

inductive chunked_reads ::
    "(bytes \<Rightarrow> unit + (nat \<times> u64) Status) \<Rightarrow> (bytes \<Rightarrow> HeaderName option) \<Rightarrow> PayloadDecoder \<Rightarrow> bytes \<Rightarrow> bool"
  for p nb where
  cr_new: "chunked_reads p nb pd_chunked []"
| cr_read: "chunked_reads p nb d src \<Longrightarrow> chunked_reads p nb d (src @ extra)"
| cr_decode: "\<lbrakk>chunked_reads p nb d src; pd_decode p nb d src = Some (Inr r, d', src')\<rbrakk> \<Longrightarrow> chunked_reads p nb d' src'"

lemma pd_decode_limits:
  assumes "limits_ok d" "kind d = Kind_Chunked st sz lim" "pd_decode p nb d src = Some (Inr r, d', src')"
  shows "limits_ok d' \<and> (\<exists>st sz lim. kind d' = Kind_Chunked st sz lim) \<and> (r = None \<longrightarrow> length src' \<le> held_back d')"
proof -
  from assms(2,3) obtain res st' sz' lim' data merged where
    l: "chunked_loop p nb (loop_fuel src) st sz lim src None None = Some (Inr res, st', sz', lim', src', data, merged)"
    "d' = d\<lparr>kind := Kind_Chunked st' sz' lim'\<rparr>" "r = None \<longrightarrow> res = None \<and> data = None"
    by (auto simp: pd_decode_def Let_def split: option.splits sum.splits prod.splits)
  then show ?thesis using chunked_loop_limits [OF l(1)] assms(1,2) by (auto simp: limits_ok_def held_back_def)
qed

lemma chunked_reads_limits:
  "chunked_reads p nb d src \<Longrightarrow> limits_ok d \<and> (\<exists>st sz lim. kind d = Kind_Chunked st sz lim)"
proof (induction rule: chunked_reads.induct)
  case cr_new
  then show ?case by (simp add: limits_ok_def lims_ok_def pd_chunked_def)
next
  case (cr_decode d src r d' src')
  then show ?case using pd_decode_limits by blast
qed

section \<open>Properties\<close>

text \<open>C22. Decoding a body always returns: the loop that merges small chunks makes progress on every
  input, so a call of \<^verbatim>\<open>PayloadDecoder::decode\<close> ends in any state of the decoder. The only
  assumption is that the chunk-size parser does not accept an empty line.\<close>

theorem payload_decode_returns:
  assumes "size_parser_consumes p"
  shows "\<exists>r d' src'. pd_decode p nb d src = Some (r, d', src')"
proof (cases "kind d")
  case (Kind_Chunked st sz lim)
  have "2 * length src + rank st < loop_fuel src" by (cases st) (simp_all add: loop_fuel_def)
  from chunked_loop_returns [OF assms this] obtain x where
    "chunked_loop p nb (loop_fuel src) st sz lim src None None = Some x" by blast
  then show ?thesis using Kind_Chunked
    by (cases x) (auto simp: pd_decode_def Let_def split: sum.splits option.splits)
qed (auto simp: pd_decode_def)

text \<open>A parser of lines with one digit.\<close>

definition digit_line :: "bytes \<Rightarrow> unit + (nat \<times> u64) Status" where
  "digit_line s = (case s of
     d # c # l # t \<Rightarrow> if is_ascii_digit d \<and> c = 13 \<and> l = 10 then Inr (Complete (3, of_nat (hex_val d))) else Inl ()
   | _ \<Rightarrow> Inr Partial)"

theorem payload_decode_returns_witness:
  "\<exists>r d' src'. pd_decode digit_line Some pd_chunked [0x32, 13, 10, 1, 2, 13, 10, 0x30] = Some (r, d', src')"
  by (rule payload_decode_returns)
     (auto simp: size_parser_consumes_def digit_line_def split: list.splits if_splits)

text \<open>C23. The size limits of chunked coding. Over any reads of a chunked body, as long as no call has failed,
  the counters of extension bytes, of the trailer section and of an incomplete size line are within
  their limits after each call (so that the 32-bit subtraction in \<^verbatim>\<open>read_size\<close> does not wrap around).
  When a call returns nothing and asks for more, what it leaves in the buffer is bounded: by the
  extension bytes that are left and 18 in a size line, by \<^verbatim>\<open>MAX_CHUNK_TRAILERS\<close> and one byte in the
  trailers, and by nothing elsewhere.\<close>

theorem chunked_limits_invariant:
  assumes "chunked_reads p nb d src" and "pd_decode p nb d src = Some (Inr r, d', src')"
  shows "limits_ok d' \<and> (r = None \<longrightarrow> length src' \<le> held_back d')"
  using chunked_reads_limits [OF assms(1)] pd_decode_limits [OF _ _ assms(2)] by blast

theorem chunked_limits_invariant_witness:
  "\<exists>d' src'. pd_decode digit_line Some pd_chunked [0x32, 13] = Some (Inr None, d', src') \<and> limits_ok d'
    \<and> length src' \<le> held_back d' \<and> src' = [0x32, 13] \<and> held_back d' = 16402"
proof -
  let ?src = "[0x32, 13] :: bytes"
  have run: "chunked_reads digit_line Some pd_chunked ?src" using cr_read [OF cr_new, of digit_line Some ?src] by simp
  let ?lim = "\<lparr>ext = 0, trailers = 0, line = 2, line_state = Unknown\<rparr> :: ChunkedLimits"
  have "step digit_line Some Size ?src 0 \<lparr>ext = 0, trailers = 0, line = 0, line_state = Unknown\<rparr>
      = (Pending, ?src, 0, ?lim, None, None)"
    by (simp add: step_def read_size_def digit_line_def MAX_CHUNK_EXTENSIONS_def Let_def)
  then have "chunked_loop digit_line Some (Suc n) Size 0 \<lparr>ext = 0, trailers = 0, line = 0, line_state = Unknown\<rparr> ?src None None
      = Some (Inr None, Size, 0, ?lim, ?src, None, None)" for n by simp
  moreover have "loop_fuel ?src = Suc 6" by (simp add: loop_fuel_def)
  ultimately have "pd_decode digit_line Some pd_chunked ?src = Some (Inr None, \<lparr>kind = Kind_Chunked Size 0 ?lim\<rparr>, ?src)"
    unfolding pd_decode_def pd_chunked_def by (simp only: PayloadDecoder.select_convs Kind.case) (simp add: Let_def)
  moreover have "held_back \<lparr>kind = Kind_Chunked Size 0 ?lim\<rparr> = 16402" by (simp add: held_back_def lims_held_def MAX_CHUNK_EXTENSIONS_def)
  ultimately obtain d' where d': "pd_decode digit_line Some pd_chunked ?src = Some (Inr None, d', ?src)" "held_back d' = 16402"
    by blast
  from chunked_limits_invariant [OF run d'(1)] d' show ?thesis by blast
qed

end
