(* ===== verification/H1_Body.thy ===== *)
theory H1_Body
  imports H1_Encoder H1_Payload
begin

text \<open>
  Encoder and decoder of HTTP/1 bodies together: what \<open>H1_Encoder\<close> writes for a body,
  \<open>H1_Payload\<close> reads back, up to the first byte after the body, however the bytes are split into
  reads.
\<close>

section \<open>Size digits\<close>

lemma HEX_digit: "k < 16 \<Longrightarrow> hex_val (HEX ! k) = k \<and> is_ascii_hexdigit (HEX ! k)"
proof -
  have "\<forall>k \<in> set [0..<16]. hex_val (HEX ! k) = k \<and> is_ascii_hexdigit (HEX ! k)" by code_simp
  then show "k < 16 \<Longrightarrow> hex_val (HEX ! k) = k \<and> is_ascii_hexdigit (HEX ! k)" by simp
qed

lemma hex_value_snoc: "hex_value (ds @ [d]) = 16 * hex_value ds + hex_val d"
  by (simp add: hex_value_def)

lemma hex_value_digits: "hex_value (hex_digits n) = n"
proof (induction n rule: hex_digits.induct)
  case (1 n)
  show ?case
  proof (cases "n < 16")
    case True
    then show ?thesis using HEX_digit by (simp add: hex_digits.simps [of n] hex_value_def)
  next
    case False
    then show ?thesis using 1 HEX_digit [of "n mod 16"]
      by (simp add: hex_digits.simps [of n] hex_value_snoc)
  qed
qed

lemma hex_digits_hexdigit: "list_all is_ascii_hexdigit (hex_digits n)"
proof (induction n rule: hex_digits.induct)
  case (1 n)
  then show ?case using HEX_digit [of n] HEX_digit [of "n mod 16"]
    by (cases "n < 16") (simp_all add: hex_digits.simps [of n])
qed

lemma size_digits_hex: "n < 2 ^ 64 \<Longrightarrow> size_digits (hex_digits n)"
  using length_hex_digits_bound [of n 15] length_hex_digits [of n] hex_digits_hexdigit [of n]
  by (auto simp: size_digits_def split: if_splits)

section \<open>The encoder's wire image\<close>

definition encoded_chunks :: "bytes list \<Rightarrow> (bytes \<times> bytes) list" where
  "encoded_chunks msgs = map (\<lambda>m. (hex_digits (length m), m)) (filter (\<lambda>m. m \<noteq> []) msgs)"

lemma encoded_chunks_ok:
  assumes "\<forall>m \<in> set msgs. length m < 2 ^ 64"
  shows "chunks_ok (encoded_chunks msgs) (ascii ''0'')"
proof -
  have "size_digits (ascii ''0'')" and "hex_value (ascii ''0'') = 0"
    by (simp_all add: size_digits_def ascii_def is_ascii_hexdigit_def is_ascii_digit_def
        hex_value_def hex_val_def)
  then show ?thesis
    using assms size_digits_hex by (auto simp: chunks_ok_def encoded_chunks_def hex_value_digits)
qed

lemma encoded_chunks_body: "chunks_body (encoded_chunks msgs) = concat msgs"
  by (induction msgs) (auto simp: chunks_body_def encoded_chunks_def)

lemma encoded_chunks_wire:
  "chunks_wire (encoded_chunks msgs) (ascii ''0'')
     = concat (map chunk_image msgs) @ ascii ''0'' @ [13, 10, 13, 10]"
  by (induction msgs) (auto simp: chunks_wire_def encoded_chunks_def chunk_image_def)

text \<open>A chunk-size parser with the behaviour the decoder relies on.\<close>

definition hex_line :: "bytes \<Rightarrow> unit + (nat \<times> u64) Status" where
  "hex_line s =
     (let ds = takeWhile is_ascii_hexdigit s in
      case drop (length ds) s of
        [] \<Rightarrow> Inr Partial
      | [c] \<Rightarrow> if c = 13 then Inr Partial else Inl ()
      | c # l # _ \<Rightarrow>
          if c = 13 \<and> l = 10 \<and> size_digits ds
          then Inr (Complete (length ds + 2, of_nat (hex_value ds))) else Inl ())"

lemma hex_line_parser: "chunk_size_parser hex_line"
  unfolding chunk_size_parser_def
proof (intro allI impI conjI)
  fix ds q t :: bytes
  assume ds: "size_digits ds"
  then have dig: "\<forall>d \<in> set ds. is_ascii_hexdigit d" by (simp add: size_digits_def list_all_iff)
  have cr: "\<not> is_ascii_hexdigit 13" using hexdigit_not [of 13] by blast
  show "hex_line (ds @ [13, 10] @ t) = Inr (Complete (length ds + 2, of_nat (hex_value ds)))"
    using ds dig cr by (simp add: hex_line_def Let_def takeWhile_append2)
  assume q: "strict_prefix q (ds @ [13, 10])"
  then consider "prefix q ds" | "q = ds @ [13]"
    unfolding strict_prefix_def prefix_append by (auto simp: prefix_Cons)
  then show "hex_line q = Inr Partial"
  proof cases
    case 1
    then have "takeWhile is_ascii_hexdigit q = q"
      using dig by (auto simp: takeWhile_eq_all_conv prefix_def)
    then show ?thesis unfolding hex_line_def Let_def by (simp only: drop_all order_refl list.case)
  next
    case 2
    then show ?thesis using dig cr by (simp add: hex_line_def Let_def takeWhile_append2)
  qed
qed

section \<open>Properties\<close>

text \<open>C2. Round trip of a chunked body: for any data blocks the application sends (empty ones
  included) and any segmentation of the encoder's output into reads, the decoder of the peer
  delivers exactly the bytes of the blocks, reports the end of the body, and stops at the first
  byte after it, so that a following message starts where the encoder ended the body.\<close>

theorem chunked_body_roundtrip:
  assumes "chunk_size_parser p" and "\<forall>msg \<in> set msgs. length msg < 2 ^ 64"
    and "te_encode_all te_chunked msgs [] = (out, te)" and "te_encode_eof te out = (Inr wire, te')"
    and "concat reads = wire @ next_message"
  shows "body_run (pd_decode p nb) (Suc (length (concat msgs) + length reads)) pd_chunked [] reads
    = Some (concat msgs, next_message)"
proof (rule chunked.body_run_correct)
  have "wire = concat (map chunk_image msgs) @ ascii ''0'' @ [13, 10, 13, 10]"
    using assms(3,4) te_encode_all_chunked [OF assms(2)]
    by (auto simp: te_encode_eof_def te_chunked_def)
  then show "chunked_rel p pd_chunked ([] @ concat reads) (concat msgs) next_message"
    using assms(1,5) encoded_chunks_ok [OF assms(2)]
    by (auto simp: chunked_rel_def pd_chunked_def plain_limits_def encoded_chunks_wire
        encoded_chunks_body intro!: exI [of _ "encoded_chunks msgs"] exI [of _ "ascii ''0''"])
qed simp

theorem chunked_body_roundtrip_witness:
  "body_run (pd_decode hex_line Some) 6 pd_chunked []
      [[0x32, 13], [10, 7, 8, 13], [10, 0x30, 13, 10, 13, 10, 0x47]] = Some ([7, 8], [0x47])"
proof -
  have enc: "te_encode_all te_chunked [[7, 8], []] [] = ([0x32, 13, 10, 7, 8, 13, 10], te_chunked)"
    by (simp add: te_encode_def te_chunked_def write_chunk_size_eq hex_digits.simps HEX_def ascii_def)
  have eof: "te_encode_eof te_chunked [0x32, 13, 10, 7, 8, 13, 10]
      = (Inr [0x32, 13, 10, 7, 8, 13, 10, 0x30, 13, 10, 13, 10], \<lparr>te_kind = Chunked True\<rparr>)"
    by (simp add: te_encode_eof_def te_chunked_def ascii_def)
  have six: "6 = Suc (Suc (Suc (Suc (Suc (Suc 0)))))" by simp
  show ?thesis unfolding six
    using chunked_body_roundtrip [OF hex_line_parser _ enc eof, of
      "[[0x32, 13], [10, 7, 8, 13], [10, 0x30, 13, 10, 13, 10, 0x47]]" "[0x47]" Some]
    by (simp del: body_run.simps)
qed

text \<open>Round trip of a body with a declared length: the decoder for the same length delivers
  exactly the bytes the encoder sent, in any segmentation, and leaves what follows them.\<close>

lemma length_body_roundtrip:
  assumes "\<forall>msg \<in> set msgs. length msg < 2 ^ 64"
    and "te_encode_all (te_length n) msgs [] = (out, te)" and "te_encode_eof te out = (Inr wire, te')"
    and "concat reads = wire @ next_message"
  shows "body_run (pd_decode p nb) (Suc (unat n + length reads)) (pd_length n) [] reads
    = Some (take (unat n) (concat msgs), next_message)"
proof (rule fixed.body_run_correct)
  have te: "te = te_length (of_nat (unat n - length (concat msgs)))"
    and out: "out = take (unat n) (concat msgs)"
    using te_encode_all_length [OF assms(1), of n "[]"] assms(2) by simp_all
  have "wire = out" and zero: "(of_nat (unat n - length (concat msgs)) :: u64) = 0"
    using assms(3) by (auto simp: te te_encode_eof_def te_length_def split: if_splits)
  have "unat (of_nat (unat n - length (concat msgs)) :: u64) = unat n - length (concat msgs)"
    using unat_u64_less [of n] by (intro unat_of_nat_u64) simp
  then have len: "unat n \<le> length (concat msgs)" unfolding zero by simp
  then show "length_rel (pd_length n) ([] @ concat reads) (take (unat n) (concat msgs)) next_message"
    using assms(4) \<open>wire = out\<close> out by (auto simp: length_rel_def pd_length_def)
  show "length (take (unat n) (concat msgs)) + length reads < Suc (unat n + length reads)" by simp
qed

end
