(* ===== verification/H1_Message.thy ===== *)
theory H1_Message
  imports H1_Encoder H1_Payload "HOL-Library.Monad_Syntax"
begin

text \<open>
  The HTTP/1 message decoder (\<^verbatim>\<open>ntex/src/http/h1/decoder.rs\<close>): the head of a request or a
  response, the framing its headers select, and the limits on its size. The decoder keeps its
  state between reads.

  The resumable parsers of the crate \<^verbatim>\<open>ntex-httparse\<close>, the number parser of \<^verbatim>\<open>atoi_simd\<close>, the name
  and method tables of the crate \<^verbatim>\<open>http\<close> and the URL type of \<^verbatim>\<open>urly\<close> are parameters, the fields
  of the record \<open>Deps\<close>. The type variables are a parser's result object and its saved state.
\<close>

section \<open>What the decoder uses\<close>

datatype HttparseError =
    Error_HeaderName | Error_HeaderValue | Error_NewLine | Error_Token | Error_Status
  | Error_TooManyHeaders | Error_Version

type_synonym range = "nat \<times> nat"

record RequestLine =
  rl_method :: range
  rl_path :: range
  rl_version :: nat

record StatusLine =
  sl_version :: nat
  sl_code :: nat

datatype HeaderParsed = HeaderParsed_Header nat range range | HeaderParsed_Eof nat

record Authority =
  userinfo :: "bytes option"

record ('p, 's) Deps =
  parse_request :: "'p \<Rightarrow> bytes \<Rightarrow> 's \<Rightarrow> (HttparseError + (nat \<times> RequestLine) Status) \<times> 'p \<times> 's"
  parse_response :: "'p \<Rightarrow> bytes \<Rightarrow> 's \<Rightarrow> (HttparseError + (nat \<times> StatusLine) Status) \<times> 'p \<times> 's"
  parse_header :: "bytes \<Rightarrow> 's \<Rightarrow> (HttparseError + HeaderParsed Status) \<times> 's"
  parser_default :: 'p
  state_default :: 's
  canonical_reason :: "nat \<Rightarrow> bytes"
  method_from_bytes :: "bytes \<Rightarrow> bytes option"
  name_from_bytes :: "bytes \<Rightarrow> HeaderName option"
  parse_u64 :: "bytes \<Rightarrow> u64 option"
  authority_new :: "bytes \<Rightarrow> Authority option"
  parse_target :: "bytes \<Rightarrow> Url option"
  url_validate_target :: "Url \<Rightarrow> bool"
  url_is_absolute :: "Url \<Rightarrow> bool"
  url_authority :: "Url \<Rightarrow> Authority option"
  url_path :: "Url \<Rightarrow> bytes"
  url_query :: "Url \<Rightarrow> bytes option"
  url_normalize :: "Url \<Rightarrow> Url option"
  url_from_static :: "bytes \<Rightarrow> Url"

fun DecodeError_from :: "HttparseError \<Rightarrow> DecodeError" where
  "DecodeError_from Error_HeaderName = Header"
| "DecodeError_from Error_HeaderValue = Header"
| "DecodeError_from Error_NewLine = Header"
| "DecodeError_from Error_Token = Header"
| "DecodeError_from Error_Status = DecodeError.Status"
| "DecodeError_from Error_TooManyHeaders = TooLarge 0"
| "DecodeError_from Error_Version = DecodeError_Version"

text \<open>\<^verbatim>\<open>StatusCode::from_u16\<close>: three digits.\<close>

definition status_from_u16 :: "nat \<Rightarrow> nat option" where
  "status_from_u16 n = (if 100 \<le> n \<and> n < 1000 then Some n else None)"

text \<open>Buffer operations; \<open>None\<close> is a panic.\<close>

definition slice_get :: "range \<Rightarrow> bytes \<Rightarrow> bytes option" where
  "slice_get r src =
     (if fst r \<le> snd r \<and> snd r \<le> length src then Some (take (snd r - fst r) (drop (fst r) src)) else None)"

definition advance_to :: "nat \<Rightarrow> bytes \<Rightarrow> bytes option" where
  "advance_to cnt src = (if cnt \<le> length src then Some (drop cnt src) else None)"

definition split_to :: "nat \<Rightarrow> bytes \<Rightarrow> (bytes \<times> bytes) option" where
  "split_to at src = (if at \<le> length src then Some (take at src, drop at src) else None)"

definition checked_sub :: "nat \<Rightarrow> nat \<Rightarrow> nat option" where
  "checked_sub a b = (if b \<le> a then Some (a - b) else None)"

section \<open>Request targets\<close>

definition is_valid_target :: "('p, 's) Deps \<Rightarrow> bytes \<Rightarrow> Version \<Rightarrow> Url \<Rightarrow> bool" where
  "is_valid_target D mthd version uri =
     (if \<not> url_validate_target D uri then False
      else if mthd = ascii ''CONNECT'' then
        \<not> url_is_absolute D uri \<and> url_authority D uri \<noteq> None \<and> url_path D uri = []
        \<and> url_query D uri = None
      else if version \<noteq> HTTP_2 \<and> url_is_absolute D uri then url_authority D uri \<noteq> None
      else (version = HTTP_2 \<or> url_authority D uri = None)
        \<and> ((url_path D uri \<noteq> [] \<and> hd (url_path D uri) = 0x2F)
           \<or> (url_path D uri = ascii ''*'' \<and> url_query D uri = None \<and> mthd = ascii ''OPTIONS'')))"

definition normalize_request_target ::
    "('p, 's) Deps \<Rightarrow> bytes \<Rightarrow> Version \<Rightarrow> Url \<Rightarrow> DecodeError + Url" where
  "normalize_request_target D mthd version uri =
     (if \<not> is_valid_target D mthd version uri then Inl (InvalidInput ''invalid request-target'')
      else if version = HTTP_2 \<and> url_path D uri = ascii ''*'' then Inr (url_from_static D (ascii ''*''))
      else case url_normalize D uri of None \<Rightarrow> Inl Uri | Some uri \<Rightarrow> Inr uri)"

section \<open>Payload types and decoder state\<close>

datatype PayloadType = PayloadType_None | Payload PayloadDecoder | Stream PayloadDecoder

datatype PayloadLength = PayloadLength_Payload PayloadType | PayloadLength_Upgrade | PayloadLength_None

definition ZERO :: PayloadLength where
  "ZERO = PayloadLength_Payload (Payload \<lparr>kind = Kind_Length 0\<rparr>)"

definition pl_is_none :: "PayloadLength \<Rightarrow> bool" where
  "pl_is_none l \<longleftrightarrow> l = PayloadLength_None"

definition pl_is_zero :: "PayloadLength \<Rightarrow> bool" where
  "pl_is_zero l \<longleftrightarrow> l = ZERO"

datatype Flags =
    HAS_UPGRADE | Flags_EXPECT | CHUNKED | SEEN_TE | CONN_CLOSE | CONN_KA | CONN_UPGRADE
  | WS_UPGRADE | SEEN_HOST | TE_OTHER

record State =
  st_flags :: "Flags set"
  st_content_length :: "u64 option"
  st_version :: Version
  st_validate_host :: bool

text \<open>The version a fresh state has is the default of the crate \<^verbatim>\<open>http\<close>.\<close>

definition State_default :: State where
  "State_default =
     \<lparr>st_flags = {}, st_content_length = None, st_version = HTTP_11, st_validate_host = False\<rparr>"

definition connection_types :: "State \<Rightarrow> ConnectionType list" where
  "connection_types st =
     map snd (filter (\<lambda>(flag, ctype). flag \<in> st_flags st)
       [(CONN_CLOSE, Close), (CONN_KA, KeepAlive), (CONN_UPGRADE, ConnectionType.Upgrade)])"

definition check_upgrade :: "State \<Rightarrow> State" where
  "check_upgrade st =
     (if \<not> {HAS_UPGRADE, CONN_UPGRADE} \<subseteq> st_flags st
      then st\<lparr>st_flags := st_flags st - {HAS_UPGRADE, WS_UPGRADE, CONN_UPGRADE}\<rparr> else st)"

definition payload_length :: "State \<Rightarrow> PayloadLength" where
  "payload_length st =
     (if CHUNKED \<in> st_flags st then PayloadLength_Payload (Payload pd_chunked)
      else case st_content_length st of
        Some len \<Rightarrow>
          if \<not> (len = 0 \<and> WS_UPGRADE \<in> st_flags st)
          then PayloadLength_Payload (Payload (pd_length len))
          else if HAS_UPGRADE \<in> st_flags st then PayloadLength_Upgrade else PayloadLength_None
      | None \<Rightarrow> if HAS_UPGRADE \<in> st_flags st then PayloadLength_Upgrade else PayloadLength_None)"

section \<open>Headers\<close>

text \<open>The loop over the codings, with \<^verbatim>\<open>chunked\<close>, \<^verbatim>\<open>seen_chunked\<close> and \<^verbatim>\<open>other\<close>.\<close>

fun codings_loop :: "bool \<Rightarrow> bool \<Rightarrow> bool \<Rightarrow> bytes list \<Rightarrow> (bool \<times> bool) option" where
  "codings_loop chunked seen_chunked other [] = Some (chunked, other)"
| "codings_loop chunked seen_chunked other (coding # cs) =
     (if coding = [] then codings_loop chunked seen_chunked other cs
      else
        let name = trim_ascii (hd (split_on 0x3B coding)) in
        if name = [] \<or> \<not> list_all is_tchar name then None
        else if eq_ignore_ascii_case name (ascii ''chunked'') then
          if seen_chunked \<or> length name \<noteq> length coding then None
          else codings_loop True True other cs
        else if chunked then codings_loop False seen_chunked True cs
        else if \<not> eq_ignore_ascii_case name (ascii ''identity'')
        then codings_loop chunked seen_chunked True cs
        else codings_loop chunked seen_chunked other cs)"

definition transfer_codings :: "bytes \<Rightarrow> (bool \<times> bool) option" where
  "transfer_codings val = codings_loop False False False (map trim_ascii (split_on 0x2C val))"

definition token_flag :: "bytes \<Rightarrow> Flags set" where
  "token_flag tok =
     (let tok = trim_ascii tok in
      if eq_ignore_ascii_case tok (ascii ''close'') then {CONN_CLOSE}
      else if eq_ignore_ascii_case tok (ascii ''keep-alive'') then {CONN_KA}
      else if eq_ignore_ascii_case tok (ascii ''upgrade'') then {CONN_UPGRADE}
      else {})"

definition connection_flags :: "bytes \<Rightarrow> Flags set" where
  "connection_flags val = foldl (\<lambda>flags tok. flags \<union> token_flag tok) {} (split_on 0x2C val)"

fun is_request :: "Msg \<Rightarrow> bool" where
  "is_request (Req _) = True"
| "is_request (Res _) = False"

fun msg_version :: "Msg \<Rightarrow> Version" where
  "msg_version (Req h) = req_version h"
| "msg_version (Res h) = res_version h"

fun headers_append :: "Msg \<Rightarrow> HeaderName \<Rightarrow> HeaderValue \<Rightarrow> Msg" where
  "headers_append (Req h) n v = Req (h\<lparr>req_headers := HeaderMap_append (req_headers h) n v\<rparr>)"
| "headers_append (Res h) n v = Res (h\<lparr>res_headers := HeaderMap_append (res_headers h) n v\<rparr>)"

fun set_headers_item :: "Msg \<Rightarrow> HeaderItem \<Rightarrow> Msg" where
  "set_headers_item (Req h) hi = Req (h\<lparr>req_headers_vec := req_headers_vec h @ [hi]\<rparr>)"
| "set_headers_item (Res h) hi = Res (h\<lparr>res_headers_vec := res_headers_vec h @ [hi]\<rparr>)"

definition ignore_http11_features :: "bool \<Rightarrow> State \<Rightarrow> bool" where
  "ignore_http11_features request st \<longleftrightarrow> request \<and> st_version st < HTTP_11"

definition insert_flag :: "Flags \<Rightarrow> State \<Rightarrow> State" where
  "insert_flag f st = st\<lparr>st_flags := insert f (st_flags st)\<rparr>"

text \<open>The match on the header name of \<^verbatim>\<open>set_header\<close>: the new state, and the error if there is one.\<close>

definition header_effect ::
    "('p, 's) Deps \<Rightarrow> bool \<Rightarrow> State \<Rightarrow> HeaderName \<Rightarrow> HeaderValue \<Rightarrow> DecodeError option \<times> State" where
  "header_effect D request st name val =
     (if name = CONTENT_LENGTH then
        if st_content_length st \<noteq> None \<or> CHUNKED \<in> st_flags st \<or> TE_OTHER \<in> st_flags st
        then (Some Header, st)
        else if \<not> utf8_valid val then (Some Header, st)
        else if (case trim_start val of [] \<Rightarrow> False | c # _ \<Rightarrow> c = 0x2B) then (Some Header, st)
        else (case parse_u64 D val of
            Some len \<Rightarrow> (None, st\<lparr>st_content_length := Some len\<rparr>)
          | None \<Rightarrow> (Some Header, st))
      else if name = TRANSFER_ENCODING \<and> SEEN_TE \<in> st_flags st then (Some Header, st)
      else if name = TRANSFER_ENCODING \<and> st_version st = HTTP_11 then
        let st = insert_flag SEEN_TE st in
        (case transfer_codings val of
          None \<Rightarrow> (Some Header, st)
        | Some (chunked, other) \<Rightarrow>
            if st_content_length st \<noteq> None \<and> (chunked \<or> other) then (Some Header, st)
            else
              let st = (if chunked then insert_flag CHUNKED st
                        else if other then insert_flag TE_OTHER st else st) in
              if request \<and> \<not> chunked then (Some Header, st)
              else if request \<and> other then (Some UnsupportedTransferCoding, st)
              else (None, st))
      else if name = TRANSFER_ENCODING \<and> st_version st = HTTP_10
      then (Some (InvalidInput ''Transfer-Encoding is not supported by HTTP/1.0''), st)
      else if name = CONNECTION then
        let flags = connection_flags val;
            flags = (if ignore_http11_features request st then flags - {CONN_UPGRADE} else flags)
        in (None, st\<lparr>st_flags := st_flags st \<union> flags\<rparr>)
      else if name = HOST \<and> st_validate_host st then
        if SEEN_HOST \<in> st_flags st then (Some Header, st)
        else if \<not> utf8_valid val then (Some Header, st)
        else (case authority_new D val of
            None \<Rightarrow> (Some Header, st)
          | Some host \<Rightarrow> if userinfo host \<noteq> None then (Some Header, st) else (None, insert_flag SEEN_HOST st))
      else if (name = H_UPGRADE \<or> name = H_EXPECT) \<and> ignore_http11_features request st then (None, st)
      else if name = H_UPGRADE then
        let st = insert_flag HAS_UPGRADE st in
        (None, if eq_ignore_ascii_case (trim_ascii val) (ascii ''websocket'')
               then insert_flag WS_UPGRADE st else st)
      else if name = H_EXPECT
           \<and> list_ex (\<lambda>e. eq_ignore_ascii_case (trim_ascii e) (ascii ''100-continue'')) (split_on 0x2C val)
      then (None, insert_flag Flags_EXPECT st)
      else (None, st))"

definition set_header ::
    "('p, 's) Deps \<Rightarrow> State \<Rightarrow> Msg \<Rightarrow> HeaderName \<Rightarrow> HeaderValue \<Rightarrow> (DecodeError + Msg) \<times> State" where
  "set_header D st msg name val =
     (case header_effect D (is_request msg) st name val of
        (Some e, st) \<Rightarrow> (Inl e, st)
      | (None, st) \<Rightarrow> (Inr (headers_append msg name val), st))"

section \<open>The end of the head\<close>

definition req_set_payload_length ::
    "RequestHead \<Rightarrow> State \<Rightarrow> PayloadLength \<Rightarrow> DecodeError + (RequestHead \<times> PayloadType)" where
  "req_set_payload_length h st len =
     (if req_version h = HTTP_10 \<and> req_method h = ascii ''POST'' \<and> pl_is_none len then Inl Header
      else if st_validate_host st \<and> req_version h \<ge> HTTP_11 \<and> SEEN_HOST \<notin> st_flags st then Inl Header
      else
        let h = foldl (\<lambda>h ctype. req_set_connection_type ctype h) h (connection_types st);
            h = (if Flags_EXPECT \<in> st_flags st then req_set_expect h else h);
            len = (if pl_is_zero len then PayloadLength_None else len)
        in case len of
             PayloadLength_Payload pl \<Rightarrow> Inr (h, pl)
           | PayloadLength_Upgrade \<Rightarrow> Inr (req_set_upgrade h, Stream pd_eof)
           | PayloadLength_None \<Rightarrow>
               if req_method h = ascii ''CONNECT'' then Inr (req_set_upgrade h, Stream pd_eof)
               else Inr (h, PayloadType_None))"

definition res_set_payload_length ::
    "ResponseHead \<Rightarrow> State \<Rightarrow> PayloadLength \<Rightarrow> ResponseHead \<times> PayloadType" where
  "res_set_payload_length h st len =
     (let h = foldl (\<lambda>h ctype. res_set_connection_type ctype h) h (connection_types st) in
      if is_bodyless (res_status h) then (h, PayloadType_None)
      else if res_status h = 101
        \<and> (pl_is_zero len \<or> \<not> (case len of PayloadLength_Payload _ \<Rightarrow> True | _ \<Rightarrow> False))
      then (h, Stream pd_eof)
      else if pl_is_zero len then (h, PayloadType_None)
      else case len of
             PayloadLength_Payload pl \<Rightarrow> (h, pl)
           | _ \<Rightarrow> (res_set_connection_type Close h, Payload pd_eof))"

fun set_payload_length :: "Msg \<Rightarrow> State \<Rightarrow> PayloadLength \<Rightarrow> DecodeError + (Msg \<times> PayloadType)" where
  "set_payload_length (Req h) st len = map_sum id (map_prod Req id) (req_set_payload_length h st len)"
| "set_payload_length (Res h) st len = Inr (map_prod Res id (res_set_payload_length h st len))"

section \<open>The decoder\<close>

record HttpServiceConfig =
  cfg_headers_vec :: bool
  cfg_validate_host :: bool
  cfg_normalize_target :: bool
  cfg_max_headers :: u16
  cfg_max_buf_size :: nat
  cfg_max_start_line_size :: nat

record ('p, 's) Inner =
  in_st :: State
  in_val :: "Msg option"
  in_hdr_st :: 's
  in_cfg :: HttpServiceConfig
  in_consumed :: nat
  in_headers :: u16
  in_line :: 'p
  in_line_st :: 's

record ('p, 's) MessageDecoder =
  md_hdrs :: bool
  md_inner :: "('p, 's) Inner"

definition md_new :: "('p, 's) Deps \<Rightarrow> HttpServiceConfig \<Rightarrow> ('p, 's) MessageDecoder" where
  "md_new D cfg =
     \<lparr>md_hdrs = False,
      md_inner = \<lparr>in_st = State_default, in_val = None, in_hdr_st = state_default D, in_cfg = cfg,
                  in_consumed = 0, in_headers = 0, in_line = parser_default D,
                  in_line_st = state_default D\<rparr>\<rparr>"

definition is_reading_hdrs :: "('p, 's) MessageDecoder \<Rightarrow> bool" where
  "is_reading_hdrs d = md_hdrs d"

definition md_clone :: "('p, 's) Deps \<Rightarrow> ('p, 's) MessageDecoder \<Rightarrow> ('p, 's) MessageDecoder" where
  "md_clone D d = md_new D (in_cfg (md_inner d))"

text \<open>Start lines: the outcome, the buffer, the parser and its saved state.\<close>

definition req_version_of :: "nat \<Rightarrow> Version" where
  "req_version_of v = (if v = 1 then HTTP_11 else HTTP_10)"

definition request_head :: "Url \<Rightarrow> bytes \<Rightarrow> Version \<Rightarrow> RequestHead" where
  "request_head uri mthd version =
     \<lparr>req_uri = uri, req_method = mthd, req_version = version, req_headers = HeaderMap_new,
      req_headers_vec = [], req_flags = {}\<rparr>"

definition split_target :: "range \<Rightarrow> nat \<Rightarrow> bytes \<Rightarrow> (bytes \<times> bytes) option" where
  "split_target path pos src = do {
     src \<leftarrow> advance_to (fst path) src;
     len \<leftarrow> checked_sub (snd path) (fst path);
     (target, src) \<leftarrow> split_to len src;
     skip \<leftarrow> checked_sub pos (snd path);
     src \<leftarrow> advance_to skip src;
     Some (target, src)
   }"

definition finish_request ::
    "('p, 's) Deps \<Rightarrow> HttpServiceConfig \<Rightarrow> bytes \<Rightarrow> bytes \<Rightarrow> nat \<Rightarrow> DecodeError + RequestHead" where
  "finish_request D cfg mthd target ver =
     (case parse_target D target of
        None \<Rightarrow> Inl Uri
      | Some uri \<Rightarrow>
          if cfg_normalize_target cfg then
            (case normalize_request_target D mthd (req_version_of ver) uri of
               Inl e \<Rightarrow> Inl e
             | Inr uri \<Rightarrow> Inr (request_head uri mthd (req_version_of ver)))
          else Inr (request_head uri mthd (req_version_of ver)))"

definition req_decode ::
    "('p, 's) Deps \<Rightarrow> bytes \<Rightarrow> 'p \<Rightarrow> 's \<Rightarrow> HttpServiceConfig
     \<Rightarrow> (DecodeError failure + Msg Poll) \<times> bytes \<times> 'p \<times> 's" where
  "req_decode D src req st cfg =
     (case parse_request D req src st of
        (Inl e, req, st) \<Rightarrow> (Inl (Err (DecodeError_from e)), src, req, st)
      | (Inr Partial, req, st) \<Rightarrow> (Inr Pending, src, req, st)
      | (Inr (Complete (pos, ln)), req, st) \<Rightarrow>
          (case slice_get (rl_method ln) src of
             None \<Rightarrow> (Inl Panic, src, req, st)
           | Some mbytes \<Rightarrow>
               (case method_from_bytes D mbytes of
                  None \<Rightarrow> (Inl (Err Method), src, req, st)
                | Some mthd \<Rightarrow>
                    (case split_target (rl_path ln) pos src of
                       None \<Rightarrow> (Inl Panic, src, req, st)
                     | Some (target, src) \<Rightarrow>
                         (case finish_request D cfg mthd target (rl_version ln) of
                            Inl e \<Rightarrow> (Inl (Err e), src, req, st)
                          | Inr h \<Rightarrow> (Inr (Ready (Req h)), src, req, st))))))"

definition ResponseHead_new :: "('p, 's) Deps \<Rightarrow> nat \<Rightarrow> Version \<Rightarrow> ResponseHead" where
  "ResponseHead_new D status version =
     \<lparr>res_version = version, res_status = status, res_headers = HeaderMap_new, res_headers_vec = [],
      res_reason = canonical_reason D status, res_flags = {}\<rparr>"

definition res_decode ::
    "('p, 's) Deps \<Rightarrow> bytes \<Rightarrow> 'p \<Rightarrow> 's \<Rightarrow> (DecodeError failure + Msg Poll) \<times> bytes \<times> 'p \<times> 's" where
  "res_decode D src res st =
     (case parse_response D res src st of
        (Inl e, res, st) \<Rightarrow> (Inl (Err (DecodeError_from e)), src, res, st)
      | (Inr Partial, res, st) \<Rightarrow> (Inr Pending, src, res, st)
      | (Inr (Complete (pos, ln)), res, st) \<Rightarrow>
          (case status_from_u16 (sl_code ln) of
             None \<Rightarrow> (Inl (Err DecodeError.Status), src, res, st)
           | Some status \<Rightarrow>
               (case advance_to pos src of
                  None \<Rightarrow> (Inl Panic, src, res, st)
                | Some src \<Rightarrow>
                    (Inr (Ready (Res (ResponseHead_new D status (req_version_of (sl_version ln))))),
                     src, res, st))))"

definition msg_decode ::
    "('p, 's) Deps \<Rightarrow> bool \<Rightarrow> bytes \<Rightarrow> 'p \<Rightarrow> 's \<Rightarrow> HttpServiceConfig
     \<Rightarrow> (DecodeError failure + Msg Poll) \<times> bytes \<times> 'p \<times> 's" where
  "msg_decode D request src ln st cfg =
     (if request then req_decode D src ln st cfg else res_decode D src ln st)"

text \<open>The bytes of a header line are removed from the buffer: the original name if it is kept, the
  value and the rest. \<open>None\<close> is a panic.\<close>

definition split_header ::
    "bool \<Rightarrow> range \<Rightarrow> range \<Rightarrow> nat \<Rightarrow> bytes \<Rightarrow> (bytes option \<times> bytes \<times> bytes) option" where
  "split_header keep n v len src = do {
     (pos, origin, src) \<leftarrow>
       (if keep then do {
          src \<leftarrow> advance_to (fst n) src;
          k \<leftarrow> checked_sub (snd n) (fst n);
          (origin, src) \<leftarrow> split_to k src;
          Some (snd n, Some origin, src)
        } else Some (0, None, src));
     (pos, val, src) \<leftarrow>
       (if fst v = snd v then Some (pos, [], src) else do {
          k \<leftarrow> checked_sub (fst v) pos;
          src \<leftarrow> advance_to k src;
          k \<leftarrow> checked_sub (snd v) (fst v);
          (val, src) \<leftarrow> split_to k src;
          Some (snd v, val, src)
        });
     k \<leftarrow> checked_sub len pos;
     src \<leftarrow> advance_to k src;
     Some (origin, val, src)
   }"

definition keep_origin :: "bytes option \<Rightarrow> HeaderName \<Rightarrow> HeaderValue \<Rightarrow> Msg \<Rightarrow> Msg" where
  "keep_origin origin name val msg =
     (case origin of
        None \<Rightarrow> msg
      | Some orig \<Rightarrow> set_headers_item msg \<lparr>hi_name = name, hi_origin = orig, hi_value = val\<rparr>)"

text \<open>One header line: \<open>inr\<close> already holds the parser state after it.\<close>

definition take_header ::
    "('p, 's) Deps \<Rightarrow> nat \<Rightarrow> range \<Rightarrow> range \<Rightarrow> bytes \<Rightarrow> ('p, 's) Inner
     \<Rightarrow> (DecodeError failure + unit) \<times> bytes \<times> ('p, 's) Inner" where
  "take_header D len n v src inr =
     (if in_headers inr \<ge> cfg_max_headers (in_cfg inr) then (Inl (Err MaxHeaders), src, inr)
      else
        let inr = inr\<lparr>in_headers := in_headers inr + 1\<rparr> in
        (case slice_get n src of
           None \<Rightarrow> (Inl Panic, src, inr)
         | Some nbytes \<Rightarrow>
        (case name_from_bytes D nbytes of
           None \<Rightarrow> (Inl (Err Header), src, inr)
         | Some name \<Rightarrow>
        (case split_header (cfg_headers_vec (in_cfg inr)) n v len src of
           None \<Rightarrow> (Inl Panic, src, inr)
         | Some (origin, val, src) \<Rightarrow>
        let inr = inr\<lparr>in_hdr_st := state_default D\<rparr> in
        (case in_val inr of
           None \<Rightarrow> (Inl Panic, src, inr)
         | Some msg \<Rightarrow>
        (case set_header D (in_st inr) (keep_origin origin name val msg) name val of
           (Inl e, st) \<Rightarrow>
             (Inl (Err e), src, inr\<lparr>in_st := st, in_val := Some (keep_origin origin name val msg)\<rparr>)
         | (Inr msg, st) \<Rightarrow> (Inr (), src, inr\<lparr>in_st := st, in_val := Some msg\<rparr>)))))))"

lemma take_headerE:
  assumes "take_header D len n v src inr = (Inr (), src', inr')"
  obtains nbytes name origin val msg msg' st' where "in_headers inr < cfg_max_headers (in_cfg inr)"
    "slice_get n src = Some nbytes" "name_from_bytes D nbytes = Some name"
    "split_header (cfg_headers_vec (in_cfg inr)) n v len src = Some (origin, val, src')"
    "in_val inr = Some msg"
    "set_header D (in_st inr) (keep_origin origin name val msg) name val = (Inr msg', st')"
    "inr' = inr\<lparr>in_headers := in_headers inr + 1, in_hdr_st := state_default D, in_st := st', in_val := Some msg'\<rparr>"
  using assms
  by (auto simp: take_header_def Let_def not_le split: if_splits option.splits prod.splits sum.splits)

lemma unat_u16_Suc: "(a :: u16) < b \<Longrightarrow> unat (a + 1) = Suc (unat a)"
  using unsigned_less [of b, where ?'a = nat] by (simp add: word_less_nat_alt unat_word_ariths)

text \<open>The number of headers left, which decreases with every line taken.\<close>

definition headers_left :: "('p, 's) Inner \<Rightarrow> nat" where
  "headers_left inr = unat (cfg_max_headers (in_cfg inr)) - unat (in_headers inr)"

lemma take_header_left:
  "take_header D len n v src inr = (Inr (), src', inr') \<Longrightarrow> headers_left inr' < headers_left inr"
  by (erule take_headerE) (auto simp: headers_left_def unat_u16_Suc word_less_nat_alt intro!: diff_less_mono2)

function decode_headers ::
    "('p, 's) Deps \<Rightarrow> bytes \<Rightarrow> ('p, 's) Inner
     \<Rightarrow> (DecodeError failure + unit) Poll \<times> bytes \<times> ('p, 's) Inner" where
  "decode_headers D src inr =
     (case parse_header D src (in_hdr_st inr) of
        (Inl e, hst) \<Rightarrow> (Ready (Inl (Err (DecodeError_from e))), src, inr\<lparr>in_hdr_st := hst\<rparr>)
      | (Inr Partial, hst) \<Rightarrow> (Pending, src, inr\<lparr>in_hdr_st := hst\<rparr>)
      | (Inr (Complete (HeaderParsed_Eof len)), hst) \<Rightarrow>
          (case advance_to len src of
             None \<Rightarrow> (Ready (Inl Panic), src, inr\<lparr>in_hdr_st := hst\<rparr>)
           | Some src \<Rightarrow> (Ready (Inr ()), src, inr\<lparr>in_hdr_st := state_default D\<rparr>))
      | (Inr (Complete (HeaderParsed_Header len n v)), hst) \<Rightarrow>
          (case take_header D len n v src (inr\<lparr>in_hdr_st := hst\<rparr>) of
             (Inl e, src, inr) \<Rightarrow> (Ready (Inl e), src, inr)
           | (Inr _, src, inr) \<Rightarrow> decode_headers D src inr))"
  by auto
termination
  by (relation "measure (\<lambda>(D, src, inr). headers_left inr)")
     (auto simp: headers_left_def dest!: take_header_left [OF sym])

declare decode_headers.simps [simp del]

text \<open>The start line, when the head of a message has not been started.\<close>

definition start_line ::
    "('p, 's) Deps \<Rightarrow> bool \<Rightarrow> bytes \<Rightarrow> ('p, 's) Inner
     \<Rightarrow> (DecodeError failure + unit) \<times> bytes \<times> ('p, 's) Inner" where
  "start_line D request src inr =
     (if in_val inr \<noteq> None then (Inr (), src, inr)
      else case msg_decode D request src (in_line inr) (in_line_st inr) (in_cfg inr) of
        (Inl e, src', ln, lst) \<Rightarrow> (Inl e, src', inr\<lparr>in_line := ln, in_line_st := lst\<rparr>)
      | (Inr Pending, src', ln, lst) \<Rightarrow> (Inr (), src', inr\<lparr>in_line := ln, in_line_st := lst\<rparr>)
      | (Inr (Ready val), src', ln, lst) \<Rightarrow>
          if length src - length src' > cfg_max_start_line_size (in_cfg inr)
          then (Inl (Err (StartLineTooLong (length src - length src'))), src',
                inr\<lparr>in_line := ln, in_line_st := lst\<rparr>)
          else (Inr (), src',
                inr\<lparr>in_line := ln, in_line_st := state_default D,
                    in_st := (in_st inr)\<lparr>st_version := msg_version val,
                      st_validate_host := request \<and> cfg_validate_host (in_cfg inr)\<rparr>,
                    in_val := Some val\<rparr>))"

text \<open>The headers and the end of the head; the result carries the size of the head so far.\<close>

definition head_fields ::
    "('p, 's) Deps \<Rightarrow> bool \<Rightarrow> nat \<Rightarrow> bytes \<Rightarrow> ('p, 's) MessageDecoder
     \<Rightarrow> (DecodeError failure + ((Msg \<times> PayloadType) option \<times> nat)) \<times> bytes \<times> ('p, 's) MessageDecoder" where
  "head_fields D request len src d =
     (case decode_headers D src (md_inner d) of
        (Ready (Inl e), src, inr) \<Rightarrow> (Inl e, src, d\<lparr>md_inner := inr\<rparr>)
      | (Pending, src, inr) \<Rightarrow>
          let buf_size = in_consumed inr + len
          in (Inr (None, buf_size), src, d\<lparr>md_inner := inr\<lparr>in_consumed := buf_size - length src\<rparr>\<rparr>)
      | (Ready (Inr _), src, inr) \<Rightarrow>
          (case in_val inr of
             None \<Rightarrow> (Inl Panic, src, d\<lparr>md_inner := inr\<rparr>)
           | Some val \<Rightarrow>
               let st = (if request then check_upgrade (in_st inr) else in_st inr) in
               (case set_payload_length val st (payload_length st) of
                  Inl e \<Rightarrow> (Inl (Err e), src, d\<lparr>md_inner := inr\<lparr>in_val := None, in_st := st\<rparr>\<rparr>)
                | Inr (val, pl) \<Rightarrow>
                    (Inr (Some (val, pl), in_consumed inr + len - length src), src,
                     d\<lparr>md_hdrs := False,
                       md_inner := inr\<lparr>in_val := None, in_st := State_default, in_consumed := 0,
                                       in_headers := 0\<rparr>\<rparr>))))"

definition skipped :: "('p, 's) Deps \<Rightarrow> ('p, 's) Inner \<Rightarrow> bytes \<Rightarrow> nat" where
  "skipped D inr src =
     (if in_val inr = None \<and> in_line_st inr = state_default D then empty_lines src else 0)"

definition decode_message ::
    "('p, 's) Deps \<Rightarrow> bool \<Rightarrow> bytes \<Rightarrow> ('p, 's) MessageDecoder
     \<Rightarrow> (DecodeError failure + (Msg \<times> PayloadType) option) \<times> bytes \<times> ('p, 's) MessageDecoder" where
  "decode_message D request src d =
     (let d = (if src \<noteq> [] then d\<lparr>md_hdrs := True\<rparr> else d);
          skip = skipped D (md_inner d) src;
          src = drop skip src;
          inr = (md_inner d)\<lparr>in_consumed := in_consumed (md_inner d) + skip\<rparr>;
          len = length src
      in case start_line D request src inr of
           (Inl e, src, inr) \<Rightarrow> (Inl e, src, d\<lparr>md_inner := inr\<rparr>)
         | (Inr _, src, inr) \<Rightarrow>
             if in_val inr = None \<and> len > cfg_max_start_line_size (in_cfg inr)
             then (Inl (Err (StartLineTooLong len)), src, d\<lparr>md_inner := inr\<rparr>)
             else
               (case (if in_val inr \<noteq> None then head_fields D request len src (d\<lparr>md_inner := inr\<rparr>)
                      else (Inr (None, in_consumed inr + len), src, d\<lparr>md_inner := inr\<rparr>)) of
                  (Inl e, src, d) \<Rightarrow> (Inl e, src, d)
                | (Inr (result, buf_size), src, d) \<Rightarrow>
                    if buf_size > cfg_max_buf_size (in_cfg inr)
                    then (Inl (Err (TooLarge buf_size)), src, d)
                    else (Inr result, src, d)))"

definition md_reset :: "('p, 's) Deps \<Rightarrow> ('p, 's) MessageDecoder \<Rightarrow> ('p, 's) MessageDecoder" where
  "md_reset D d =
     d\<lparr>md_hdrs := False,
       md_inner := (md_inner d)\<lparr>in_val := None, in_st := State_default, in_hdr_st := state_default D,
         in_consumed := 0, in_headers := 0, in_line_st := state_default D\<rparr>\<rparr>"

definition md_decode ::
    "('p, 's) Deps \<Rightarrow> bool \<Rightarrow> bytes \<Rightarrow> ('p, 's) MessageDecoder
     \<Rightarrow> (DecodeError failure + (Msg \<times> PayloadType) option) \<times> bytes \<times> ('p, 's) MessageDecoder" where
  "md_decode D request src d =
     (case decode_message D request src d of
        (Inl (Err e), src, d) \<Rightarrow> (Inl (Err e), src, md_reset D d)
      | (r, src, d) \<Rightarrow> (r, src, d))"

section \<open>What the headers say\<close>

lemma ascii_eq_iff [simp]: "ascii s = ascii t \<longleftrightarrow> s = t"
proof
  have nat: "unat (of_char c :: u8) = (of_char c :: nat)" for c :: char
  proof -
    have "unat (of_nat (of_char c) :: u8) = of_char c"
      unfolding unsigned_of_nat by (simp add: take_bit_nat_eq_self)
    then show ?thesis by (simp only: of_nat_of_char)
  qed
  have inj: "inj (of_char :: char \<Rightarrow> u8)"
    by (rule injI) (metis nat of_char_eq_iff)
  assume "ascii s = ascii t"
  then show "s = t" unfolding ascii_def using inj by (simp add: inj_map_eq_map)
qed simp

text \<open>
  The headers of a head as a function from names to the values received under them, and the framing
  they declare, in the terms of RFC 9112 section 6: the transfer codings, the content length, and
  whether the message asks to leave HTTP.
\<close>

type_synonym hvals = "HeaderName \<Rightarrow> HeaderValue list"

definition declares_chunked :: "hvals \<Rightarrow> bool" where
  "declares_chunked hv \<longleftrightarrow> list_ex (\<lambda>v. map_option fst (transfer_codings v) = Some True) (hv TRANSFER_ENCODING)"

definition declares_other :: "hvals \<Rightarrow> bool" where
  "declares_other hv \<longleftrightarrow> list_ex (\<lambda>v. transfer_codings v = Some (False, True)) (hv TRANSFER_ENCODING)"

definition declared_length :: "('p, 's) Deps \<Rightarrow> hvals \<Rightarrow> u64 option" where
  "declared_length D hv = (case hv CONTENT_LENGTH of [] \<Rightarrow> None | v # _ \<Rightarrow> parse_u64 D v)"

definition names_option :: "Flags \<Rightarrow> hvals \<Rightarrow> bool" where
  "names_option f hv \<longleftrightarrow> list_ex (\<lambda>v. f \<in> connection_flags v) (hv CONNECTION)"

definition names_websocket :: "hvals \<Rightarrow> bool" where
  "names_websocket hv \<longleftrightarrow>
     list_ex (\<lambda>v. eq_ignore_ascii_case (trim_ascii v) (ascii ''websocket'')) (hv H_UPGRADE)"

definition names_continue :: "hvals \<Rightarrow> bool" where
  "names_continue hv \<longleftrightarrow>
     list_ex (\<lambda>v. list_ex (\<lambda>e. eq_ignore_ascii_case (trim_ascii e) (ascii ''100-continue''))
                    (split_on 0x2C v)) (hv H_EXPECT)"

text \<open>The framing part of the decoder state agrees with the headers.\<close>

definition framing_ok :: "('p, 's) Deps \<Rightarrow> bool \<Rightarrow> State \<Rightarrow> hvals \<Rightarrow> bool" where
  "framing_ok D q st hv \<longleftrightarrow>
     st_version st \<in> {HTTP_10, HTTP_11}
   \<and> length (hv CONTENT_LENGTH) \<le> 1 \<and> st_content_length st = declared_length D hv
   \<and> (hv CONTENT_LENGTH \<noteq> [] \<longrightarrow> declared_length D hv \<noteq> None \<and> CHUNKED \<notin> st_flags st \<and> TE_OTHER \<notin> st_flags st)
   \<and> length (hv TRANSFER_ENCODING) \<le> 1
   \<and> (SEEN_TE \<in> st_flags st \<longleftrightarrow> hv TRANSFER_ENCODING \<noteq> [])
   \<and> (hv TRANSFER_ENCODING \<noteq> [] \<longrightarrow> st_version st = HTTP_11)
   \<and> (CHUNKED \<in> st_flags st \<longleftrightarrow> declares_chunked hv)
   \<and> (TE_OTHER \<in> st_flags st \<longleftrightarrow> declares_other hv)
   \<and> list_all (\<lambda>v. case transfer_codings v of None \<Rightarrow> False | Some (c, other) \<Rightarrow> q \<longrightarrow> c \<and> \<not> other)
       (hv TRANSFER_ENCODING)"

text \<open>The upgrade, connection and expectation flags agree with the headers.\<close>

definition options_ok :: "bool \<Rightarrow> State \<Rightarrow> hvals \<Rightarrow> bool" where
  "options_ok q st hv \<longleftrightarrow>
     (let live = \<not> ignore_http11_features q st in
      (HAS_UPGRADE \<in> st_flags st \<longleftrightarrow> live \<and> hv H_UPGRADE \<noteq> [])
    \<and> (WS_UPGRADE \<in> st_flags st \<longleftrightarrow> live \<and> names_websocket hv)
    \<and> (Flags_EXPECT \<in> st_flags st \<longleftrightarrow> live \<and> names_continue hv)
    \<and> (CONN_CLOSE \<in> st_flags st \<longleftrightarrow> names_option CONN_CLOSE hv)
    \<and> (CONN_KA \<in> st_flags st \<longleftrightarrow> names_option CONN_KA hv)
    \<and> (CONN_UPGRADE \<in> st_flags st \<longleftrightarrow> live \<and> names_option CONN_UPGRADE hv))"

definition host_ok :: "State \<Rightarrow> hvals \<Rightarrow> bool" where
  "host_ok st hv \<longleftrightarrow> (st_validate_host st \<longrightarrow>
     length (hv HOST) \<le> 1 \<and> (SEEN_HOST \<in> st_flags st \<longleftrightarrow> hv HOST \<noteq> []))"

lemma connection_flags_range: "connection_flags v \<subseteq> {CONN_CLOSE, CONN_KA, CONN_UPGRADE}"
proof -
  have "F \<subseteq> {CONN_CLOSE, CONN_KA, CONN_UPGRADE} \<Longrightarrow>
    foldl (\<lambda>flags tok. flags \<union> token_flag tok) F toks \<subseteq> {CONN_CLOSE, CONN_KA, CONN_UPGRADE}" for F toks
    by (induction toks arbitrary: F) (auto simp: token_flag_def Let_def)
  then show ?thesis by (simp add: connection_flags_def)
qed

text \<open>Accepted headers, name by name.\<close>

lemma header_effect_length:
  assumes "header_effect D q st CONTENT_LENGTH val = (None, st')"
  obtains len where "st_content_length st = None" "CHUNKED \<notin> st_flags st" "TE_OTHER \<notin> st_flags st"
    "parse_u64 D val = Some len" "st' = st\<lparr>st_content_length := Some len\<rparr>"
  using assms by (auto simp: header_effect_def split: if_splits option.splits)

lemma header_effect_codings:
  assumes "header_effect D q st TRANSFER_ENCODING val = (None, st')"
    and "st_version st \<in> {HTTP_10, HTTP_11}"
  obtains c other where "SEEN_TE \<notin> st_flags st" "st_version st = HTTP_11"
    "transfer_codings val = Some (c, other)" "c \<or> other \<Longrightarrow> st_content_length st = None"
    "q \<Longrightarrow> c \<and> \<not> other"
    "st' = st\<lparr>st_flags := st_flags st \<union> {SEEN_TE} \<union> (if c then {CHUNKED} else if other then {TE_OTHER} else {})\<rparr>"
proof -
  have "header_effect D q st TRANSFER_ENCODING val =
     (if SEEN_TE \<in> st_flags st then (Some Header, st)
      else if st_version st = HTTP_11 then
        case transfer_codings val of
          None \<Rightarrow> (Some Header, insert_flag SEEN_TE st)
        | Some (c, other) \<Rightarrow>
            if st_content_length st \<noteq> None \<and> (c \<or> other) then (Some Header, insert_flag SEEN_TE st)
            else
              let st = (if c then insert_flag CHUNKED (insert_flag SEEN_TE st)
                        else if other then insert_flag TE_OTHER (insert_flag SEEN_TE st)
                        else insert_flag SEEN_TE st) in
              if q \<and> \<not> c then (Some Header, st)
              else if q \<and> other then (Some UnsupportedTransferCoding, st)
              else (None, st)
      else (Some (InvalidInput ''Transfer-Encoding is not supported by HTTP/1.0''), st))"
    using assms(2) by (cases "transfer_codings val") (auto simp: header_effect_def insert_flag_def Let_def)
  with assms(1) show ?thesis
    by (intro that [of "fst (the (transfer_codings val))" "snd (the (transfer_codings val))"])
       (auto simp: insert_flag_def Let_def insert_commute split: if_splits option.splits)
qed

lemma header_effect_connection:
  "header_effect D q st CONNECTION val =
     (None, st\<lparr>st_flags := st_flags st \<union> (connection_flags val
        - (if ignore_http11_features q st then {CONN_UPGRADE} else {}))\<rparr>)"
  by (simp add: header_effect_def Let_def)

lemma header_effect_host:
  assumes "header_effect D q st HOST val = (None, st')"
  obtains "st_validate_host st" "SEEN_HOST \<notin> st_flags st" "st' = insert_flag SEEN_HOST st"
    | "\<not> st_validate_host st" "st' = st"
  using assms by (auto simp: header_effect_def split: if_splits option.splits)

lemma header_effect_upgrade:
  "header_effect D q st H_UPGRADE val =
     (None, if ignore_http11_features q st then st
            else st\<lparr>st_flags := st_flags st \<union> {HAS_UPGRADE}
              \<union> (if eq_ignore_ascii_case (trim_ascii val) (ascii ''websocket'') then {WS_UPGRADE} else {})\<rparr>)"
  by (auto simp: header_effect_def insert_flag_def Let_def insert_commute)

lemma header_effect_expect:
  "header_effect D q st H_EXPECT val =
     (None, if \<not> ignore_http11_features q st
               \<and> list_ex (\<lambda>e. eq_ignore_ascii_case (trim_ascii e) (ascii ''100-continue'')) (split_on 0x2C val)
            then insert_flag Flags_EXPECT st else st)"
  by (simp add: header_effect_def)

lemma header_effect_other:
  "name \<notin> {CONTENT_LENGTH, TRANSFER_ENCODING, CONNECTION, HOST, H_UPGRADE, H_EXPECT}
    \<Longrightarrow> header_effect D q st name val = (None, st)"
  by (simp add: header_effect_def)

text \<open>Adding a value under a name changes only what is read under that name.\<close>

lemma headers_upd [simp]:
  "name \<noteq> TRANSFER_ENCODING \<Longrightarrow> declares_chunked (hv(name := vs)) = declares_chunked hv"
  "name \<noteq> TRANSFER_ENCODING \<Longrightarrow> declares_other (hv(name := vs)) = declares_other hv"
  "name \<noteq> CONTENT_LENGTH \<Longrightarrow> declared_length D (hv(name := vs)) = declared_length D hv"
  "name \<noteq> CONNECTION \<Longrightarrow> names_option f (hv(name := vs)) = names_option f hv"
  "name \<noteq> H_UPGRADE \<Longrightarrow> names_websocket (hv(name := vs)) = names_websocket hv"
  "name \<noteq> H_EXPECT \<Longrightarrow> names_continue (hv(name := vs)) = names_continue hv"
  by (simp_all add: declares_chunked_def declares_other_def declared_length_def names_option_def
      names_websocket_def names_continue_def)

lemma headers_add [simp]:
  "names_option f (hv(CONNECTION := hv CONNECTION @ [v])) \<longleftrightarrow> names_option f hv \<or> f \<in> connection_flags v"
  "names_websocket (hv(H_UPGRADE := hv H_UPGRADE @ [v])) \<longleftrightarrow>
     names_websocket hv \<or> eq_ignore_ascii_case (trim_ascii v) (ascii ''websocket'')"
  "names_continue (hv(H_EXPECT := hv H_EXPECT @ [v])) \<longleftrightarrow>
     names_continue hv
     \<or> list_ex (\<lambda>e. eq_ignore_ascii_case (trim_ascii e) (ascii ''100-continue'')) (split_on 0x2C v)"
  by (auto simp: names_option_def names_websocket_def names_continue_def)

lemma header_effect_cases:
  obtains "name = CONTENT_LENGTH" | "name = TRANSFER_ENCODING" | "name = CONNECTION" | "name = HOST"
    | "name = H_UPGRADE" | "name = H_EXPECT"
    | "name \<notin> {CONTENT_LENGTH, TRANSFER_ENCODING, CONNECTION, HOST, H_UPGRADE, H_EXPECT}"
  by blast

text \<open>An accepted header keeps the state in agreement with the headers.\<close>

lemma header_effect_kept:
  assumes "header_effect D q st name val = (None, st')"
    and "name \<notin> {CONTENT_LENGTH, TRANSFER_ENCODING}"
  shows "st_content_length st' = st_content_length st \<and> st_version st' = st_version st
    \<and> st_validate_host st' = st_validate_host st
    \<and> (\<forall>f \<in> {CHUNKED, TE_OTHER, SEEN_TE}. f \<in> st_flags st' \<longleftrightarrow> f \<in> st_flags st)"
proof (cases name rule: header_effect_cases)
  case 3
  then show ?thesis using assms connection_flags_range [of val] by (auto simp: header_effect_connection)
next
  case 4
  then show ?thesis using assms by (auto simp: insert_flag_def elim: header_effect_host)
next
  case 5
  then show ?thesis using assms by (auto simp: header_effect_upgrade split: if_splits)
next
  case 6
  then show ?thesis using assms by (auto simp: header_effect_expect insert_flag_def split: if_splits)
qed (use assms in \<open>auto simp: header_effect_other\<close>)

lemma header_effect_framing:
  assumes "header_effect D q st name val = (None, st')" and "framing_ok D q st hv"
  shows "framing_ok D q st' (hv(name := hv name @ [val]))"
proof (cases "name \<in> {CONTENT_LENGTH, TRANSFER_ENCODING}")
  case False
  then have "CONTENT_LENGTH \<noteq> name" "TRANSFER_ENCODING \<noteq> name" by auto
  then show ?thesis using assms(2) header_effect_kept [OF assms(1) False] False
    by (auto simp: framing_ok_def)
next
  case True
  then consider "name = CONTENT_LENGTH" | "name = TRANSFER_ENCODING" by blast
  then show ?thesis
  proof cases
    case 1
    obtain len where "st_content_length st = None" "CHUNKED \<notin> st_flags st" "TE_OTHER \<notin> st_flags st"
      "parse_u64 D val = Some len" "st' = st\<lparr>st_content_length := Some len\<rparr>"
      using assms(1) unfolding 1 by (rule header_effect_length)
    moreover from this have "hv CONTENT_LENGTH = []" using assms(2) by (auto simp: framing_ok_def)
    ultimately show ?thesis using assms(2) by (simp add: 1 framing_ok_def declared_length_def)
  next
    case 2
    have "st_version st \<in> {HTTP_10, HTTP_11}" using assms(2) by (simp add: framing_ok_def)
    with assms(1) [unfolded 2] show ?thesis
    proof (rule header_effect_codings)
      fix c other
      assume te: "SEEN_TE \<notin> st_flags st" "st_version st = HTTP_11"
        "transfer_codings val = Some (c, other)" "c \<or> other \<Longrightarrow> st_content_length st = None"
        "q \<Longrightarrow> c \<and> \<not> other"
        and st': "st' = st\<lparr>st_flags := st_flags st \<union> {SEEN_TE} \<union> (if c then {CHUNKED} else if other then {TE_OTHER} else {})\<rparr>"
      have no: "hv TRANSFER_ENCODING = []" using te assms(2) by (simp add: framing_ok_def)
      have "c \<or> other \<Longrightarrow> hv CONTENT_LENGTH = []" using te assms(2) by (auto simp: framing_ok_def)
      moreover have "declares_chunked (hv(name := hv name @ [val])) = c"
        "declares_other (hv(name := hv name @ [val])) = (\<not> c \<and> other)"
        using no te(3) by (auto simp: 2 declares_chunked_def declares_other_def)
      moreover have "CHUNKED \<notin> st_flags st" "TE_OTHER \<notin> st_flags st"
        using no assms(2) by (simp_all add: framing_ok_def declares_chunked_def declares_other_def)
      ultimately show ?thesis using assms(2) no te st' 2 by (auto simp: framing_ok_def)
    qed
  qed
qed

lemma ignore_flags [simp]:
  "ignore_http11_features q (st\<lparr>st_flags := F\<rparr>) = ignore_http11_features q st"
  "ignore_http11_features q (st\<lparr>st_content_length := l\<rparr>) = ignore_http11_features q st"
  by (simp_all add: ignore_http11_features_def)

lemma header_effect_options:
  assumes eff: "header_effect D q st name val = (None, st')" and "framing_ok D q st hv"
    and opt: "options_ok q st hv"
  shows "options_ok q st' (hv(name := hv name @ [val]))"
proof (cases name rule: header_effect_cases)
  case 1
  from eff [unfolded 1] show ?thesis
    by (rule header_effect_length) (use opt 1 in \<open>simp add: options_ok_def\<close>)
next
  case 2
  have "st_version st \<in> {HTTP_10, HTTP_11}" using assms(2) by (simp add: framing_ok_def)
  with eff [unfolded 2] show ?thesis
    by (rule header_effect_codings) (use opt 2 in \<open>simp add: options_ok_def\<close>)
next
  case 3
  have "f \<notin> connection_flags val" if "f \<notin> {CONN_CLOSE, CONN_KA, CONN_UPGRADE}" for f
    using connection_flags_range [of val] that by blast
  then show ?thesis using opt eff 3
    by (cases "ignore_http11_features q st") (auto simp: header_effect_connection options_ok_def)
next
  case 4
  then show ?thesis using opt eff
    by (auto simp: options_ok_def insert_flag_def elim!: header_effect_host)
next
  case 5
  then have "st' = snd (header_effect D q st H_UPGRADE val)" using eff by simp
  then show ?thesis using opt 5
    by (cases "ignore_http11_features q st"; cases "eq_ignore_ascii_case (trim_ascii val) (ascii ''websocket'')")
       (simp_all add: header_effect_upgrade options_ok_def)
next
  case 6
  then have "st' = snd (header_effect D q st H_EXPECT val)" using eff by simp
  then show ?thesis using opt 6
    by (cases "ignore_http11_features q st") (simp_all add: header_effect_expect options_ok_def insert_flag_def)
next
  case 7
  then have "name \<noteq> CONNECTION" "H_UPGRADE \<noteq> name" "name \<noteq> H_UPGRADE" "name \<noteq> H_EXPECT" by auto
  moreover have "st' = st" using eff header_effect_other [OF 7, of D q st val] by simp
  ultimately show ?thesis using opt by (simp add: options_ok_def)
qed

lemma header_effect_hosts:
  assumes eff: "header_effect D q st name val = (None, st')" and "framing_ok D q st hv" and "host_ok st hv"
  shows "host_ok st' (hv(name := hv name @ [val]))"
proof (cases name rule: header_effect_cases)
  case 1
  from eff [unfolded 1] show ?thesis
    by (rule header_effect_length) (use assms(3) 1 in \<open>simp add: host_ok_def\<close>)
next
  case 2
  have "st_version st \<in> {HTTP_10, HTTP_11}" using assms(2) by (simp add: framing_ok_def)
  with eff [unfolded 2] show ?thesis
    by (rule header_effect_codings) (use assms(3) 2 in \<open>simp add: host_ok_def\<close>)
next
  case 3
  then show ?thesis using assms(3) eff connection_flags_range [of val]
    by (auto simp: header_effect_connection host_ok_def)
next
  case 4
  then show ?thesis using assms(3) eff by (auto simp: host_ok_def insert_flag_def elim!: header_effect_host)
next
  case 5
  then show ?thesis using assms(3) eff by (auto simp: header_effect_upgrade host_ok_def split: if_splits)
next
  case 6
  then show ?thesis using assms(3) eff
    by (auto simp: header_effect_expect host_ok_def insert_flag_def split: if_splits)
next
  case 7
  then have "HOST \<noteq> name" by auto
  moreover have "st' = st" using eff header_effect_other [OF 7, of D q st val] by simp
  ultimately show ?thesis using assms(3) by (simp add: host_ok_def)
qed

section \<open>Runs of the decoder\<close>

lemma header_parsed_cases:
  obtains (fail) e where "p = Inl e" | (part) "p = Inr Partial"
    | (eof) len where "p = Inr (Complete (HeaderParsed_Eof len))"
    | (hdr) len n v where "p = Inr (Complete (HeaderParsed_Header len n v))"
  by (metis HeaderParsed.exhaust Status.exhaust sum.exhaust)

text \<open>Induction over the header section, one case per way a line ends.\<close>

lemma decode_headers_runs [consumes 1, case_names fail part panic eof bad_line good_line]:
  assumes "decode_headers D src inr = res"
    and "\<And>src inr e h. parse_header D src (in_hdr_st inr) = (Inl e, h)
      \<Longrightarrow> P src inr (Ready (Inl (Err (DecodeError_from e))), src, inr\<lparr>in_hdr_st := h\<rparr>)"
    and "\<And>src inr h. parse_header D src (in_hdr_st inr) = (Inr Partial, h)
      \<Longrightarrow> P src inr (Pending, src, inr\<lparr>in_hdr_st := h\<rparr>)"
    and "\<And>src inr len h. \<lbrakk>parse_header D src (in_hdr_st inr) = (Inr (Complete (HeaderParsed_Eof len)), h);
        length src < len\<rbrakk> \<Longrightarrow> P src inr (Ready (Inl Panic), src, inr\<lparr>in_hdr_st := h\<rparr>)"
    and "\<And>src inr len h. \<lbrakk>parse_header D src (in_hdr_st inr) = (Inr (Complete (HeaderParsed_Eof len)), h);
        len \<le> length src\<rbrakk> \<Longrightarrow> P src inr (Ready (Inr ()), drop len src, inr\<lparr>in_hdr_st := state_default D\<rparr>)"
    and "\<And>src inr len n v h e src' inr'.
        \<lbrakk>parse_header D src (in_hdr_st inr) = (Inr (Complete (HeaderParsed_Header len n v)), h);
         take_header D len n v src (inr\<lparr>in_hdr_st := h\<rparr>) = (Inl e, src', inr')\<rbrakk>
      \<Longrightarrow> P src inr (Ready (Inl e), src', inr')"
    and "\<And>src inr len n v h src' inr' res.
        \<lbrakk>parse_header D src (in_hdr_st inr) = (Inr (Complete (HeaderParsed_Header len n v)), h);
         take_header D len n v src (inr\<lparr>in_hdr_st := h\<rparr>) = (Inr (), src', inr');
         P src' inr' res\<rbrakk>
      \<Longrightarrow> P src inr res"
  shows "P src inr res"
  using assms
proof (induction "headers_left inr" arbitrary: src inr res rule: less_induct)
  case less
  obtain p h where ph: "parse_header D src (in_hdr_st inr) = (p, h)" by fastforce
  show ?case
  proof (cases p rule: header_parsed_cases)
    case (hdr len n v)
    let ?i = "inr\<lparr>in_hdr_st := h\<rparr>"
    note ph' = ph [unfolded hdr]
    obtain o1 src1 inr1 where th: "take_header D len n v src ?i = (o1, src1, inr1)" by (metis prod_cases3)
    have res: "res = (case o1 of Inl e \<Rightarrow> (Ready (Inl e), src1, inr1) | Inr _ \<Rightarrow> decode_headers D src1 inr1)"
      using less(2) ph' th by (simp add: decode_headers.simps [of D src inr] split: sum.splits)
    show ?thesis
    proof (cases o1)
      case (Inl e)
      then show ?thesis using less(7) [OF ph'] th res by simp
    next
      case (Inr u)
      then have th': "take_header D len n v src ?i = (Inr (), src1, inr1)" using th by simp
      have "headers_left inr1 < headers_left inr"
        using take_header_left [OF th'] by (simp add: headers_left_def)
      moreover have "decode_headers D src1 inr1 = res" using res Inr by simp
      ultimately have "P src1 inr1 res" using less(1) less(3-8) by blast
      with ph' th' show ?thesis by (rule less(8))
    qed
  next
    case (eof len)
    then show ?thesis using less(2,5,6) ph
      by (auto simp: decode_headers.simps [of D src inr] advance_to_def not_le split: if_splits)
  qed (use less(2,3,4) ph in \<open>auto simp: decode_headers.simps [of D src inr]\<close>)
qed

end
