(* ===== verification/H1_Head.thy ===== *)
theory H1_Head
  imports H1_Message
begin

text \<open>
  Correctness of the HTTP/1 message decoder of \<open>H1_Message\<close>: its state agrees with the headers read
  so far, the framing it selects is the one the finished head declares, its limits hold over any
  number of reads, and it does not panic.
\<close>

section \<open>Agreement of the state with the head\<close>

abbreviation msg_values :: "Msg \<Rightarrow> hvals" where
  "msg_values msg \<equiv> values_of (msg_headers msg)"

fun msg_flags :: "Msg \<Rightarrow> HeadFlag set" where
  "msg_flags (Req h) = req_flags h"
| "msg_flags (Res h) = res_flags h"

text \<open>The state of a decoder between calls: it agrees with the head read so far.\<close>

definition msg_ok :: "('p, 's) Deps \<Rightarrow> bool \<Rightarrow> HttpServiceConfig \<Rightarrow> State \<Rightarrow> Msg \<Rightarrow> bool" where
  "msg_ok D q cfg st msg \<longleftrightarrow>
     is_request msg = q \<and> st_version st = msg_version msg
   \<and> st_validate_host st = (q \<and> cfg_validate_host cfg)
   \<and> framing_ok D q st (msg_values msg) \<and> options_ok q st (msg_values msg) \<and> host_ok st (msg_values msg)"

definition head_ok :: "('p, 's) Deps \<Rightarrow> bool \<Rightarrow> ('p, 's) Inner \<Rightarrow> bool" where
  "head_ok D q inr \<longleftrightarrow>
     (case in_val inr of
        None \<Rightarrow> in_st inr = State_default \<and> in_headers inr = 0
      | Some msg \<Rightarrow> msg_ok D q (in_cfg inr) (in_st inr) msg)"

lemma head_ok_hdr_st [simp]: "head_ok D q (inr\<lparr>in_hdr_st := h\<rparr>) = head_ok D q inr"
  by (cases "in_val inr") (simp_all add: head_ok_def)

lemma msg_headers_append [simp]:
  "msg_values (headers_append msg name val) = (msg_values msg)(name := msg_values msg name @ [val])"
  by (cases msg) (auto simp: hm.vals_add)

lemma msg_kept [simp]:
  "msg_headers (keep_origin origin name val msg) = msg_headers msg"
  "is_request (keep_origin origin name val msg) = is_request msg"
  "msg_version (keep_origin origin name val msg) = msg_version msg"
  "is_request (headers_append msg name val) = is_request msg"
  "msg_version (headers_append msg name val) = msg_version msg"
  by (cases msg; cases origin; simp add: keep_origin_def)+

lemma header_effect_static:
  assumes "header_effect D q st name val = (None, st')" "framing_ok D q st hv"
  shows "st_version st' = st_version st" "st_validate_host st' = st_validate_host st"
proof -
  have "st_version st \<in> {HTTP_10, HTTP_11}" using assms(2) by (simp add: framing_ok_def)
  then have "st_version st' = st_version st \<and> st_validate_host st' = st_validate_host st"
    using assms(1) header_effect_kept [OF assms(1)]
    by (cases name rule: header_effect_cases) (auto elim: header_effect_length header_effect_codings)
  then show "st_version st' = st_version st" "st_validate_host st' = st_validate_host st" by auto
qed

lemma set_header_ok:
  assumes "set_header D st (keep_origin origin name val msg) name val = (Inr msg', st')"
    and ok: "msg_ok D q cfg st msg"
  shows "msg_ok D q cfg st' msg'"
proof -
  have eff: "header_effect D q st name val = (None, st')"
    and msg': "msg' = headers_append (keep_origin origin name val msg) name val"
    using assms by (auto simp: set_header_def msg_ok_def split: prod.splits option.splits)
  have fr: "framing_ok D q st (msg_values msg)" using ok by (simp add: msg_ok_def)
  show ?thesis
    using ok header_effect_framing [OF eff fr] header_effect_options [OF eff fr] header_effect_hosts [OF eff fr]
      header_effect_static [OF eff fr]
    by (simp add: msg_ok_def msg')
qed

lemma take_header_kept:
  assumes "take_header D len n v src (inr\<lparr>in_hdr_st := h\<rparr>) = (Inr (), src', inr')"
  shows "in_cfg inr' = in_cfg inr" "in_consumed inr' = in_consumed inr" "in_line_st inr' = in_line_st inr"
    "in_val inr \<noteq> None" "in_val inr' \<noteq> None"
  using assms by (auto elim!: take_headerE)

lemma take_header_ok:
  assumes "take_header D len n v src (inr\<lparr>in_hdr_st := h\<rparr>) = (Inr (), src', inr')" and "head_ok D q inr"
  shows "head_ok D q inr'"
  using assms(1)
  by (rule take_headerE) (use assms(2) set_header_ok in \<open>force simp: head_ok_def\<close>)

lemma decode_headers_ok:
  assumes "decode_headers D src inr = (r, src', inr')" and "\<nexists>e. r = Ready (Inl e)"
    and "head_ok D q inr" and "in_val inr \<noteq> None"
  shows "head_ok D q inr' \<and> in_val inr' \<noteq> None"
  using assms
  by (induction src inr "(r, src', inr')" rule: decode_headers_runs)
     (auto simp: take_header_kept dest: take_header_ok)

lemma msg_decode_ready:
  assumes "msg_decode D q src ln lst cfg = (Inr (Ready msg), src', ln', lst')"
  shows "is_request msg = q \<and> msg_headers msg = HeaderMap_new \<and> msg_version msg \<in> {HTTP_10, HTTP_11}
    \<and> msg_flags msg = {}"
  using assms
  by (auto simp: msg_decode_def req_decode_def res_decode_def finish_request_def request_head_def
      ResponseHead_new_def req_version_of_def
      split: if_splits sum.splits prod.splits option.splits Status.splits)

lemma start_line_ok:
  assumes "start_line D q src inr = (Inr (), src', inr')" and "head_ok D q inr"
  shows "head_ok D q inr' \<and> in_cfg inr' = in_cfg inr"
proof (cases "in_val inr")
  case (Some msg)
  then show ?thesis using assms by (simp add: start_line_def)
next
  case None
  obtain r src1 ln lst where md: "msg_decode D q src (in_line inr) (in_line_st inr) (in_cfg inr) = (r, src1, ln, lst)"
    by (metis prod_cases4)
  have st: "in_st inr = State_default" "in_headers inr = 0" using assms(2) None by (simp_all add: head_ok_def)
  consider (ready) msg where "r = Inr (Ready msg)" | (pending) "r = Inr Pending" | (err) e where "r = Inl e"
    by (metis Poll.exhaust sum.exhaust)
  then show ?thesis
  proof cases
    case ready
    have msg: "is_request msg = q" "msg_headers msg = HeaderMap_new" "msg_version msg \<in> {HTTP_10, HTTP_11}"
      using msg_decode_ready [OF md [unfolded ready]] by simp_all
    have inr': "inr' = inr\<lparr>in_line := ln, in_line_st := state_default D,
                    in_st := (in_st inr)\<lparr>st_version := msg_version msg,
                      st_validate_host := q \<and> cfg_validate_host (in_cfg inr)\<rparr>,
                    in_val := Some msg\<rparr>"
      using assms(1) None md ready by (simp add: start_line_def split: if_splits)
    then show ?thesis using msg st
      by (simp add: head_ok_def msg_ok_def framing_ok_def options_ok_def host_ok_def State_default_def
          hm.vals_empty declared_length_def declares_chunked_def declares_other_def names_option_def
          names_websocket_def names_continue_def Let_def)
  qed (use assms None md in \<open>auto simp: start_line_def head_ok_def\<close>)
qed

section \<open>The framing of a message, from its head alone\<close>

text \<open>
  RFC 9112 section 6.3, read off the head of a message. The one departure is a response other than
  101 with \<^verbatim>\<open>Content-Length: 0\<close> and \<^verbatim>\<open>Upgrade: websocket\<close>: its body is read to the end of the
  connection.
\<close>

definition asks_upgrade :: "Version \<Rightarrow> hvals \<Rightarrow> bool" where
  "asks_upgrade version hv \<longleftrightarrow> version = HTTP_11 \<and> hv H_UPGRADE \<noteq> [] \<and> names_option CONN_UPGRADE hv"

fun message_body :: "('p, 's) Deps \<Rightarrow> Msg \<Rightarrow> PayloadType" where
  "message_body D (Req h) =
     (let hv = values_of (req_headers h);
          tunnel = (req_method h = ascii ''CONNECT'');
          upgrade = asks_upgrade (req_version h) hv
      in if declares_chunked hv then Payload pd_chunked
         else case declared_length D hv of
           Some len \<Rightarrow>
             if len \<noteq> 0 then Payload (pd_length len)
             else if (upgrade \<and> names_websocket hv) \<or> tunnel then Stream pd_eof
             else PayloadType_None
         | None \<Rightarrow> if upgrade \<or> tunnel then Stream pd_eof else PayloadType_None)"
| "message_body D (Res h) =
     (let hv = values_of (res_headers h);
          switching = (res_status h = 101)
      in if is_bodyless (res_status h) then PayloadType_None
         else if declares_chunked hv then Payload pd_chunked
         else case declared_length D hv of
           Some len \<Rightarrow>
             if len \<noteq> 0 then Payload (pd_length len)
             else if switching then Stream pd_eof
             else if names_websocket hv then Payload pd_eof
             else PayloadType_None
         | None \<Rightarrow> if switching then Stream pd_eof else Payload pd_eof)"

text \<open>What every accepted head satisfies.\<close>

definition framing_valid :: "('p, 's) Deps \<Rightarrow> Msg \<Rightarrow> bool" where
  "framing_valid D msg \<longleftrightarrow>
     (let hv = msg_values msg in
      length (hv CONTENT_LENGTH) \<le> 1 \<and> length (hv TRANSFER_ENCODING) \<le> 1
    \<and> (hv CONTENT_LENGTH \<noteq> [] \<longrightarrow>
         declared_length D hv \<noteq> None \<and> \<not> declares_chunked hv \<and> \<not> declares_other hv)
    \<and> (hv TRANSFER_ENCODING \<noteq> [] \<longrightarrow> msg_version msg = HTTP_11
         \<and> (is_request msg \<longrightarrow> transfer_codings (hd (hv TRANSFER_ENCODING)) = Some (True, False))))"

lemma framing_ok_valid:
  assumes "msg_ok D q cfg st msg"
  shows "framing_valid D msg"
proof -
  let ?hv = "msg_values msg"
  have ok: "framing_ok D (is_request msg) st ?hv" and ver: "st_version st = msg_version msg"
    using assms by (auto simp: msg_ok_def)
  have "transfer_codings (hd (?hv TRANSFER_ENCODING)) = Some (True, False)"
    if "is_request msg" "?hv TRANSFER_ENCODING \<noteq> []"
    using ok that by (auto simp: framing_ok_def neq_Nil_conv split: option.splits)
  then show ?thesis using ok ver by (auto simp: framing_ok_def framing_valid_def Let_def)
qed

lemma foldl_req_ctypes:
  "foldl (\<lambda>h ctype. req_set_connection_type ctype h) h cs = h\<lparr>req_flags := req_flags h \<union> ctype_flag ` set cs\<rparr>"
  by (induction cs arbitrary: h) (simp_all add: req_set_connection_type_def)

lemma foldl_res_ctypes:
  "foldl (\<lambda>h ctype. res_set_connection_type ctype h) h cs = h\<lparr>res_flags := res_flags h \<union> ctype_flag ` set cs\<rparr>"
  by (induction cs arbitrary: h) (simp_all add: res_set_connection_type_def)

lemma websocket_upgrade: "names_websocket hv \<Longrightarrow> hv H_UPGRADE \<noteq> []"
  by (auto simp: names_websocket_def)

lemma req_set_payload_length_body:
  assumes "req_set_payload_length h st len = Inr (h', pl)"
  shows "pl = (case len of
             PayloadLength_Payload pl \<Rightarrow>
               if pl = Payload (pd_length 0)
               then if req_method h = ascii ''CONNECT'' then Stream pd_eof else PayloadType_None else pl
           | PayloadLength_Upgrade \<Rightarrow> Stream pd_eof
           | PayloadLength_None \<Rightarrow>
               if req_method h = ascii ''CONNECT'' then Stream pd_eof else PayloadType_None)"
    and "\<exists>F. h' = h\<lparr>req_flags := F\<rparr>"
  using assms
  by (auto simp: req_set_payload_length_def foldl_req_ctypes req_set_expect_def req_set_upgrade_def
      pl_is_zero_def ZERO_def pd_length_def Let_def split: if_splits PayloadLength.splits)

lemma req_payload_spec:
  assumes ok: "msg_ok D True cfg st (Req h)"
    and set: "req_set_payload_length h (check_upgrade st) (payload_length (check_upgrade st)) = Inr (h', pl)"
  shows "pl = message_body D (Req h) \<and> (\<exists>F. h' = h\<lparr>req_flags := F\<rparr>)"
proof -
  let ?hv = "values_of (req_headers h)"
  have fr: "CHUNKED \<in> st_flags st \<longleftrightarrow> declares_chunked ?hv" "st_content_length st = declared_length D ?hv"
    and ver: "req_version h \<in> {HTTP_10, HTTP_11}" "st_version st = req_version h"
    using ok by (auto simp: msg_ok_def framing_ok_def)
  have live: "\<not> ignore_http11_features True st \<longleftrightarrow> req_version h = HTTP_11"
    using ver by (auto simp: ignore_http11_features_def less_Version_def)
  let ?st = "check_upgrade st"
  have up: "HAS_UPGRADE \<in> st_flags ?st \<longleftrightarrow> asks_upgrade (req_version h) ?hv"
    "WS_UPGRADE \<in> st_flags ?st \<longleftrightarrow> asks_upgrade (req_version h) ?hv \<and> names_websocket ?hv"
    using ok live websocket_upgrade [of ?hv]
    by (auto simp: check_upgrade_def msg_ok_def options_ok_def asks_upgrade_def Let_def)
  have keep: "CHUNKED \<in> st_flags ?st \<longleftrightarrow> declares_chunked ?hv" "st_content_length ?st = declared_length D ?hv"
    using fr by (auto simp: check_upgrade_def)
  have "pd_length len = pd_length 0 \<longleftrightarrow> len = 0" "pd_chunked \<noteq> pd_length 0" for len
    by (simp_all add: pd_length_def pd_chunked_def)
  then show ?thesis using req_set_payload_length_body [OF set] keep up
    by (cases "declared_length D ?hv") (auto simp: payload_length_def Let_def)
qed

lemma res_set_payload_length_body:
  assumes "res_set_payload_length h st len = (h', pl)"
  shows "pl = (if is_bodyless (res_status h) then PayloadType_None
      else case len of
             PayloadLength_Payload pl \<Rightarrow>
               if pl = Payload (pd_length 0)
               then if res_status h = 101 then Stream pd_eof else PayloadType_None else pl
           | _ \<Rightarrow> if res_status h = 101 then Stream pd_eof else Payload pd_eof)"
    and "\<exists>F. h' = h\<lparr>res_flags := F\<rparr>"
  using assms unfolding res_set_payload_length_def foldl_res_ctypes
  by (auto simp: res_set_connection_type_def pl_is_zero_def ZERO_def pd_length_def Let_def split: if_splits PayloadLength.splits)

lemma res_payload_spec:
  assumes ok: "msg_ok D False cfg st (Res h)"
    and set: "res_set_payload_length h st (payload_length st) = (h', pl)"
  shows "pl = message_body D (Res h) \<and> (\<exists>F. h' = h\<lparr>res_flags := F\<rparr>)"
proof -
  let ?hv = "values_of (res_headers h)"
  have fr: "CHUNKED \<in> st_flags st \<longleftrightarrow> declares_chunked ?hv" "st_content_length st = declared_length D ?hv"
    using ok by (auto simp: msg_ok_def framing_ok_def)
  have up: "HAS_UPGRADE \<in> st_flags st \<longleftrightarrow> ?hv H_UPGRADE \<noteq> []"
    "WS_UPGRADE \<in> st_flags st \<longleftrightarrow> names_websocket ?hv"
    using ok by (auto simp: msg_ok_def options_ok_def ignore_http11_features_def Let_def)
  have "pd_length len = pd_length 0 \<longleftrightarrow> len = 0" "pd_chunked \<noteq> pd_length 0" for len
    by (simp_all add: pd_length_def pd_chunked_def)
  then show ?thesis using res_set_payload_length_body [OF set] fr up websocket_upgrade [of ?hv]
    by (cases "declared_length D ?hv") (auto simp: payload_length_def Let_def)
qed

lemma message_flags_irrelevant:
  "message_body D (Req (h\<lparr>req_flags := F\<rparr>)) = message_body D (Req h)"
  "message_body D (Res (r\<lparr>res_flags := F\<rparr>)) = message_body D (Res r)"
  "framing_valid D (Req (h\<lparr>req_flags := F\<rparr>)) = framing_valid D (Req h)"
  "framing_valid D (Res (r\<lparr>res_flags := F\<rparr>)) = framing_valid D (Res r)"
  by (simp_all add: framing_valid_def)

lemma payload_spec:
  assumes ok: "msg_ok D q cfg st msg"
    and st': "st' = (if q then check_upgrade st else st)"
    and set: "set_payload_length msg st' (payload_length st') = Inr (msg', pl)"
  shows "pl = message_body D msg' \<and> framing_valid D msg' \<and> is_request msg' = q"
proof (cases msg)
  case (Req h)
  then have q: "q" using ok by (simp add: msg_ok_def)
  obtain h' where h': "req_set_payload_length h st' (payload_length st') = Inr (h', pl)" "msg' = Req h'"
    using set Req by (cases "req_set_payload_length h st' (payload_length st')") auto
  obtain F where "pl = message_body D (Req h)" "h' = h\<lparr>req_flags := F\<rparr>"
    using req_payload_spec [of D cfg st h] ok Req q st' h' by auto
  then show ?thesis using h'(2) framing_ok_valid [OF ok] Req q
    by (simp only: message_flags_irrelevant is_request.simps)
next
  case (Res h)
  then have q: "\<not> q" using ok by (auto simp: msg_ok_def)
  obtain h' where h': "res_set_payload_length h st' (payload_length st') = (h', pl)" "msg' = Res h'"
    using set Res by (cases "res_set_payload_length h st' (payload_length st')") auto
  obtain F where "pl = message_body D (Res h)" "h' = h\<lparr>res_flags := F\<rparr>"
    using res_payload_spec [of D cfg st h] ok Res q st' h' by auto
  then show ?thesis using h'(2) framing_ok_valid [OF ok] Res q
    by (simp only: message_flags_irrelevant is_request.simps)
qed

lemma head_fields_ok:
  assumes "head_fields D q len src d = (Inr (result, buf_size), src', d')"
    and "head_ok D q (md_inner d)" and "in_val (md_inner d) \<noteq> None"
  shows "head_ok D q (md_inner d')"
    and "result = Some (msg, pl) \<Longrightarrow> pl = message_body D msg \<and> framing_valid D msg \<and> is_request msg = q"
proof -
  obtain r src1 inr where dh: "decode_headers D src (md_inner d) = (r, src1, inr)" by (metis prod_cases3)
  have ne: "\<nexists>e. r = Ready (Inl e)" using assms(1) dh by (auto simp: head_fields_def)
  then have ok: "head_ok D q inr" and val: "in_val inr \<noteq> None"
    using decode_headers_ok [OF dh ne assms(2,3)] by auto
  then obtain m where m: "in_val inr = Some m" "msg_ok D q (in_cfg inr) (in_st inr) m"
    by (auto simp: head_ok_def)
  consider "r = Pending" | "r = Ready (Inr ())"
  proof (cases r)
    case (Ready x)
    then show ?thesis using ne that(2) by (cases x) auto
  qed (use that in simp)
  then have "head_ok D q (md_inner d') \<and>
    (result = Some (msg, pl) \<longrightarrow> pl = message_body D msg \<and> framing_valid D msg \<and> is_request msg = q)"
  proof cases
    case 1
    then show ?thesis using assms(1) dh ok m by (auto simp: head_fields_def head_ok_def Let_def)
  next
    case 2
    then show ?thesis using assms(1) dh m payload_spec [OF m(2) refl]
      by (auto simp: head_fields_def head_ok_def Let_def split: sum.splits)
  qed
  then show "head_ok D q (md_inner d')"
    and "result = Some (msg, pl) \<Longrightarrow> pl = message_body D msg \<and> framing_valid D msg \<and> is_request msg = q"
    by auto
qed


section \<open>Connections\<close>

text \<open>
  A decoder and its input buffer after any history: bytes arrive, the decoder is called, and between
  messages the buffer is used by others (the payload decoder, or the protocol upgraded to).
\<close>

definition md_idle :: "('p, 's) Deps \<Rightarrow> ('p, 's) MessageDecoder \<Rightarrow> bool" where
  "md_idle D d \<longleftrightarrow> in_val (md_inner d) = None \<and> in_line_st (md_inner d) = state_default D"

inductive connection ::
    "('p, 's) Deps \<Rightarrow> bool \<Rightarrow> HttpServiceConfig \<Rightarrow> ('p, 's) MessageDecoder \<Rightarrow> bytes \<Rightarrow> bool"
  for D q cfg where
  conn_new: "connection D q cfg (md_new D cfg) []"
| conn_read: "connection D q cfg d src \<Longrightarrow> connection D q cfg d (src @ extra)"
| conn_body: "\<lbrakk>connection D q cfg d src; md_idle D d\<rbrakk> \<Longrightarrow> connection D q cfg d src'"
| conn_decode: "\<lbrakk>connection D q cfg d src; md_decode D q src d = (r, src', d'); r \<noteq> Inl Panic\<rbrakk>
    \<Longrightarrow> connection D q cfg d' src'"

text \<open>The parts of a successful call.\<close>

definition reading :: "bytes \<Rightarrow> ('p, 's) MessageDecoder \<Rightarrow> ('p, 's) MessageDecoder" where
  "reading src d = (if src \<noteq> [] then d\<lparr>md_hdrs := True\<rparr> else d)"

lemma reading_inner [simp]: "md_inner (reading src d) = md_inner d"
  by (simp add: reading_def)

lemma decode_messageE:
  assumes "decode_message D q src d = (Inr result, src', d')"
  obtains k src1 inr1 buf_size where "k = skipped D (md_inner d) src"
    "start_line D q (drop k src) ((md_inner d)\<lparr>in_consumed := in_consumed (md_inner d) + k\<rparr>) = (Inr (), src1, inr1)"
    "in_val inr1 = None \<Longrightarrow> length (drop k src) \<le> cfg_max_start_line_size (in_cfg inr1)"
    "in_val inr1 \<noteq> None \<Longrightarrow> head_fields D q (length (drop k src)) src1 ((reading src d)\<lparr>md_inner := inr1\<rparr>)
       = (Inr (result, buf_size), src', d')"
    "in_val inr1 = None \<Longrightarrow> result = None \<and> buf_size = in_consumed inr1 + length (drop k src) \<and> src' = src1
       \<and> d' = (reading src d)\<lparr>md_inner := inr1\<rparr>"
    "buf_size \<le> cfg_max_buf_size (in_cfg inr1)"
proof -
  let ?k = "skipped D (md_inner d) src"
  let ?i = "(md_inner d)\<lparr>in_consumed := in_consumed (md_inner d) + ?k\<rparr>"
  obtain r src1 inr1 where sl: "start_line D q (drop ?k src) ?i = (r, src1, inr1)" by (metis prod_cases3)
  have dm: "decode_message D q src d =
    (case r of
       Inl e \<Rightarrow> (Inl e, src1, (reading src d)\<lparr>md_inner := inr1\<rparr>)
     | Inr _ \<Rightarrow>
         if in_val inr1 = None \<and> length (drop ?k src) > cfg_max_start_line_size (in_cfg inr1)
         then (Inl (Err (StartLineTooLong (length (drop ?k src)))), src1, (reading src d)\<lparr>md_inner := inr1\<rparr>)
         else case (if in_val inr1 \<noteq> None
             then head_fields D q (length (drop ?k src)) src1 ((reading src d)\<lparr>md_inner := inr1\<rparr>)
             else (Inr (None, in_consumed inr1 + length (drop ?k src)), src1, (reading src d)\<lparr>md_inner := inr1\<rparr>)) of
           (Inl e, src, d) \<Rightarrow> (Inl e, src, d)
         | (Inr (result, buf_size), src, d) \<Rightarrow>
             if buf_size > cfg_max_buf_size (in_cfg inr1) then (Inl (Err (TooLarge buf_size)), src, d)
             else (Inr result, src, d))"
    unfolding decode_message_def Let_def reading_def [symmetric] reading_inner sl by (simp split: sum.splits)
  have r: "r = Inr ()" using assms dm by (cases r) auto
  show ?thesis
  proof (cases "in_val inr1")
    case None
    then show ?thesis using assms dm r sl
      by (intro that [of ?k src1 inr1 "in_consumed inr1 + length (drop ?k src)"])
         (auto simp: not_less split: if_splits)
  next
    case (Some m)
    obtain x src2 d2 where hf: "head_fields D q (length (drop ?k src)) src1 ((reading src d)\<lparr>md_inner := inr1\<rparr>)
      = (x, src2, d2)" by (metis prod_cases3)
    then obtain res bs where x: "x = Inr (res, bs)" using assms dm r Some by (cases x) auto
    then have "\<not> bs > cfg_max_buf_size (in_cfg inr1)" "res = result" "src2 = src'" "d2 = d'"
      using assms dm r Some hf by (auto split: if_splits)
    then show ?thesis using Some sl r hf x by (intro that [of ?k src1 inr1 bs]) auto
  qed
qed

text \<open>Every call keeps the configuration.\<close>

lemma take_header_cfg: "take_header D len n v src inr = (r, src', inr') \<Longrightarrow> in_cfg inr' = in_cfg inr"
  by (auto simp: take_header_def Let_def split: if_splits option.splits sum.splits prod.splits)

lemma decode_headers_cfg: "decode_headers D src inr = res \<Longrightarrow> in_cfg (snd (snd res)) = in_cfg inr"
  by (induction src inr res rule: decode_headers_runs) (auto dest: take_header_cfg)

lemma start_line_cfg: "start_line D q src inr = (r, src', inr') \<Longrightarrow> in_cfg inr' = in_cfg inr"
  by (auto simp: start_line_def split: if_splits sum.splits prod.splits Poll.splits)

lemma head_fields_cfg:
  assumes "head_fields D q len src d = (r, src', d')"
  shows "in_cfg (md_inner d') = in_cfg (md_inner d)"
proof -
  obtain x src1 inr where dh: "decode_headers D src (md_inner d) = (x, src1, inr)" by (metis prod_cases3)
  then have "in_cfg inr = in_cfg (md_inner d)" using decode_headers_cfg by fastforce
  then show ?thesis using assms dh
    by (auto simp: head_fields_def Let_def split: Poll.splits sum.splits option.splits)
qed

lemma decode_message_cfg:
  assumes "decode_message D q src d = (r, src', d')"
  shows "in_cfg (md_inner d') = in_cfg (md_inner d)"
proof -
  let ?k = "skipped D (md_inner d) src"
  let ?i = "(md_inner d)\<lparr>in_consumed := in_consumed (md_inner d) + ?k\<rparr>"
  obtain x src1 inr1 where sl: "start_line D q (drop ?k src) ?i = (x, src1, inr1)" by (metis prod_cases3)
  have "in_cfg inr1 = in_cfg (md_inner d)" using start_line_cfg [OF sl] by simp
  then show ?thesis using assms
    unfolding decode_message_def Let_def reading_def [symmetric] reading_inner sl
    by (auto split: sum.splits if_splits prod.splits dest!: head_fields_cfg)
qed

lemma decode_message_ok:
  assumes "decode_message D q src d = (Inr result, src', d')" and "head_ok D q (md_inner d)"
  shows "head_ok D q (md_inner d')"
    and "result = Some (msg, pl) \<Longrightarrow> pl = message_body D msg \<and> framing_valid D msg \<and> is_request msg = q"
proof -
  have "head_ok D q (md_inner d')
    \<and> (result = Some (msg, pl) \<longrightarrow> pl = message_body D msg \<and> framing_valid D msg \<and> is_request msg = q)"
    using assms(1)
  proof (rule decode_messageE, goal_cases)
    case (1 k src1 inr1 buf_size)
    have "head_ok D q ((md_inner d)\<lparr>in_consumed := in_consumed (md_inner d) + k\<rparr>)"
      using assms(2) by (cases "in_val (md_inner d)") (simp_all add: head_ok_def)
    then have ok: "head_ok D q inr1" using start_line_ok [OF 1(2)] by simp
    show ?case
    proof (cases "in_val inr1")
      case None
      then show ?thesis using 1(5) ok by simp
    next
      case (Some m)
      then have "head_fields D q (length (drop k src)) src1 ((reading src d)\<lparr>md_inner := inr1\<rparr>)
         = (Inr (result, buf_size), src', d')" using 1(4) by simp
      then show ?thesis using head_fields_ok Some ok by fastforce
    qed
  qed
  then show "head_ok D q (md_inner d')"
    and "result = Some (msg, pl) \<Longrightarrow> pl = message_body D msg \<and> framing_valid D msg \<and> is_request msg = q"
    by auto
qed

lemma md_decode_Inr:
  "md_decode D q src d = (Inr result, src', d') \<longleftrightarrow> decode_message D q src d = (Inr result, src', d')"
  by (auto simp: md_decode_def split: prod.splits sum.splits failure.splits)

lemma md_decode_Err:
  assumes "md_decode D q src d = (Inl (Err e), src', d')"
  obtains d1 where "decode_message D q src d = (Inl (Err e), src', d1)" "d' = md_reset D d1"
  using assms by (auto simp: md_decode_def split: prod.splits sum.splits failure.splits)

lemma md_decode_ok:
  assumes "md_decode D q src d = (r, src', d')" and "r \<noteq> Inl Panic"
    and "head_ok D q (md_inner d)"
  shows "head_ok D q (md_inner d') \<and> in_cfg (md_inner d') = in_cfg (md_inner d)"
proof (cases r)
  case (Inl f)
  then obtain e where r: "r = Inl (Err e)" using assms(2) by (cases f) auto
  show ?thesis using assms(1) unfolding r
    by (rule md_decode_Err) (auto simp: md_reset_def head_ok_def dest: decode_message_cfg)
next
  case (Inr result)
  then have "decode_message D q src d = (Inr result, src', d')" using assms(1) md_decode_Inr by blast
  then show ?thesis using decode_message_ok(1) assms(3) decode_message_cfg by blast
qed

lemma connection_ok:
  "connection D q cfg d src \<Longrightarrow> head_ok D q (md_inner d) \<and> in_cfg (md_inner d) = cfg"
proof (induction rule: connection.induct)
  case conn_new
  then show ?case by (simp add: md_new_def head_ok_def)
next
  case (conn_decode d src r src' d')
  then show ?case using md_decode_ok by blast
qed auto


section \<open>Sizes\<close>

lemma empty_lines_le: "empty_lines src \<le> length src"
proof (induction src rule: empty_lines.induct)
  case (1 buf)
  then show ?case by (subst empty_lines.simps) (auto split: list.splits)
qed

lemma split_header_rest:
  assumes "split_header keep n v len src = Some (origin, val, src')"
  shows "length src' \<le> length src"
  using assms
  by (auto simp: split_header_def advance_to_def split_to_def checked_sub_def Option.bind_eq_Some_conv
      split: if_splits)

lemma take_header_rest:
  "take_header D len n v src inr = (Inr (), src', inr') \<Longrightarrow> length src' \<le> length src"
  by (auto elim!: take_headerE dest: split_header_rest)

lemma decode_headers_rest:
  assumes "decode_headers D src inr = (r, src', inr')" and "\<nexists>e. r = Ready (Inl e)"
  shows "length src' \<le> length src \<and> in_consumed inr' = in_consumed inr
    \<and> (in_headers inr \<le> cfg_max_headers (in_cfg inr) \<longrightarrow> in_headers inr' \<le> cfg_max_headers (in_cfg inr'))
    \<and> in_line_st inr' = in_line_st inr \<and> (r = Ready (Inr ()) \<longrightarrow> in_hdr_st inr' = state_default D)"
  using assms
proof (induction src inr "(r, src', inr')" rule: decode_headers_runs)
  case (good_line src inr len n v h src1 inr1)
  have "in_headers inr1 \<le> cfg_max_headers (in_cfg inr1)"
    using good_line(2) by (rule take_headerE) (auto simp: inc_le)
  then show ?case
    using good_line take_header_rest [OF good_line(2)] take_header_kept [OF good_line(2)] by auto
qed auto

lemma msg_decode_pending:
  "msg_decode D q src ln lst cfg = (Inr Pending, src', ln', lst') \<Longrightarrow> src' = src"
  by (auto simp: msg_decode_def req_decode_def res_decode_def
      split: if_splits sum.splits prod.splits option.splits Status.splits)

lemma split_target_rest: "split_target path pos src = Some (target, src') \<Longrightarrow> length src' \<le> length src"
  by (auto simp: split_target_def advance_to_def split_to_def checked_sub_def Option.bind_eq_Some_conv
      split: if_splits)

lemma msg_decode_rest:
  "msg_decode D q src ln lst cfg = (Inr (Ready msg), src', ln', lst') \<Longrightarrow> length src' \<le> length src"
  by (auto simp: msg_decode_def req_decode_def res_decode_def advance_to_def
      split: if_splits sum.splits prod.splits option.splits Status.splits dest: split_target_rest)

lemma start_line_rest:
  assumes "start_line D q src inr = (Inr (), src', inr')"
  shows "length src' \<le> length src \<and> in_consumed inr' = in_consumed inr \<and> in_headers inr' = in_headers inr
    \<and> in_hdr_st inr' = in_hdr_st inr \<and> (in_val inr' = None \<longrightarrow> src' = src)
    \<and> (in_val inr' \<noteq> None \<longrightarrow> in_val inr = None \<longrightarrow> in_line_st inr' = state_default D)
    \<and> (in_val inr \<noteq> None \<longrightarrow> src' = src \<and> inr' = inr)"
  using assms msg_decode_pending [of D q src "in_line inr" "in_line_st inr" "in_cfg inr"]
    msg_decode_rest [of D q src "in_line inr" "in_line_st inr" "in_cfg inr"]
  by (auto simp: start_line_def split: if_splits sum.splits prod.splits Poll.splits)

lemma head_fields_sizes:
  assumes "head_fields D q len src d = (Inr (result, buf_size), src', d')"
    and "in_headers (md_inner d) \<le> cfg_max_headers (in_cfg (md_inner d))"
  shows "length src' \<le> length src
    \<and> buf_size = in_consumed (md_inner d) + len - (if result = None then 0 else length src')
    \<and> in_consumed (md_inner d') = (if result = None then buf_size - length src' else 0)
    \<and> in_headers (md_inner d') \<le> cfg_max_headers (in_cfg (md_inner d'))"
proof -
  obtain r src1 inr where dh: "decode_headers D src (md_inner d) = (r, src1, inr)" by (metis prod_cases3)
  have ne: "\<nexists>e. r = Ready (Inl e)" using assms(1) dh by (auto simp: head_fields_def)
  show ?thesis
    using assms dh ne decode_headers_rest [OF dh ne]
    by (auto simp: head_fields_def Let_def split: Poll.splits sum.splits option.splits)
qed

lemma decode_message_sizes:
  assumes "decode_message D q src d = (Inr result, src', d')"
    and "in_headers (md_inner d) \<le> cfg_max_headers (in_cfg (md_inner d))"
  defines "n \<equiv> in_consumed (md_inner d) + length src - length src'"
  shows "length src' \<le> length src \<and> n \<le> cfg_max_buf_size (in_cfg (md_inner d))
    \<and> in_consumed (md_inner d') = (if result = None then n else 0)
    \<and> (result = None \<longrightarrow> n + length src' \<le> cfg_max_buf_size (in_cfg (md_inner d)))
    \<and> in_headers (md_inner d') \<le> cfg_max_headers (in_cfg (md_inner d'))"
  using assms(1)
proof (rule decode_messageE, goal_cases)
  case (1 k src1 inr1 buf_size)
  have k: "k \<le> length src" using 1(1) empty_lines_le [of src] by (auto simp: skipped_def)
  have sl: "length src1 \<le> length src - k" "in_consumed inr1 = in_consumed (md_inner d) + k"
    "in_headers inr1 = in_headers (md_inner d)" "in_val inr1 = None \<longrightarrow> src1 = drop k src"
    "in_cfg inr1 = in_cfg (md_inner d)"
    using start_line_rest [OF 1(2)] start_line_cfg [OF 1(2)] by auto
  show ?case
  proof (cases "in_val inr1")
    case None
    then show ?thesis using 1(5,6) sl k assms(2) by (auto simp: n_def)
  next
    case (Some m)
    then have hf: "head_fields D q (length (drop k src)) src1 ((reading src d)\<lparr>md_inner := inr1\<rparr>)
       = (Inr (result, buf_size), src', d')" using 1(4) by simp
    show ?thesis using head_fields_sizes [OF hf] sl k assms(2) 1(6)
      by (cases "result = None") (auto simp: n_def)
  qed
qed

lemma connection_headers:
  "connection D q cfg d src \<Longrightarrow> in_headers (md_inner d) \<le> cfg_max_headers cfg"
proof (induction rule: connection.induct)
  case (conn_decode d src r src' d')
  then have cfg: "in_cfg (md_inner d) = cfg" "in_cfg (md_inner d') = cfg"
    using connection_ok [OF conn_decode(1)] md_decode_ok [OF conn_decode(2,3)] by auto
  show ?case
  proof (cases r)
    case (Inl f)
    then obtain e where r: "r = Inl (Err e)" using conn_decode(3) by (cases f) auto
    show ?thesis using conn_decode(2) unfolding r by (rule md_decode_Err) (simp add: md_reset_def)
  next
    case (Inr result)
    then show ?thesis
      using conn_decode(2,4) decode_message_sizes [of D q src d result src' d'] cfg
      by (simp add: md_decode_Inr)
  qed
qed (auto simp: md_new_def)

section \<open>Panics\<close>

text \<open>
  What the decoder relies on of the parsers: \<open>saved\<close> and \<open>started\<close> say that a saved state belongs
  to a buffer (the state left by a partial parse belongs to every extension of it), and then the
  positions a parser reports are in order and inside the buffer.
\<close>

definition header_parser_ok :: "('p, 's) Deps \<Rightarrow> (bytes \<Rightarrow> 's \<Rightarrow> bool) \<Rightarrow> bool" where
  "header_parser_ok D saved \<longleftrightarrow>
     (\<forall>src. saved src (state_default D))
   \<and> (\<forall>src st r st'. saved src st \<longrightarrow> parse_header D src st = (r, st') \<longrightarrow>
        (case r of
           Inl _ \<Rightarrow> True
         | Inr Partial \<Rightarrow> (\<forall>t. saved (src @ t) st')
         | Inr (Complete (HeaderParsed_Eof len)) \<Rightarrow> len \<le> length src
         | Inr (Complete (HeaderParsed_Header len n v)) \<Rightarrow>
             fst n \<le> snd n \<and> snd n \<le> len \<and> len \<le> length src
             \<and> (fst v = snd v \<or> (snd n \<le> fst v \<and> fst v \<le> snd v \<and> snd v \<le> len))))"

definition line_parser_ok :: "('p, 's) Deps \<Rightarrow> ('p \<Rightarrow> bytes \<Rightarrow> 's \<Rightarrow> bool) \<Rightarrow> bool" where
  "line_parser_ok D started \<longleftrightarrow>
     (\<forall>p src. started p src (state_default D))
   \<and> (\<forall>p src st r p' st'. started p src st \<longrightarrow> parse_request D p src st = (r, p', st') \<longrightarrow>
        (case r of
           Inl _ \<Rightarrow> True
         | Inr Partial \<Rightarrow> (\<forall>t. started p' (src @ t) st')
         | Inr (Complete (pos, ln)) \<Rightarrow>
             fst (rl_method ln) \<le> snd (rl_method ln) \<and> snd (rl_method ln) \<le> length src
             \<and> fst (rl_path ln) \<le> snd (rl_path ln) \<and> snd (rl_path ln) \<le> pos \<and> pos \<le> length src))
   \<and> (\<forall>p src st r p' st'. started p src st \<longrightarrow> parse_response D p src st = (r, p', st') \<longrightarrow>
        (case r of
           Inl _ \<Rightarrow> True
         | Inr Partial \<Rightarrow> (\<forall>t. started p' (src @ t) st')
         | Inr (Complete (pos, ln)) \<Rightarrow> pos \<le> length src))"

definition parse_ok :: "('p, 's) Deps \<Rightarrow> (bytes \<Rightarrow> 's \<Rightarrow> bool) \<Rightarrow> ('p \<Rightarrow> bytes \<Rightarrow> 's \<Rightarrow> bool) \<Rightarrow> bytes \<Rightarrow> ('p, 's) Inner \<Rightarrow> bool" where
  "parse_ok D saved started src inr \<longleftrightarrow>
     (if in_val inr = None then in_hdr_st inr = state_default D \<and> started (in_line inr) src (in_line_st inr)
      else saved src (in_hdr_st inr) \<and> in_line_st inr = state_default D)"

lemma buffer_ops_eq:
  "cnt \<le> length src \<Longrightarrow> advance_to cnt src = Some (drop cnt src)"
  "cnt \<le> length src \<Longrightarrow> split_to cnt src = Some (take cnt src, drop cnt src)"
  "b \<le> a \<Longrightarrow> checked_sub a b = Some (a - b)"
  by (simp_all add: advance_to_def split_to_def checked_sub_def)

lemma split_header_eq:
  assumes "a \<le> b" "b \<le> len" "len \<le> length src" "c = d \<or> (b \<le> c \<and> c \<le> d \<and> d \<le> len)"
  shows "split_header keep (a, b) (c, d) len src
    = Some (if keep then Some (take (b - a) (drop a src)) else None, take (d - c) (drop c src), drop len src)"
proof (cases "c = d")
  case True
  then show ?thesis using assms by (cases keep) (simp_all add: split_header_def buffer_ops_eq)
next
  case False
  then have "b \<le> c" "c \<le> d" "d \<le> len" using assms(4) by auto
  then show ?thesis using assms(1,3) False by (cases keep) (simp_all add: split_header_def buffer_ops_eq)
qed

lemma split_header_total:
  assumes "fst n \<le> snd n" "snd n \<le> len" "len \<le> length src"
    and "fst v = snd v \<or> (snd n \<le> fst v \<and> fst v \<le> snd v \<and> snd v \<le> len)"
  shows "split_header keep n v len src \<noteq> None"
  using assms split_header_eq [of "fst n" "snd n" len src "fst v" "snd v" keep] by simp

lemma take_header_no_panic:
  assumes "fst n \<le> snd n" "snd n \<le> len" "len \<le> length src"
    and "fst v = snd v \<or> (snd n \<le> fst v \<and> fst v \<le> snd v \<and> snd v \<le> len)"
    and "in_val inr \<noteq> None"
  shows "fst (take_header D len n v src inr) \<noteq> Inl Panic"
  using assms split_header_total [OF assms(1-4), of "cfg_headers_vec (in_cfg inr)"]
  by (auto simp: take_header_def slice_get_def Let_def split: option.splits prod.splits sum.splits)

lemma decode_headers_no_panic:
  assumes "decode_headers D src inr = (r, src', inr')" and "header_parser_ok D saved"
    and "in_val inr \<noteq> None" and "saved src (in_hdr_st inr)"
  shows "r \<noteq> Ready (Inl Panic) \<and> (r = Pending \<longrightarrow> (\<forall>t. saved (src' @ t) (in_hdr_st inr')))"
  using assms
proof (induction src inr "(r, src', inr')" rule: decode_headers_runs)
  case (fail e h)
  then show ?case by auto
next
  case (part h)
  then show ?case by (fastforce simp: header_parser_ok_def)
next
  case (panic len h)
  then show ?case by (fastforce simp: header_parser_ok_def)
next
  case (eof src inr len h)
  then show ?case by auto
next
  case (bad_line src inr len n v h e)
  then have "fst (take_header D len n v src (inr\<lparr>in_hdr_st := h\<rparr>)) \<noteq> Inl Panic"
    by (intro take_header_no_panic) (fastforce simp: header_parser_ok_def)+
  then show ?case using bad_line by auto
next
  case (good_line src inr len n v h src1 inr1)
  have "in_hdr_st inr1 = state_default D" using good_line(2) by (rule take_headerE) simp
  then have "saved src1 (in_hdr_st inr1)" using good_line by (simp add: header_parser_ok_def)
  then show ?case using good_line take_header_kept [OF good_line(2)] by blast
qed

lemma split_target_total:
  "\<lbrakk>fst path \<le> snd path; snd path \<le> pos; pos \<le> length src\<rbrakk> \<Longrightarrow> split_target path pos src \<noteq> None"
  by (auto simp: split_target_def advance_to_def split_to_def checked_sub_def)

lemma req_decode_no_panic:
  assumes "req_decode D src p st cfg = (r, src', p', st')" and "line_parser_ok D started" and "started p src st"
  shows "r \<noteq> Inl Panic \<and> (r = Inr Pending \<longrightarrow> (\<forall>t. started p' (src @ t) st'))"
proof -
  obtain x p1 st1 where pr: "parse_request D p src st = (x, p1, st1)" by (metis prod_cases3)
  have c: "case x of
           Inl _ \<Rightarrow> True
         | Inr Partial \<Rightarrow> (\<forall>t. started p1 (src @ t) st1)
         | Inr (Complete (pos, ln)) \<Rightarrow>
             fst (rl_method ln) \<le> snd (rl_method ln) \<and> snd (rl_method ln) \<le> length src
             \<and> fst (rl_path ln) \<le> snd (rl_path ln) \<and> snd (rl_path ln) \<le> pos \<and> pos \<le> length src"
    using assms(2,3) pr unfolding line_parser_ok_def by blast
  consider e where "x = Inl e" | "x = Inr Partial" | pos ln where "x = Inr (Complete (pos, ln))"
    by (metis Status.exhaust prod.exhaust sum.exhaust)
  then show ?thesis
  proof cases
    case 3
    then have "slice_get (rl_method ln) src \<noteq> None" "split_target (rl_path ln) pos src \<noteq> None"
      using c by (simp_all add: slice_get_def split_target_total)
    then show ?thesis using assms(1) pr 3
      by (auto simp: req_decode_def split: sum.splits option.splits)
  qed (use assms(1) pr c in \<open>auto simp: req_decode_def\<close>)
qed

lemma res_decode_no_panic:
  assumes "res_decode D src p st = (r, src', p', st')" and "line_parser_ok D started" and "started p src st"
  shows "r \<noteq> Inl Panic \<and> (r = Inr Pending \<longrightarrow> (\<forall>t. started p' (src @ t) st'))"
proof -
  obtain x p1 st1 where pr: "parse_response D p src st = (x, p1, st1)" by (metis prod_cases3)
  have c: "case x of
           Inl _ \<Rightarrow> True
         | Inr Partial \<Rightarrow> (\<forall>t. started p1 (src @ t) st1)
         | Inr (Complete (pos, ln)) \<Rightarrow> pos \<le> length src"
    using assms(2,3) pr unfolding line_parser_ok_def by blast
  then show ?thesis using assms(1) pr
    by (auto simp: res_decode_def advance_to_def split: sum.splits Status.splits option.splits)
qed

lemma start_line_no_panic:
  assumes "start_line D q src inr = (r, src', inr')" and "line_parser_ok D started" and "header_parser_ok D saved"
    and "parse_ok D saved started src inr"
  shows "r \<noteq> Inl Panic \<and> (r = Inr () \<longrightarrow>
    parse_ok D saved started src' inr' \<and> (in_val inr' = None \<longrightarrow> (\<forall>t. parse_ok D saved started (src' @ t) inr')))"
proof (cases "in_val inr")
  case (Some m)
  then show ?thesis using assms by (auto simp: start_line_def)
next
  case None
  obtain x src1 ln lst where md: "msg_decode D q src (in_line inr) (in_line_st inr) (in_cfg inr) = (x, src1, ln, lst)"
    by (metis prod_cases4)
  have st: "started (in_line inr) src (in_line_st inr)" "in_hdr_st inr = state_default D"
    using assms(4) None by (auto simp: parse_ok_def)
  have x: "x \<noteq> Inl Panic \<and> (x = Inr Pending \<longrightarrow> (\<forall>t. started ln (src @ t) lst))"
    using md req_decode_no_panic [OF _ assms(2) st(1)] res_decode_no_panic [OF _ assms(2) st(1)]
    by (cases q) (auto simp: msg_decode_def)
  have sv: "saved s (state_default D)" for s using assms(3) by (simp add: header_parser_ok_def)
  consider e where "x = Inl (Err e)" | "x = Inr Pending" | m where "x = Inr (Ready m)"
    using x by (metis Poll.exhaust failure.exhaust sum.exhaust)
  then show ?thesis
  proof cases
    case 2
    then have "src1 = src" using msg_decode_pending md by metis
    moreover have "started ln src lst" using x 2 by (metis append_Nil2)
    ultimately show ?thesis using assms(1) None md x 2 st
      by (auto simp: start_line_def parse_ok_def)
  next
    case 3
    then show ?thesis using assms(1) None md st sv by (auto simp: start_line_def parse_ok_def split: if_splits)
  qed (use assms(1) None md in \<open>auto simp: start_line_def\<close>)
qed

lemma head_fields_no_panic:
  assumes "head_fields D q len src d = (r, src', d')" and "header_parser_ok D saved" and "line_parser_ok D started"
    and "parse_ok D saved started src (md_inner d)" and "in_val (md_inner d) \<noteq> None"
    and "head_ok D q (md_inner d)"
  shows "r \<noteq> Inl Panic \<and> (\<forall>res. r = Inr res \<longrightarrow> (\<forall>t. parse_ok D saved started (src' @ t) (md_inner d')))"
proof -
  obtain x src1 inr where dh: "decode_headers D src (md_inner d) = (x, src1, inr)" by (metis prod_cases3)
  have sv: "saved src (in_hdr_st (md_inner d))" "in_line_st (md_inner d) = state_default D"
    using assms(4,5) by (auto simp: parse_ok_def)
  note np = decode_headers_no_panic [OF dh assms(2,5) sv(1)]
  have st: "started p s (state_default D)" for p s using assms(3) by (simp add: line_parser_ok_def)
  show ?thesis
  proof (cases "\<exists>e. x = Ready (Inl e)")
    case True
    then show ?thesis using assms(1) dh np by (auto simp: head_fields_def)
  next
    case False
    then have "head_ok D q inr" "in_val inr \<noteq> None" using decode_headers_ok [OF dh _ assms(6,5)] by auto
    then show ?thesis using assms(1) dh np False st sv decode_headers_rest [OF dh False]
      by (auto simp: head_fields_def parse_ok_def Let_def split: Poll.splits sum.splits option.splits)
  qed
qed


lemma parse_ok_skip:
  assumes "parse_ok D saved started src inr" and "line_parser_ok D started"
  shows "parse_ok D saved started (drop (skipped D inr src) src) (inr\<lparr>in_consumed := c\<rparr>)"
  using assms by (auto simp: parse_ok_def skipped_def line_parser_ok_def)

lemma decode_message_no_panic:
  assumes "decode_message D q src d = (r, src', d')" and hp: "header_parser_ok D saved" and lp: "line_parser_ok D started"
    and "parse_ok D saved started src (md_inner d)" and "head_ok D q (md_inner d)"
  shows "r \<noteq> Inl Panic \<and> (\<forall>res. r = Inr res \<longrightarrow> (\<forall>t. parse_ok D saved started (src' @ t) (md_inner d')))"
proof -
  let ?k = "skipped D (md_inner d) src"
  let ?i = "(md_inner d)\<lparr>in_consumed := in_consumed (md_inner d) + ?k\<rparr>"
  obtain x src1 inr1 where sl: "start_line D q (drop ?k src) ?i = (x, src1, inr1)" by (metis prod_cases3)
  note np = start_line_no_panic [OF sl lp hp parse_ok_skip [OF assms(4) lp]]
  have hi: "head_ok D q ?i" using assms(5) by (cases "in_val (md_inner d)") (simp_all add: head_ok_def)
  let ?d = "(reading src d)\<lparr>md_inner := inr1\<rparr>"
  obtain y src2 d2 where hf: "head_fields D q (length src - ?k) src1 ?d = (y, src2, d2)" by (metis prod_cases3)
  have hfn: "y \<noteq> Inl Panic \<and> (\<forall>res. y = Inr res \<longrightarrow> (\<forall>t. parse_ok D saved started (src2 @ t) (md_inner d2)))"
    if "x = Inr ()" "in_val inr1 \<noteq> None"
    using head_fields_no_panic [OF hf hp lp] np that start_line_ok [OF sl [unfolded that(1)] hi] by simp
  show ?thesis
  proof (cases x)
    case (Inl e)
    then show ?thesis using assms(1) np
      unfolding decode_message_def Let_def reading_def [symmetric] reading_inner sl by auto
  next
    case (Inr u)
    then show ?thesis using assms(1) np hfn
      unfolding decode_message_def Let_def reading_def [symmetric] reading_inner sl
      by (cases "in_val inr1"; cases y) (auto simp: hf split: if_splits)
  qed
qed

lemma connection_parse_ok:
  assumes "connection D q cfg d src" and hp: "header_parser_ok D saved" and lp: "line_parser_ok D started"
  shows "parse_ok D saved started (src @ t) (md_inner d)"
  using assms(1)
proof (induction arbitrary: t rule: connection.induct)
  case conn_new
  then show ?case using lp by (simp add: md_new_def parse_ok_def line_parser_ok_def)
next
  case (conn_body d src src')
  then show ?case using lp conn_body.IH [of "[]"] by (auto simp: md_idle_def parse_ok_def line_parser_ok_def)
next
  case (conn_decode d src r src' d')
  have pk: "parse_ok D saved started src (md_inner d)" using conn_decode.IH [of "[]"] by simp
  have hk: "head_ok D q (md_inner d)" using connection_ok [OF conn_decode(1)] by simp
  show ?case
  proof (cases r)
    case (Inl f)
    then obtain e where r: "r = Inl (Err e)" using conn_decode(3) by (cases f) auto
    show ?thesis using conn_decode(2) unfolding r
      by (rule md_decode_Err) (use lp in \<open>simp add: md_reset_def parse_ok_def line_parser_ok_def\<close>)
  next
    case (Inr result)
    then show ?thesis
      using conn_decode(2) decode_message_no_panic [OF _ hp lp pk hk] by (simp add: md_decode_Inr)
  qed
qed simp

section \<open>The lines of a head\<close>

text \<open>
  The header lines that the parser finds in a buffer, at most \<open>n\<close> of them, up to the first that is
  incomplete, malformed or the end of the head; and the values of a head with further lines.
\<close>

fun field_lines :: "('p, 's) Deps \<Rightarrow> nat \<Rightarrow> bytes \<Rightarrow> 's \<Rightarrow> (HeaderName \<times> HeaderValue) list" where
  "field_lines D 0 src st = []"
| "field_lines D (Suc n) src st =
     (case parse_header D src st of
        (Inr (Complete (HeaderParsed_Header len nr vr)), _) \<Rightarrow>
          (case Option.bind (slice_get nr src) (name_from_bytes D) of
             None \<Rightarrow> []
           | Some name \<Rightarrow> (name, take (snd vr - fst vr) (drop (fst vr) src))
               # field_lines D n (drop len src) (state_default D))
      | _ \<Rightarrow> [])"

definition add_lines :: "hvals \<Rightarrow> (HeaderName \<times> HeaderValue) list \<Rightarrow> hvals" where
  "add_lines hv ls = (\<lambda>name. hv name @ map snd (filter (\<lambda>l. fst l = name) ls))"

lemma add_lines_simps [simp]:
  "add_lines hv [] = hv" "add_lines hv ((name, val) # ls) = add_lines (hv(name := hv name @ [val])) ls"
  by (auto simp: add_lines_def fun_eq_iff)

lemma split_header_parts:
  assumes "split_header keep n v len src = Some (origin, val, src')"
  shows "val = take (snd v - fst v) (drop (fst v) src) \<and> src' = drop len src"
  using assms
  by (auto simp: split_header_def advance_to_def split_to_def checked_sub_def Option.bind_eq_Some_conv add.commute
      split: if_splits)

lemma take_header_line:
  assumes "take_header D len n v src (inr\<lparr>in_hdr_st := h\<rparr>) = (Inr (), src', inr')"
  obtains name msg msg' where "Option.bind (slice_get n src) (name_from_bytes D) = Some name" "src' = drop len src"
    "in_hdr_st inr' = state_default D" "in_val inr = Some msg" "in_val inr' = Some msg'"
    "msg_headers msg' = HeaderMap_append (msg_headers msg) name (take (snd v - fst v) (drop (fst v) src))"
    "unat (in_headers inr') = Suc (unat (in_headers inr))"
  using assms
proof (rule take_headerE, goal_cases)
  case (1 nbytes name origin val msg msg' st')
  have "msg_headers msg' = HeaderMap_append (msg_headers msg) name val"
    using 1(7) by (cases msg; cases origin) (auto simp: set_header_def keep_origin_def split: prod.splits option.splits)
  then show ?case using 1 split_header_parts [OF 1(5)] unat_u16_Suc [of "in_headers inr" "cfg_max_headers (in_cfg inr)"]
    by (intro 1(1) [of name msg msg']) simp_all
qed


lemma decode_headers_lines:
  assumes "decode_headers D src inr = (r, src', inr')" "\<nexists>e. r = Ready (Inl e)" "in_val inr = Some msg"
  shows "\<exists>ls msg'. in_val inr' = Some msg' \<and> msg_values msg' = add_lines (msg_values msg) ls
    \<and> (\<forall>n. prefix (field_lines D n src (in_hdr_st inr)) ls)"
  using assms
proof (induction src inr "(r, src', inr')" arbitrary: msg rule: decode_headers_runs)
  case (part inr h)
  have "field_lines D n src' st = []" if "parse_header D src' st = (Inr Partial, h)" for n st
    using that by (cases n) simp_all
  with part show ?case by (intro exI [of _ "[]"] exI [of _ msg]) auto
next
  case (eof src inr len h)
  have "field_lines D n src (in_hdr_st inr) = []" for n using eof(1) by (cases n) simp_all
  with eof show ?case by (intro exI [of _ "[]"] exI [of _ msg]) auto
next
  case (good_line src inr len nr vr h src1 inr1)
  from good_line(2) show ?case
  proof (rule take_header_line, goal_cases)
    case (1 name msg0 msg1)
    let ?l = "(name, take (snd vr - fst vr) (drop (fst vr) src))"
    obtain ls msg' where ls: "in_val inr' = Some msg'" "msg_values msg' = add_lines (msg_values msg1) ls"
      "\<forall>n. prefix (field_lines D n src1 (in_hdr_st inr1)) ls" using good_line(3) [OF good_line(4) 1(5)] by blast
    have "prefix (field_lines D n src (in_hdr_st inr)) (?l # ls)" for n
      using ls(3) good_line(1) 1(1-3) by (cases n) simp_all
    moreover have "msg_values msg' = add_lines (msg_values msg) (?l # ls)"
    proof -
      have "msg_values msg1 = (msg_values msg)(name := msg_values msg name @ [snd ?l])"
        using 1(4,6) good_line(5) by (auto simp: hm.vals_add)
      then show ?thesis using ls(2) by simp
    qed
    ultimately show ?case using ls(1) by blast
  qed
qed auto


section \<open>The number of headers\<close>

text \<open>The number of values in a header map.\<close>

definition header_count :: "HeaderMap \<Rightarrow> nat" where
  "header_count m = (\<Sum>name \<in> dom (inner m). length (values_of m name))"

lemma header_count_append:
  assumes "finite (dom (inner m))"
  shows "header_count (HeaderMap_append m name val) = Suc (header_count m)" "finite (dom (inner (HeaderMap_append m name val)))"
proof -
  let ?m = "HeaderMap_append m name val"
  have dom: "dom (inner ?m) = insert name (dom (inner m))" by (auto simp: HeaderMap_append_def split: option.splits)
  then show "finite (dom (inner ?m))" using assms by simp
  have v: "values_of ?m n = (if n = name then values_of m name @ [val] else values_of m n)" for n
    using hm.vals_add [of m name val] by (simp add: fun_eq_iff)
  have "header_count ?m = length (values_of ?m name) + (\<Sum>n \<in> dom (inner m) - {name}. length (values_of ?m n))"
    unfolding header_count_def dom using assms by (simp add: sum.insert_remove)
  also have "\<dots> = Suc (length (values_of m name) + (\<Sum>n \<in> dom (inner m) - {name}. length (values_of m n)))"
    by (simp add: v)
  also have "length (values_of m name) + (\<Sum>n \<in> dom (inner m) - {name}. length (values_of m n)) = header_count m"
  proof (cases "name \<in> dom (inner m)")
    case True
    then show ?thesis using assms by (simp add: header_count_def sum.remove [of _ name])
  next
    case False
    then show ?thesis by (simp add: header_count_def values_of_def domIff)
  qed
  finally show "header_count ?m = Suc (header_count m)" .
qed

text \<open>The decoder counts the values of the head it reads.\<close>

definition count_ok :: "('p, 's) Inner \<Rightarrow> bool" where
  "count_ok inr \<longleftrightarrow> (case in_val inr of
     None \<Rightarrow> in_headers inr = 0
   | Some msg \<Rightarrow> finite (dom (inner (msg_headers msg))) \<and> header_count (msg_headers msg) = unat (in_headers inr))"

lemma count_ok_upd [simp]:
  "count_ok (inr\<lparr>in_hdr_st := h\<rparr>) = count_ok inr" "count_ok (inr\<lparr>in_consumed := k\<rparr>) = count_ok inr"
  by (simp_all add: count_ok_def split: option.splits)

lemma take_header_count:
  assumes "take_header D len n v src (inr\<lparr>in_hdr_st := h\<rparr>) = (Inr (), src', inr')" "count_ok inr"
  shows "count_ok inr'"
  by (rule take_header_line [OF assms(1)]) (use assms(2) in \<open>simp add: count_ok_def header_count_append\<close>)

lemma decode_headers_count:
  assumes "decode_headers D src inr = (r, src', inr')" "\<nexists>e. r = Ready (Inl e)" "count_ok inr"
  shows "count_ok inr'"
  using assms
  by (induction src inr "(r, src', inr')" rule: decode_headers_runs) (auto dest: take_header_count)

lemma start_line_count:
  assumes "start_line D q src inr = (Inr (), src', inr')" "count_ok inr"
  shows "count_ok inr'"
proof (cases "in_val inr")
  case None
  obtain r src1 ln lst where md: "msg_decode D q src (in_line inr) (in_line_st inr) (in_cfg inr) = (r, src1, ln, lst)"
    by (metis prod_cases4)
  then show ?thesis using assms None msg_decode_ready
    by (fastforce simp: start_line_def count_ok_def header_count_def HeaderMap_new_def split: sum.splits Poll.splits if_splits)
qed (use assms in \<open>simp add: start_line_def\<close>)

lemma set_payload_length_headers:
  assumes "set_payload_length msg st len = Inr (msg', pl)"
  shows "msg_headers msg' = msg_headers msg"
proof (cases msg)
  case (Req h)
  then obtain h' where "req_set_payload_length h st len = Inr (h', pl)" "msg' = Req h'"
    using assms by (cases "req_set_payload_length h st len") auto
  then show ?thesis using req_set_payload_length_body(2) Req by fastforce
next
  case (Res h)
  then obtain h' where "res_set_payload_length h st len = (h', pl)" "msg' = Res h'"
    using assms by (cases "res_set_payload_length h st len") auto
  then show ?thesis using res_set_payload_length_body(2) Res by fastforce
qed

lemma head_fields_count:
  assumes "head_fields D q len src d = (Inr (result, n), src', d')" "count_ok (md_inner d)"
    and "in_headers (md_inner d) \<le> cfg_max_headers (in_cfg (md_inner d))"
  shows "count_ok (md_inner d')"
    "result = Some (msg, pl) \<Longrightarrow> header_count (msg_headers msg) \<le> unat (cfg_max_headers (in_cfg (md_inner d)))"
proof -
  obtain r src1 inr where dh: "decode_headers D src (md_inner d) = (r, src1, inr)" by (metis prod_cases3)
  have ne: "\<nexists>e. r = Ready (Inl e)" using assms(1) dh by (auto simp: head_fields_def)
  have c: "count_ok inr" "in_headers inr \<le> cfg_max_headers (in_cfg (md_inner d))"
    using decode_headers_count [OF dh ne assms(2)] decode_headers_rest [OF dh ne] decode_headers_cfg [OF dh] assms(3) by simp_all
  show "count_ok (md_inner d')"
    using assms(1) dh ne c by (auto simp: head_fields_def Let_def count_ok_def split: Poll.splits sum.splits option.splits)
  assume "result = Some (msg, pl)"
  then obtain m st len where "in_val inr = Some m" "set_payload_length m st len = Inr (msg, pl)"
    using assms(1) dh ne by (auto simp: head_fields_def Let_def split: Poll.splits sum.splits option.splits)
  then show "header_count (msg_headers msg) \<le> unat (cfg_max_headers (in_cfg (md_inner d)))"
    using c set_payload_length_headers by (fastforce simp: count_ok_def word_le_nat_alt)
qed


lemma decode_message_count:
  assumes "decode_message D q src d = (Inr result, src', d')" "count_ok (md_inner d)"
    and "in_headers (md_inner d) \<le> cfg_max_headers (in_cfg (md_inner d))"
  shows "count_ok (md_inner d')"
    "result = Some (msg, pl) \<Longrightarrow> header_count (msg_headers msg) \<le> unat (cfg_max_headers (in_cfg (md_inner d)))"
proof -
  have "count_ok (md_inner d') \<and> (result = Some (msg, pl) \<longrightarrow>
      header_count (msg_headers msg) \<le> unat (cfg_max_headers (in_cfg (md_inner d))))"
    using assms(1)
  proof (rule decode_messageE, goal_cases)
    case (1 k src1 inr1 buf_size)
    have c: "count_ok inr1" using start_line_count [OF 1(2)] assms(2) by simp
    have h: "in_headers inr1 \<le> cfg_max_headers (in_cfg inr1)" "in_cfg inr1 = in_cfg (md_inner d)"
      using start_line_rest [OF 1(2)] start_line_cfg [OF 1(2)] assms(3) by auto
    show ?case
    proof (cases "in_val inr1")
      case None
      then show ?thesis using 1(5) c by simp
    next
      case (Some m)
      then have "head_fields D q (length (drop k src)) src1 ((reading src d)\<lparr>md_inner := inr1\<rparr>)
         = (Inr (result, buf_size), src', d')" using 1(4) by simp
      from head_fields_count [OF this] show ?thesis using c h by simp
    qed
  qed
  then show "count_ok (md_inner d')"
    "result = Some (msg, pl) \<Longrightarrow> header_count (msg_headers msg) \<le> unat (cfg_max_headers (in_cfg (md_inner d)))"
    by auto
qed

lemma connection_count: "connection D q cfg d src \<Longrightarrow> count_ok (md_inner d)"
proof (induction rule: connection.induct)
  case (conn_decode d src r src' d')
  show ?case
  proof (cases r)
    case (Inl f)
    then obtain e where r: "r = Inl (Err e)" using conn_decode(3) by (cases f) auto
    show ?thesis using conn_decode(2) unfolding r by (rule md_decode_Err) (simp add: md_reset_def count_ok_def)
  next
    case (Inr result)
    then show ?thesis using conn_decode(2,4) decode_message_count(1) [of D q src d result src' d']
        connection_headers [OF conn_decode(1)] connection_ok [OF conn_decode(1)]
      by (simp add: md_decode_Inr)
  qed
qed (simp_all add: md_new_def count_ok_def)

text \<open>
  A connection, with the number of bytes that calls of the decoder have taken from the buffer since it
  last returned a message or an error: the part of the current head that is read.
\<close>

inductive head_bytes ::
    "('p, 's) Deps \<Rightarrow> bool \<Rightarrow> HttpServiceConfig \<Rightarrow> ('p, 's) MessageDecoder \<Rightarrow> bytes \<Rightarrow> nat \<Rightarrow> bool"
  for D q cfg where
  hb_new: "head_bytes D q cfg (md_new D cfg) [] 0"
| hb_read: "head_bytes D q cfg d src used \<Longrightarrow> head_bytes D q cfg d (src @ extra) used"
| hb_body: "\<lbrakk>head_bytes D q cfg d src used; md_idle D d\<rbrakk> \<Longrightarrow> head_bytes D q cfg d src' used"
| hb_decode: "\<lbrakk>head_bytes D q cfg d src used; md_decode D q src d = (r, src', d'); r \<noteq> Inl Panic\<rbrakk>
    \<Longrightarrow> head_bytes D q cfg d' src' (if r = Inr None then used + (length src - length src') else 0)"

lemma head_bytes_connection:
  "head_bytes D q cfg d src used \<Longrightarrow> connection D q cfg d src \<and> in_consumed (md_inner d) = used"
proof (induction rule: head_bytes.induct)
  case hb_new
  then show ?case using conn_new by (simp add: md_new_def)
next
  case (hb_decode d src used r src' d')
  have conn: "connection D q cfg d src" "connection D q cfg d' src'"
    using hb_decode conn_decode by blast+
  show ?case
  proof (cases r)
    case (Inl f)
    then obtain e where r: "r = Inl (Err e)" using hb_decode(3) by (cases f) auto
    have "in_consumed (md_inner d') = 0" using hb_decode(2) unfolding r by (rule md_decode_Err) (simp add: md_reset_def)
    then show ?thesis using conn r by simp
  next
    case (Inr result)
    then have "decode_message D q src d = (Inr result, src', d')" using hb_decode(2) by (simp add: md_decode_Inr)
    note sz = decode_message_sizes [OF this]
    show ?thesis using sz connection_headers [OF conn(1)] connection_ok [OF conn(1)] hb_decode(4) conn(2) Inr by auto
  qed
qed (auto intro: connection.intros)

text \<open>The head that a call reads: the message as far as it is known, with the rest of the buffer and the
  state of the header parser.\<close>

definition head_start :: "('p, 's) Deps \<Rightarrow> bool \<Rightarrow> bytes \<Rightarrow> ('p, 's) MessageDecoder \<Rightarrow> (Msg \<times> bytes \<times> 's) option" where
  "head_start D q src d =
     (let k = skipped D (md_inner d) src
      in case start_line D q (drop k src) ((md_inner d)\<lparr>in_consumed := in_consumed (md_inner d) + k\<rparr>) of
           (Inl e, _) \<Rightarrow> None
         | (Inr _, left, inr) \<Rightarrow> map_option (\<lambda>msg. (msg, left, in_hdr_st inr)) (in_val inr))"

definition conflicting :: "hvals \<Rightarrow> bool" where
  "conflicting hv \<longleftrightarrow> 1 < length (hv CONTENT_LENGTH) \<or> 1 < length (hv TRANSFER_ENCODING)
     \<or> hv CONTENT_LENGTH \<noteq> [] \<and> (declares_chunked hv \<or> declares_other hv)"

lemma conflicting_prefix: "prefix ls ls' \<Longrightarrow> conflicting (add_lines hv ls) \<Longrightarrow> conflicting (add_lines hv ls')"
  by (auto simp: prefix_def conflicting_def add_lines_def declares_chunked_def declares_other_def)

lemma framing_not_conflicting: "framing_ok D q st hv \<Longrightarrow> \<not> conflicting hv"
  by (auto simp: framing_ok_def conflicting_def)

lemma decode_message_lines:
  assumes "decode_message D q src d = (Inr result, src', d')" "head_ok D q (md_inner d)"
    "head_start D q src d = Some (msg, left, hst)"
  shows "\<not> conflicting (add_lines (msg_values msg) (field_lines D n left hst))"
  using assms(1)
proof (rule decode_messageE, goal_cases)
  case (1 k src1 inr1 buf_size)
  have "head_ok D q ((md_inner d)\<lparr>in_consumed := in_consumed (md_inner d) + k\<rparr>)"
    using assms(2) by (cases "in_val (md_inner d)") (simp_all add: head_ok_def)
  then have ok: "head_ok D q inr1" using start_line_ok [OF 1(2)] by simp
  have hs: "in_val inr1 = Some msg" "left = src1" "hst = in_hdr_st inr1"
    using assms(3) 1(1,2) by (auto simp: head_start_def Let_def)
  obtain r src2 inr2 where dh: "decode_headers D src1 inr1 = (r, src2, inr2)" by (metis prod_cases3)
  have hf: "head_fields D q (length (drop k src)) src1 ((reading src d)\<lparr>md_inner := inr1\<rparr>) = (Inr (result, buf_size), src', d')"
    using 1(4) hs(1) by simp
  have ne: "\<nexists>e. r = Ready (Inl e)" using hf dh by (auto simp: head_fields_def)
  obtain ls msg' where ls: "in_val inr2 = Some msg'" "msg_values msg' = add_lines (msg_values msg) ls"
      "prefix (field_lines D n left hst) ls"
    using decode_headers_lines [OF dh ne hs(1)] hs(2,3) by blast
  have "head_ok D q inr2" using decode_headers_ok [OF dh ne ok] hs(1) by simp
  then have "\<not> conflicting (msg_values msg')"
    using ls(1) framing_not_conflicting by (auto simp: head_ok_def msg_ok_def)
  then show ?case using ls(2,3) conflicting_prefix by metis
qed

section \<open>Properties\<close>

text \<open>C3. The framing of every message the decoder accepts, on any connection history and any
  segmentation of the input, is the one RFC 9112 section 6.3 reads off its head: the decoder state
  machine refines the function \<open>message_body\<close> of the finished head. The head has at most one
  Content-Length and one Transfer-Encoding value, never both with effect, and a request with a
  Transfer-Encoding is HTTP/1.1 with chunked as its only coding.\<close>

theorem message_framing:
  assumes "connection D q cfg d src" and "md_decode D q src d = (Inr (Some (msg, pl)), src', d')"
  shows "pl = message_body D msg \<and> framing_valid D msg \<and> is_request msg = q"
  using connection_ok [OF assms(1)] assms(2) decode_message_ok(2) md_decode_Inr by blast

text \<open>C14. Limits on the head. On any connection a call that does not fail has taken, together with the
  calls before it since the last message or error (\<open>used\<close>), at most \<open>max_buf_size\<close> bytes for the head;
  while the head is incomplete these bytes and what is left in the buffer together stay within the
  limit. A message that is returned has at most \<open>max_headers\<close> header values.\<close>

theorem head_limits:
  assumes "head_bytes D q cfg d src used" and "md_decode D q src d = (Inr result, src', d')"
  shows "length src' \<le> length src \<and> used + (length src - length src') \<le> cfg_max_buf_size cfg
    \<and> (result = None \<longrightarrow> used + length src \<le> cfg_max_buf_size cfg)
    \<and> (case result of None \<Rightarrow> True | Some (msg, pl) \<Rightarrow> header_count (msg_headers msg) \<le> unat (cfg_max_headers cfg))"
proof -
  note conn = head_bytes_connection [OF assms(1), THEN conjunct1]
  have dm: "decode_message D q src d = (Inr result, src', d')" using assms(2) by (simp add: md_decode_Inr)
  show ?thesis
    using decode_message_sizes [OF dm] decode_message_count(2) [OF dm connection_count [OF conn]]
      connection_headers [OF conn] connection_ok [OF conn] head_bytes_connection [OF assms(1)]
    by (auto split: option.splits)
qed

text \<open>C12. The decoder never panics: with parsers whose reported positions are inside the buffer,
  none of the slices, splits and unwraps of the decoder fails, on any connection history.\<close>

theorem message_decode_no_panic:
  assumes "connection D q cfg d src" and "header_parser_ok D saved" and "line_parser_ok D started"
  shows "fst (md_decode D q src d) \<noteq> Inl Panic"
proof -
  obtain r src' d' where dm: "decode_message D q src d = (r, src', d')" by (metis prod_cases3)
  have "r \<noteq> Inl Panic"
    using decode_message_no_panic [OF dm assms(2,3)] connection_parse_ok [OF assms, of "[]"]
      connection_ok [OF assms(1)] by simp
  then show ?thesis using dm by (auto simp: md_decode_def split: sum.splits failure.splits)
qed

text \<open>C11. Request smuggling. The head that a call reads consists of what earlier calls have read of it, if
  anything, and of the header lines in the buffer. When these together have two Content-Length values,
  two Transfer-Encoding values, or a Content-Length and a Transfer-Encoding that is not \<^verbatim>\<open>identity\<close>
  only, in any order and however they are split over reads, the call fails and leaves no trace of the
  message: the decoder starts the next one from a clean state. The lines are those of the header
  parser, whose positions are inside the buffer.\<close>

theorem conflicting_length_rejected:
  assumes "connection D q cfg d src" "header_parser_ok D saved" "line_parser_ok D started"
    and "head_start D q src d = Some (msg, left, hst)"
    and "conflicting (add_lines (msg_values msg) (field_lines D n left hst))"
  shows "\<exists>e src' d'. md_decode D q src d = (Inl (Err e), src', d') \<and> in_val (md_inner d') = None
    \<and> in_st (md_inner d') = State_default \<and> in_consumed (md_inner d') = 0 \<and> md_idle D d' \<and> \<not> is_reading_hdrs d'"
proof -
  have ok: "head_ok D q (md_inner d)" using connection_ok [OF assms(1)] by simp
  obtain r src' d1 where dm: "decode_message D q src d = (r, src', d1)" by (metis prod_cases3)
  have "r \<noteq> Inl Panic"
    using decode_message_no_panic [OF dm assms(2,3)] connection_parse_ok [OF assms(1-3), of "[]"] ok by simp
  moreover have "r \<noteq> Inr result" for result
    using decode_message_lines [of D q src d result src' d1] dm ok assms(4,5) by blast
  ultimately obtain e where "r = Inl (Err e)" by (metis failure.exhaust sum.exhaust)
  then show ?thesis using dm by (auto simp: md_decode_def md_reset_def md_idle_def is_reading_hdrs_def)
qed



section \<open>Witnesses\<close>

text \<open>Simple parsers on complete lines: a request line of fixed shape and \<^verbatim>\<open>name: value\<close> headers.\<close>

definition demo_header :: "bytes \<Rightarrow> unit \<Rightarrow> (HttparseError + HeaderParsed Status) \<times> unit" where
  "demo_header src st =
     (if take 2 src = [13, 10] then (Inr (Complete (HeaderParsed_Eof 2)), ())
      else case (position (\<lambda>b. b = 0x3A) src, position (\<lambda>b. b = 10) src) of
          (Some c, Some l) \<Rightarrow>
            if c + 3 \<le> l then (Inr (Complete (HeaderParsed_Header (l + 1) (0, c) (c + 2, l - 1))), ())
            else (Inl Error_HeaderName, ())
        | _ \<Rightarrow> (Inr Partial, ()))"

definition demo_request :: "unit \<Rightarrow> bytes \<Rightarrow> unit \<Rightarrow> (HttparseError + (nat \<times> RequestLine) Status) \<times> unit \<times> unit" where
  "demo_request p src st =
     (if 16 \<le> length src then (Inr (Complete (16, \<lparr>rl_method = (0, 3), rl_path = (4, 5), rl_version = 1\<rparr>)), (), ())
      else (Inr Partial, (), ()))"

definition demo_response :: "unit \<Rightarrow> bytes \<Rightarrow> unit \<Rightarrow> (HttparseError + (nat \<times> StatusLine) Status) \<times> unit \<times> unit" where
  "demo_response p src st =
     (if 17 \<le> length src then (Inr (Complete (17, \<lparr>sl_version = 1, sl_code = 426\<rparr>)), (), ())
      else (Inr Partial, (), ()))"

definition demo_u64 :: "bytes \<Rightarrow> u64 option" where
  "demo_u64 s = (if s \<noteq> [] \<and> list_all is_ascii_digit s
     then Some (of_nat (foldl (\<lambda>v b. 10 * v + (unat b - 48)) 0 s)) else None)"

definition demo_url :: "bytes \<Rightarrow> Url" where
  "demo_url s = \<lparr>uri_host = None, uri_port_u16 = None, uri_scheme_str = None, uri_path_and_query = s\<rparr>"

definition demo :: "(unit, unit) Deps" where
  "demo = \<lparr>parse_request = demo_request, parse_response = demo_response, parse_header = demo_header,
     parser_default = (), state_default = (), canonical_reason = (\<lambda>_. []),
     method_from_bytes = Some, name_from_bytes = (\<lambda>n. Some (map to_ascii_lowercase n)),
     parse_u64 = demo_u64, authority_new = (\<lambda>_. None), parse_target = (\<lambda>t. Some (demo_url t)),
     url_validate_target = (\<lambda>_. True), url_is_absolute = (\<lambda>_. False), url_authority = (\<lambda>_. None),
     url_path = uri_path_and_query, url_query = (\<lambda>_. None), url_normalize = Some,
     url_from_static = demo_url\<rparr>"

definition demo_cfg :: HttpServiceConfig where
  "demo_cfg = \<lparr>cfg_headers_vec = True, cfg_validate_host = False, cfg_normalize_target = False,
     cfg_max_headers = 96, cfg_max_buf_size = 65536, cfg_max_start_line_size = 16384\<rparr>"

definition demo_put :: "bytes \<Rightarrow> bytes" where
  "demo_put t = ascii ''PUT / HTTP/1.1'' @ [13, 10] @ ascii ''Content-Length'' @ ascii '': '' @ ascii ''3''
     @ [13, 10] @ t"

lemma length_ascii [simp]: "length (ascii s) = length s"
  by (simp add: ascii_def)

lemma demo_put_parts:
  "drop 16 (demo_put t) = ascii ''Content-Length'' @ ascii '': '' @ ascii ''3'' @ [13, 10] @ t"
  "take 1 (drop 32 (demo_put t)) = ascii ''3''" "drop 35 (demo_put t) = t" "length (demo_put t) = 35 + length t"
  by (simp_all add: demo_put_def)

lemma demo_sel [simp]:
  "parse_request demo = demo_request" "parse_response demo = demo_response" "parse_header demo = demo_header"
  "parser_default demo = ()" "state_default demo = ()" "method_from_bytes demo = Some"
  "name_from_bytes demo = (\<lambda>n. Some (map to_ascii_lowercase n))" "parse_u64 demo = demo_u64"
  "parse_target demo = (\<lambda>t. Some (demo_url t))"
  by (simp_all add: demo_def)

lemma demo_cfg_sel [simp]:
  "cfg_headers_vec demo_cfg = True" "cfg_validate_host demo_cfg = False"
  "cfg_normalize_target demo_cfg = False" "cfg_max_headers demo_cfg = 96"
  "cfg_max_buf_size demo_cfg = 65536" "cfg_max_start_line_size demo_cfg = 16384"
  by (simp_all add: demo_cfg_def)

lemma demo_lines:
  "empty_lines (demo_put t) = 0"
  "demo_request p (demo_put t) st = (Inr (Complete (16, \<lparr>rl_method = (0, 3), rl_path = (4, 5), rl_version = 1\<rparr>)), (), ())"
  "demo_header (drop 16 (demo_put t)) st = (Inr (Complete (HeaderParsed_Header 19 (0, 14) (16, 17))), ())"
  by (simp_all add: demo_put_def ascii_def empty_lines.simps demo_request_def demo_header_def)

definition demo_head :: "HttpServiceConfig \<Rightarrow> (unit, unit) Inner" where
  "demo_head cfg = \<lparr>in_st = State_default\<lparr>st_version := HTTP_11, st_validate_host := False\<rparr>,
     in_val = Some (Req (request_head (demo_url [0x2F]) (ascii ''PUT'') HTTP_11)), in_hdr_st = (), in_cfg = cfg,
     in_consumed = 0, in_headers = 0, in_line = (), in_line_st = ()\<rparr>"

lemma demo_start:
  "start_line demo True (demo_put t) (md_inner (md_new demo demo_cfg)) = (Inr (), drop 16 (demo_put t), demo_head demo_cfg)"
proof -
  have "slice_get (0, 3) (demo_put t) = Some (ascii ''PUT'')"
    "split_target (4, 5) 16 (demo_put t) = Some ([0x2F], drop 16 (demo_put t))"
    by (simp_all add: demo_put_def ascii_def slice_get_def split_target_def advance_to_def split_to_def checked_sub_def)
  then show ?thesis
    by (simp add: start_line_def md_new_def msg_decode_def req_decode_def demo_lines finish_request_def
        req_version_of_def demo_head_def request_head_def)
qed

lemma demo_take:
  "\<exists>h. take_header demo 19 (0, 14) (16, 17) (drop 16 (demo_put t)) (demo_head demo_cfg)
     = (Inr (), t, (demo_head demo_cfg)\<lparr>in_headers := 1, in_st := State_default\<lparr>st_version := HTTP_11, st_validate_host := False, st_content_length := Some 3\<rparr>,
         in_val := Some (Req h)\<rparr>) \<and> req_method h = ascii ''PUT'' \<and> req_version h = HTTP_11 \<and> req_flags h = {}"
proof -
  have "slice_get (0, 14) (drop 16 (demo_put t)) = Some (ascii ''Content-Length'')"
    by (simp add: demo_put_parts slice_get_def)
  moreover have "split_header True (0, 14) (16, 17) 19 (drop 16 (demo_put t))
       = Some (Some (ascii ''Content-Length''), ascii ''3'', t)"
    by (subst split_header_eq) (simp_all add: demo_put_parts demo_put_parts(2) [simplified])
  moreover have "map to_ascii_lowercase (ascii ''Content-Length'') = CONTENT_LENGTH"
    by (simp add: ascii_def to_ascii_lowercase_def)
  moreover have "demo_u64 (ascii ''3'') = Some 3"
    by (simp add: demo_u64_def is_ascii_digit_def ascii_def)
  moreover have "utf8_valid (ascii ''3'')" by (simp add: ascii_def)
  moreover have "trim_start (ascii ''3'') = [51]" by (simp add: ascii_def)
  ultimately show ?thesis
    by (simp add: take_header_def demo_head_def set_header_def header_effect_def State_default_def keep_origin_def
        request_head_def Let_def)
qed

text \<open>The head up to the end of the Content-Length line.\<close>

definition demo_mid :: "RequestHead \<Rightarrow> (unit, unit) Inner" where
  "demo_mid h = (demo_head demo_cfg)\<lparr>in_headers := 1,
     in_st := State_default\<lparr>st_version := HTTP_11, st_validate_host := False, st_content_length := Some 3\<rparr>,
     in_val := Some (Req h)\<rparr>"

lemma demo_headers:
  "\<exists>h. decode_headers demo (drop 16 (demo_put t)) (demo_head demo_cfg) = decode_headers demo t (demo_mid h)
     \<and> req_method h = ascii ''PUT'' \<and> req_version h = HTTP_11 \<and> req_flags h = {}"
proof -
  have hs: "(demo_head demo_cfg)\<lparr>in_hdr_st := ()\<rparr> = demo_head demo_cfg" by (simp add: demo_head_def)
  obtain h where "take_header demo 19 (0, 14) (16, 17) (drop 16 (demo_put t)) (demo_head demo_cfg)
      = (Inr (), t, demo_mid h)" "req_method h = ascii ''PUT''" "req_version h = HTTP_11" "req_flags h = {}"
    using demo_take [of t] unfolding demo_mid_def by (elim exE conjE)
  then show ?thesis
    by (intro exI [of _ h]) (simp add: decode_headers.simps [of demo "drop 16 (demo_put t)"] demo_lines hs)
qed

lemma demo_message:
  assumes "decode_headers demo t (demo_mid h) = (Ready (Inr ()), src', inr)"
    and "decode_headers demo (drop 16 (demo_put t)) (demo_head demo_cfg) = decode_headers demo t (demo_mid h)"
    and "in_val inr = Some (Req h)" "in_consumed inr = 0" "in_st inr = in_st (demo_mid h)" "length src' \<le> length t"
    and "req_method h = ascii ''PUT''" "req_version h = HTTP_11" "length t < 1000"
  shows "\<exists>d'. md_decode demo True (demo_put t) (md_new demo demo_cfg)
     = (Inr (Some (Req h, Payload (pd_length 3))), src', d')"
proof -
  have "demo_put t \<noteq> []" using demo_put_parts(4) [of t] by auto
  then have "\<exists>d'. decode_message demo True (demo_put t) (md_new demo demo_cfg)
     = (Inr (Some (Req h, Payload (pd_length 3))), src', d')"
    using demo_start [of t] assms demo_put_parts(4) [of t]
    by (simp add: decode_message_def skipped_def demo_lines md_new_def head_fields_def demo_head_def demo_mid_def
        check_upgrade_def payload_length_def req_set_payload_length_def pl_is_none_def pl_is_zero_def ZERO_def
        pd_length_def State_default_def connection_types_def Let_def)
  then show ?thesis using md_decode_Inr by blast
qed

abbreviation demo_post :: bytes where
  "demo_post \<equiv> demo_put ([13, 10] @ ascii ''abc'')"

lemma demo_post_head:
  "\<exists>h d'. md_decode demo True demo_post (md_new demo demo_cfg)
     = (Inr (Some (Req h, Payload (pd_length 3))), ascii ''abc'', d')
     \<and> req_method h = ascii ''PUT'' \<and> req_version h = HTTP_11 \<and> req_flags h = {}"
proof -
  let ?t = "[13, 10] @ ascii ''abc''"
  obtain h where h: "decode_headers demo (drop 16 (demo_put ?t)) (demo_head demo_cfg) = decode_headers demo ?t (demo_mid h)"
    "req_method h = ascii ''PUT''" "req_version h = HTTP_11" "req_flags h = {}" using demo_headers [of ?t] by (elim exE conjE)
  have "demo_header ?t st = (Inr (Complete (HeaderParsed_Eof 2)), ())" for st by (simp add: demo_header_def)
  then have "decode_headers demo ?t (demo_mid h) = (Ready (Inr ()), ascii ''abc'', (demo_mid h)\<lparr>in_hdr_st := ()\<rparr>)"
    by (simp add: decode_headers.simps [of demo "13 # 10 # ascii ''abc''"] advance_to_def)
  then have "\<exists>d'. md_decode demo True demo_post (md_new demo demo_cfg)
      = (Inr (Some (Req h, Payload (pd_length 3))), ascii ''abc'', d')"
    by (rule demo_message [OF _ h(1)]) (simp_all add: h demo_mid_def demo_head_def)
  then show ?thesis using h by blast
qed

lemma demo_post_decoded:
  "\<exists>msg d'. md_decode demo True demo_post (md_new demo demo_cfg)
     = (Inr (Some (msg, Payload (pd_length 3))), ascii ''abc'', d')"
  using demo_post_head by blast

lemma demo_connection: "connection demo True demo_cfg (md_new demo demo_cfg) src"
  using conn_read [OF conn_new, of demo True demo_cfg src] by simp

lemma position_less: "position P xs = Some i \<Longrightarrow> i < length xs"
  by (induction xs arbitrary: i) (auto split: if_splits option.splits)

lemma take_2_length:
  assumes "take 2 xs = [a, b]"
  shows "2 \<le> length xs"
proof (rule ccontr)
  assume "\<not> 2 \<le> length xs"
  then have "take 2 xs = xs" by simp
  then show False using assms \<open>\<not> 2 \<le> length xs\<close> by auto
qed

lemma demo_header_parser: "header_parser_ok demo (\<lambda>_ _. True)"
  unfolding header_parser_ok_def
  by (auto simp: demo_header_def split: if_splits option.splits sum.splits Status.splits HeaderParsed.splits
      dest!: position_less take_2_length)

lemma demo_line_parser: "line_parser_ok demo (\<lambda>_ _ _. True)"
  unfolding line_parser_ok_def by (auto simp: demo_request_def demo_response_def split: if_splits)

theorem message_framing_witness:
  "\<exists>msg src' d'. md_decode demo True demo_post (md_new demo demo_cfg) = (Inr (Some (msg, Payload (pd_length 3))), src', d')
    \<and> message_body demo msg = Payload (pd_length 3) \<and> framing_valid demo msg"
proof -
  obtain msg d' where dec: "md_decode demo True demo_post (md_new demo demo_cfg)
     = (Inr (Some (msg, Payload (pd_length 3))), ascii ''abc'', d')"
    using demo_post_decoded by (elim exE)
  with message_framing [OF demo_connection dec] show ?thesis
    by (intro exI [of _ msg] exI [of _ "ascii ''abc''"] exI [of _ d']) simp
qed

theorem head_limits_witness:
  "\<exists>msg d'. md_decode demo True demo_post (md_new demo demo_cfg)
     = (Inr (Some (msg, Payload (pd_length 3))), ascii ''abc'', d') \<and> header_count (msg_headers msg) \<le> 96"
proof -
  obtain msg d' where dec: "md_decode demo True demo_post (md_new demo demo_cfg)
     = (Inr (Some (msg, Payload (pd_length 3))), ascii ''abc'', d')"
    using demo_post_decoded by (elim exE)
  have "head_bytes demo True demo_cfg (md_new demo demo_cfg) demo_post 0"
    using hb_read [OF hb_new, of demo True demo_cfg demo_post] by simp
  from head_limits [OF this dec] dec show ?thesis
    by (intro exI [of _ msg] exI [of _ d']) simp
qed

theorem message_decode_no_panic_witness:
  "fst (md_decode demo True demo_post (md_new demo demo_cfg)) \<noteq> Inl Panic"
  by (rule message_decode_no_panic [OF demo_connection demo_header_parser demo_line_parser])

text \<open>Two Content-Length lines in one read.\<close>

lemma demo_length_line:
  "field_lines demo (Suc n) (ascii ''Content-Length'' @ ascii '': '' @ [c] @ [13, 10] @ t) st = (CONTENT_LENGTH, [c]) # field_lines demo n t ()"
  if "c \<noteq> 10"
  using that by (simp add: demo_header_def ascii_def slice_get_def to_ascii_lowercase_def)

theorem conflicting_length_rejected_witness:
  "\<exists>e src' d'. md_decode demo True (demo_put (ascii ''Content-Length: 4'' @ [13, 10])) (md_new demo demo_cfg) = (Inl (Err e), src', d')
    \<and> md_idle demo d'"
proof -
  let ?t = "ascii ''Content-Length: 4'' @ [13, 10]"
  have hs: "head_start demo True (demo_put ?t) (md_new demo demo_cfg)
     = Some (Req (request_head (demo_url [0x2F]) (ascii ''PUT'') HTTP_11), drop 16 (demo_put ?t), ())"
    using demo_start [of ?t] by (simp add: head_start_def skipped_def md_new_def demo_lines demo_head_def Let_def)
  let ?cl = "\<lambda>c t. ascii ''Content-Length'' @ ascii '': '' @ [c] @ [13, 10] @ t"
  have t: "?t = ?cl 52 []" and d: "drop 16 (demo_put ?t) = ?cl 51 ?t"
    unfolding demo_put_parts(1) by (simp_all add: ascii_def)
  have "field_lines demo (Suc (Suc 0)) (?cl 51 ?t) () = [(CONTENT_LENGTH, [51]), (CONTENT_LENGTH, [52])]"
    by (subst demo_length_line, simp, subst t, subst demo_length_line, simp_all only: field_lines.simps) simp
  then have "field_lines demo 2 (drop 16 (demo_put ?t)) () = [(CONTENT_LENGTH, [51]), (CONTENT_LENGTH, [52])]"
    by (simp only: d numeral_2_eq_2)
  then have "conflicting (add_lines (msg_values (Req (request_head (demo_url [0x2F]) (ascii ''PUT'') HTTP_11)))
      (field_lines demo 2 (drop 16 (demo_put ?t)) ()))"
    by (simp add: conflicting_def)
  from conflicting_length_rejected [OF demo_connection demo_header_parser demo_line_parser hs this] show ?thesis by blast
qed









end
