(* ===== verification/H1_Codec.thy ===== *)
theory H1_Codec
  imports H1_Head
begin

text \<open>
  The server codec of a connection (\<^verbatim>\<open>ntex/src/http/h1/codec.rs\<close>): the message decoder and the message
  encoder with the version, connection type and flags they share. The keep-alive setting of the
  configuration is an argument of \<open>codec_new\<close>; the connection id that a decoded head gets is left out.
  A decoder of requests returns no response, which is the branch \<open>Panic\<close> of \<open>codec_decode\<close>.
\<close>

section \<open>State\<close>

datatype CodecFlag = HEAD | STREAM | KEEPALIVE_ENABLED

datatype 'a H1Message = Item 'a | Chunk "bytes option"

record ('p, 's) HttpCodec =
  hc_decoder :: "('p, 's) MessageDecoder"
  hc_version :: Version
  hc_ctype :: ConnectionType
  hc_flags :: "CodecFlag set"
  hc_encoder :: MessageEncoder

definition codec_new :: "('p, 's) Deps \<Rightarrow> HttpServiceConfig \<Rightarrow> bool \<Rightarrow> ('p, 's) HttpCodec" where
  "codec_new D cfg ka_enabled =
     \<lparr>hc_decoder = md_new D cfg, hc_version = HTTP_11, hc_ctype = (if ka_enabled then KeepAlive else Close),
      hc_flags = (if ka_enabled then {KEEPALIVE_ENABLED} else {}), hc_encoder = me_default\<rparr>"

definition codec_clone :: "('p, 's) Deps \<Rightarrow> ('p, 's) HttpCodec \<Rightarrow> ('p, 's) HttpCodec" where
  "codec_clone D c = c\<lparr>hc_decoder := md_clone D (hc_decoder c)\<rparr>"

definition codec_is_reading_hdrs :: "('p, 's) HttpCodec \<Rightarrow> bool" where
  "codec_is_reading_hdrs c = is_reading_hdrs (hc_decoder c)"

definition codec_is_body_complete :: "('p, 's) HttpCodec \<Rightarrow> bool" where
  "codec_is_body_complete c = is_body_complete (hc_encoder c)"

definition keepalive :: "('p, 's) HttpCodec \<Rightarrow> bool" where
  "keepalive c \<longleftrightarrow> hc_ctype c = KeepAlive"

definition reset_upgrade :: "('p, 's) HttpCodec \<Rightarrow> ('p, 's) HttpCodec" where
  "reset_upgrade c = c\<lparr>hc_flags := hc_flags c - {STREAM}, hc_ctype := Close\<rparr>"

section \<open>Operations\<close>

definition codec_decode ::
    "('p, 's) Deps \<Rightarrow> bytes \<Rightarrow> ('p, 's) HttpCodec
      \<Rightarrow> (DecodeError failure + (RequestHead \<times> PayloadType) option) \<times> bytes \<times> ('p, 's) HttpCodec" where
  "codec_decode D src c =
     (case md_decode D True src (hc_decoder c) of
        (Inl e, src, d) \<Rightarrow> (Inl e, src, c\<lparr>hc_decoder := d\<rparr>)
      | (Inr None, src, d) \<Rightarrow> (Inr None, src, c\<lparr>hc_decoder := d\<rparr>)
      | (Inr (Some (Res h, payload)), src, d) \<Rightarrow> (Inl Panic, src, c\<lparr>hc_decoder := d\<rparr>)
      | (Inr (Some (Req h, payload)), src, d) \<Rightarrow>
          let flags = (if req_method h = ascii ''HEAD'' then hc_flags c \<union> {HEAD} else hc_flags c - {HEAD});
              ctype = req_connection_type h;
              ctype = (if ctype = KeepAlive \<and> KEEPALIVE_ENABLED \<notin> flags then Close else ctype);
              flags = (case payload of Stream _ \<Rightarrow> flags \<union> {STREAM} | _ \<Rightarrow> flags)
          in (Inr (Some (h, payload)), src,
              c\<lparr>hc_decoder := d, hc_flags := flags, hc_version := req_version h, hc_ctype := ctype\<rparr>))"

definition res_ctype :: "ResponseHead \<Rightarrow> ConnectionType option" where
  "res_ctype h =
     (if CLOSE \<in> res_flags h then Some Close
      else if KEEP_ALIVE \<in> res_flags h then Some KeepAlive
      else if UPGRADE \<in> res_flags h then Some Upgrade
      else None)"

definition codec_encode ::
    "(HeaderMap \<Rightarrow> (HeaderName \<times> Value) list) \<Rightarrow> bytes \<Rightarrow> (ResponseHead \<times> BodySize) H1Message \<Rightarrow> bytes
      \<Rightarrow> ('p, 's) HttpCodec \<Rightarrow> (EncodeError, bytes) result \<times> ('p, 's) HttpCodec" where
  "codec_encode entries date msg dst c =
     (case msg of
        Item (res, len) \<Rightarrow>
          let res = res\<lparr>res_version := hc_version c\<rparr>;
              c = (if res_status res = 101 then c\<lparr>hc_ctype := Upgrade\<rparr>
                   else case res_ctype res of
                       Some ct \<Rightarrow> if ct \<noteq> KeepAlive then c\<lparr>hc_ctype := ct\<rparr> else c
                     | None \<Rightarrow> c)
          in (case encode_message entries date (hc_encoder c) dst (Res res) (HEAD \<in> hc_flags c) (STREAM \<in> hc_flags c)
                 (hc_version c) len (hc_ctype c) None of
                (Inl e, me) \<Rightarrow> (Inl e, c\<lparr>hc_encoder := me\<rparr>)
              | (Inr (dst, ctype), me) \<Rightarrow> (Inr dst, c\<lparr>hc_encoder := me, hc_ctype := ctype\<rparr>))
      | Chunk (Some bytes) \<Rightarrow>
          (case encode_chunk (hc_encoder c) bytes dst of (dst, _, me) \<Rightarrow> (Inr dst, c\<lparr>hc_encoder := me\<rparr>))
      | Chunk None \<Rightarrow>
          (case encode_eof (hc_encoder c) dst of (r, me) \<Rightarrow> (r, c\<lparr>hc_encoder := me\<rparr>)))"


section \<open>Persistent connections\<close>

lemma codec_decode_head:
  assumes "codec_decode D src c = (Inr (Some (req, payload)), src', c')"
  shows "hc_version c' = req_version req"
    "hc_ctype c' = (if req_connection_type req = KeepAlive \<and> KEEPALIVE_ENABLED \<notin> hc_flags c then Close else req_connection_type req)"
    "HEAD \<in> hc_flags c' \<longleftrightarrow> req_method req = ascii ''HEAD''"
    "KEEPALIVE_ENABLED \<in> hc_flags c' \<longleftrightarrow> KEEPALIVE_ENABLED \<in> hc_flags c" "hc_encoder c' = hc_encoder c"
    "STREAM \<in> hc_flags c' \<longleftrightarrow> STREAM \<in> hc_flags c \<or> (\<exists>d. payload = Stream d)"
  using assms
  by (auto simp: codec_decode_def Let_def split: prod.splits sum.splits option.splits Msg.splits PayloadType.splits if_splits)

text \<open>The connection type of a response head: from the response where it ends the connection, else as it was.\<close>

definition response_ctype :: "ResponseHead \<Rightarrow> ConnectionType \<Rightarrow> ConnectionType" where
  "response_ctype res ctype =
     (if res_status res = 101 then Upgrade
      else case res_ctype res of Some ct \<Rightarrow> if ct \<noteq> KeepAlive then ct else ctype | None \<Rightarrow> ctype)"

text \<open>The size that the head of a response is written for.\<close>

definition sent_size :: "ResponseHead \<Rightarrow> bool \<Rightarrow> BodySize \<Rightarrow> BodySize" where
  "sent_size res head len =
     (if is_bodyless (res_status res) then BodySize_None
      else if len = BodySize_None \<and> \<not> head \<and> res_status res \<noteq> 101 then Empty else len)"

text \<open>The lines of a head delimit a body: it has the declared length, is chunked, or there is none
  because of the status code.\<close>

definition delimits :: "nat \<Rightarrow> (HeaderName \<times> HeaderValue) list \<Rightarrow> TransferEncodingKind \<Rightarrow> bool" where
  "delimits status lines k \<longleftrightarrow> (case k of
     Eof \<Rightarrow> False
   | Chunked eof \<Rightarrow> \<not> eof \<and> lines = [(TRANSFER_ENCODING, ascii ''chunked'')]
   | Length n \<Rightarrow> if is_bodyless status then n = 0 \<and> lines = []
       else lines = [(CONTENT_LENGTH, dec_digits (unat n))])"

text \<open>What the encoder of a response is left with, and what it has written.\<close>

lemma encode_response:
  assumes "encode_message entries date me dst (Res res) head stream version len ctype None = (Inr (dst', ctype'), me')"
  shows "dst' = encode_headers entries date (Res res) (encode_status (Res res) dst) version (sent_size res head len) ctype' None"
    "ctype' = (if \<not> stream \<and> te_kind (me_te me') = Eof \<and> ctype = KeepAlive then Close else ctype)"
    "head \<Longrightarrow> te_kind (me_te me') = Length 0"
    "\<lbrakk>\<not> head; \<not> stream; res_status res \<noteq> 101; te_kind (me_te me') \<noteq> Eof\<rbrakk> \<Longrightarrow> skips_framing (Res res) (sent_size res head len)
      \<and> delimits (res_status res) (framing_lines (Res res) (sent_size res head len)) (te_kind (me_te me'))"
proof -
  let ?size = "sent_size res head len"
  have size: "(case msg_status (Res res) of
               Some s \<Rightarrow> if is_bodyless s then BodySize_None
                         else if len = BodySize_None \<and> \<not> head \<and> s \<noteq> 101 then Empty
                         else len
             | None \<Rightarrow> len) = ?size" by (simp add: sent_size_def)
  have me: "me_te me' = (if head then te_empty
                else if res_status res = 101 \<and> (case ?size of Sized _ \<Rightarrow> True | BodySize_Stream \<Rightarrow> True | _ \<Rightarrow> False)
                then te_eof
                else case ?size of
                    Empty \<Rightarrow> te_empty
                  | BodySize_None \<Rightarrow> te_empty
                  | Sized len \<Rightarrow> te_length len
                  | BodySize_Stream \<Rightarrow> if msg_chunked (Res res) \<and> \<not> stream then te_chunked else te_eof)"
    using assms unfolding encode_message_def size Let_def
    by (auto split: if_splits simp del: msg_chunked.simps)
  show "dst' = encode_headers entries date (Res res) (encode_status (Res res) dst) version ?size ctype' None"
    "ctype' = (if \<not> stream \<and> te_kind (me_te me') = Eof \<and> ctype = KeepAlive then Close else ctype)"
    using assms unfolding encode_message_def size Let_def by (auto split: if_splits)
  show "te_kind (me_te me') = Length 0" if head using me that by (simp add: te_empty_def)
  assume h: "\<not> head" "\<not> stream" "res_status res \<noteq> 101" "te_kind (me_te me') \<noteq> Eof"
  have "dec_digits 0 = ascii ''0''" by (simp add: dec_digits.simps ascii_def)
  then show "skips_framing (Res res) ?size \<and> delimits (res_status res) (framing_lines (Res res) ?size) (te_kind (me_te me'))"
    using me h
    by (cases len) (auto simp: sent_size_def skips_framing_def delimits_def framing_lines_def effective_size_def
        te_empty_def te_eof_def te_chunked_def te_length_def simp del: msg_chunked.simps split: if_splits)
qed

lemma codec_encode_response:
  assumes "codec_encode entries date (Item (res, len)) dst c = (Inr dst', c')"
    and "msg = res\<lparr>res_version := hc_version c\<rparr>"
  shows "encode_message entries date (hc_encoder c) dst (Res msg) (HEAD \<in> hc_flags c) (STREAM \<in> hc_flags c)
      (hc_version c) len (response_ctype res (hc_ctype c)) None = (Inr (dst', hc_ctype c'), hc_encoder c')"
proof -
  let ?c = "c\<lparr>hc_ctype := response_ctype res (hc_ctype c)\<rparr>"
  have rc: "(if res_status msg = 101 then c\<lparr>hc_ctype := Upgrade\<rparr>
      else case res_ctype msg of Some ct \<Rightarrow> if ct \<noteq> KeepAlive then c\<lparr>hc_ctype := ct\<rparr> else c | None \<Rightarrow> c) = ?c"
    by (simp add: assms(2) response_ctype_def res_ctype_def split: option.splits)
  obtain r me where em: "encode_message entries date (hc_encoder c) dst (Res msg) (HEAD \<in> hc_flags c) (STREAM \<in> hc_flags c)
      (hc_version c) len (response_ctype res (hc_ctype c)) None = (r, me)" by fastforce
  have "codec_encode entries date (Item (res, len)) dst c =
      (case r of Inl e \<Rightarrow> (Inl e, ?c\<lparr>hc_encoder := me\<rparr>) | Inr (dst, ctype) \<Rightarrow> (Inr dst, ?c\<lparr>hc_encoder := me, hc_ctype := ctype\<rparr>))"
    unfolding codec_encode_def H1Message.case prod.case Let_def assms(2) [symmetric] rc
    using em by (simp split: sum.splits prod.splits)
  then show ?thesis using assms(1) em by (auto split: sum.splits)
qed

section \<open>Properties\<close>

text \<open>C8. Persistent connections. The response is the answer to a request that did not ask to leave HTTP
  (\<^verbatim>\<open>STREAM\<close> is not set), or to one that did and whose upgrade the dispatcher has taken over with
  \<^verbatim>\<open>reset_upgrade\<close>. The head that is written has the framing line for the body size, and what it says
  about the connection is the state the codec is left in. When the codec keeps the connection open,
  the configuration allows it, the request asked for it, the response did not end it, and the end of
  the body can be told without closing: the encoder sends no body in answer to \<^verbatim>\<open>HEAD\<close>, and otherwise
  writes a body whose length or chunked coding is the one the head declares, or none for a status
  without a body; no header of the application interferes.\<close>
theorem codec_persistent_delimited:
  assumes "codec_decode D src c = (Inr (Some (req, payload)), src', c1)"
    and "c2 = c1 \<and> STREAM \<notin> hc_flags c1 \<or> c2 = reset_upgrade c1"
    and "codec_encode entries date (Item (res, len)) dst c2 = (Inr dst', c3)"
    and "msg = Res (res\<lparr>res_version := req_version req\<rparr>)" "sz = sent_size res (req_method req = ascii ''HEAD'') len"
  shows "dst' = encode_status msg dst @ [13, 10]
      @ concat (map header_line (framing_lines msg sz @ connection_lines msg (req_version req) (hc_ctype c3)
          @ app_lines entries msg sz None))
      @ (if DATE \<in> fst ` set (app_entries entries msg None) then [13, 10] else date)
    \<and> (keepalive c3 \<longrightarrow> KEEPALIVE_ENABLED \<in> hc_flags c \<and> req_connection_type req = KeepAlive
         \<and> res_status res \<noteq> 101 \<and> CLOSE \<notin> res_flags res
         \<and> (if req_method req = ascii ''HEAD'' then te_kind (me_te (hc_encoder c3)) = Length 0
            else skips_framing msg sz
              \<and> delimits (res_status res) (framing_lines msg sz) (te_kind (me_te (hc_encoder c3)))))"
proof -
  note dec = codec_decode_head [OF assms(1)]
  have c2: "hc_version c2 = req_version req" "HEAD \<in> hc_flags c2 \<longleftrightarrow> req_method req = ascii ''HEAD''" "STREAM \<notin> hc_flags c2"
    "hc_ctype c2 = KeepAlive \<Longrightarrow> KEEPALIVE_ENABLED \<in> hc_flags c \<and> req_connection_type req = KeepAlive"
    using assms(2) dec(1-3) by (auto simp: reset_upgrade_def split: if_splits)
  note em = encode_response [OF codec_encode_response [OF assms(3) refl], unfolded c2(1,2)]
  have st: "sent_size (res\<lparr>res_version := v\<rparr>) h l = sent_size res h l" for v h l by (simp add: sent_size_def)
  have ka: "response_ctype res (hc_ctype c2) = KeepAlive \<Longrightarrow> hc_ctype c2 = KeepAlive \<and> res_status res \<noteq> 101 \<and> CLOSE \<notin> res_flags res"
    by (auto simp: response_ctype_def res_ctype_def split: if_splits option.splits)
  have "hc_ctype c3 = KeepAlive \<Longrightarrow> response_ctype res (hc_ctype c2) = KeepAlive \<and> te_kind (me_te (hc_encoder c3)) \<noteq> Eof"
    using em(2) c2(3) by (auto split: if_splits)
  then have "keepalive c3 \<longrightarrow> KEEPALIVE_ENABLED \<in> hc_flags c \<and> req_connection_type req = KeepAlive
         \<and> res_status res \<noteq> 101 \<and> CLOSE \<notin> res_flags res
         \<and> (if req_method req = ascii ''HEAD'' then te_kind (me_te (hc_encoder c3)) = Length 0
            else skips_framing msg sz
              \<and> delimits (res_status res) (framing_lines msg sz) (te_kind (me_te (hc_encoder c3))))"
    using ka c2(4) em(3) em(4) [unfolded st] c2(3) by (auto simp: keepalive_def assms(4,5))
  moreover have "dst' = encode_headers entries date msg (encode_status msg dst) (req_version req) sz (hc_ctype c3) None"
    using em(1) [unfolded st] by (simp add: assms(4,5))
  moreover have "msg_status msg \<noteq> None" by (simp add: assms(4))
  ultimately show ?thesis unfolding encode_headers_eq head_lines_parts by simp
qed

theorem codec_persistent_delimited_witness:
  "\<exists>req c1 dst' c2. codec_decode demo demo_post (codec_new demo demo_cfg True)
      = (Inr (Some (req, Payload (pd_length 3))), ascii ''abc'', c1)
    \<and> codec_encode (\<lambda>_. []) [] (Item (\<lparr>res_version = HTTP_11, res_status = 200, res_headers = HeaderMap_new,
        res_headers_vec = [], res_reason = ascii ''OK'', res_flags = {}\<rparr>, Sized 2)) [] c1 = (Inr dst', c2)
    \<and> keepalive c2 \<and> delimits 200 [(CONTENT_LENGTH, ascii ''2'')] (te_kind (me_te (hc_encoder c2)))"
proof -
  let ?res = "\<lparr>res_version = HTTP_11, res_status = 200, res_headers = HeaderMap_new,
        res_headers_vec = [], res_reason = ascii ''OK'', res_flags = {}\<rparr> :: ResponseHead"
  obtain h d' where dec: "md_decode demo True demo_post (md_new demo demo_cfg)
     = (Inr (Some (Req h, Payload (pd_length 3))), ascii ''abc'', d')"
    and h: "req_method h = ascii ''PUT''" "req_version h = HTTP_11" "req_flags h = {}"
    using demo_post_head by blast
  obtain c1 where c1: "codec_decode demo demo_post (codec_new demo demo_cfg True) = (Inr (Some (h, Payload (pd_length 3))), ascii ''abc'', c1)"
    "hc_flags c1 = {KEEPALIVE_ENABLED}" "hc_ctype c1 = KeepAlive" "hc_version c1 = HTTP_11"
    using dec h by (simp add: codec_decode_def codec_new_def req_connection_type_def connection_type_def Let_def)
  obtain dst' c2 where c2: "codec_encode (\<lambda>_. []) [] (Item (?res, Sized 2)) [] c1 = (Inr dst', c2)" "keepalive c2"
    using c1 by (auto simp: codec_encode_def encode_message_def res_ctype_def keepalive_def is_bodyless_def is_informational_def
        te_length_def Let_def)
  have "c1 = c1 \<and> STREAM \<notin> hc_flags c1 \<or> c1 = reset_upgrade c1" using c1(2) by simp
  note p = codec_persistent_delimited [OF c1(1) this c2(1) refl refl]
  have "framing_lines (Res (?res\<lparr>res_version := req_version h\<rparr>)) (sent_size ?res (req_method h = ascii ''HEAD'') (Sized 2)) = [(CONTENT_LENGTH, ascii ''2'')]"
    by (simp add: framing_lines_def effective_size_def sent_size_def is_bodyless_def is_informational_def dec_digits.simps ascii_def)
  then have "delimits 200 [(CONTENT_LENGTH, ascii ''2'')] (te_kind (me_te (hc_encoder c2)))"
    using p c2(2) h(1) by simp
  then show ?thesis using c1(1) c2 by blast
qed

end
