(* ===== verification/Timer_Wheel.thy ===== *)
theory Timer_Wheel
  imports Prelude "HOL-Library.Monad_Syntax"
begin

text \<open>
  The hierarchical timer wheel of \<^verbatim>\<open>ntex-util/src/time/wheel.rs\<close>: its buckets and bitmaps, the
  operations on timers, the search for the next occupied bucket and the driver that expires them.

  Clock values in units are natural numbers: \<^verbatim>\<open>wrapping_add\<close> and \<^verbatim>\<open>u64::MAX\<close> are written out, plain
  additions are exact. Instants and durations are in nanoseconds. The \<^verbatim>\<open>slab\<close> containers are partial
  functions from keys; the key a slab picks for a new value is an argument of the operation that
  inserts it. Removing or indexing a vacant key panics, which is \<open>None\<close>. The type variable is a
  waker. The tasks a bucket wakes and the callbacks it queues are sets: there is no order among the
  timers of a tick. What \<^verbatim>\<open>Instant::now()\<close> returns, the resolution of the system and whether the sleep of the
  driver is ready are arguments.
\<close>

unbundle bit_operations_syntax

section \<open>Levels\<close>

definition DEFAULT_UNITS :: nat where "DEFAULT_UNITS = 4"

definition LVL_CLK_SHIFT :: nat where "LVL_CLK_SHIFT = 3"
definition LVL_CLK_DIV :: nat where "LVL_CLK_DIV = 2 ^ LVL_CLK_SHIFT"

definition LVL_BITS :: nat where "LVL_BITS = 6"
definition LVL_SIZE :: nat where "LVL_SIZE = 2 ^ LVL_BITS"

definition LVL_DEPTH :: nat where "LVL_DEPTH = 8"

definition lvl_shift :: "nat \<Rightarrow> nat" where
  "lvl_shift lvl = lvl * LVL_CLK_SHIFT"

definition lvl_gran :: "nat \<Rightarrow> nat" where
  "lvl_gran lvl = 2 ^ lvl_shift lvl"

definition lvl_start :: "nat \<Rightarrow> nat" where
  "lvl_start lvl = (LVL_SIZE - 1) * 2 ^ ((lvl - 1) * LVL_CLK_SHIFT)"

definition WHEEL_SIZE :: nat where "WHEEL_SIZE = LVL_SIZE * LVL_DEPTH"

definition WHEEL_TIMEOUT_CUTOFF :: nat where
  "WHEEL_TIMEOUT_CUTOFF = lvl_start LVL_DEPTH"

definition WHEEL_TIMEOUT_MAX :: nat where
  "WHEEL_TIMEOUT_MAX = WHEEL_TIMEOUT_CUTOFF - lvl_gran (LVL_DEPTH - 1)"

definition U64_MAX :: nat where "U64_MAX = 2 ^ 64 - 1"

definition wrapping_add :: "nat \<Rightarrow> nat \<Rightarrow> nat" where
  "wrapping_add a b = (a + b) mod 2 ^ 64"

definition to_units :: "nat \<Rightarrow> nat \<Rightarrow> nat" where
  "to_units millis units = millis div 2 ^ units"

definition to_millis :: "nat \<Rightarrow> nat \<Rightarrow> nat" where
  "to_millis val units = val * 2 ^ units"

definition as_millis :: "nat \<Rightarrow> nat" where
  "as_millis dur = dur div 1000000"

definition from_millis :: "nat \<Rightarrow> nat" where
  "from_millis ms = ms * 1000000"

section \<open>Storage\<close>

record 'w TimerEntry =
  te_bucket :: "nat option"
  te_bucket_entry :: nat
  te_callback :: bool
  te_task :: "'w option"

record CallbackTicket =
  tk_state :: nat
  tk_arm :: nat
  tk_generation :: nat

record Callbacks =
  cb_entries :: "nat \<rightharpoonup> CallbackTicket"
  cb_ready :: "CallbackTicket set"

record 'w Wheel =
  wh_timers :: "nat \<rightharpoonup> 'w TimerEntry"
  wh_buckets :: "nat \<Rightarrow> (nat \<rightharpoonup> nat)"
  wh_occupied :: "nat \<Rightarrow> u64"
  wh_callbacks :: "Callbacks option"

datatype TimerFlag = DRIVER_STARTED | LOWRES_TIMER | LOWRES_DRIVER | RUNNING

record 'w Timer =
  tm_elapsed :: nat
  tm_elapsed_time :: "nat option"
  tm_next_expiry :: nat
  tm_flags :: "TimerFlag set"
  tm_generation :: nat
  tm_units :: "nat option"
  tm_lowres_stime :: "nat option"
  tm_wheel :: "'w Wheel"

definition new_entry :: "'w TimerEntry" where
  "new_entry = \<lparr>te_bucket = None, te_bucket_entry = 0, te_callback = False, te_task = None\<rparr>"

definition timer_new :: "'w Timer" where
  "timer_new =
     \<lparr>tm_elapsed = 0, tm_elapsed_time = None, tm_next_expiry = U64_MAX, tm_flags = {},
      tm_generation = 0, tm_units = None, tm_lowres_stime = None,
      tm_wheel = \<lparr>wh_timers = [0 \<mapsto> new_entry], wh_buckets = (\<lambda>_. Map.empty), wh_occupied = (\<lambda>_. 0),
                  wh_callbacks = None\<rparr>\<rparr>"

section \<open>Operations on the storage\<close>

definition bucket_bit :: "nat \<Rightarrow> nat \<times> u64" where
  "bucket_bit idx = (idx div LVL_SIZE, push_bit (idx mod LVL_SIZE) 1)"

definition wheel_link :: "nat \<Rightarrow> nat \<Rightarrow> nat \<Rightarrow> 'w Wheel \<Rightarrow> 'w Wheel option" where
  "wheel_link key hnd idx w =
     (case wh_timers w hnd of
        None \<Rightarrow> None
      | Some entry \<Rightarrow>
          let (lvl, b) = bucket_bit idx in
          Some (w\<lparr>wh_timers := (wh_timers w)(hnd \<mapsto> entry\<lparr>te_bucket := Some idx, te_bucket_entry := key\<rparr>),
                 wh_buckets := (wh_buckets w)(idx := (wh_buckets w idx)(key \<mapsto> hnd)),
                 wh_occupied := (wh_occupied w)(lvl := wh_occupied w lvl OR b)\<rparr>))"

definition wheel_unlink :: "nat \<Rightarrow> 'w Wheel \<Rightarrow> (bool \<times> 'w Wheel) option" where
  "wheel_unlink hnd w =
     (case wh_timers w hnd of
        None \<Rightarrow> None
      | Some entry \<Rightarrow>
          (case te_bucket entry of
             None \<Rightarrow> Some (False, w)
           | Some idx \<Rightarrow>
               if wh_buckets w idx (te_bucket_entry entry) = None then None
               else
                 let bucket = (wh_buckets w idx)(te_bucket_entry entry := None);
                     (lvl, b) = bucket_bit idx
                 in Some (True,
                      w\<lparr>wh_timers := (wh_timers w)(hnd \<mapsto> entry\<lparr>te_bucket := None\<rparr>),
                        wh_buckets := (wh_buckets w)(idx := bucket),
                        wh_occupied := (if bucket = Map.empty
                          then (wh_occupied w)(lvl := wh_occupied w lvl AND NOT b) else wh_occupied w)\<rparr>)))"

definition wheel_relink :: "nat \<Rightarrow> nat \<Rightarrow> nat \<Rightarrow> 'w Wheel \<Rightarrow> 'w Wheel option" where
  "wheel_relink key hnd idx w =
     (case wh_timers w hnd of
        None \<Rightarrow> None
      | Some entry \<Rightarrow>
          if te_bucket entry \<noteq> Some idx
          then do { (_, w) \<leftarrow> wheel_unlink hnd w; wheel_link key hnd idx w }
          else Some w)"

text \<open>
  The timers of a bucket expire: they are marked, their tasks taken and woken, callback timers are
  queued. The second component is the set of woken timers with their tasks.
\<close>

definition expire_entry :: "'w TimerEntry \<Rightarrow> 'w TimerEntry" where
  "expire_entry e = (if te_callback e then e\<lparr>te_bucket := None\<rparr> else e\<lparr>te_bucket := None, te_task := None\<rparr>)"

definition queue_callbacks :: "nat set \<Rightarrow> Callbacks option \<Rightarrow> Callbacks option" where
  "queue_callbacks nos cbs =
     map_option (\<lambda>c. c\<lparr>cb_ready := cb_ready c \<union> {t. \<exists>no \<in> nos. cb_entries c no = Some t}\<rparr>) cbs"

definition expire_bucket :: "nat \<Rightarrow> 'w Wheel \<Rightarrow> ('w Wheel \<times> (nat \<times> 'w) set) option" where
  "expire_bucket idx w =
     (let nos = ran (wh_buckets w idx);
          cbs = {no \<in> nos. \<exists>e. wh_timers w no = Some e \<and> te_callback e};
          (lvl, b) = bucket_bit idx
      in if \<not> nos \<subseteq> dom (wh_timers w) \<or> (cbs \<noteq> {} \<and> wh_callbacks w = None)
            \<or> (\<exists>c. wh_callbacks w = Some c \<and> \<not> cbs \<subseteq> dom (cb_entries c))
         then None
         else Some
           (w\<lparr>wh_timers := (\<lambda>no. if no \<in> nos then map_option expire_entry (wh_timers w no) else wh_timers w no),
              wh_buckets := (wh_buckets w)(idx := Map.empty),
              wh_occupied := (wh_occupied w)(lvl := wh_occupied w lvl AND NOT b),
              wh_callbacks := queue_callbacks cbs (wh_callbacks w)\<rparr>,
            {(no, task). no \<in> nos \<and> (\<exists>e. wh_timers w no = Some e \<and> \<not> te_callback e \<and> te_task e = Some task)}))"

text \<open>The loop over the levels of \<^verbatim>\<open>execute_expired_timers\<close>.\<close>

fun expire_levels ::
    "nat list \<Rightarrow> nat \<Rightarrow> 'w Wheel \<Rightarrow> (nat \<times> 'w) set \<Rightarrow> ('w Wheel \<times> (nat \<times> 'w) set) option" where
  "expire_levels [] clk w woken = Some (w, woken)"
| "expire_levels (lvl # lvls) clk w woken =
     (let idx = clk mod LVL_SIZE + lvl * LVL_SIZE in
      case (if wh_buckets w idx \<noteq> Map.empty then expire_bucket idx w else Some (w, {})) of
        None \<Rightarrow> None
      | Some (w, new) \<Rightarrow>
          if clk mod LVL_CLK_DIV \<noteq> 0 then Some (w, woken \<union> new)
          else expire_levels lvls (clk div LVL_CLK_DIV) w (woken \<union> new))"

definition execute_expired_timers :: "nat \<Rightarrow> 'w Wheel \<Rightarrow> ('w Wheel \<times> (nat \<times> 'w) set) option" where
  "execute_expired_timers clk w = expire_levels [0..<LVL_DEPTH] clk w {}"

section \<open>The next occupied bucket\<close>

definition trailing_zeros :: "u64 \<Rightarrow> nat" where
  "trailing_zeros x = length (takeWhile (\<lambda>i. \<not> bit x i) [0..<64])"

fun pending_levels :: "nat list \<Rightarrow> (nat \<Rightarrow> u64) \<Rightarrow> nat \<Rightarrow> nat \<Rightarrow> nat" where
  "pending_levels [] occupied clk next = next"
| "pending_levels (lvl # lvls) occupied clk next =
     (let lvl_clk = clk mod LVL_CLK_DIV;
          clk' = clk div LVL_CLK_DIV + of_bool (lvl_clk \<noteq> 0)
      in if occupied lvl \<noteq> 0 then
           let pos = trailing_zeros (word_rotr (clk mod LVL_SIZE) (occupied lvl));
               next = min next ((clk + pos) * 2 ^ lvl_shift lvl)
           in if pos \<le> (LVL_CLK_DIV - lvl_clk) mod LVL_CLK_DIV then next
              else pending_levels lvls occupied clk' next
         else pending_levels lvls occupied clk' next)"

definition next_pending_bucket :: "'w Timer \<Rightarrow> nat option" where
  "next_pending_bucket t =
     (let next = pending_levels [0..<LVL_DEPTH] (wh_occupied (tm_wheel t)) (tm_elapsed t) U64_MAX
      in if next < U64_MAX then Some next else None)"

section \<open>Timers\<close>

text \<open>What an operation asks of the driver task: to be woken, or to be spawned.\<close>

record TimerDriver =
  td_generation :: nat
  td_armed :: "nat option"

datatype driver_call = No_Call | Wake_Driver | Start_Driver TimerDriver

definition timer_insert_flags :: "TimerFlag set \<Rightarrow> 'w Timer \<Rightarrow> 'w Timer" where
  "timer_insert_flags fs t = t\<lparr>tm_flags := tm_flags t \<union> fs\<rparr>"

text \<open>\<^verbatim>\<open>elapsed_time\<close>, which sets the instant of an idle wheel to \<open>now\<close>.\<close>

definition elapsed_time :: "nat \<Rightarrow> 'w Timer \<Rightarrow> nat \<times> 'w Timer" where
  "elapsed_time now t =
     (case tm_elapsed_time t of
        Some et \<Rightarrow> (et, t)
      | None \<Rightarrow> (now, t\<lparr>tm_elapsed_time := Some now\<rparr>))"

definition calc_index :: "nat \<Rightarrow> nat \<Rightarrow> nat \<times> nat" where
  "calc_index expires lvl =
     (let expires = (expires + lvl_gran lvl) div 2 ^ lvl_shift lvl
      in (lvl * LVL_SIZE + expires mod LVL_SIZE, expires * 2 ^ lvl_shift lvl))"

fun wheel_index_loop :: "nat list \<Rightarrow> nat \<Rightarrow> nat \<Rightarrow> nat \<Rightarrow> nat \<times> nat" where
  "wheel_index_loop [] elapsed expires delta =
     calc_index (wrapping_add elapsed WHEEL_TIMEOUT_MAX) (LVL_DEPTH - 1)"
| "wheel_index_loop (lvl # lvls) elapsed expires delta =
     (if delta < lvl_start (lvl + 1) then calc_index expires lvl
      else wheel_index_loop lvls elapsed expires delta)"

definition calc_wheel_index :: "nat \<Rightarrow> nat \<Rightarrow> nat \<Rightarrow> nat \<times> nat" where
  "calc_wheel_index elapsed expires delta = wheel_index_loop [0..<LVL_DEPTH] elapsed expires delta"

text \<open>\<open>now\<close> is read first, \<open>now'\<close> is the instant of an idle wheel.\<close>

definition calc_bucket :: "nat \<Rightarrow> nat \<Rightarrow> nat \<Rightarrow> nat \<Rightarrow> 'w Timer \<Rightarrow> (nat \<times> nat) \<times> 'w Timer" where
  "calc_bucket sys_units now now' millis t =
     (let t = timer_insert_flags {RUNNING} t;
          (units, t) = (case tm_units t of
              Some units \<Rightarrow> (units, t)
            | None \<Rightarrow> (sys_units, t\<lparr>tm_units := Some sys_units\<rparr>));
          (et, t) = elapsed_time now' t;
          since = now - et;
          delta = to_units (as_millis since + millis) units
      in (calc_wheel_index (tm_elapsed t) (wrapping_add (tm_elapsed t) delta) delta, t))"

definition expiry_time :: "nat \<Rightarrow> nat \<Rightarrow> 'w Timer \<Rightarrow> nat \<times> 'w Timer" where
  "expiry_time now expiry t =
     (let units = (case tm_units t of Some u \<Rightarrow> u | None \<Rightarrow> DEFAULT_UNITS);
          (et, t) = elapsed_time now t
      in (et + from_millis (to_millis (expiry - tm_elapsed t) units), t))"

definition driver_start :: "nat \<Rightarrow> 'w Timer \<Rightarrow> driver_call \<times> 'w Timer" where
  "driver_start now t =
     (let t = timer_insert_flags {DRIVER_STARTED} t;
          (deadline, t) = expiry_time now (tm_next_expiry t) t
      in (Start_Driver \<lparr>td_generation = tm_generation t, td_armed = Some deadline\<rparr>, t))"

definition update_next_expiry :: "nat \<Rightarrow> nat \<Rightarrow> 'w Timer \<Rightarrow> driver_call \<times> 'w Timer" where
  "update_next_expiry now expiry t =
     (if expiry < tm_next_expiry t then
        let t = t\<lparr>tm_next_expiry := expiry\<rparr> in
        if DRIVER_STARTED \<in> tm_flags t then (Wake_Driver, t) else driver_start now t
      else (No_Call, t))"

text \<open>\<open>no\<close> and \<open>key\<close> are the keys of the new entry in the two slabs. \<open>None\<close> is a panic.\<close>

definition add_timer ::
    "nat \<Rightarrow> nat \<Rightarrow> nat \<Rightarrow> nat \<Rightarrow> nat \<Rightarrow> nat \<Rightarrow> 'w Timer \<Rightarrow> (driver_call \<times> 'w Timer) option" where
  "add_timer sys_units now now' no key millis t =
     (if millis = 0 then
        let w = tm_wheel t
        in Some (No_Call, t\<lparr>tm_wheel := w\<lparr>wh_timers := (wh_timers w)(no \<mapsto> new_entry)\<rparr>\<rparr>)
      else
        let ((idx, expiry), t) = calc_bucket sys_units now now' millis t;
            w = tm_wheel t
        in case wheel_link key no idx (w\<lparr>wh_timers := (wh_timers w)(no \<mapsto> new_entry)\<rparr>) of
             None \<Rightarrow> None
           | Some w \<Rightarrow> Some (update_next_expiry now' expiry (t\<lparr>tm_wheel := w\<rparr>)))"

text \<open>The woken task, if there was one, and the timer.\<close>

definition remove_timer :: "nat \<Rightarrow> 'w Timer \<Rightarrow> ('w option \<times> 'w Timer) option" where
  "remove_timer hnd t =
     (case wheel_unlink hnd (tm_wheel t) of
        None \<Rightarrow> None
      | Some (False, w) \<Rightarrow> Some (None, t\<lparr>tm_wheel := w\<rparr>)
      | Some (True, w) \<Rightarrow>
          (case wh_timers w hnd of
             None \<Rightarrow> None
           | Some e \<Rightarrow>
               Some (te_task e, t\<lparr>tm_wheel := w\<lparr>wh_timers := (wh_timers w)(hnd \<mapsto> e\<lparr>te_task := None\<rparr>)\<rparr>\<rparr>)))"

definition update_timer ::
    "nat \<Rightarrow> nat \<Rightarrow> nat \<Rightarrow> nat \<Rightarrow> nat \<Rightarrow> nat \<Rightarrow> 'w Timer \<Rightarrow> (driver_call \<times> 'w option \<times> 'w Timer) option" where
  "update_timer sys_units now now' key hnd millis t =
     (if millis = 0 then map_option (\<lambda>(task, t). (No_Call, task, t)) (remove_timer hnd t)
      else
        let ((idx, expiry), t) = calc_bucket sys_units now now' millis t
        in case wheel_relink key hnd idx (tm_wheel t) of
             None \<Rightarrow> None
           | Some w \<Rightarrow>
               let (call, t) = update_next_expiry now' expiry (t\<lparr>tm_wheel := w\<rparr>)
               in Some (call, None, t))"

definition is_elapsed :: "nat \<Rightarrow> 'w Timer \<Rightarrow> bool option" where
  "is_elapsed hnd t = map_option (\<lambda>e. te_bucket e = None) (wh_timers (tm_wheel t) hnd)"

text \<open>\<open>will_wake\<close> compares a registered waker with the one of the task that polls. The result is
  whether the timer has elapsed.\<close>

definition poll_elapsed :: "('w \<Rightarrow> 'w \<Rightarrow> bool) \<Rightarrow> 'w \<Rightarrow> nat \<Rightarrow> 'w Timer \<Rightarrow> (bool \<times> 'w Timer) option" where
  "poll_elapsed will_wake waker hnd t =
     (case wh_timers (tm_wheel t) hnd of
        None \<Rightarrow> None
      | Some e \<Rightarrow>
          if te_bucket e = None then Some (True, t)
          else if (case te_task e of None \<Rightarrow> True | Some w \<Rightarrow> \<not> will_wake w waker)
          then Some (False, t\<lparr>tm_wheel := (tm_wheel t)\<lparr>wh_timers :=
                 (wh_timers (tm_wheel t))(hnd \<mapsto> e\<lparr>te_task := Some waker\<rparr>)\<rparr>\<rparr>)
          else Some (False, t))"

definition handle_drop :: "nat \<Rightarrow> 'w Timer \<Rightarrow> 'w Timer option" where
  "handle_drop hnd t =
     (case wheel_unlink hnd (tm_wheel t) of
        None \<Rightarrow> None
      | Some (_, w) \<Rightarrow> Some (t\<lparr>tm_wheel := w\<lparr>wh_timers := (wh_timers w)(hnd := None)\<rparr>\<rparr>))"

section \<open>Stopping\<close>

definition timer_remove_flags :: "TimerFlag set \<Rightarrow> 'w Timer \<Rightarrow> 'w Timer" where
  "timer_remove_flags fs t = t\<lparr>tm_flags := tm_flags t - (fs \<union> {RUNNING})\<rparr>"

definition stop_lowres :: "'w Timer \<Rightarrow> 'w Timer" where
  "stop_lowres t = (timer_remove_flags {LOWRES_DRIVER, LOWRES_TIMER} t)\<lparr>tm_lowres_stime := None\<rparr>"

text \<open>All buckets are drained. The \<^verbatim>\<open>pending\<close> flags of the callback states are cleared in \<open>stop_callbacks\<close>.\<close>

definition stop_wheel :: "'w Timer \<Rightarrow> 'w Timer option" where
  "stop_wheel t =
     (let t = timer_remove_flags {DRIVER_STARTED} t;
          w = tm_wheel t;
          nos = (\<Union>idx < WHEEL_SIZE. ran (wh_buckets w idx))
      in if \<not> nos \<subseteq> dom (wh_timers w) then None
         else Some (t\<lparr>tm_wheel :=
               w\<lparr>wh_timers := (\<lambda>no. if no \<in> nos then map_option (\<lambda>e. e\<lparr>te_bucket := None\<rparr>) (wh_timers w no)
                                   else wh_timers w no),
                 wh_buckets := (\<lambda>idx. if idx < WHEEL_SIZE then Map.empty else wh_buckets w idx),
                 wh_occupied := (\<lambda>_. 0),
                 wh_callbacks := map_option (\<lambda>c. c\<lparr>cb_ready := {}\<rparr>) (wh_callbacks w)\<rparr>,
               tm_next_expiry := U64_MAX, tm_elapsed := 0, tm_elapsed_time := None, tm_units := None\<rparr>))"

definition timer_reset :: "'w Timer \<Rightarrow> 'w Timer option" where
  "timer_reset t =
     map_option stop_lowres (stop_wheel (t\<lparr>tm_generation := wrapping_add (tm_generation t) 1\<rparr>))"

definition driver_drop :: "TimerDriver \<Rightarrow> 'w Timer \<Rightarrow> 'w Timer option" where
  "driver_drop d t = (if tm_generation t = td_generation d then stop_wheel t else Some t)"

section \<open>The driver\<close>

text \<open>
  One round of the loop of \<^verbatim>\<open>poll\<close>. \<open>ready\<close>: the sleep is ready when it is polled. The driver waits
  for the sleep, polls again (\<open>Rearm\<close>, the sleep fired before the deadline), or has processed a bucket
  and hands over the callbacks that are due.
\<close>

datatype 'w round = Wait | Rearm | Fired "(nat \<times> 'w) set" "CallbackTicket set"

definition process_bucket :: "nat \<Rightarrow> nat \<Rightarrow> 'w Timer \<Rightarrow> ('w round \<times> 'w Timer) option" where
  "process_bucket expiry deadline t =
     (case execute_expired_timers expiry (tm_wheel t) of
        None \<Rightarrow> None
      | Some (w, woken) \<Rightarrow>
          let cbs = (case wh_callbacks w of None \<Rightarrow> {} | Some c \<Rightarrow> cb_ready c);
              w = w\<lparr>wh_callbacks := map_option (\<lambda>c. c\<lparr>cb_ready := {}\<rparr>) (wh_callbacks w)\<rparr>;
              t = t\<lparr>tm_elapsed := expiry, tm_elapsed_time := Some deadline, tm_wheel := w\<rparr>
          in Some (Fired woken cbs,
               case next_pending_bucket t of
                 Some next \<Rightarrow> t\<lparr>tm_next_expiry := next\<rparr>
               | None \<Rightarrow> t\<lparr>tm_next_expiry := U64_MAX, tm_elapsed_time := None\<rparr>))"

definition driver_round ::
    "nat \<Rightarrow> bool \<Rightarrow> TimerDriver \<Rightarrow> 'w Timer \<Rightarrow> ('w round \<times> TimerDriver \<times> 'w Timer) option" where
  "driver_round now ready d t =
     (let expiry = tm_next_expiry t in
      if expiry = U64_MAX then Some (Wait, d, t)
      else
        let (deadline, t) = expiry_time now expiry t in
        if deadline > now then
          if \<not> ready then Some (Wait, d\<lparr>td_armed := Some deadline\<rparr>, t)
          else Some (Rearm, d\<lparr>td_armed := None\<rparr>, t)
        else map_option (\<lambda>(r, t). (r, d, t)) (process_bucket expiry deadline t))"

text \<open>
  Rounds until the driver waits or has callbacks to run; after the callbacks \<^verbatim>\<open>poll\<close> goes on with a new
  \<open>now\<close>. \<open>polls\<close> are the results of polling the sleep, which is pending once they are used up.
\<close>

datatype 'w drive = Waiting "(nat \<times> 'w) set" | Deliver "(nat \<times> 'w) set" "CallbackTicket set" | Out_Of_Fuel | Panicked

primrec driver_loop ::
    "nat \<Rightarrow> nat \<Rightarrow> bool list \<Rightarrow> (nat \<times> 'w) set \<Rightarrow> TimerDriver \<Rightarrow> 'w Timer \<Rightarrow> 'w drive \<times> TimerDriver \<times> 'w Timer" where
  "driver_loop 0 now polls woken d t = (Out_Of_Fuel, d, t)"
| "driver_loop (Suc n) now polls woken d t =
     (case driver_round now (polls \<noteq> [] \<and> hd polls) d t of
        None \<Rightarrow> (Panicked, d, t)
      | Some (Wait, d, t) \<Rightarrow> (Waiting woken, d, t)
      | Some (Rearm, d, t) \<Rightarrow> driver_loop n now (tl polls) woken d t
      | Some (Fired new cbs, d, t) \<Rightarrow>
          if cbs \<noteq> {} then (Deliver (woken \<union> new) cbs, d, t)
          else driver_loop n now polls (woken \<union> new) d t)"

definition driver_poll ::
    "nat \<Rightarrow> nat \<Rightarrow> bool list \<Rightarrow> TimerDriver \<Rightarrow> 'w Timer \<Rightarrow> ('w drive \<times> TimerDriver \<times> 'w Timer) option" where
  "driver_poll fuel now polls d t =
     (if tm_generation t \<noteq> td_generation d then None
      else Some (driver_loop fuel now polls {} d t))"

end
