(* ===== verification/Timer_Clock.thy ===== *)
theory Timer_Clock
  imports Timer_Wheel
begin

text \<open>
  The arithmetic of the timer wheel: the clock value at which a bucket is next reached, the bucket
  that \<^verbatim>\<open>calc_wheel_index\<close> picks for a delay, and the search of \<^verbatim>\<open>next_pending_bucket\<close>.
\<close>


section \<open>Arithmetic of the levels\<close>

lemma lvl_simps [simp]:
  "LVL_SIZE = 64" "LVL_CLK_DIV = 8" "LVL_DEPTH = 8" "WHEEL_SIZE = 512"
  by (simp_all add: LVL_SIZE_def LVL_BITS_def LVL_CLK_DIV_def LVL_CLK_SHIFT_def LVL_DEPTH_def WHEEL_SIZE_def)

lemma pow_lvl_shift [simp]: "2 ^ lvl_shift l = (8 :: nat) ^ l"
proof -
  have "(2 :: nat) ^ (l * 3) = (2 ^ 3) ^ l" by (simp only: power_mult [symmetric] mult.commute)
  then show ?thesis by (simp add: lvl_shift_def LVL_CLK_SHIFT_def)
qed

lemma lvl_gran_eq [simp]: "lvl_gran l = 8 ^ l"
  by (simp add: lvl_gran_def)

lemma lvl_start_Suc [simp]: "lvl_start (Suc l) = 63 * 8 ^ l"
  using pow_lvl_shift [of l] by (simp add: lvl_start_def lvl_shift_def)

text \<open>The clock of a level: the wheel clock in ticks of the level, rounded up.\<close>

definition lvl_clock :: "nat \<Rightarrow> nat \<Rightarrow> nat" where
  "lvl_clock e l = (e + (8 ^ l - 1)) div 8 ^ l"

lemma lvl_clock_le: "lvl_clock e l \<le> T \<longleftrightarrow> e \<le> T * 8 ^ l"
proof -
  have "lvl_clock e l \<le> T \<longleftrightarrow> e + (8 ^ l - 1) < Suc T * 8 ^ l"
    unfolding lvl_clock_def by (metis div_less_iff_less_mult less_Suc_eq_le zero_less_numeral zero_less_power)
  also have "\<dots> \<longleftrightarrow> e + (8 ^ l - 1) < 8 ^ l + T * 8 ^ l" by simp
  also have "\<dots> \<longleftrightarrow> e \<le> T * 8 ^ l" using one_le_power [of "8 :: nat" l] by linarith
  finally show ?thesis .
qed

lemma lvl_clock_0 [simp]: "lvl_clock e 0 = e"
  by (simp add: lvl_clock_def)

lemma lvl_clock_mono: "e \<le> e' \<Longrightarrow> lvl_clock e l \<le> lvl_clock e' l"
  by (simp add: lvl_clock_def div_le_mono)

lemma lvl_clock_mult [simp]: "lvl_clock (c * 8 ^ l) l = c"
  using lvl_clock_le [of "c * 8 ^ l" l] by (metis order_antisym order_refl mult_le_cancel2 zero_less_power zero_less_numeral)

lemma lvl_clock_upper: "lvl_clock e l * 8 ^ l < e + 8 ^ l"
proof -
  have "lvl_clock e l * 8 ^ l \<le> e + (8 ^ l - 1)" by (simp add: lvl_clock_def)
  then show ?thesis using one_le_power [of "8 :: nat" l] by linarith
qed

text \<open>The step of \<^verbatim>\<open>next_pending_bucket\<close> from a level to the next.\<close>

lemma lvl_clock_Suc:
  "lvl_clock e (Suc l) = lvl_clock e l div 8 + of_bool (lvl_clock e l mod 8 \<noteq> 0)"
proof (rule order_antisym)
  let ?c = "lvl_clock e l" and ?r = "lvl_clock e l div 8 + of_bool (lvl_clock e l mod 8 \<noteq> 0)"
  have "?c \<le> ?r * 8" by (cases "?c mod 8 = 0") (simp_all, presburger+)
  then have "e \<le> ?r * 8 * 8 ^ l" using lvl_clock_le [of e l "?r * 8"] by simp
  then show "lvl_clock e (Suc l) \<le> ?r" by (simp only: lvl_clock_le power_Suc mult.assoc)
  have "e \<le> (lvl_clock e (Suc l) * 8) * 8 ^ l" using lvl_clock_le [of e "Suc l" "lvl_clock e (Suc l)"]
    by (simp add: mult.assoc)
  then have "?c \<le> lvl_clock e (Suc l) * 8" by (simp only: lvl_clock_le)
  then show "?r \<le> lvl_clock e (Suc l)" by (cases "?c mod 8 = 0") (simp_all, presburger+)
qed

text \<open>The tick, and the clock value, at which a bucket is next reached.\<close>

definition bucket_tick :: "nat \<Rightarrow> nat \<Rightarrow> nat" where
  "bucket_tick c b = c + (b + 64 - c mod 64) mod 64"

lemma bucket_tick_iff: "b < 64 \<Longrightarrow> T = bucket_tick c b \<longleftrightarrow> c \<le> T \<and> T < c + 64 \<and> T mod 64 = b"
proof -
  assume b: "b < 64"
  define k where "k = c mod 64"
  have k: "k < 64" "\<And>p. (c + p) mod 64 = (k + p) mod 64" by (simp_all add: k_def mod_add_left_eq)
  define p where "p = (b + 64 - k) mod 64"
  have p: "p < 64" "(k + p) mod 64 = b"
  proof -
    show "p < 64" by (simp add: p_def)
    have "(k + p) mod 64 = (k + (b + 64 - k)) mod 64" by (simp add: p_def mod_add_right_eq)
    then show "(k + p) mod 64 = b" using b k(1) by simp
  qed
  have uniq: "q = p" if "q < 64" "(k + q) mod 64 = b" for q
    using that p k(1) by (auto simp: mod_if split: if_splits)
  show ?thesis
  proof
    assume "T = bucket_tick c b"
    then show "c \<le> T \<and> T < c + 64 \<and> T mod 64 = b" using p k by (simp add: bucket_tick_def p_def k_def)
  next
    assume T: "c \<le> T \<and> T < c + 64 \<and> T mod 64 = b"
    then have "T - c < 64" "(k + (T - c)) mod 64 = b" using k(2) [of "T - c"] by auto
    then have "T - c = p" by (rule uniq)
    then have "T = c + p" using T by linarith
    then show "T = bucket_tick c b" by (simp add: bucket_tick_def p_def k_def)
  qed
qed

definition bucket_expiry :: "nat \<Rightarrow> nat \<Rightarrow> nat" where
  "bucket_expiry e idx = bucket_tick (lvl_clock e (idx div 64)) (idx mod 64) * 8 ^ (idx div 64)"

lemma bucket_expiryI:
  assumes "lvl_clock e l \<le> T" "T < lvl_clock e l + 64"
  shows "bucket_expiry e (l * 64 + T mod 64) = T * 8 ^ l"
proof -
  have "T = bucket_tick (lvl_clock e l) (T mod 64)" using assms by (subst bucket_tick_iff) auto
  then show ?thesis by (simp add: bucket_expiry_def)
qed

lemma bucket_expiry_ge: "e \<le> bucket_expiry e idx"
proof -
  have "lvl_clock e (idx div 64) \<le> bucket_tick (lvl_clock e (idx div 64)) (idx mod 64)"
    by (simp add: bucket_tick_def)
  then show ?thesis unfolding bucket_expiry_def lvl_clock_le by simp
qed

text \<open>While the clock does not pass it, the expiry of a bucket stays the same.\<close>

lemma bucket_expiry_stable:
  assumes "e \<le> e'" "e' \<le> bucket_expiry e idx"
  shows "bucket_expiry e' idx = bucket_expiry e idx"
proof -
  let ?l = "idx div 64" and ?b = "idx mod 64"
  let ?T = "bucket_tick (lvl_clock e ?l) ?b"
  have T: "lvl_clock e ?l \<le> ?T \<and> ?T < lvl_clock e ?l + 64 \<and> ?T mod 64 = ?b"
    using bucket_tick_iff [of ?b ?T "lvl_clock e ?l"] by simp
  have "lvl_clock e' ?l \<le> ?T" using assms(2) unfolding bucket_expiry_def lvl_clock_le .
  moreover have "lvl_clock e ?l \<le> lvl_clock e' ?l" using assms(1) by (rule lvl_clock_mono)
  ultimately have "?T = bucket_tick (lvl_clock e' ?l) ?b" using T by (subst bucket_tick_iff) auto
  then show ?thesis by (simp add: bucket_expiry_def)
qed

section \<open>Arming\<close>

text \<open>A level is used for delays up to 63 of its ticks.\<close>

lemma calc_index_spec:
  assumes "delta < 63 * 8 ^ l" "calc_index (e + delta) l = (idx, expiry)"
  shows "idx div 64 = l" "expiry = bucket_expiry e idx" "e + delta < expiry" "expiry \<le> e + delta + 8 ^ l"
proof -
  define T where "T = (e + delta + 8 ^ l) div 8 ^ l"
  have idx: "idx = l * 64 + T mod 64" and ex: "expiry = T * 8 ^ l"
    using assms(2) by (simp_all add: calc_index_def T_def Let_def)
  have T: "T = Suc ((e + delta) div 8 ^ l)" by (simp add: T_def div_add_self2)
  show "e + delta < expiry"
  proof -
    have "(e + delta) mod 8 ^ l < 8 ^ l" by simp
    then show ?thesis unfolding ex T mult_Suc using div_mult_mod_eq [of "e + delta" "8 ^ l"] by linarith
  qed
  show "expiry \<le> e + delta + 8 ^ l" unfolding ex T by simp
  have "lvl_clock e l \<le> T" using \<open>e + delta < expiry\<close> unfolding lvl_clock_le ex by simp
  moreover have "T < lvl_clock e l + 64"
  proof -
    have "e \<le> lvl_clock e l * 8 ^ l" using lvl_clock_le by blast
    then have "e + delta < (lvl_clock e l + 63) * 8 ^ l" using assms(1) by (simp add: algebra_simps)
    then have "(e + delta) div 8 ^ l < lvl_clock e l + 63" by (simp add: less_mult_imp_div_less)
    then show ?thesis by (simp add: T)
  qed
  ultimately show "expiry = bucket_expiry e idx" unfolding idx ex by (simp add: bucket_expiryI)
  show "idx div 64 = l" by (simp add: idx)
qed

lemma wheel_index_loop_eq:
  assumes "l \<le> 8"
  shows "wheel_index_loop [l..<8] e x delta =
    (if delta < 63 * 8 ^ 7 \<and> l < 8 then calc_index x (LEAST k. l \<le> k \<and> delta < 63 * 8 ^ k)
     else calc_index (wrapping_add e WHEEL_TIMEOUT_MAX) 7)"
  using assms
proof (induction "8 - l" arbitrary: l)
  case 0
  then show ?case by simp
next
  case (Suc n)
  then have l: "l < 8" "[l..<8] = l # [Suc l..<8]" by (simp_all add: upt_conv_Cons)
  show ?case
  proof (cases "delta < 63 * 8 ^ l")
    case True
    have "63 * 8 ^ l \<le> 63 * (8 :: nat) ^ 7" using l(1) by (intro mult_le_mono2 power_increasing) auto
    moreover have "(LEAST k. l \<le> k \<and> delta < 63 * 8 ^ k) = l" by (rule Least_equality) (use True in auto)
    ultimately show ?thesis using True l by simp
  next
    case False
    have "(LEAST k. l \<le> k \<and> delta < 63 * 8 ^ k) = (LEAST k. Suc l \<le> k \<and> delta < 63 * 8 ^ k)"
      using False by (intro arg_cong [where f = Least] ext) (auto simp: Suc_le_eq order_le_less)
    moreover have "\<not> (delta < 63 * 8 ^ 7 \<and> Suc l = 8)" using False l(1) by auto
    ultimately show ?thesis using Suc(1) [of "Suc l"] Suc(2,3) False l by auto
  qed
qed

text \<open>
  The bucket of a delay: it is on the wheel, its expiry is after the requested time, and no later
  than the requested time by more than a tick, or a seventh of the delay.
\<close>

lemma calc_wheel_index_spec:
  assumes "e < 2 ^ 63" "calc_wheel_index e (wrapping_add e delta) delta = (idx, expiry)"
  shows "idx < 512" "expiry = bucket_expiry e idx" "e < expiry" "expiry < U64_MAX"
    and "delta < WHEEL_TIMEOUT_CUTOFF \<Longrightarrow> e + delta < expiry \<and> expiry \<le> e + delta + max 1 (delta div 7)"
proof -
  have cut: "WHEEL_TIMEOUT_CUTOFF = 63 * 8 ^ 7" "WHEEL_TIMEOUT_MAX = 62 * 8 ^ 7"
    using lvl_start_Suc [of 7] by (simp_all add: WHEEL_TIMEOUT_CUTOFF_def WHEEL_TIMEOUT_MAX_def)
  have "idx < 512 \<and> expiry = bucket_expiry e idx \<and> e < expiry \<and> expiry < U64_MAX
    \<and> (delta < WHEEL_TIMEOUT_CUTOFF \<longrightarrow> e + delta < expiry \<and> expiry \<le> e + delta + max 1 (delta div 7))"
  proof (cases "delta < 63 * 8 ^ 7")
    case True
    define l where "l = (LEAST k. 0 \<le> k \<and> delta < 63 * 8 ^ k)"
    have l: "delta < 63 * 8 ^ l" and l7: "l \<le> 7"
      using LeastI [of "\<lambda>k. 0 \<le> k \<and> delta < 63 * 8 ^ k" 7] Least_le [of "\<lambda>k. 0 \<le> k \<and> delta < 63 * 8 ^ k" 7] True
      unfolding l_def by auto
    have low: "l = 0 \<or> 63 * 8 ^ (l - 1) \<le> delta"
      using not_less_Least [of "l - 1" "\<lambda>k. 0 \<le> k \<and> delta < 63 * 8 ^ k"] unfolding l_def [symmetric] by (cases l) auto
    have "wrapping_add e delta = e + delta" using assms(1) True by (simp add: wrapping_add_def)
    then have ci: "calc_index (e + delta) l = (idx, expiry)"
      using assms(2) True wheel_index_loop_eq [of 0 e "e + delta" delta]
      by (simp add: calc_wheel_index_def l_def)
    note spec = calc_index_spec [OF l ci]
    have "8 ^ l \<le> max 1 (delta div 7)"
    proof (cases l)
      case (Suc k)
      then have "9 * 8 ^ l \<le> 8 * delta \<or> 63 * 8 ^ k \<le> delta" using low by simp
      moreover have "63 * 8 ^ k \<le> delta" using low Suc by simp
      ultimately have "7 * 8 ^ l \<le> delta" using Suc by simp
      then show ?thesis by (simp add: less_eq_div_iff_mult_less_eq mult.commute)
    qed simp
    moreover have "(8 :: nat) ^ l \<le> 8 ^ 7" using l7 by (intro power_increasing) auto
    moreover have "idx < 512" using spec(1) l7 by simp
    ultimately show ?thesis using spec True assms(1) by (auto simp: U64_MAX_def)
  next
    case False
    have "wrapping_add e (62 * 8 ^ 7) = e + 62 * 8 ^ 7" using assms(1) by (simp add: wrapping_add_def)
    then have ci: "calc_index (e + 62 * 8 ^ 7) 7 = (idx, expiry)"
      using assms(2) False wheel_index_loop_eq [of 0 e _ delta] by (simp add: calc_wheel_index_def cut)
    note spec = calc_index_spec [OF _ ci]
    show ?thesis using spec False assms(1) by (auto simp: U64_MAX_def cut)
  qed
  then show "idx < 512" "expiry = bucket_expiry e idx" "e < expiry" "expiry < U64_MAX"
    and "delta < WHEEL_TIMEOUT_CUTOFF \<Longrightarrow> e + delta < expiry \<and> expiry \<le> e + delta + max 1 (delta div 7)"
    by auto
qed

section \<open>The next occupied bucket\<close>

lemma length_takeWhile_less: "\<exists>x \<in> set xs. \<not> P x \<Longrightarrow> length (takeWhile P xs) < length xs"
  by (induction xs) auto

lemma trailing_zeros_spec:
  assumes "x \<noteq> 0"
  shows "trailing_zeros x < 64" "bit x (trailing_zeros x)" "\<And>i. i < trailing_zeros x \<Longrightarrow> \<not> bit x i"
proof -
  let ?P = "\<lambda>i. \<not> bit x i"
  have "\<exists>i < 64. bit x i"
  proof (rule ccontr)
    assume "\<not> (\<exists>i < 64. bit x i)"
    then have "x = 0" by (intro bit_word_eqI) (simp add: not_le)
    with assms show False by simp
  qed
  then have lt: "length (takeWhile ?P [0..<64]) < length [0..<64 :: nat]"
    by (intro length_takeWhile_less) auto
  show "trailing_zeros x < 64" using lt by (simp add: trailing_zeros_def)
  show "bit x (trailing_zeros x)" using nth_length_takeWhile [OF lt] lt by (simp add: trailing_zeros_def)
  show "\<not> bit x i" if "i < trailing_zeros x" for i
  proof -
    have "takeWhile ?P [0..<64] ! i \<in> set (takeWhile ?P [0..<64])" using that by (simp add: trailing_zeros_def)
    moreover have "takeWhile ?P [0..<64] ! i = i"
      using that lt by (simp add: takeWhile_nth trailing_zeros_def)
    ultimately show ?thesis using set_takeWhileD by fastforce
  qed
qed

text \<open>The distance to the first occupied bucket at or after the position of the clock.\<close>

lemma rotated_distance:
  fixes x :: u64 and c :: nat
  assumes "x \<noteq> 0"
  defines "pos \<equiv> trailing_zeros (word_rotr (c mod 64) x)"
  shows "pos < 64" "bit x ((c + pos) mod 64)" "\<And>b. b < 64 \<Longrightarrow> bit x b \<Longrightarrow> c + pos \<le> bucket_tick c b"
proof -
  have rot: "bit (word_rotr (c mod 64) x) i \<longleftrightarrow> i < 64 \<and> bit x ((c + i) mod 64)" for i
    by (auto simp: bit_word_rotr_iff mod_add_right_eq add.commute)
  have "word_rotr (c mod 64) x \<noteq> 0"
  proof
    assume "word_rotr (c mod 64) x = 0"
    then have no: "\<not> bit x ((c + i) mod 64)" if "i < 64" for i using rot [of i] that by simp
    have "\<not> bit x b" if "b < 64" for b
    proof -
      have "c \<le> bucket_tick c b \<and> bucket_tick c b < c + 64 \<and> bucket_tick c b mod 64 = b"
        using bucket_tick_iff [OF that] by blast
      then have "c + (bucket_tick c b - c) = bucket_tick c b" "bucket_tick c b - c < 64" "bucket_tick c b mod 64 = b"
        by linarith+
      then show ?thesis using no [of "bucket_tick c b - c"] by simp
    qed
    then have "x = 0" by (intro bit_word_eqI) (simp add: not_le)
    with assms(1) show False by simp
  qed
  note tz = trailing_zeros_spec [OF this, folded pos_def]
  show "pos < 64" by (rule tz)
  show "bit x ((c + pos) mod 64)" using tz(2) rot by simp
  show "c + pos \<le> bucket_tick c b" if "b < 64" "bit x b" for b
  proof -
    have t: "c \<le> bucket_tick c b \<and> bucket_tick c b < c + 64 \<and> bucket_tick c b mod 64 = b"
      using bucket_tick_iff [OF that(1)] by blast
    then have "c + (bucket_tick c b - c) = bucket_tick c b" "bucket_tick c b - c < 64" "bucket_tick c b mod 64 = b"
      by linarith+
    then have "bit (word_rotr (c mod 64) x) (bucket_tick c b - c)" using rot that(2) by simp
    then have "\<not> bucket_tick c b - c < pos" using tz(3) by blast
    then show ?thesis using t by linarith
  qed
qed

lemma bucket_tick_self: "pos < 64 \<Longrightarrow> bucket_tick c ((c + pos) mod 64) = c + pos"
  using bucket_tick_iff [of "(c + pos) mod 64" "c + pos" c] by simp

text \<open>A bucket no later than the next tick of the level above precedes every bucket above.\<close>

lemma lower_level_first:
  assumes "l < k" "pos \<le> (8 - lvl_clock e l mod 8) mod 8"
  shows "(lvl_clock e l + pos) * 8 ^ l \<le> bucket_tick (lvl_clock e k) b * 8 ^ k"
proof -
  let ?c = "lvl_clock e l"
  have "?c + pos \<le> lvl_clock e (Suc l) * 8"
  proof -
    define d m where "d = ?c div 8" and "m = ?c mod 8"
    have "?c = d * 8 + m" "m < 8" by (simp_all add: d_def m_def)
    moreover have "pos \<le> (8 - m) mod 8" using assms(2) by (simp add: m_def)
    ultimately have "?c + pos \<le> (d + of_bool (m \<noteq> 0)) * 8" by (cases "m = 0") auto
    then show ?thesis by (simp add: lvl_clock_Suc d_def m_def)
  qed
  then have "(?c + pos) * 8 ^ l \<le> lvl_clock e (Suc l) * 8 ^ Suc l" by (simp add: mult.assoc [symmetric])
  also have "\<dots> \<le> lvl_clock e k * 8 ^ k"
  proof -
    have "k - Suc l + Suc l = k" using assms(1) by simp
    then have pw: "8 ^ (k - Suc l) * 8 ^ Suc l = (8 :: nat) ^ k" by (metis power_add)
    have "e \<le> (lvl_clock e k * 8 ^ (k - Suc l)) * 8 ^ Suc l"
    proof -
      have "8 ^ (k - Suc l) * 8 ^ Suc l = (8 :: nat) ^ k" by (rule pw)
      then show ?thesis using lvl_clock_le [of e k "lvl_clock e k"] by (simp add: mult.assoc)
    qed
    then have "lvl_clock e (Suc l) \<le> lvl_clock e k * 8 ^ (k - Suc l)" by (simp only: lvl_clock_le)
    then have "lvl_clock e (Suc l) * 8 ^ Suc l \<le> lvl_clock e k * (8 ^ (k - Suc l) * 8 ^ Suc l)"
      by (metis mult.assoc mult_le_mono1)
    then show ?thesis unfolding pw .
  qed
  also have "\<dots> \<le> bucket_tick (lvl_clock e k) b * 8 ^ k" by (simp add: bucket_tick_def)
  finally show ?thesis .
qed

text \<open>
  The search visits the levels from the finest: its result is a lower bound of the expiries of all
  occupied buckets, and is one of them unless there are none.
\<close>

lemma pending_levels_spec:
  assumes "l \<le> 8" "r = pending_levels [l..<8] occ (lvl_clock e l) nx"
  shows "r \<le> nx"
    and "\<And>k b. \<lbrakk>l \<le> k; k < 8; b < 64; bit (occ k) b\<rbrakk> \<Longrightarrow> r \<le> bucket_expiry e (k * 64 + b)"
    and "r = nx \<or> (\<exists>k b. k < 8 \<and> b < 64 \<and> bit (occ k) b \<and> r = bucket_expiry e (k * 64 + b))"
proof -
  have "r \<le> nx \<and> (\<forall>k b. l \<le> k \<longrightarrow> k < 8 \<longrightarrow> b < 64 \<longrightarrow> bit (occ k) b \<longrightarrow> r \<le> bucket_expiry e (k * 64 + b))
    \<and> (r = nx \<or> (\<exists>k b. k < 8 \<and> b < 64 \<and> bit (occ k) b \<and> r = bucket_expiry e (k * 64 + b)))"
    using assms
  proof (induction "8 - l" arbitrary: l nx r)
    case 0
    then show ?case by simp
  next
    case (Suc n)
    then have l: "l < 8" "[l..<8] = l # [Suc l..<8]" by (simp_all add: upt_conv_Cons)
    let ?c = "lvl_clock e l"
    let ?P = "\<lambda>l r nx. r \<le> nx
      \<and> (\<forall>k b. l \<le> k \<longrightarrow> k < 8 \<longrightarrow> b < 64 \<longrightarrow> bit (occ k) b \<longrightarrow> r \<le> bucket_expiry e (k * 64 + b))
      \<and> (r = nx \<or> (\<exists>k b. k < 8 \<and> b < 64 \<and> bit (occ k) b \<and> r = bucket_expiry e (k * 64 + b)))"
    have IH: "?P (Suc l) (pending_levels [Suc l..<8] occ (lvl_clock e (Suc l)) ny) ny" for ny
      using Suc(1) [of "Suc l" _ ny, OF _ _ refl] Suc(2) l(1) by simp
    show ?case
    proof (cases "occ l = 0")
      case True
      then have r: "r = pending_levels [Suc l..<8] occ (lvl_clock e (Suc l)) nx"
        using Suc(4) l by (simp add: Let_def lvl_clock_Suc)
      note ih = IH [of nx, folded r]
      have "r \<le> bucket_expiry e (k * 64 + b)" if "l \<le> k" "k < 8" "b < 64" "bit (occ k) b" for k b
      proof (cases "k = l")
        case True
        then show ?thesis using \<open>occ l = 0\<close> that(4) by simp
      next
        case False
        then have "Suc l \<le> k" using that(1) by simp
        then show ?thesis using ih that by blast
      qed
      then show ?thesis using ih by blast
    next
      case False
      define pos where "pos = trailing_zeros (word_rotr (?c mod 64) (occ l))"
      define E where "E = (?c + pos) * 8 ^ l"
      note rot = rotated_distance [OF False, where c = "lvl_clock e l", folded pos_def]
      have E_self: "E = bucket_expiry e (l * 64 + (?c + pos) mod 64)"
        using rot(1) by (simp add: E_def bucket_expiry_def bucket_tick_self)
      have E_min: "E \<le> bucket_expiry e (l * 64 + b)" if "b < 64" "bit (occ l) b" for b
        using rot(3) [OF that] that(1) by (simp add: E_def bucket_expiry_def)
      show ?thesis
      proof (cases "pos \<le> (8 - ?c mod 8) mod 8")
        case True
        then have r: "r = min nx E" using Suc(4) l False by (simp add: Let_def pos_def E_def)
        have "E \<le> bucket_expiry e (k * 64 + b)" if "l < k" "b < 64" for k b
          using lower_level_first [OF that(1) True, of b] that(2) by (simp add: E_def bucket_expiry_def)
        then have "E \<le> bucket_expiry e (k * 64 + b)" if "l \<le> k" "b < 64" "bit (occ k) b" for k b
          using E_min that by (cases "k = l") auto
        moreover have "min nx E = nx \<or> (\<exists>k b. k < 8 \<and> b < 64 \<and> bit (occ k) b \<and> min nx E = bucket_expiry e (k * 64 + b))"
          using E_self l(1) rot(2) by (metis min_def mod_less_divisor zero_less_numeral)
        ultimately show ?thesis unfolding r by (auto simp: min_le_iff_disj)
      next
        case False
        then have r: "r = pending_levels [Suc l..<8] occ (lvl_clock e (Suc l)) (min nx E)"
          using Suc(4) l \<open>occ l \<noteq> 0\<close> by (simp add: Let_def pos_def E_def lvl_clock_Suc)
        note ih = IH [of "min nx E", folded r]
        have "r \<le> bucket_expiry e (k * 64 + b)" if "l \<le> k" "k < 8" "b < 64" "bit (occ k) b" for k b
        proof (cases "k = l")
          case True
          then show ?thesis using ih E_min that by (meson min.bounded_iff order_trans)
        next
          case False
          then have "Suc l \<le> k" using that(1) by simp
          then show ?thesis using ih that by blast
        qed
        moreover have "r = nx \<or> (\<exists>k b. k < 8 \<and> b < 64 \<and> bit (occ k) b \<and> r = bucket_expiry e (k * 64 + b))"
          using ih E_self l(1) rot(2) by (metis min_def mod_less_divisor zero_less_numeral)
        ultimately show ?thesis using ih by auto
      qed
    qed
  qed
  then show "r \<le> nx"
    and "\<And>k b. \<lbrakk>l \<le> k; k < 8; b < 64; bit (occ k) b\<rbrakk> \<Longrightarrow> r \<le> bucket_expiry e (k * 64 + b)"
    and "r = nx \<or> (\<exists>k b. k < 8 \<and> b < 64 \<and> bit (occ k) b \<and> r = bucket_expiry e (k * 64 + b))"
    by auto
qed

end
