(* ===== verification/Timer_Store.thy ===== *)
theory Timer_Store
  imports Timer_Clock
begin

text \<open>
  The storage of the timer wheel: its invariant, that every operation keeps it, what each does to
  the bucket of every timer, and the schedule of the wheel as a contract of the storage.
\<close>


section \<open>The invariant of the storage\<close>

text \<open>The bucket of every timer that is armed.\<close>

definition armed :: "'w Wheel \<Rightarrow> nat \<rightharpoonup> nat" where
  "armed w no = Option.bind (wh_timers w no) te_bucket"

definition bucket_free :: "'w Wheel \<Rightarrow> nat \<Rightarrow> nat \<Rightarrow> bool" where
  "bucket_free w idx key \<longleftrightarrow> idx < WHEEL_SIZE \<and> wh_buckets w idx key = None"

text \<open>
  Entries and buckets point to each other, an occupied bit is set for exactly the buckets that hold
  timers, and callback timers have their ticket.
\<close>

definition wheel_ok :: "'w Wheel \<Rightarrow> bool" where
  "wheel_ok w \<longleftrightarrow>
     (\<forall>no e idx. wh_timers w no = Some e \<and> te_bucket e = Some idx \<longrightarrow>
        idx < WHEEL_SIZE \<and> wh_buckets w idx (te_bucket_entry e) = Some no)
     \<and> (\<forall>idx key no. wh_buckets w idx key = Some no \<longrightarrow>
        (\<exists>e. wh_timers w no = Some e \<and> te_bucket e = Some idx \<and> te_bucket_entry e = key))
     \<and> (\<forall>idx. bit (wh_occupied w (idx div LVL_SIZE)) (idx mod LVL_SIZE) \<longleftrightarrow> wh_buckets w idx \<noteq> Map.empty)
     \<and> (\<forall>no e. wh_timers w no = Some e \<and> te_callback e \<longrightarrow>
        (\<exists>c. wh_callbacks w = Some c \<and> no \<in> dom (cb_entries c)))"

lemma wheel_okI:
  assumes "\<And>no e idx. wh_timers w no = Some e \<Longrightarrow> te_bucket e = Some idx \<Longrightarrow>
        idx < WHEEL_SIZE \<and> wh_buckets w idx (te_bucket_entry e) = Some no"
    and "\<And>idx key no. wh_buckets w idx key = Some no \<Longrightarrow>
        (\<exists>e. wh_timers w no = Some e \<and> te_bucket e = Some idx \<and> te_bucket_entry e = key)"
    and "\<And>idx. bit (wh_occupied w (idx div LVL_SIZE)) (idx mod LVL_SIZE) \<longleftrightarrow> wh_buckets w idx \<noteq> Map.empty"
    and "\<And>no e. wh_timers w no = Some e \<Longrightarrow> te_callback e \<Longrightarrow> (\<exists>c. wh_callbacks w = Some c \<and> no \<in> dom (cb_entries c))"
  shows "wheel_ok w"
  using assms unfolding wheel_ok_def by blast

lemma wheel_okD:
  assumes "wheel_ok w"
  shows "wh_timers w no = Some e \<Longrightarrow> te_bucket e = Some idx \<Longrightarrow>
        idx < WHEEL_SIZE \<and> wh_buckets w idx (te_bucket_entry e) = Some no"
    and "wh_buckets w idx key = Some no \<Longrightarrow>
        (\<exists>e. wh_timers w no = Some e \<and> te_bucket e = Some idx \<and> te_bucket_entry e = key)"
    and "bit (wh_occupied w (idx div LVL_SIZE)) (idx mod LVL_SIZE) \<longleftrightarrow> wh_buckets w idx \<noteq> Map.empty"
    and "wh_timers w no = Some e \<Longrightarrow> te_callback e \<Longrightarrow> (\<exists>c. wh_callbacks w = Some c \<and> no \<in> dom (cb_entries c))"
  using assms unfolding wheel_ok_def by blast+

lemma armed_bound: "wheel_ok w \<Longrightarrow> armed w no = Some idx \<Longrightarrow> idx < 512"
  using wheel_okD(1) by (fastforce simp: armed_def bind_eq_Some_conv)

lemma ran_bucket: "wheel_ok w \<Longrightarrow> no \<in> ran (wh_buckets w idx) \<longleftrightarrow> armed w no = Some idx"
  using wheel_okD(1,2) by (fastforce simp: ran_def armed_def bind_eq_Some_conv)

lemma bucket_nonempty: "wheel_ok w \<Longrightarrow> wh_buckets w idx \<noteq> Map.empty \<longleftrightarrow> idx \<in> ran (armed w)"
  using ran_bucket [of w _ idx] by (fastforce simp: ran_def fun_eq_iff)

text \<open>Bits of a level.\<close>

lemma bit_bucket_set [simp]:
  "bit ((x :: u64) OR 2 ^ (i mod 64)) (j mod 64) \<longleftrightarrow> bit x (j mod 64) \<or> i mod 64 = j mod 64"
  by (auto simp: bit_or_iff bit_exp_iff possible_bit_def)

lemma bit_bucket_clear [simp]:
  "bit ((x :: u64) AND NOT (2 ^ (i mod 64))) (j mod 64) \<longleftrightarrow> bit x (j mod 64) \<and> i mod 64 \<noteq> j mod 64"
  by (auto simp: bit_and_iff bit_not_iff bit_exp_iff possible_bit_def)

lemma same_bucket: "(i :: nat) div 64 = j div 64 \<Longrightarrow> i mod 64 = j mod 64 \<Longrightarrow> i = j"
  by (metis div_mult_mod_eq)

section \<open>Operations\<close>

lemma wheel_link_ok:
  assumes "wheel_ok w" "wh_timers w no = Some e" "te_bucket e = None" "bucket_free w idx key"
    and link: "wheel_link key no idx w = Some w'"
  shows "wheel_ok w'"
proof (rule wheel_okI)
  note ok = wheel_okD [OF assms(1)]
  have w': "w' = w\<lparr>wh_timers := (wh_timers w)(no \<mapsto> e\<lparr>te_bucket := Some idx, te_bucket_entry := key\<rparr>),
                 wh_buckets := (wh_buckets w)(idx := (wh_buckets w idx)(key \<mapsto> no)),
                 wh_occupied := (wh_occupied w)(idx div 64 := wh_occupied w (idx div 64) OR push_bit (idx mod 64) 1)\<rparr>"
    using link assms(2) by (simp add: wheel_link_def bucket_bit_def)
  have free: "idx < 512" "wh_buckets w idx key = None" using assms(4) by (simp_all add: bucket_free_def)
  {
    fix no' e' idx' assume "wh_timers w' no' = Some e'" "te_bucket e' = Some idx'"
    then show "idx' < WHEEL_SIZE \<and> wh_buckets w' idx' (te_bucket_entry e') = Some no'"
      using ok(1) [of no' e' idx'] free by (auto simp: w' split: if_splits)
  next
    fix idx' key' no' assume "wh_buckets w' idx' key' = Some no'"
    then show "\<exists>e. wh_timers w' no' = Some e \<and> te_bucket e = Some idx' \<and> te_bucket_entry e = key'"
      using ok(2) [of idx' key' no'] assms(2,3) by (auto simp: w' split: if_splits)
  next
    fix idx'
    show "bit (wh_occupied w' (idx' div LVL_SIZE)) (idx' mod LVL_SIZE) = (wh_buckets w' idx' \<noteq> Map.empty)"
      using ok(3) [of idx'] same_bucket [of idx idx'] by (auto simp: w')
  next
    fix no' e' assume "wh_timers w' no' = Some e'" "te_callback e'"
    then show "\<exists>c. wh_callbacks w' = Some c \<and> no' \<in> dom (cb_entries c)"
      using ok(4) [of no'] assms(2) by (auto simp: w' split: if_splits)
  }
qed

lemma wheel_link_armed:
  assumes "wheel_link key no idx w = Some w'"
  shows "armed w' = (armed w)(no \<mapsto> idx)"
  using assms by (auto simp: wheel_link_def bucket_bit_def armed_def split: option.splits)

lemma wheel_link_some: "wh_timers w no = Some e \<Longrightarrow> \<exists>w'. wheel_link key no idx w = Some w'"
  by (simp add: wheel_link_def bucket_bit_def)

lemma wheel_unlink_ok:
  assumes "wheel_ok w" "wheel_unlink no w = Some (r, w')"
  shows "wheel_ok w'"
proof (cases "armed w no")
  case None
  then have "w' = w" using assms(2)
    by (auto simp: wheel_unlink_def armed_def split: option.splits)
  then show ?thesis using assms(1) by simp
next
  case (Some idx)
  then obtain e where e: "wh_timers w no = Some e" "te_bucket e = Some idx" by (auto simp: armed_def bind_eq_Some_conv)
  note ok = wheel_okD [OF assms(1)]
  define bucket where "bucket = (wh_buckets w idx)(te_bucket_entry e := None)"
  have k: "wh_buckets w idx (te_bucket_entry e) = Some no" using ok(1) [OF e] by simp
  have w': "w' = w\<lparr>wh_timers := (wh_timers w)(no \<mapsto> e\<lparr>te_bucket := None\<rparr>),
                        wh_buckets := (wh_buckets w)(idx := bucket),
                        wh_occupied := (if bucket = Map.empty
                          then (wh_occupied w)(idx div 64 := wh_occupied w (idx div 64) AND NOT (push_bit (idx mod 64) 1))
                          else wh_occupied w)\<rparr>"
    using assms(2) e k by (auto simp: wheel_unlink_def bucket_bit_def bucket_def Let_def)
  show ?thesis
  proof (rule wheel_okI)
    fix no' e' idx' assume "wh_timers w' no' = Some e'" "te_bucket e' = Some idx'"
    then show "idx' < WHEEL_SIZE \<and> wh_buckets w' idx' (te_bucket_entry e') = Some no'"
      using ok(1) [of no' e' idx'] k by (auto simp: w' bucket_def split: if_splits)
  next
    fix idx' key' no' assume "wh_buckets w' idx' key' = Some no'"
    then show "\<exists>e. wh_timers w' no' = Some e \<and> te_bucket e = Some idx' \<and> te_bucket_entry e = key'"
      using ok(2) [of idx' key' no'] e k by (auto simp: w' bucket_def split: if_splits)
  next
    fix idx'
    have "wh_buckets w idx \<noteq> Map.empty" using k by auto
    then show "bit (wh_occupied w' (idx' div LVL_SIZE)) (idx' mod LVL_SIZE) = (wh_buckets w' idx' \<noteq> Map.empty)"
      using ok(3) [of idx'] same_bucket [of idx idx'] by (cases "idx' = idx"; cases "bucket = Map.empty") (auto simp: w')
  next
    fix no' e' assume "wh_timers w' no' = Some e'" "te_callback e'"
    then show "\<exists>c. wh_callbacks w' = Some c \<and> no' \<in> dom (cb_entries c)"
      using ok(4) [of no'] e by (auto simp: w' split: if_splits)
  qed
qed

lemma wheel_unlink_armed:
  assumes "wheel_unlink no w = Some (r, w')"
  shows "armed w' = (armed w)(no := None)" "r \<longleftrightarrow> armed w no \<noteq> None" "dom (wh_timers w') = dom (wh_timers w)"
    "wh_callbacks w' = wh_callbacks w"
  using assms by (auto simp: wheel_unlink_def bucket_bit_def armed_def Let_def split: option.splits if_splits)

lemma wheel_unlink_some:
  assumes "wheel_ok w" "wh_timers w no = Some e"
  shows "\<exists>r w'. wheel_unlink no w = Some (r, w')"
  using wheel_okD(1) [OF assms] assms(2)
  by (cases "te_bucket e") (auto simp: wheel_unlink_def bucket_bit_def Let_def)

lemma expire_bucket_ok:
  assumes "wheel_ok w" "expire_bucket idx w = Some (w', woken)"
  shows "wheel_ok w'"
proof (rule wheel_okI)
  note ok = wheel_okD [OF assms(1)] and rb = ran_bucket [OF assms(1)]
  define nos where "nos = ran (wh_buckets w idx)"
  define cbs where "cbs = {no \<in> nos. \<exists>e. wh_timers w no = Some e \<and> te_callback e}"
  have w': "w' = w\<lparr>wh_timers := (\<lambda>no. if no \<in> nos then map_option expire_entry (wh_timers w no) else wh_timers w no),
              wh_buckets := (wh_buckets w)(idx := Map.empty),
              wh_occupied := (wh_occupied w)(idx div 64 := wh_occupied w (idx div 64) AND NOT (push_bit (idx mod 64) 1)),
              wh_callbacks := queue_callbacks cbs (wh_callbacks w)\<rparr>"
    using assms(2) by (simp add: expire_bucket_def bucket_bit_def Let_def nos_def cbs_def split: if_splits)
  have nos: "no \<in> nos \<longleftrightarrow> (\<exists>e. wh_timers w no = Some e \<and> te_bucket e = Some idx)" for no
    using rb by (simp add: nos_def armed_def bind_eq_Some_conv)
  {
    fix no' e' idx' assume "wh_timers w' no' = Some e'" "te_bucket e' = Some idx'"
    then show "idx' < WHEEL_SIZE \<and> wh_buckets w' idx' (te_bucket_entry e') = Some no'"
      using ok(1) [of no' e' idx'] nos by (auto simp: w' expire_entry_def split: if_splits)
  next
    fix idx' key' no' assume "wh_buckets w' idx' key' = Some no'"
    then show "\<exists>e. wh_timers w' no' = Some e \<and> te_bucket e = Some idx' \<and> te_bucket_entry e = key'"
      using ok(2) [of idx' key' no'] nos [of no'] by (auto simp: w' split: if_splits)
  next
    fix idx'
    show "bit (wh_occupied w' (idx' div LVL_SIZE)) (idx' mod LVL_SIZE) = (wh_buckets w' idx' \<noteq> Map.empty)"
      using ok(3) [of idx'] same_bucket [of idx idx'] by (auto simp: w')
  next
    fix no' e' assume "wh_timers w' no' = Some e'" "te_callback e'"
    then show "\<exists>c. wh_callbacks w' = Some c \<and> no' \<in> dom (cb_entries c)"
      using ok(4) [of no'] by (fastforce simp: w' expire_entry_def queue_callbacks_def split: if_splits)
  }
qed

text \<open>The entries of a set of timers expire, and what that wakes.\<close>

definition expire_timers :: "nat set \<Rightarrow> (nat \<rightharpoonup> 'w TimerEntry) \<Rightarrow> (nat \<rightharpoonup> 'w TimerEntry)" where
  "expire_timers D ts = (\<lambda>no. if no \<in> D then map_option expire_entry (ts no) else ts no)"

definition woken_tasks :: "nat set \<Rightarrow> (nat \<rightharpoonup> 'w TimerEntry) \<Rightarrow> (nat \<times> 'w) set" where
  "woken_tasks D ts = {(no, task). no \<in> D \<and> (\<exists>e. ts no = Some e \<and> \<not> te_callback e \<and> te_task e = Some task)}"

lemma te_bucket_expire [simp]: "te_bucket (expire_entry e) = None"
  by (simp add: expire_entry_def)

lemma armed_expire:
  "wh_timers w' = expire_timers D (wh_timers w) \<Longrightarrow> armed w' = armed w |` (- D)"
  by (auto simp: expire_timers_def armed_def restrict_map_def fun_eq_iff bind_map_option comp_def
      split: Option.bind_split)

lemma expire_bucket_timers:
  assumes "wheel_ok w" "expire_bucket idx w = Some (w', woken)"
  shows "wh_timers w' = expire_timers {no. armed w no = Some idx} (wh_timers w)"
    "woken = woken_tasks {no. armed w no = Some idx} (wh_timers w)"
  using assms(2) ran_bucket [OF assms(1), of _ idx]
  by (auto simp: expire_bucket_def bucket_bit_def Let_def expire_timers_def woken_tasks_def split: if_splits)

lemma expire_bucket_some:
  assumes "wheel_ok w"
  shows "\<exists>w' woken. expire_bucket idx w = Some (w', woken)"
proof -
  note ok = wheel_okD [OF assms] and rb = ran_bucket [OF assms, of _ idx]
  have "ran (wh_buckets w idx) \<subseteq> dom (wh_timers w)"
    using rb by (auto simp: armed_def bind_eq_Some_conv)
  then show ?thesis using ok(4) by (auto simp: expire_bucket_def bucket_bit_def Let_def) fastforce+
qed

section \<open>The schedule\<close>

text \<open>
  The clock is before the next expiry, which is no later than the expiry of any bucket with timers:
  no bucket is passed over.
\<close>

definition scheduled :: "nat \<Rightarrow> nat \<Rightarrow> (nat \<rightharpoonup> nat) \<Rightarrow> bool" where
  "scheduled e nx A \<longleftrightarrow>
     e < nx \<and> (\<forall>idx \<in> ran A. nx \<le> bucket_expiry e idx \<and> bucket_expiry e idx < U64_MAX)"

lemma scheduled_arm:
  assumes "scheduled e nx A" "expiry = bucket_expiry e idx" "e < expiry" "expiry < U64_MAX"
  shows "scheduled e (min nx expiry) (A(no \<mapsto> idx))"
  using assms by (auto simp: scheduled_def ran_def min_le_iff_disj split: if_splits)

lemma scheduled_subset: "scheduled e nx A \<Longrightarrow> ran A' \<subseteq> ran A \<Longrightarrow> scheduled e nx A'"
  by (auto simp: scheduled_def)

lemma ran_cancel: "ran (A(no := None)) \<subseteq> ran A"
  by (auto simp: ran_def)

lemma ran_restrict: "ran (A |` S) \<subseteq> ran A"
  by (auto simp: ran_def restrict_map_def)

text \<open>The clock moves on to the next expiry and the timers of the buckets that are due are taken out.\<close>

lemma scheduled_advance:
  assumes "scheduled e nx A" "A' = A |` (- {no. \<exists>idx. A no = Some idx \<and> bucket_expiry nx idx = nx})"
    and "\<And>idx. idx \<in> ran A' \<Longrightarrow> nx' \<le> bucket_expiry nx idx" "nx < nx'"
  shows "scheduled nx nx' A'"
proof -
  have "bucket_expiry nx idx < U64_MAX" if "idx \<in> ran A'" for idx
  proof -
    have "idx \<in> ran A" using that ran_restrict [of A] unfolding assms(2) by blast
    then have "nx \<le> bucket_expiry e idx" "bucket_expiry e idx < U64_MAX" "e \<le> nx"
      using assms(1) by (auto simp: scheduled_def)
    then show ?thesis using bucket_expiry_stable [of e nx idx] by simp
  qed
  then show ?thesis using assms(3,4) by (simp add: scheduled_def)
qed

locale timer_store =
  fixes ok :: "'s \<Rightarrow> bool"
    and arm :: "'s \<Rightarrow> nat \<rightharpoonup> nat"
    and known :: "'s \<Rightarrow> nat set"
    and free :: "'s \<Rightarrow> nat \<Rightarrow> nat \<Rightarrow> bool"
    and link :: "nat \<Rightarrow> nat \<Rightarrow> nat \<Rightarrow> 's \<Rightarrow> 's option"
    and unlink :: "nat \<Rightarrow> 's \<Rightarrow> (bool \<times> 's) option"
  assumes link: "\<lbrakk>ok s; no \<in> known s; arm s no = None; free s idx key\<rbrakk> \<Longrightarrow>
      \<exists>s'. link key no idx s = Some s' \<and> ok s' \<and> arm s' = (arm s)(no \<mapsto> idx) \<and> known s' = known s"
    and unlink: "\<lbrakk>ok s; no \<in> known s\<rbrakk> \<Longrightarrow>
      \<exists>s'. unlink no s = Some (arm s no \<noteq> None, s') \<and> ok s' \<and> arm s' = (arm s)(no := None)
        \<and> known s' = known s \<and> (\<forall>idx key. free s idx key \<longrightarrow> free s' idx key)"
begin

definition move :: "nat \<Rightarrow> nat \<Rightarrow> nat \<Rightarrow> 's \<Rightarrow> 's option" where
  "move key no idx s =
     (if arm s no = Some idx then Some s else Option.bind (unlink no s) (\<lambda>(_, s'). link key no idx s'))"

lemma move_arm:
  assumes "ok s" "no \<in> known s" "free s idx key"
  shows "\<exists>s'. move key no idx s = Some s' \<and> ok s' \<and> arm s' = (arm s)(no \<mapsto> idx) \<and> known s' = known s"
proof (cases "arm s no = Some idx")
  case True
  then show ?thesis using assms(1) by (auto simp: move_def)
next
  case False
  obtain s1 where s1: "unlink no s = Some (arm s no \<noteq> None, s1)" "ok s1" "arm s1 = (arm s)(no := None)"
      "known s1 = known s" "free s1 idx key"
    using unlink [OF assms(1,2)] assms(3) by blast
  have "no \<in> known s1" "arm s1 no = None" using s1(3,4) assms(2) by simp_all
  from link [OF s1(2) this s1(5)] obtain s2 where
    "link key no idx s1 = Some s2" "ok s2" "arm s2 = (arm s1)(no \<mapsto> idx)" "known s2 = known s1" by blast
  then show ?thesis using False s1 by (auto simp: move_def)
qed

text \<open>Moving a timer to a bucket of the clock keeps the schedule.\<close>

lemma move_scheduled:
  assumes "ok s" "no \<in> known s" "free s idx key" "scheduled e nx (arm s)"
    and "expiry = bucket_expiry e idx" "e < expiry" "expiry < U64_MAX"
  shows "\<exists>s'. move key no idx s = Some s' \<and> ok s' \<and> arm s' = (arm s)(no \<mapsto> idx) \<and> known s' = known s
    \<and> scheduled e (min nx expiry) (arm s')"
proof -
  obtain s' where s': "move key no idx s = Some s'" "ok s'" "arm s' = (arm s)(no \<mapsto> idx)" "known s' = known s"
    using move_arm [OF assms(1-3)] by blast
  then show ?thesis using scheduled_arm [OF assms(4-7), of no] by metis
qed

lemma link_scheduled:
  assumes "ok s" "no \<in> known s" "arm s no = None" "free s idx key" "scheduled e nx (arm s)"
    and "expiry = bucket_expiry e idx" "e < expiry" "expiry < U64_MAX"
  shows "\<exists>s'. link key no idx s = Some s' \<and> ok s' \<and> arm s' = (arm s)(no \<mapsto> idx) \<and> known s' = known s
    \<and> scheduled e (min nx expiry) (arm s')"
proof -
  obtain s' where s': "link key no idx s = Some s'" "ok s'" "arm s' = (arm s)(no \<mapsto> idx)" "known s' = known s"
    using link [OF assms(1-4)] by blast
  then show ?thesis using scheduled_arm [OF assms(5-8), of no] by metis
qed

lemma unlink_scheduled:
  assumes "ok s" "no \<in> known s" "scheduled e nx (arm s)"
  shows "\<exists>s'. unlink no s = Some (arm s no \<noteq> None, s') \<and> ok s' \<and> arm s' = (arm s)(no := None) \<and> known s' = known s
    \<and> scheduled e nx (arm s')"
proof -
  obtain s' where s': "unlink no s = Some (arm s no \<noteq> None, s')" "ok s'" "arm s' = (arm s)(no := None)" "known s' = known s"
    using unlink [OF assms(1,2)] by blast
  then show ?thesis using scheduled_subset [OF assms(3) ran_cancel, of no] by metis
qed

end

lemma wheel_unlink_free: "wheel_unlink no w = Some (r, w') \<Longrightarrow> bucket_free w idx key \<Longrightarrow> bucket_free w' idx key"
  by (auto simp: wheel_unlink_def bucket_free_def bucket_bit_def Let_def split: option.splits if_splits)

lemma wheel_link_known: "wheel_link key no idx w = Some w' \<Longrightarrow> dom (wh_timers w') = dom (wh_timers w)"
  by (auto simp: wheel_link_def bucket_bit_def split: option.splits if_splits)

interpretation wheel: timer_store wheel_ok armed "\<lambda>w. dom (wh_timers w)" bucket_free wheel_link wheel_unlink
proof
  fix s :: "'a Wheel" and no idx key
  assume A: "wheel_ok s" "no \<in> dom (wh_timers s)" "armed s no = None" "bucket_free s idx key"
  then obtain e where e: "wh_timers s no = Some e" "te_bucket e = None" by (auto simp: armed_def)
  obtain s' where s': "wheel_link key no idx s = Some s'" using wheel_link_some [OF e(1)] by blast
  show "\<exists>s'. wheel_link key no idx s = Some s' \<and> wheel_ok s' \<and> armed s' = (armed s)(no \<mapsto> idx)
      \<and> dom (wh_timers s') = dom (wh_timers s)"
    using s' wheel_link_ok [OF A(1) e A(4) s'] wheel_link_armed [OF s'] wheel_link_known [OF s'] by blast
next
  fix s :: "'a Wheel" and no
  assume A: "wheel_ok s" "no \<in> dom (wh_timers s)"
  then obtain r s' where s': "wheel_unlink no s = Some (r, s')" using wheel_unlink_some by blast
  show "\<exists>s'. wheel_unlink no s = Some (armed s no \<noteq> None, s') \<and> wheel_ok s' \<and> armed s' = (armed s)(no := None)
      \<and> dom (wh_timers s') = dom (wh_timers s) \<and> (\<forall>idx key. bucket_free s idx key \<longrightarrow> bucket_free s' idx key)"
    using s' wheel_unlink_ok [OF A(1) s'] wheel_unlink_armed [OF s'] wheel_unlink_free [OF s'] by blast
qed

lemma wheel_relink_move: "no \<in> dom (wh_timers w) \<Longrightarrow> wheel_relink key no idx w = wheel.move key no idx w"
  by (auto simp: wheel_relink_def wheel.move_def armed_def)

section \<open>Expiry\<close>

text \<open>A bucket is due at a clock value when its level ticks there and the tick has its position.\<close>

lemma bucket_due_iff:
  "bucket_expiry x idx = x \<longleftrightarrow> 8 ^ (idx div 64) dvd x \<and> idx mod 64 = x div 8 ^ (idx div 64) mod 64"
proof
  let ?l = "idx div 64"
  assume *: "bucket_expiry x idx = x"
  let ?T = "bucket_tick (lvl_clock x ?l) (idx mod 64)"
  have "?T mod 64 = idx mod 64" using bucket_tick_iff [of "idx mod 64" ?T "lvl_clock x ?l"] by simp
  moreover have x: "x = ?T * 8 ^ ?l" using * by (simp add: bucket_expiry_def)
  have "x div 8 ^ ?l = ?T" by (subst x) simp
  ultimately show "8 ^ ?l dvd x \<and> idx mod 64 = x div 8 ^ ?l mod 64" using x by (metis dvd_triv_right)
next
  let ?l = "idx div 64"
  assume *: "8 ^ ?l dvd x \<and> idx mod 64 = x div 8 ^ ?l mod 64"
  then obtain T where x: "x = T * 8 ^ ?l" by (metis dvd_div_mult_self)
  then have "lvl_clock x ?l = T" "T mod 64 = idx mod 64" using * by simp_all
  then have "bucket_expiry x (?l * 64 + T mod 64) = T * 8 ^ ?l" by (intro bucket_expiryI) simp_all
  then show "bucket_expiry x idx = x" using x \<open>T mod 64 = idx mod 64\<close> by simp
qed

definition due_timers :: "nat \<Rightarrow> (nat \<rightharpoonup> nat) \<Rightarrow> nat set" where
  "due_timers x A = {no. \<exists>idx. A no = Some idx \<and> bucket_expiry x idx = x}"

lemma expire_timers_Un: "expire_timers D (expire_timers C ts) = expire_timers (C \<union> D) ts" if "C \<inter> D = {}"
  using that by (auto simp: expire_timers_def fun_eq_iff)

lemma expire_timers_empty [simp]: "expire_timers {} ts = ts"
  by (simp add: expire_timers_def)

lemma woken_tasks_Un: "woken_tasks C ts \<union> woken_tasks D (expire_timers C ts) = woken_tasks (C \<union> D) ts" if "C \<inter> D = {}"
  using that by (auto simp: woken_tasks_def expire_timers_def split: if_splits)

lemma woken_tasks_empty [simp]: "woken_tasks {} ts = {}"
  by (simp add: woken_tasks_def)

text \<open>One level of \<^verbatim>\<open>execute_expired_timers\<close>.\<close>

lemma expire_level:
  assumes "wheel_ok w"
  obtains w1 new where "(if wh_buckets w idx \<noteq> Map.empty then expire_bucket idx w else Some (w, {})) = Some (w1, new)"
    "wheel_ok w1" "wh_timers w1 = expire_timers {no. armed w no = Some idx} (wh_timers w)"
    "new = woken_tasks {no. armed w no = Some idx} (wh_timers w)"
proof (cases "wh_buckets w idx = Map.empty")
  case True
  then have "{no. armed w no = Some idx} = {}" using bucket_nonempty [OF assms, of idx] by (auto simp: ran_def)
  then show ?thesis using True assms by (intro that [of w "{}"]) simp_all
next
  case False
  obtain w1 new where ex: "expire_bucket idx w = Some (w1, new)" using expire_bucket_some [OF assms] by blast
  show ?thesis
    by (rule that [OF _ expire_bucket_ok [OF assms ex] expire_bucket_timers [OF assms ex]]) (use False ex in simp)
qed

lemma expire_levels_spec:
  assumes "wheel_ok w" "l \<le> 8" "8 ^ l dvd x"
  shows "\<exists>w'. expire_levels [l..<8] (x div 8 ^ l) w W = Some (w', W \<union> woken_tasks
      {no. \<exists>idx. armed w no = Some idx \<and> l \<le> idx div 64 \<and> bucket_expiry x idx = x} (wh_timers w)) \<and> wheel_ok w'
    \<and> wh_timers w' = expire_timers {no. \<exists>idx. armed w no = Some idx \<and> l \<le> idx div 64 \<and> bucket_expiry x idx = x} (wh_timers w)"
  using assms
proof (induction "8 - l" arbitrary: l w W)
  case 0
  then have "l = 8" by simp
  moreover have "{no. \<exists>idx. armed w no = Some idx \<and> 8 \<le> idx div 64 \<and> bucket_expiry x idx = x} = {}"
    using armed_bound [OF 0(2)] by fastforce
  ultimately show ?case using 0(2) by (simp only:) simp
next
  case (Suc n)
  then have l: "l < 8" "[l..<8] = l # [Suc l..<8]" by (simp_all add: upt_conv_Cons)
  define idx where "idx = x div 8 ^ l mod 64 + l * 64"
  obtain w1 new where w1: "(if wh_buckets w idx \<noteq> Map.empty then expire_bucket idx w else Some (w, {})) = Some (w1, new)"
    "wheel_ok w1" and t1: "wh_timers w1 = expire_timers {no. armed w no = Some idx} (wh_timers w)"
    and new: "new = woken_tasks {no. armed w no = Some idx} (wh_timers w)"
    using expire_level [OF Suc(3)] by blast
  let ?D = "\<lambda>l w. {no. \<exists>idx. armed w no = Some idx \<and> l \<le> idx div 64 \<and> bucket_expiry x idx = x}"
  have lvl: "idx' = idx \<longleftrightarrow> idx' div 64 = l \<and> bucket_expiry x idx' = x" for idx'
  proof
    assume "idx' = idx"
    then show "idx' div 64 = l \<and> bucket_expiry x idx' = x" using Suc(5) by (simp add: bucket_due_iff idx_def)
  next
    assume *: "idx' div 64 = l \<and> bucket_expiry x idx' = x"
    then have "idx' mod 64 = x div 8 ^ l mod 64" using bucket_due_iff [of x idx'] by simp
    then show "idx' = idx" using * same_bucket [of idx' idx] by (simp add: idx_def)
  qed
  have a1: "armed w1 = armed w |` (- {no. armed w no = Some idx})" using armed_expire [OF t1] .
  have D: "?D l w = {no. armed w no = Some idx} \<union> ?D (Suc l) w1" "{no. armed w no = Some idx} \<inter> ?D (Suc l) w1 = {}"
    using lvl lvl [of idx] by (auto simp: a1 restrict_map_def Suc_le_eq order_le_less)
  have step: "expire_levels [l..<8] (x div 8 ^ l) w W = (if x div 8 ^ l mod 8 \<noteq> 0 then Some (w1, W \<union> new)
      else expire_levels [Suc l..<8] (x div 8 ^ l div 8) w1 (W \<union> new))"
    unfolding l(2) expire_levels.simps Let_def lvl_simps idx_def [symmetric] w1(1) by simp
  show ?case
  proof (cases "8 ^ Suc l dvd x")
    case False
    have nz: "x div 8 ^ l mod 8 \<noteq> 0" using False Suc(5)
      by (metis dvd_div_mult_self dvd_eq_mod_eq_0 mult.commute mult_dvd_mono dvd_refl power_Suc)
    have "?D (Suc l) w1 = {}"
    proof -
      have "\<not> bucket_expiry x idx' = x" if "Suc l \<le> idx' div 64" for idx'
        using bucket_due_iff [of x idx'] False le_imp_power_dvd [OF that, of "8 :: nat"] dvd_trans by blast
      then show ?thesis by auto
    qed
    then have D1: "?D l w = {no. armed w no = Some idx}" using D(1) by (simp only: Un_empty_right)
    have "expire_levels [l..<8] (x div 8 ^ l) w W = Some (w1, W \<union> new)"
      using nz step by simp
    then show ?thesis using w1(2) by (simp add: D1 t1 new)
  next
    case True
    have z: "x div 8 ^ l mod 8 = 0" using True Suc(5)
      by (metis dvd_div_iff_mult dvd_eq_mod_eq_0 power_Suc power_not_zero zero_neq_numeral)
    have d: "x div 8 ^ l div 8 = x div 8 ^ Suc l" by (simp add: div_mult2_eq [symmetric] mult.commute)
    have "expire_levels [l..<8] (x div 8 ^ l) w W = expire_levels [Suc l..<8] (x div 8 ^ Suc l) w1 (W \<union> new)"
      using z d step by simp
    moreover have "n = 8 - Suc l" "Suc l \<le> 8" using Suc(2) l(1) by simp_all
    ultimately show ?thesis using Suc(1) [of "Suc l" w1 "W \<union> new"] w1(2) True
      unfolding D(1) by (simp add: t1 new expire_timers_Un [OF D(2)] woken_tasks_Un [OF D(2)] Un_assoc)
  qed
qed

text \<open>Exactly the timers of the buckets that are due expire.\<close>

lemma execute_expired_spec:
  assumes "wheel_ok w"
  obtains w' where "execute_expired_timers x w = Some (w', woken_tasks (due_timers x (armed w)) (wh_timers w))"
    "wheel_ok w'" "wh_timers w' = expire_timers (due_timers x (armed w)) (wh_timers w)"
    "armed w' = armed w |` (- due_timers x (armed w))"
proof -
  have D: "{no. \<exists>idx. armed w no = Some idx \<and> 0 \<le> idx div 64 \<and> bucket_expiry x idx = x} = due_timers x (armed w)"
    by (simp add: due_timers_def)
  obtain w' where w': "expire_levels [0..<8] (x div 8 ^ 0) w {} = Some (w', {} \<union> woken_tasks (due_timers x (armed w)) (wh_timers w))"
    "wheel_ok w'" "wh_timers w' = expire_timers (due_timers x (armed w)) (wh_timers w)"
    using expire_levels_spec [OF assms, of 0 x "{}"] unfolding D by auto
  then show ?thesis using that [of w'] armed_expire [OF w'(3)] by (simp add: execute_expired_timers_def)
qed

end
