(* ===== verification/Timer_Driver.thy ===== *)
theory Timer_Driver
  imports Timer_Store
begin

text \<open>
  The timer wheel as a whole: the invariant of \<^verbatim>\<open>Timer\<close>, that every operation keeps it, when a timer
  is due, and what the driver does.
\<close>


section \<open>The invariant of the timer\<close>

definition timer_ok :: "'w Timer \<Rightarrow> bool" where
  "timer_ok t \<longleftrightarrow>
     wheel_ok (tm_wheel t) \<and> scheduled (tm_elapsed t) (tm_next_expiry t) (armed (tm_wheel t))
     \<and> tm_next_expiry t \<le> U64_MAX
     \<and> (tm_next_expiry t < U64_MAX \<longrightarrow>
          tm_elapsed_time t \<noteq> None \<and> tm_units t \<noteq> None \<and> DRIVER_STARTED \<in> tm_flags t)"

lemma timer_okD:
  assumes "timer_ok t"
  shows "wheel_ok (tm_wheel t)" "scheduled (tm_elapsed t) (tm_next_expiry t) (armed (tm_wheel t))"
    "tm_next_expiry t \<le> U64_MAX" "tm_next_expiry t < U64_MAX \<Longrightarrow> tm_elapsed_time t \<noteq> None"
    "tm_next_expiry t < U64_MAX \<Longrightarrow> tm_units t \<noteq> None" "tm_next_expiry t < U64_MAX \<Longrightarrow> DRIVER_STARTED \<in> tm_flags t"
  using assms by (simp_all add: timer_ok_def)

lemma timer_ok_armed:
  assumes "timer_ok t" "armed (tm_wheel t) no = Some idx"
  shows "tm_elapsed t < tm_next_expiry t" "tm_next_expiry t \<le> bucket_expiry (tm_elapsed t) idx"
    "bucket_expiry (tm_elapsed t) idx < U64_MAX" "tm_next_expiry t < U64_MAX"
  using timer_okD(2) [OF assms(1)] assms(2) by (fastforce simp: scheduled_def ran_def)+

text \<open>The instant at which a bucket is due.\<close>

definition due_time :: "'w Timer \<Rightarrow> nat \<Rightarrow> nat" where
  "due_time t idx = the (tm_elapsed_time t)
     + from_millis (to_millis (bucket_expiry (tm_elapsed t) idx - tm_elapsed t) (the (tm_units t)))"

lemma finite_armed:
  assumes "wheel_ok w"
  shows "finite (ran (armed w))"
proof (rule finite_subset)
  show "ran (armed w) \<subseteq> {..<512}" using armed_bound [OF assms] by (auto simp only: ran_def mem_Collect_eq lessThan_iff)
qed simp

lemma timer_new_ok: "timer_ok (timer_new :: 'w Timer)"
proof -
  let ?t = "timer_new :: 'w Timer"
  have "armed (tm_wheel ?t) = Map.empty" by (auto simp: timer_new_def armed_def new_entry_def)
  moreover have "wheel_ok (tm_wheel ?t)"
    by (auto simp: wheel_ok_def timer_new_def new_entry_def split: if_splits)
  moreover have "tm_next_expiry ?t = U64_MAX" "tm_elapsed ?t = 0" "0 < U64_MAX"
    by (simp_all add: timer_new_def U64_MAX_def)
  ultimately show ?thesis by (simp add: timer_ok_def scheduled_def)
qed

section \<open>The next expiry\<close>

text \<open>\<^verbatim>\<open>next_pending_bucket\<close> is the minimum over the occupied buckets.\<close>

lemma next_pending_spec:
  assumes "wheel_ok (tm_wheel t)"
    and "\<And>idx. idx \<in> ran (armed (tm_wheel t)) \<Longrightarrow> bucket_expiry (tm_elapsed t) idx < U64_MAX"
  shows "next_pending_bucket t =
    (if ran (armed (tm_wheel t)) = {} then None
     else Some (Min (bucket_expiry (tm_elapsed t) ` ran (armed (tm_wheel t)))))"
proof -
  define w e A where "w = tm_wheel t" and "e = tm_elapsed t" and "A = ran (armed (tm_wheel t))"
  define r where "r = pending_levels [0..<8] (wh_occupied w) e U64_MAX"
  have r: "r = pending_levels [0..<8] (wh_occupied w) (lvl_clock e 0) U64_MAX" by (simp add: r_def)
  have occ: "bit (wh_occupied w k) b \<longleftrightarrow> k * 64 + b \<in> A" if "b < 64" for k b
    using wheel_okD(3) [OF assms(1), of "k * 64 + b"] bucket_nonempty [OF assms(1), of "k * 64 + b"] that
    by (simp add: w_def A_def)
  have le: "r \<le> bucket_expiry e idx" if "idx \<in> A" for idx
  proof -
    have "idx < 512" using that armed_bound [OF assms(1)] by (auto simp: A_def ran_def)
    then have "idx div 64 < 8" by simp
    then show ?thesis using pending_levels_spec(2) [OF _ r, of "idx div 64" "idx mod 64"] occ [of "idx mod 64" "idx div 64"] that
      by simp
  qed
  have ex: "r = U64_MAX \<or> (\<exists>idx \<in> A. r = bucket_expiry e idx)"
    using pending_levels_spec(3) [OF _ r] occ by blast
  have np: "next_pending_bucket t = (if r < U64_MAX then Some r else None)"
    by (simp add: next_pending_bucket_def r_def w_def e_def Let_def)
  show ?thesis
  proof (cases "A = {}")
    case True
    then show ?thesis using ex np by (auto simp: A_def)
  next
    case False
    then obtain i where "i \<in> A" by blast
    then have "r < U64_MAX" using le [of i] assms(2) [of i] by (simp add: A_def e_def)
    moreover from this obtain idx where "idx \<in> A" "r = bucket_expiry e idx" using ex by auto
    then have "Min (bucket_expiry e ` A) = r"
      using le finite_armed [OF assms(1)] by (intro Min_eqI) (auto simp: A_def)
    ultimately show ?thesis using np False by (simp add: A_def e_def)
  qed
qed

section \<open>Arming a timer\<close>

text \<open>The delay of \<^verbatim>\<open>calc_bucket\<close> in units of the wheel clock.\<close>

definition wheel_delay :: "nat \<Rightarrow> nat \<Rightarrow> nat \<Rightarrow> nat \<Rightarrow> 'w Timer \<Rightarrow> nat" where
  "wheel_delay sys_units now now' millis t =
     to_units (as_millis (now - (case tm_elapsed_time t of Some et \<Rightarrow> et | None \<Rightarrow> now')) + millis)
       (case tm_units t of Some units \<Rightarrow> units | None \<Rightarrow> sys_units)"

lemma calc_bucket_eq:
  "calc_bucket sys_units now now' millis t =
     (calc_wheel_index (tm_elapsed t) (wrapping_add (tm_elapsed t) (wheel_delay sys_units now now' millis t))
        (wheel_delay sys_units now now' millis t),
      t\<lparr>tm_flags := tm_flags t \<union> {RUNNING},
        tm_units := Some (case tm_units t of Some units \<Rightarrow> units | None \<Rightarrow> sys_units),
        tm_elapsed_time := Some (case tm_elapsed_time t of Some et \<Rightarrow> et | None \<Rightarrow> now')\<rparr>)"
  by (simp add: calc_bucket_def wheel_delay_def timer_insert_flags_def elapsed_time_def Let_def split: option.splits)

lemma as_millis_le: "from_millis (as_millis d) \<le> d" "d < from_millis (as_millis d + 1)"
  by (simp_all add: as_millis_def from_millis_def)

lemma from_millis_mono: "a \<le> b \<Longrightarrow> from_millis a \<le> from_millis b"
  by (simp add: from_millis_def)

lemma from_millis_add: "from_millis (a + b) = from_millis a + from_millis b"
  by (simp add: from_millis_def algebra_simps)

lemma to_units_bounds: "to_millis (to_units m u) u \<le> m" "m < to_millis (to_units m u + 1) u"
proof -
  show "to_millis (to_units m u) u \<le> m" by (simp add: to_millis_def to_units_def)
  have "m mod 2 ^ u < 2 ^ u" by simp
  then show "m < to_millis (to_units m u + 1) u"
    unfolding to_millis_def to_units_def add_mult_distrib using div_mult_mod_eq [of m "2 ^ u"] by linarith
qed

lemma calc_bucket_due:
  assumes "tm_elapsed t < 2 ^ 63" "now \<le> now'" "calc_bucket sys_units now now' millis t = ((idx, expiry), t')"
  shows "idx < 512" "expiry = bucket_expiry (tm_elapsed t) idx" "tm_elapsed t < expiry" "expiry < U64_MAX"
    and "wheel_delay sys_units now now' millis t < WHEEL_TIMEOUT_CUTOFF \<Longrightarrow> now + from_millis millis \<le> due_time t' idx"
    and "wheel_delay sys_units now now' millis t < WHEEL_TIMEOUT_CUTOFF \<Longrightarrow>
      due_time t' idx \<le> max now (the (tm_elapsed_time t')) + from_millis (millis
        + to_millis (max 1 (wheel_delay sys_units now now' millis t div 7)) (the (tm_units t')))"
proof -
  define delta et u where "delta = wheel_delay sys_units now now' millis t"
    and "et = (case tm_elapsed_time t of Some et \<Rightarrow> et | None \<Rightarrow> now')"
    and "u = (case tm_units t of Some units \<Rightarrow> units | None \<Rightarrow> sys_units)"
  have ci: "calc_wheel_index (tm_elapsed t) (wrapping_add (tm_elapsed t) delta) delta = (idx, expiry)"
    and t': "tm_elapsed_time t' = Some et" "tm_units t' = Some u" "tm_elapsed t' = tm_elapsed t"
    using assms(3) by (auto simp: calc_bucket_eq delta_def et_def u_def)
  note spec = calc_wheel_index_spec [OF assms(1) ci]
  show "idx < 512" "expiry = bucket_expiry (tm_elapsed t) idx" "tm_elapsed t < expiry" "expiry < U64_MAX"
    using spec(1-4) by blast+
  have due: "due_time t' idx = et + from_millis (to_millis (expiry - tm_elapsed t) u)"
    using t' spec(2) by (simp add: due_time_def)
  have d: "delta = to_units (as_millis (now - et) + millis) u" by (simp add: delta_def wheel_delay_def et_def u_def)
  note tu = to_units_bounds [of "as_millis (now - et) + millis" u, folded d]
  assume "wheel_delay sys_units now now' millis t < WHEEL_TIMEOUT_CUTOFF"
  then have lo: "delta + 1 \<le> expiry - tm_elapsed t" and hi: "expiry - tm_elapsed t \<le> delta + max 1 (delta div 7)"
    using spec(5) by (auto simp: delta_def [symmetric])
  show "now + from_millis millis \<le> due_time t' idx"
  proof -
    have "to_millis (delta + 1) u \<le> to_millis (expiry - tm_elapsed t) u" unfolding to_millis_def using lo by (rule mult_le_mono1)
    then have "as_millis (now - et) + 1 + millis \<le> to_millis (expiry - tm_elapsed t) u" using tu(2) by linarith
    then have "from_millis (as_millis (now - et) + 1 + millis) \<le> from_millis (to_millis (expiry - tm_elapsed t) u)"
      by (rule from_millis_mono)
    then show ?thesis using as_millis_le(2) [of "now - et"] unfolding due from_millis_add by linarith
  qed
  show "due_time t' idx \<le> max now (the (tm_elapsed_time t')) + from_millis (millis
        + to_millis (max 1 (wheel_delay sys_units now now' millis t div 7)) (the (tm_units t')))"
  proof -
    have "to_millis (expiry - tm_elapsed t) u \<le> to_millis delta u + to_millis (max 1 (delta div 7)) u"
      using mult_le_mono1 [OF hi, of "2 ^ u"] by (simp add: to_millis_def add_mult_distrib)
    then have "to_millis (expiry - tm_elapsed t) u \<le> as_millis (now - et) + (millis + to_millis (max 1 (delta div 7)) u)"
      using tu(1) by linarith
    then have "from_millis (to_millis (expiry - tm_elapsed t) u)
      \<le> from_millis (as_millis (now - et) + (millis + to_millis (max 1 (delta div 7)) u))" by (rule from_millis_mono)
    then have *: "from_millis (to_millis (expiry - tm_elapsed t) u)
      \<le> from_millis (as_millis (now - et)) + from_millis (millis + to_millis (max 1 (delta div 7)) u)"
      by (simp only: from_millis_add)
    have "et + from_millis (to_millis (expiry - tm_elapsed t) u)
      \<le> max now et + from_millis (millis + to_millis (max 1 (delta div 7)) u)"
    proof -
      have "et + (now - et) \<le> max now et" by simp
      then show ?thesis using * as_millis_le(1) [of "now - et"] by linarith
    qed
    then show ?thesis using t' by (simp add: due delta_def)
  qed
qed

section \<open>Operations keep the invariant\<close>

definition keeps_clock :: "'w Timer \<Rightarrow> 'w Timer \<Rightarrow> bool" where
  "keeps_clock t t' \<longleftrightarrow> tm_elapsed t' = tm_elapsed t \<and> tm_units t' = tm_units t \<and> tm_elapsed_time t' = tm_elapsed_time t"

lemma keeps_clock_due: "keeps_clock t t' \<Longrightarrow> due_time t' idx = due_time t idx"
  by (simp add: keeps_clock_def due_time_def)

lemma update_next_expiry_spec:
  assumes "update_next_expiry now expiry t = (call, t')" "tm_elapsed_time t \<noteq> None"
  shows "tm_next_expiry t' = min (tm_next_expiry t) expiry" "tm_wheel t' = tm_wheel t" "keeps_clock t t'"
    "tm_flags t \<subseteq> tm_flags t'" "expiry < tm_next_expiry t \<Longrightarrow> DRIVER_STARTED \<in> tm_flags t'"
    "tm_generation t' = tm_generation t"
  using assms by (auto simp: update_next_expiry_def driver_start_def timer_insert_flags_def expiry_time_def
      elapsed_time_def keeps_clock_def Let_def split: if_splits)

text \<open>What \<^verbatim>\<open>calc_bucket\<close> changes.\<close>

lemma calc_bucket_timer:
  assumes "calc_bucket sys_units now now' millis t = (r, t')"
  shows "tm_elapsed t' = tm_elapsed t" "tm_next_expiry t' = tm_next_expiry t" "tm_wheel t' = tm_wheel t"
    "tm_flags t' = tm_flags t \<union> {RUNNING}" "tm_elapsed_time t' \<noteq> None" "tm_units t' \<noteq> None"
    "tm_generation t' = tm_generation t" "timer_ok t \<Longrightarrow> tm_next_expiry t < U64_MAX \<Longrightarrow> keeps_clock t t'"
  using assms by (auto simp: calc_bucket_eq timer_ok_def keeps_clock_def)

text \<open>Arming a timer: from a wheel with the new bucket, the next expiry is updated.\<close>

lemma arm_ok:
  assumes "timer_ok t" "calc_bucket sys_units now now' millis t = ((idx, expiry), t1)"
    and w: "wheel_ok w" "scheduled (tm_elapsed t) (min (tm_next_expiry t) expiry) (armed w)"
    and "update_next_expiry now' expiry (t1\<lparr>tm_wheel := w\<rparr>) = (call, t')"
  shows "timer_ok t'" "tm_wheel t' = w" "keeps_clock t1 t'" "tm_generation t' = tm_generation t"
proof -
  note t1 = calc_bucket_timer [OF assms(2)]
  have et: "tm_elapsed_time (t1\<lparr>tm_wheel := w\<rparr>) \<noteq> None" using t1(5) by simp
  note up = update_next_expiry_spec [OF assms(5) et]
  show "tm_wheel t' = w" "keeps_clock t1 t'" "tm_generation t' = tm_generation t"
    using up(2,3,6) t1(7) by (simp_all add: keeps_clock_def)
  have nx: "tm_next_expiry t' = min (tm_next_expiry t) expiry" using up(1) t1(2) by simp
  have "DRIVER_STARTED \<in> tm_flags t'" if "tm_next_expiry t' < U64_MAX"
  proof (cases "expiry < tm_next_expiry t")
    case True
    then show ?thesis using up(5) t1(2) by simp
  next
    case False
    then have "tm_next_expiry t < U64_MAX" using that nx by simp
    then show ?thesis using timer_okD(6) [OF assms(1)] t1(4) up(4) by auto
  qed
  moreover have "tm_elapsed_time t' \<noteq> None" "tm_units t' \<noteq> None" "tm_elapsed t' = tm_elapsed t"
    using up(3) t1(1,5,6) by (simp_all add: keeps_clock_def)
  ultimately show "timer_ok t'" using up(2) w nx timer_okD(3) [OF assms(1)] by (simp add: timer_ok_def)
qed

text \<open>A new entry, not yet in a bucket.\<close>

lemma insert_entry_ok:
  assumes "wheel_ok w" "wh_timers w no = None"
  shows "wheel_ok (w\<lparr>wh_timers := (wh_timers w)(no \<mapsto> new_entry)\<rparr>)"
    "armed (w\<lparr>wh_timers := (wh_timers w)(no \<mapsto> new_entry)\<rparr>) = armed w"
proof -
  show "armed (w\<lparr>wh_timers := (wh_timers w)(no \<mapsto> new_entry)\<rparr>) = armed w"
    using assms(2) by (auto simp: armed_def new_entry_def)
  show "wheel_ok (w\<lparr>wh_timers := (wh_timers w)(no \<mapsto> new_entry)\<rparr>)"
  proof (rule wheel_okI)
    fix idx key no' assume "wh_buckets (w\<lparr>wh_timers := (wh_timers w)(no \<mapsto> new_entry)\<rparr>) idx key = Some no'"
    then show "\<exists>e. wh_timers (w\<lparr>wh_timers := (wh_timers w)(no \<mapsto> new_entry)\<rparr>) no' = Some e
        \<and> te_bucket e = Some idx \<and> te_bucket_entry e = key"
      using wheel_okD(2) [OF assms(1)] assms(2) by fastforce
  qed (use wheel_okD(1,3,4) [OF assms(1)] in \<open>auto simp: new_entry_def split: if_splits\<close>)
qed

lemma add_timer_spec:
  assumes "timer_ok t" "tm_elapsed t < 2 ^ 63" "now \<le> now'" "wh_timers (tm_wheel t) no = None" "0 < millis"
    and "calc_bucket sys_units now now' millis t = ((idx, expiry), t1)" "bucket_free (tm_wheel t) idx key"
  obtains call t' where "add_timer sys_units now now' no key millis t = Some (call, t')" "timer_ok t'"
    "armed (tm_wheel t') = (armed (tm_wheel t))(no \<mapsto> idx)" "keeps_clock t1 t'" "tm_generation t' = tm_generation t"
proof -
  define w where "w = (tm_wheel t)\<lparr>wh_timers := (wh_timers (tm_wheel t))(no \<mapsto> new_entry)\<rparr>"
  note ins = insert_entry_ok [OF timer_okD(1) [OF assms(1)] assms(4), folded w_def]
  note b = calc_bucket_due(1-4) [OF assms(2,3,6)]
  have "armed w no = None" by (simp add: armed_def w_def new_entry_def)
  moreover have "no \<in> dom (wh_timers w)" "bucket_free w idx key" using assms(7) by (simp_all add: w_def bucket_free_def)
  moreover have "scheduled (tm_elapsed t) (tm_next_expiry t) (armed w)" using timer_okD(2) [OF assms(1)] ins(2) by simp
  ultimately obtain w' where w': "wheel_link key no idx w = Some w'" "wheel_ok w'" "armed w' = (armed w)(no \<mapsto> idx)"
      "scheduled (tm_elapsed t) (min (tm_next_expiry t) expiry) (armed w')"
    using wheel.link_scheduled [OF ins(1) _ _ _ _ b(2-4), of no key] by blast
  obtain call t' where up: "update_next_expiry now' expiry (t1\<lparr>tm_wheel := w'\<rparr>) = (call, t')" by fastforce
  have "add_timer sys_units now now' no key millis t = Some (call, t')"
    using assms(5,6) calc_bucket_timer(3) [OF assms(6)] w'(1) up by (simp add: add_timer_def w_def)
  then show ?thesis using that arm_ok [OF assms(1,6) w'(2,4) up] w'(3) ins(2) by metis
qed

lemma set_timers_ok:
  assumes "wheel_ok w" "wh_timers w no = Some e" "te_bucket e' = te_bucket e" "te_bucket_entry e' = te_bucket_entry e"
    "te_callback e' = te_callback e"
  shows "wheel_ok (w\<lparr>wh_timers := (wh_timers w)(no \<mapsto> e')\<rparr>)"
    "armed (w\<lparr>wh_timers := (wh_timers w)(no \<mapsto> e')\<rparr>) = armed w"
proof -
  show "armed (w\<lparr>wh_timers := (wh_timers w)(no \<mapsto> e')\<rparr>) = armed w"
    using assms(2,3) by (auto simp: armed_def)
  show "wheel_ok (w\<lparr>wh_timers := (wh_timers w)(no \<mapsto> e')\<rparr>)"
  proof (rule wheel_okI)
    fix idx key no' assume "wh_buckets (w\<lparr>wh_timers := (wh_timers w)(no \<mapsto> e')\<rparr>) idx key = Some no'"
    then show "\<exists>e. wh_timers (w\<lparr>wh_timers := (wh_timers w)(no \<mapsto> e')\<rparr>) no' = Some e
        \<and> te_bucket e = Some idx \<and> te_bucket_entry e = key"
      using wheel_okD(2) [OF assms(1)] assms(2-4) by fastforce
  qed (use wheel_okD(1,3,4) [OF assms(1)] assms(2-5) in \<open>fastforce split: if_splits\<close>)+
qed

text \<open>The schedule of a wheel with fewer armed timers.\<close>

lemma timer_ok_subset:
  assumes "timer_ok t" "wheel_ok w" "ran (armed w) \<subseteq> ran (armed (tm_wheel t))"
  shows "timer_ok (t\<lparr>tm_wheel := w\<rparr>)"
  using assms scheduled_subset [OF timer_okD(2) [OF assms(1)] assms(3)] by (simp add: timer_ok_def)

lemma remove_timer_spec:
  assumes "timer_ok t" "no \<in> dom (wh_timers (tm_wheel t))"
  obtains task t' where "remove_timer no t = Some (task, t')" "timer_ok t'"
    "armed (tm_wheel t') = (armed (tm_wheel t))(no := None)" "keeps_clock t t'"
    "armed (tm_wheel t) no \<noteq> None \<Longrightarrow> task = te_task (the (wh_timers (tm_wheel t) no))"
proof -
  note ok = timer_okD(1) [OF assms(1)]
  obtain w where w: "wheel_unlink no (tm_wheel t) = Some (armed (tm_wheel t) no \<noteq> None, w)" "wheel_ok w"
      "armed w = (armed (tm_wheel t))(no := None)" "dom (wh_timers w) = dom (wh_timers (tm_wheel t))"
    using wheel.unlink [OF ok assms(2)] by blast
  have sub: "ran (armed w) \<subseteq> ran (armed (tm_wheel t))" unfolding w(3) by (rule ran_cancel)
  show ?thesis
  proof (cases "armed (tm_wheel t) no")
    case None
    then have "remove_timer no t = Some (None, t\<lparr>tm_wheel := w\<rparr>)" using w(1) by (simp add: remove_timer_def)
    then show ?thesis using None w timer_ok_subset [OF assms(1) w(2) sub]
      by (intro that [of None "t\<lparr>tm_wheel := w\<rparr>"]) (simp_all add: keeps_clock_def)
  next
    case (Some idx)
    then obtain e where e: "wh_timers (tm_wheel t) no = Some e" "te_bucket e = Some idx"
      by (auto simp: armed_def bind_eq_Some_conv)
    have e': "wh_timers w no = Some (e\<lparr>te_bucket := None\<rparr>)"
      using w(1) e wheel_okD(1) [OF ok e] by (auto simp: wheel_unlink_def bucket_bit_def Let_def)
    let ?w = "w\<lparr>wh_timers := (wh_timers w)(no \<mapsto> e\<lparr>te_bucket := None, te_task := None\<rparr>)\<rparr>"
    have "remove_timer no t = Some (te_task e, t\<lparr>tm_wheel := ?w\<rparr>)" using w(1) Some e' by (simp add: remove_timer_def)
    moreover have "wheel_ok ?w" "armed ?w = armed w" using set_timers_ok [OF w(2) e'] by simp_all
    moreover from this have "timer_ok (t\<lparr>tm_wheel := ?w\<rparr>)" using timer_ok_subset [OF assms(1), of ?w] sub by simp
    ultimately show ?thesis using w(3) e(1)
      by (intro that [of "te_task e" "t\<lparr>tm_wheel := ?w\<rparr>"]) (simp_all add: keeps_clock_def)
  qed
qed

lemma update_timer_spec:
  assumes "timer_ok t" "tm_elapsed t < 2 ^ 63" "now \<le> now'" "no \<in> dom (wh_timers (tm_wheel t))" "0 < millis"
    and "calc_bucket sys_units now now' millis t = ((idx, expiry), t1)" "bucket_free (tm_wheel t) idx key"
  obtains call t' where "update_timer sys_units now now' key no millis t = Some (call, None, t')" "timer_ok t'"
    "armed (tm_wheel t') = (armed (tm_wheel t))(no \<mapsto> idx)" "keeps_clock t1 t'"
proof -
  note b = calc_bucket_due(1-4) [OF assms(2,3,6)]
  obtain w' where w': "wheel_relink key no idx (tm_wheel t) = Some w'" "wheel_ok w'" "armed w' = (armed (tm_wheel t))(no \<mapsto> idx)"
      "scheduled (tm_elapsed t) (min (tm_next_expiry t) expiry) (armed w')"
    using wheel.move_scheduled [OF timer_okD(1) [OF assms(1)] assms(4,7) timer_okD(2) [OF assms(1)] b(2-4)]
    unfolding wheel_relink_move [OF assms(4), symmetric] by blast
  obtain call t' where up: "update_next_expiry now' expiry (t1\<lparr>tm_wheel := w'\<rparr>) = (call, t')" by fastforce
  have "update_timer sys_units now now' key no millis t = Some (call, None, t')"
    using assms(5,6) calc_bucket_timer(3) [OF assms(6)] w'(1) up by (simp add: update_timer_def)
  then show ?thesis using that arm_ok [OF assms(1,6) w'(2,4) up] w'(3) by metis
qed

lemma poll_elapsed_spec:
  assumes "timer_ok t" "no \<in> dom (wh_timers (tm_wheel t))"
  obtains t' where "poll_elapsed will_wake waker no t = Some (armed (tm_wheel t) no = None, t')" "timer_ok t'"
    "armed (tm_wheel t') = armed (tm_wheel t)" "keeps_clock t t'"
proof -
  obtain e where e: "wh_timers (tm_wheel t) no = Some e" using assms(2) by blast
  let ?w = "(tm_wheel t)\<lparr>wh_timers := (wh_timers (tm_wheel t))(no \<mapsto> e\<lparr>te_task := Some waker\<rparr>)\<rparr>"
  have w: "wheel_ok ?w" "armed ?w = armed (tm_wheel t)"
    using set_timers_ok [OF timer_okD(1) [OF assms(1)] e] by simp_all
  then have "timer_ok (t\<lparr>tm_wheel := ?w\<rparr>)" using timer_ok_subset [OF assms(1)] by simp
  moreover have a: "armed (tm_wheel t) no = te_bucket e" using e by (simp add: armed_def)
  have "poll_elapsed will_wake waker no t = Some (armed (tm_wheel t) no = None, t)
      \<or> poll_elapsed will_wake waker no t = Some (armed (tm_wheel t) no = None, t\<lparr>tm_wheel := ?w\<rparr>)"
    unfolding a using e by (simp add: poll_elapsed_def)
  ultimately show ?thesis
  proof (elim disjE)
    assume "poll_elapsed will_wake waker no t = Some (armed (tm_wheel t) no = None, t)"
    then show ?thesis by (rule that) (use assms(1) in \<open>simp_all add: keeps_clock_def\<close>)
  next
    assume "timer_ok (t\<lparr>tm_wheel := ?w\<rparr>)"
      "poll_elapsed will_wake waker no t = Some (armed (tm_wheel t) no = None, t\<lparr>tm_wheel := ?w\<rparr>)"
    then show ?thesis using w(2) by (intro that [of "t\<lparr>tm_wheel := ?w\<rparr>"]) (simp_all add: keeps_clock_def)
  qed
qed

lemma handle_drop_spec:
  assumes "timer_ok t" "no \<in> dom (wh_timers (tm_wheel t))"
  obtains t' where "handle_drop no t = Some t'" "timer_ok t'"
    "armed (tm_wheel t') = (armed (tm_wheel t))(no := None)" "keeps_clock t t'"
proof -
  note ok = timer_okD(1) [OF assms(1)]
  obtain w where w: "wheel_unlink no (tm_wheel t) = Some (armed (tm_wheel t) no \<noteq> None, w)" "wheel_ok w"
      "armed w = (armed (tm_wheel t))(no := None)"
    using wheel.unlink [OF ok assms(2)] by blast
  let ?w = "w\<lparr>wh_timers := (wh_timers w)(no := None)\<rparr>"
  have "wheel_ok ?w"
  proof (rule wheel_okI)
    fix idx key no' assume *: "wh_buckets ?w idx key = Some no'"
    then obtain e where "wh_timers w no' = Some e" "te_bucket e = Some idx" "te_bucket_entry e = key"
      using wheel_okD(2) [OF w(2), of idx key no'] by auto
    moreover from this have "no' \<noteq> no" using w(3) by (auto simp: armed_def fun_eq_iff split: if_splits)
    ultimately show "\<exists>e. wh_timers ?w no' = Some e \<and> te_bucket e = Some idx \<and> te_bucket_entry e = key" by simp
  qed (use wheel_okD(1,3,4) [OF w(2)] in \<open>auto split: if_splits\<close>)
  moreover have a: "armed ?w = (armed (tm_wheel t))(no := None)" using w(3) by (auto simp: armed_def fun_eq_iff)
  ultimately have "timer_ok (t\<lparr>tm_wheel := ?w\<rparr>)"
    by (intro timer_ok_subset [OF assms(1)]) (simp_all only: ran_cancel)
  then show ?thesis using w(1) a by (intro that [of "t\<lparr>tm_wheel := ?w\<rparr>"]) (simp_all add: handle_drop_def keeps_clock_def)
qed

section \<open>Stopping\<close>

lemma stop_wheel_spec:
  assumes "wheel_ok (tm_wheel t)"
  obtains t' where "stop_wheel t = Some t'" "timer_ok t'" "armed (tm_wheel t') = Map.empty"
    "tm_elapsed t' = 0" "tm_units t' = None" "tm_elapsed_time t' = None" "tm_generation t' = tm_generation t"
    "dom (wh_timers (tm_wheel t')) = dom (wh_timers (tm_wheel t))"
proof -
  define w nos where "w = tm_wheel t" and "nos = (\<Union>idx < 512. ran (wh_buckets (tm_wheel t) idx))"
  note ok = wheel_okD [OF assms, folded w_def] and rb = ran_bucket [OF assms, folded w_def]
  have nos: "no \<in> nos \<longleftrightarrow> armed w no \<noteq> None" for no
    using rb armed_bound [OF assms] by (fastforce simp: nos_def w_def)
  have dom: "nos \<subseteq> dom (wh_timers w)" using nos by (auto simp: armed_def bind_eq_Some_conv)
  have buckets: "wh_buckets w idx = Map.empty" if "\<not> idx < 512" for idx
    using that bucket_nonempty [OF assms, of idx] armed_bound [OF assms] by (auto simp: w_def ran_def)
  define w' where "w' = w\<lparr>wh_timers := (\<lambda>no. if no \<in> nos then map_option (\<lambda>e. e\<lparr>te_bucket := None\<rparr>) (wh_timers w no)
                                   else wh_timers w no),
                 wh_buckets := (\<lambda>idx. if idx < 512 then Map.empty else wh_buckets w idx),
                 wh_occupied := (\<lambda>_. 0),
                 wh_callbacks := map_option (\<lambda>c. c\<lparr>cb_ready := {}\<rparr>) (wh_callbacks w)\<rparr>"
  define t' where "t' = (timer_remove_flags {DRIVER_STARTED} t)\<lparr>tm_wheel := w',
     tm_next_expiry := U64_MAX, tm_elapsed := 0, tm_elapsed_time := None, tm_units := None\<rparr>"
  have none: "te_bucket e = None" if "wh_timers w' no = Some e" for no e
    using that nos [of no] by (auto simp: w'_def armed_def split: if_splits)
  then have a: "armed w' = Map.empty" by (auto simp: armed_def fun_eq_iff split: Option.bind_split)
  have bk: "wh_buckets w' = (\<lambda>_. Map.empty)" by (simp add: w'_def fun_eq_iff buckets)
  have "wheel_ok w'"
  proof (rule wheel_okI)
    fix no e assume "wh_timers w' no = Some e" "te_callback e"
    then show "\<exists>c. wh_callbacks w' = Some c \<and> no \<in> dom (cb_entries c)"
      using ok(4) [of no] by (fastforce simp: w'_def split: if_splits)
  next
    show "wh_buckets w' idx key = Some no \<Longrightarrow> \<exists>e. wh_timers w' no = Some e \<and> te_bucket e = Some idx \<and> te_bucket_entry e = key"
      for idx key no by (simp add: bk)
    show "bit (wh_occupied w' (idx div LVL_SIZE)) (idx mod LVL_SIZE) = (wh_buckets w' idx \<noteq> Map.empty)" for idx
      using bk by (simp add: fun_eq_iff) (simp add: w'_def)
    show "idx < WHEEL_SIZE \<and> wh_buckets w' idx (te_bucket_entry e) = Some no"
      if "wh_timers w' no = Some e" "te_bucket e = Some idx" for no e idx
      using none [OF that(1)] that(2) by simp
  qed
  moreover have "0 < U64_MAX" by (simp add: U64_MAX_def)
  ultimately have "timer_ok t'" using a by (simp add: timer_ok_def t'_def scheduled_def)
  moreover have "stop_wheel t = Some t'"
    using dom by (simp add: stop_wheel_def t'_def w'_def w_def nos_def timer_remove_flags_def Let_def cong: if_cong)
  moreover have "dom (wh_timers w') = dom (wh_timers w)" by (auto simp: w'_def split: if_splits)
  ultimately show ?thesis using a by (intro that [of t']) (simp_all add: t'_def timer_remove_flags_def w_def)
qed

lemma stop_lowres_timer:
  "tm_wheel (stop_lowres t) = tm_wheel t" "tm_elapsed (stop_lowres t) = tm_elapsed t"
  "tm_next_expiry (stop_lowres t) = tm_next_expiry t" "tm_elapsed_time (stop_lowres t) = tm_elapsed_time t"
  "tm_units (stop_lowres t) = tm_units t" "tm_generation (stop_lowres t) = tm_generation t"
  "DRIVER_STARTED \<in> tm_flags (stop_lowres t) \<longleftrightarrow> DRIVER_STARTED \<in> tm_flags t"
  by (auto simp: stop_lowres_def timer_remove_flags_def)

lemma timer_reset_spec:
  assumes "timer_ok t"
  obtains t' where "timer_reset t = Some t'" "timer_ok t'" "armed (tm_wheel t') = Map.empty"
    "tm_generation t' = wrapping_add (tm_generation t) 1"
proof -
  let ?t = "t\<lparr>tm_generation := wrapping_add (tm_generation t) 1\<rparr>"
  have "wheel_ok (tm_wheel ?t)" using timer_okD(1) [OF assms] by simp
  then obtain t1 where t1: "stop_wheel ?t = Some t1" "timer_ok t1" "armed (tm_wheel t1) = Map.empty"
      "tm_generation t1 = tm_generation ?t"
    by (rule stop_wheel_spec)
  have "timer_ok (stop_lowres t1)" using t1(2) by (simp add: timer_ok_def stop_lowres_timer)
  then show ?thesis using t1 by (intro that [of "stop_lowres t1"]) (simp_all add: timer_reset_def stop_lowres_timer)
qed

section \<open>The driver\<close>

text \<open>Processing the next expiry: the timers of the buckets due there expire, the others keep their instant.\<close>

lemma armed_due_next:
  assumes "timer_ok t" "armed (tm_wheel t) no = Some idx"
  shows "bucket_expiry (tm_next_expiry t) idx = bucket_expiry (tm_elapsed t) idx"
  using timer_ok_armed [OF assms] by (intro bucket_expiry_stable) simp_all

lemma to_millis_add: "to_millis (a + b) u = to_millis a u + to_millis b u"
  by (simp add: to_millis_def algebra_simps)

lemma clear_ready_ok:
  assumes "wheel_ok w"
  defines "w' \<equiv> w\<lparr>wh_callbacks := map_option (\<lambda>c. c\<lparr>cb_ready := {}\<rparr>) (wh_callbacks w)\<rparr>"
  shows "wheel_ok w'" "armed w' = armed w"
proof -
  show "wheel_ok w'"
  proof (rule wheel_okI)
    fix no e assume "wh_timers w' no = Some e" "te_callback e"
    then show "\<exists>c. wh_callbacks w' = Some c \<and> no \<in> dom (cb_entries c)"
      using wheel_okD(4) [OF assms(1), of no e] by (auto simp: w'_def)
  qed (use wheel_okD(1-3) [OF assms(1)] in \<open>auto simp: w'_def\<close>)
  show "armed w' = armed w" by (simp add: w'_def armed_def fun_eq_iff)
qed

text \<open>What stays armed is due after the expiry that was processed.\<close>

lemma armed_later:
  assumes "timer_ok t" "(armed (tm_wheel t) |` (- due_timers (tm_next_expiry t) (armed (tm_wheel t)))) no = Some idx"
  shows "armed (tm_wheel t) no = Some idx"
    "bucket_expiry (tm_next_expiry t) idx = bucket_expiry (tm_elapsed t) idx"
    "tm_next_expiry t < bucket_expiry (tm_next_expiry t) idx" "bucket_expiry (tm_next_expiry t) idx < U64_MAX"
proof -
  show a: "armed (tm_wheel t) no = Some idx" using assms(2) by (simp add: restrict_map_def split: if_splits)
  show s: "bucket_expiry (tm_next_expiry t) idx = bucket_expiry (tm_elapsed t) idx" using armed_due_next [OF assms(1) a] .
  have "no \<notin> due_timers (tm_next_expiry t) (armed (tm_wheel t))"
    using assms(2) by (auto simp: restrict_map_def split: if_splits)
  then show "tm_next_expiry t < bucket_expiry (tm_next_expiry t) idx"
    using timer_ok_armed(2) [OF assms(1) a] s a by (force simp: due_timers_def)
  show "bucket_expiry (tm_next_expiry t) idx < U64_MAX" using timer_ok_armed(3) [OF assms(1) a] s by simp
qed

lemma process_bucket_spec:
  assumes "timer_ok t" "tm_next_expiry t < U64_MAX" "expiry_time now (tm_next_expiry t) t = (deadline, t0)"
  defines "D \<equiv> due_timers (tm_next_expiry t) (armed (tm_wheel t))"
  obtains cbs t' where
    "process_bucket (tm_next_expiry t) deadline t =
       Some (Fired (woken_tasks D (wh_timers (tm_wheel t))) cbs, t')"
    "timer_ok t'" "armed (tm_wheel t') = armed (tm_wheel t) |` (- D)" "tm_generation t' = tm_generation t"
    "wh_timers (tm_wheel t') = expire_timers D (wh_timers (tm_wheel t))"
    "\<And>no idx. armed (tm_wheel t') no = Some idx \<Longrightarrow> due_time t' idx = due_time t idx"
    "\<And>no idx. no \<in> D \<Longrightarrow> armed (tm_wheel t) no = Some idx \<Longrightarrow> due_time t idx = deadline"
    "tm_next_expiry t' = (if ran (armed (tm_wheel t')) = {} then U64_MAX
       else Min (bucket_expiry (tm_elapsed t') ` ran (armed (tm_wheel t'))))"
    "tm_elapsed t' = tm_next_expiry t"
proof -
  let ?x = "tm_next_expiry t" and ?A = "armed (tm_wheel t)"
  obtain et u where et: "tm_elapsed_time t = Some et" "tm_units t = Some u"
    using timer_okD(4,5) [OF assms(1,2)] by blast
  have dl: "deadline = et + from_millis (to_millis (?x - tm_elapsed t) u)"
    using assms(3) et by (auto simp: expiry_time_def elapsed_time_def)
  have ex: "tm_elapsed t < ?x" using timer_okD(2) [OF assms(1)] by (simp add: scheduled_def)
  obtain w where w: "execute_expired_timers ?x (tm_wheel t) = Some (w, woken_tasks D (wh_timers (tm_wheel t)))"
      "wheel_ok w" "wh_timers w = expire_timers D (wh_timers (tm_wheel t))" "armed w = ?A |` (- D)"
    unfolding D_def by (rule execute_expired_spec [OF timer_okD(1) [OF assms(1)]])
  define w' where "w' = w\<lparr>wh_callbacks := map_option (\<lambda>c. c\<lparr>cb_ready := {}\<rparr>) (wh_callbacks w)\<rparr>"
  have w': "wheel_ok w'" "armed w' = ?A |` (- D)" "wh_timers w' = expire_timers D (wh_timers (tm_wheel t))"
    using clear_ready_ok [OF w(2)] w(3,4) by (simp_all add: w'_def)
  note later = armed_later [OF assms(1), folded D_def, folded w'(2)]
  define t1 where "t1 = t\<lparr>tm_elapsed := ?x, tm_elapsed_time := Some deadline, tm_wheel := w'\<rparr>"
  define t' where "t' = (case next_pending_bucket t1 of Some next \<Rightarrow> t1\<lparr>tm_next_expiry := next\<rparr>
               | None \<Rightarrow> t1\<lparr>tm_next_expiry := U64_MAX, tm_elapsed_time := None\<rparr>)"
  have np: "next_pending_bucket t1 = (if ran (armed w') = {} then None
     else Some (Min (bucket_expiry ?x ` ran (armed w'))))"
  proof -
    have f: "tm_wheel t1 = w'" "tm_elapsed t1 = ?x" by (simp_all add: t1_def)
    have "bucket_expiry ?x idx < U64_MAX" if "idx \<in> ran (armed w')" for idx
      using that later(4) by (auto simp: ran_def)
    then show ?thesis using next_pending_spec [of t1, unfolded f] w'(1) by blast
  qed
  have t': "tm_wheel t' = w'" "tm_elapsed t' = ?x" "tm_units t' = Some u" "tm_generation t' = tm_generation t"
      "tm_flags t' = tm_flags t"
      "tm_next_expiry t' = (if ran (armed w') = {} then U64_MAX else Min (bucket_expiry ?x ` ran (armed w')))"
      "ran (armed w') \<noteq> {} \<Longrightarrow> tm_elapsed_time t' = Some deadline"
    using et(2) by (simp_all add: t'_def t1_def np [unfolded t1_def])
  have fin: "finite (bucket_expiry ?x ` ran (armed w'))" using finite_armed [OF w'(1)] by simp
  have min: "Min (bucket_expiry ?x ` ran (armed w')) \<in> bucket_expiry ?x ` ran (armed w')" if "ran (armed w') \<noteq> {}"
    using fin that by (intro Min_in) simp_all
  have "timer_ok t'"
  proof -
    have "scheduled ?x (tm_next_expiry t') (armed w')"
    proof (rule scheduled_advance [OF timer_okD(2) [OF assms(1)]])
      show "armed w' = ?A |` (- {no. \<exists>idx. ?A no = Some idx \<and> bucket_expiry ?x idx = ?x})"
        by (simp add: w'(2) D_def due_timers_def)
      show "tm_next_expiry t' \<le> bucket_expiry ?x idx" if "idx \<in> ran (armed w')" for idx
        using that fin by (auto simp: t'(6) intro: Min_le)
      show "?x < tm_next_expiry t'"
      proof (cases "ran (armed w') = {}")
        case True
        then show ?thesis using assms(2) by (simp add: t'(6))
      next
        case False
        from min [OF False] obtain no idx where "armed w' no = Some idx"
            "Min (bucket_expiry ?x ` ran (armed w')) = bucket_expiry ?x idx"
          by (auto simp: ran_def)
        then show ?thesis using False later(3) [of no idx] by (simp add: t'(6))
      qed
    qed
    moreover have "tm_next_expiry t' \<le> U64_MAX" "tm_next_expiry t' < U64_MAX \<Longrightarrow> tm_elapsed_time t' \<noteq> None"
      using min later(4) t'(7) by (force simp: t'(6) ran_def split: if_splits)+
    moreover have "DRIVER_STARTED \<in> tm_flags t'" using timer_okD(6) [OF assms(1,2)] t'(5) by simp
    ultimately show ?thesis using t'(1-3) w'(1) by (simp add: timer_ok_def)
  qed
  moreover have "process_bucket ?x deadline t = Some (Fired (woken_tasks D (wh_timers (tm_wheel t)))
      (case wh_callbacks w of None \<Rightarrow> {} | Some c \<Rightarrow> cb_ready c), t')"
    using w(1) by (simp add: process_bucket_def w'_def t1_def t'_def Let_def cong: option.case_cong)
  moreover have "due_time t' idx = due_time t idx" if "armed w' no = Some idx" for no idx
  proof -
    have "ran (armed w') \<noteq> {}" using that by (auto simp: ran_def)
    moreover have "bucket_expiry (tm_elapsed t) idx - tm_elapsed t
        = (?x - tm_elapsed t) + (bucket_expiry (tm_elapsed t) idx - ?x)"
      using later(2,3) [OF that] ex by simp
    ultimately show ?thesis using t' later(2) [OF that] et
      by (simp add: due_time_def dl to_millis_add from_millis_add)
  qed
  moreover have "due_time t idx = deadline" if "no \<in> D" "?A no = Some idx" for no idx
    using that armed_due_next [OF assms(1) that(2)] et by (auto simp: D_def due_timers_def due_time_def dl)
  ultimately show ?thesis using t' w'(2,3) by (intro that [of _ t']) simp_all
qed

text \<open>The timers that are due by an instant.\<close>

definition overdue :: "nat \<Rightarrow> 'w Timer \<Rightarrow> nat set" where
  "overdue now t = {no. \<exists>idx. armed (tm_wheel t) no = Some idx \<and> due_time t idx \<le> now}"

lemma due_time_from_expiry:
  assumes "timer_ok t" "armed (tm_wheel t) no = Some idx" "expiry_time now (tm_next_expiry t) t = (deadline, t')"
  shows "deadline \<le> due_time t idx"
proof -
  obtain et u where et: "tm_elapsed_time t = Some et" "tm_units t = Some u"
    using timer_okD(4,5) [OF assms(1) timer_ok_armed(4) [OF assms(1,2)]] by blast
  have "to_millis (tm_next_expiry t - tm_elapsed t) u \<le> to_millis (bucket_expiry (tm_elapsed t) idx - tm_elapsed t) u"
    unfolding to_millis_def by (intro mult_le_mono1 diff_le_mono timer_ok_armed(2) [OF assms(1,2)])
  then show ?thesis using assms(3) et from_millis_mono by (auto simp: expiry_time_def elapsed_time_def due_time_def)
qed

text \<open>The cases of a round.\<close>

lemma driver_round_cases:
  assumes "timer_ok t"
  obtains (Wait) d' where "driver_round now ready d t = Some (Wait, d', t)" "overdue now t = {}"
  | (Rearm) d' where "driver_round now ready d t = Some (Rearm, d', t)" ready
  | (Fired) cbs t' D where "D = due_timers (tm_next_expiry t) (armed (tm_wheel t))"
    "driver_round now ready d t = Some (Fired (woken_tasks D (wh_timers (tm_wheel t))) cbs, d, t')"
    "D \<subseteq> overdue now t" "timer_ok t'" "armed (tm_wheel t') = armed (tm_wheel t) |` (- D)"
    "wh_timers (tm_wheel t') = expire_timers D (wh_timers (tm_wheel t))"
    "\<And>no idx. armed (tm_wheel t') no = Some idx \<Longrightarrow> due_time t' idx = due_time t idx"
    "tm_next_expiry t' = (if ran (armed (tm_wheel t')) = {} then U64_MAX
       else Min (bucket_expiry (tm_elapsed t') ` ran (armed (tm_wheel t'))))"
    "tm_elapsed t' = tm_next_expiry t" "tm_generation t' = tm_generation t"
proof (cases "tm_next_expiry t = U64_MAX")
  case True
  then have "armed (tm_wheel t) no \<noteq> Some idx" for no idx using timer_ok_armed(4) [OF assms, of no idx] by auto
  then show ?thesis using Wait [of d] True by (simp add: driver_round_def overdue_def)
next
  case False
  then have nx: "tm_next_expiry t < U64_MAX" using timer_okD(3) [OF assms] by simp
  obtain deadline t0 where ex: "expiry_time now (tm_next_expiry t) t = (deadline, t0)" by fastforce
  then have t0: "t0 = t" using timer_okD(4) [OF assms nx] by (auto simp: expiry_time_def elapsed_time_def)
  show ?thesis
  proof (cases "deadline > now")
    case True
    have "overdue now t = {}" using due_time_from_expiry [OF assms _ ex] True by (fastforce simp: overdue_def)
    then show ?thesis using True False ex t0 Wait Rearm by (cases ready) (auto simp: driver_round_def)
  next
    case le: False
    define D where "D = due_timers (tm_next_expiry t) (armed (tm_wheel t))"
    obtain cbs t' where pb: "process_bucket (tm_next_expiry t) deadline t =
       Some (Fired (woken_tasks D (wh_timers (tm_wheel t))) cbs, t')"
    "timer_ok t'" "armed (tm_wheel t') = armed (tm_wheel t) |` (- D)" "tm_generation t' = tm_generation t"
    "wh_timers (tm_wheel t') = expire_timers D (wh_timers (tm_wheel t))"
    "\<And>no idx. armed (tm_wheel t') no = Some idx \<Longrightarrow> due_time t' idx = due_time t idx"
    "\<And>no idx. no \<in> D \<Longrightarrow> armed (tm_wheel t) no = Some idx \<Longrightarrow> due_time t idx = deadline"
    "tm_next_expiry t' = (if ran (armed (tm_wheel t')) = {} then U64_MAX
       else Min (bucket_expiry (tm_elapsed t') ` ran (armed (tm_wheel t'))))"
    "tm_elapsed t' = tm_next_expiry t"
      by (rule process_bucket_spec [OF assms nx ex, folded D_def]) (rule that)
    show ?thesis
    proof (rule Fired [OF D_def _ _ pb(2,3,5,6,8,9,4)])
      show "driver_round now ready d t = Some (Fired (woken_tasks D (wh_timers (tm_wheel t))) cbs, d, t')"
        using False le ex t0 pb(1) by (simp add: driver_round_def)
      show "D \<subseteq> overdue now t" using pb(7) le by (fastforce simp: overdue_def D_def due_timers_def)
    qed
  qed
qed

text \<open>
  How many rounds of processing the driver can still take: one for each bucket with timers, and one
  more when the next expiry is stale, because the timers it was set for have been cancelled.
\<close>

definition pending_rounds :: "'w Timer \<Rightarrow> nat" where
  "pending_rounds t = card (ran (armed (tm_wheel t))) +
     of_bool (tm_next_expiry t \<noteq> U64_MAX \<and> tm_next_expiry t \<notin> bucket_expiry (tm_elapsed t) ` ran (armed (tm_wheel t)))"

lemma pending_rounds_exact:
  assumes "wheel_ok (tm_wheel t)" "tm_next_expiry t = (if ran (armed (tm_wheel t)) = {} then U64_MAX
       else Min (bucket_expiry (tm_elapsed t) ` ran (armed (tm_wheel t))))"
  shows "pending_rounds t = card (ran (armed (tm_wheel t)))"
  using assms(2) Min_in [of "bucket_expiry (tm_elapsed t) ` ran (armed (tm_wheel t))"] finite_armed [OF assms(1)]
  by (auto simp: pending_rounds_def split: if_splits)

lemma pending_rounds_bound:
  assumes "wheel_ok (tm_wheel t)"
  shows "pending_rounds t \<le> 513"
proof -
  have "ran (armed (tm_wheel t)) \<subseteq> {..<512}"
    using armed_bound [OF assms] by (auto simp only: ran_def mem_Collect_eq lessThan_iff)
  then have "card (ran (armed (tm_wheel t))) \<le> 512" using card_mono [of "{..<512 :: nat}"] by simp
  then show ?thesis by (simp add: pending_rounds_def)
qed

lemma pending_rounds_less:
  assumes "timer_ok t" "tm_next_expiry t \<noteq> U64_MAX" "timer_ok t'"
    and "armed (tm_wheel t') = armed (tm_wheel t) |` (- due_timers (tm_next_expiry t) (armed (tm_wheel t)))"
    and "tm_next_expiry t' = (if ran (armed (tm_wheel t')) = {} then U64_MAX
       else Min (bucket_expiry (tm_elapsed t') ` ran (armed (tm_wheel t'))))"
  shows "pending_rounds t' < pending_rounds t"
proof -
  let ?R = "ran (armed (tm_wheel t))" and ?R' = "ran (armed (tm_wheel t'))" and ?x = "tm_next_expiry t"
  have sub: "?R' \<subseteq> ?R" unfolding assms(4) by (rule ran_restrict)
  have fin: "finite ?R" using finite_armed [OF timer_okD(1) [OF assms(1)]] .
  have le: "card ?R' \<le> card ?R" using card_mono [OF fin sub] .
  have "card ?R' < card ?R" if x: "?x \<in> bucket_expiry (tm_elapsed t) ` ?R"
  proof -
    obtain idx no where i: "?x = bucket_expiry (tm_elapsed t) idx" "armed (tm_wheel t) no = Some idx"
      using x by (auto simp: ran_def)
    have b: "bucket_expiry ?x idx = ?x" using armed_due_next [OF assms(1) i(2)] i(1) by simp
    then have "idx \<notin> ?R'" by (auto simp: assms(4) ran_def restrict_map_def due_timers_def split: if_splits)
    then have "?R' \<subset> ?R" using sub i(2) by (auto simp: ran_def)
    then show ?thesis by (rule psubset_card_mono [OF fin])
  qed
  then show ?thesis using le assms(2) pending_rounds_exact [OF timer_okD(1) [OF assms(3)] assms(5)]
    by (auto simp: pending_rounds_def [of t])
qed

lemma overdue_Fired:
  assumes "armed (tm_wheel t') = armed (tm_wheel t) |` (- D)"
    "\<And>no idx. armed (tm_wheel t') no = Some idx \<Longrightarrow> due_time t' idx = due_time t idx"
  shows "overdue now t' = overdue now t - D"
proof -
  have "armed (tm_wheel t') no = Some idx \<longleftrightarrow> armed (tm_wheel t) no = Some idx \<and> no \<notin> D" for no idx
    by (simp add: assms(1) restrict_map_def)
  then show ?thesis using assms(2) by (fastforce simp: overdue_def)
qed

text \<open>
  With enough rounds the driver neither panics nor goes on for ever. It expires only timers that are
  due, and all of them unless callbacks have to be delivered first.
\<close>

lemma driver_loop_spec:
  assumes "timer_ok t" "pending_rounds t + length polls < fuel"
  shows "\<exists>r d' t' E. driver_loop fuel now polls W d t = (r, d', t') \<and> timer_ok t' \<and> E \<subseteq> overdue now t
    \<and> armed (tm_wheel t') = armed (tm_wheel t) |` (- E)
    \<and> wh_timers (tm_wheel t') = expire_timers E (wh_timers (tm_wheel t))
    \<and> (r = Waiting (W \<union> woken_tasks E (wh_timers (tm_wheel t))) \<and> E = overdue now t
       \<or> (\<exists>cbs. cbs \<noteq> {} \<and> r = Deliver (W \<union> woken_tasks E (wh_timers (tm_wheel t))) cbs))"
  using assms
proof (induction fuel arbitrary: polls W d t)
  case 0
  then show ?case by simp
next
  case (Suc n)
  let ?ready = "polls \<noteq> [] \<and> hd polls"
  have full: "armed (tm_wheel t) = armed (tm_wheel t) |` (- {})" by (simp add: restrict_map_def)
  show ?case
  proof (rule driver_round_cases [OF Suc(2), of now ?ready d])
    fix d' assume "driver_round now ?ready d t = Some (Wait, d', t)" "overdue now t = {}"
    then show ?thesis using Suc(2) full by (intro exI [of _ "Waiting W"] exI [of _ d'] exI [of _ t] exI [of _ "{}"]) simp
  next
    fix d' assume *: "driver_round now ?ready d t = Some (Rearm, d', t)" ?ready
    then have "pending_rounds t + length (tl polls) < n" using Suc(3) by (cases polls) auto
    then show ?thesis using Suc(1) [OF Suc(2), of "tl polls" W d'] * by simp
  next
    fix cbs t1 D
    assume D: "D = due_timers (tm_next_expiry t) (armed (tm_wheel t))"
      and r: "driver_round now ?ready d t = Some (Fired (woken_tasks D (wh_timers (tm_wheel t))) cbs, d, t1)"
      and sub: "D \<subseteq> overdue now t" and ok: "timer_ok t1" and a1: "armed (tm_wheel t1) = armed (tm_wheel t) |` (- D)"
      and ts: "wh_timers (tm_wheel t1) = expire_timers D (wh_timers (tm_wheel t))"
      and due: "\<And>no idx. armed (tm_wheel t1) no = Some idx \<Longrightarrow> due_time t1 idx = due_time t idx"
      and nx: "tm_next_expiry t1 = (if ran (armed (tm_wheel t1)) = {} then U64_MAX
       else Min (bucket_expiry (tm_elapsed t1) ` ran (armed (tm_wheel t1))))"
    show ?thesis
    proof (cases "cbs = {}")
      case False
      then show ?thesis using r ok sub a1 ts by (simp, intro exI [of _ D]) simp
    next
      case True
      have "tm_next_expiry t \<noteq> U64_MAX" using r by (auto simp: driver_round_def)
      then have "pending_rounds t1 < pending_rounds t" using pending_rounds_less [OF Suc(2) _ ok a1 [unfolded D] nx] by simp
      then have fuel: "pending_rounds t1 + length polls < n" using Suc(3) by simp
      obtain r' d' t' E where IH: "driver_loop n now polls (W \<union> woken_tasks D (wh_timers (tm_wheel t))) d t1 = (r', d', t')"
        "timer_ok t'" "E \<subseteq> overdue now t1" "armed (tm_wheel t') = armed (tm_wheel t1) |` (- E)"
        "wh_timers (tm_wheel t') = expire_timers E (wh_timers (tm_wheel t1))"
        "r' = Waiting (W \<union> woken_tasks D (wh_timers (tm_wheel t)) \<union> woken_tasks E (wh_timers (tm_wheel t1))) \<and> E = overdue now t1
       \<or> (\<exists>cbs. cbs \<noteq> {} \<and> r' = Deliver (W \<union> woken_tasks D (wh_timers (tm_wheel t)) \<union> woken_tasks E (wh_timers (tm_wheel t1))) cbs)"
        using Suc(1) [OF ok fuel, of "W \<union> woken_tasks D (wh_timers (tm_wheel t))" d] by blast
      have od: "overdue now t1 = overdue now t - D" using overdue_Fired [OF a1 due] .
      then have dis: "D \<inter> E = {}" using IH(3) by blast
      have wk: "W \<union> woken_tasks D (wh_timers (tm_wheel t)) \<union> woken_tasks E (wh_timers (tm_wheel t1))
          = W \<union> woken_tasks (D \<union> E) (wh_timers (tm_wheel t))"
        by (simp add: ts Un_assoc woken_tasks_Un [OF dis])
      show ?thesis
      proof (intro exI conjI)
        show "driver_loop (Suc n) now polls W d t = (r', d', t')" using r True IH(1) by simp
        show "timer_ok t'" by (rule IH(2))
        show "D \<union> E \<subseteq> overdue now t" using sub IH(3) od by blast
        show "armed (tm_wheel t') = armed (tm_wheel t) |` (- (D \<union> E))" by (simp add: IH(4) a1 Int_commute)
        show "wh_timers (tm_wheel t') = expire_timers (D \<union> E) (wh_timers (tm_wheel t))"
          by (simp add: IH(5) ts expire_timers_Un [OF dis])
        show "r' = Waiting (W \<union> woken_tasks (D \<union> E) (wh_timers (tm_wheel t))) \<and> D \<union> E = overdue now t
       \<or> (\<exists>cbs. cbs \<noteq> {} \<and> r' = Deliver (W \<union> woken_tasks (D \<union> E) (wh_timers (tm_wheel t))) cbs)"
          using IH(6) sub od unfolding wk by blast
      qed
    qed
  qed
qed

end
