(* ===== verification/Timer_Run.thy ===== *)
theory Timer_Run
  imports Timer_Driver
begin

text \<open>
  Runs of the timer wheel: the handle operations, the driver and the end of the runtime as steps,
  the invariant of the states they reach, and the properties of the wheel over such runs.
\<close>


section \<open>Runs\<close>

text \<open>
  A step is an operation of a handle, a round of the driver, the end of the runtime or the passing of
  time. The third argument is the earliest instant at which a timer was asked to fire; it is not set
  for a delay beyond the capacity of the wheel, which is shortened. The handles are those of plain
  timers; callback timers, whose tickets a driver round may hand over for delivery, are in
  \<open>Timer_Callback\<close>.
\<close>

definition requested :: "nat \<Rightarrow> nat \<Rightarrow> nat \<Rightarrow> nat \<Rightarrow> 'w Timer \<Rightarrow> nat option" where
  "requested sys_units now now' millis t =
     (if millis = 0 \<or> WHEEL_TIMEOUT_CUTOFF \<le> wheel_delay sys_units now now' millis t then None
      else Some (now + from_millis millis))"

definition slot_free :: "nat \<Rightarrow> nat \<Rightarrow> nat \<Rightarrow> nat \<Rightarrow> nat \<Rightarrow> 'w Timer \<Rightarrow> bool" where
  "slot_free sys_units now now' key millis t \<longleftrightarrow>
     millis = 0 \<or> bucket_free (tm_wheel t) (fst (fst (calc_bucket sys_units now now' millis t))) key"

inductive timer_run :: "nat \<Rightarrow> 'w Timer \<Rightarrow> (nat \<rightharpoonup> nat) \<Rightarrow> bool" where
  Init: "timer_run now timer_new Map.empty"
| Clock: "\<lbrakk>timer_run now t req; now \<le> now'\<rbrakk> \<Longrightarrow> timer_run now' t req"
| Add: "\<lbrakk>timer_run now t req; now \<le> now'; tm_elapsed t < 2 ^ 63; wh_timers (tm_wheel t) no = None;
     slot_free u now now' key millis t; add_timer u now now' no key millis t = Some (call, t')\<rbrakk>
    \<Longrightarrow> timer_run now' t' (req(no := requested u now now' millis t))"
| Reset: "\<lbrakk>timer_run now t req; now \<le> now'; tm_elapsed t < 2 ^ 63; no \<in> dom (wh_timers (tm_wheel t));
     slot_free u now now' key millis t; update_timer u now now' key no millis t = Some (call, task, t')\<rbrakk>
    \<Longrightarrow> timer_run now' t' (req(no := requested u now now' millis t))"
| Elapse: "\<lbrakk>timer_run now t req; no \<in> dom (wh_timers (tm_wheel t)); remove_timer no t = Some (task, t')\<rbrakk>
    \<Longrightarrow> timer_run now t' (req(no := None))"
| Poll: "\<lbrakk>timer_run now t req; no \<in> dom (wh_timers (tm_wheel t)); poll_elapsed will_wake waker no t = Some (r, t')\<rbrakk>
    \<Longrightarrow> timer_run now t' req"
| Drop: "\<lbrakk>timer_run now t req; no \<in> dom (wh_timers (tm_wheel t)); handle_drop no t = Some t'\<rbrakk>
    \<Longrightarrow> timer_run now t' (req(no := None))"
| Drive: "\<lbrakk>timer_run now t req; driver_round now ready d t = Some (r, d', t')\<rbrakk> \<Longrightarrow> timer_run now t' req"
| Driver_Drop: "\<lbrakk>timer_run now t req; driver_drop d t = Some t'\<rbrakk> \<Longrightarrow> timer_run now t' req"
| System_Stop: "\<lbrakk>timer_run now t req; timer_reset t = Some t'\<rbrakk> \<Longrightarrow> timer_run now t' req"

text \<open>No timer is due before the instant asked for.\<close>

definition not_before :: "(nat \<rightharpoonup> nat) \<Rightarrow> 'w Timer \<Rightarrow> bool" where
  "not_before req t \<longleftrightarrow> (\<forall>no idx inst. armed (tm_wheel t) no = Some idx \<longrightarrow> req no = Some inst \<longrightarrow> inst \<le> due_time t idx)"

lemma not_before_subset:
  assumes "not_before req t" "armed (tm_wheel t') \<subseteq>\<^sub>m armed (tm_wheel t)"
    "\<And>no idx. armed (tm_wheel t') no = Some idx \<Longrightarrow> due_time t' idx = due_time t idx" "req' \<subseteq>\<^sub>m req"
  shows "not_before req' t'"
  unfolding not_before_def
proof (intro allI impI)
  fix no idx inst assume a: "armed (tm_wheel t') no = Some idx" "req' no = Some inst"
  then have "req no = Some inst" "armed (tm_wheel t) no = Some idx"
    using assms(2,4) unfolding map_le_def by (metis domI)+
  then have "inst \<le> due_time t idx" using assms(1) unfolding not_before_def by blast
  then show "inst \<le> due_time t' idx" using assms(3) [OF a(1)] by simp
qed

lemma not_before_cancel:
  assumes "not_before req t" "armed (tm_wheel t') = (armed (tm_wheel t))(no := None)" "keeps_clock t t'"
  shows "not_before (req(no := None)) t'"
  by (rule not_before_subset [OF assms(1)]) (use assms(2) keeps_clock_due [OF assms(3)] in simp_all)

lemma not_before_arm:
  assumes "timer_ok t" "not_before req t" "tm_elapsed t < 2 ^ 63" "now \<le> now'" "0 < millis"
    and cb: "calc_bucket u now now' millis t = ((idx, expiry), t1)"
    and t': "armed (tm_wheel t') = (armed (tm_wheel t))(no \<mapsto> idx)" "keeps_clock t1 t'"
  shows "not_before (req(no := requested u now now' millis t)) t'"
  unfolding not_before_def
proof (intro allI impI)
  fix no' idx' inst
  assume a: "armed (tm_wheel t') no' = Some idx'" "(req(no := requested u now now' millis t)) no' = Some inst"
  show "inst \<le> due_time t' idx'"
  proof (cases "no' = no")
    case True
    then have "idx' = idx" "inst = now + from_millis millis" "wheel_delay u now now' millis t < WHEEL_TIMEOUT_CUTOFF"
      using a t'(1) by (auto simp: requested_def split: if_splits)
    then show ?thesis using calc_bucket_due(5) [OF assms(3,4) cb] keeps_clock_due [OF t'(2)] by simp
  next
    case False
    then have o: "armed (tm_wheel t) no' = Some idx'" "req no' = Some inst" using a t'(1) by simp_all
    have "keeps_clock t t1" using calc_bucket_timer(8) [OF cb assms(1) timer_ok_armed(4) [OF assms(1) o(1)]] .
    then show ?thesis using assms(2) o keeps_clock_due [OF t'(2)] keeps_clock_due [of t t1] by (simp add: not_before_def)
  qed
qed

lemma add_zero_spec:
  assumes "timer_ok t" "wh_timers (tm_wheel t) no = None" "add_timer u now now' no key 0 t = Some (call, t')"
  shows "timer_ok t'" "armed (tm_wheel t') = armed (tm_wheel t)" "keeps_clock t t'"
proof -
  let ?w = "(tm_wheel t)\<lparr>wh_timers := (wh_timers (tm_wheel t))(no \<mapsto> new_entry)\<rparr>"
  have t': "t' = t\<lparr>tm_wheel := ?w\<rparr>" using assms(3) by (simp add: add_timer_def Let_def)
  note w = insert_entry_ok [OF timer_okD(1) [OF assms(1)] assms(2)]
  show "timer_ok t'" unfolding t' using timer_ok_subset [OF assms(1) w(1)] w(2) by simp
  show "armed (tm_wheel t') = armed (tm_wheel t)" "keeps_clock t t'" using w(2) by (simp_all add: t' keeps_clock_def)
qed

text \<open>The invariant of a run.\<close>

lemma timer_run_inv:
  assumes "timer_run now t req"
  shows "timer_ok t \<and> not_before req t"
  using assms
proof induction
  case (Init now)
  have "armed (tm_wheel (timer_new :: 'a Timer)) = Map.empty" by (auto simp: timer_new_def armed_def new_entry_def)
  then show ?case using timer_new_ok by (auto simp: not_before_def)
next
  case (Clock now t req now')
  then show ?case by simp
next
  case (Add now t req now' no u key millis call t')
  then have ok: "timer_ok t" "not_before req t" by simp_all
  show ?case
  proof (cases "millis = 0")
    case True
    note z = add_zero_spec [OF ok(1) Add(4) Add(6) [unfolded True]]
    have r: "requested u now now' millis t = None" by (simp add: requested_def True)
    have "not_before (req(no := None)) t'"
      by (rule not_before_subset [OF ok(2)]) (use z(2) keeps_clock_due [OF z(3)] in simp_all)
    then show ?thesis using z(1) r by metis
  next
    case False
    obtain idx expiry t1 where cb: "calc_bucket u now now' millis t = ((idx, expiry), t1)" by (metis surj_pair)
    have fr: "bucket_free (tm_wheel t) idx key" using Add(5) False cb by (simp add: slot_free_def)
    have pos: "0 < millis" using False by simp
    have "timer_ok t' \<and> armed (tm_wheel t') = (armed (tm_wheel t))(no \<mapsto> idx) \<and> keeps_clock t1 t'"
      by (rule add_timer_spec [OF ok(1) Add(3,2,4) pos cb fr]) (use Add(6) in simp)
    then show ?thesis using not_before_arm [OF ok Add(3,2) pos cb] by blast
  qed
next
  case (Reset now t req now' no u key millis call task t')
  then have ok: "timer_ok t" "not_before req t" by simp_all
  show ?case
  proof (cases "millis = 0")
    case True
    then have "remove_timer no t = Some (task, t')" using Reset(6) by (auto simp: update_timer_def)
    then have r: "timer_ok t' \<and> armed (tm_wheel t') = (armed (tm_wheel t))(no := None) \<and> keeps_clock t t'"
      by - (rule remove_timer_spec [OF ok(1) Reset(4)], simp)
    have "requested u now now' millis t = None" by (simp add: requested_def True)
    then show ?thesis using r not_before_cancel [OF ok(2), of t' no] by metis
  next
    case False
    obtain idx expiry t1 where cb: "calc_bucket u now now' millis t = ((idx, expiry), t1)" by (metis surj_pair)
    have fr: "bucket_free (tm_wheel t) idx key" using Reset(5) False cb by (simp add: slot_free_def)
    have pos: "0 < millis" using False by simp
    have "timer_ok t' \<and> armed (tm_wheel t') = (armed (tm_wheel t))(no \<mapsto> idx) \<and> keeps_clock t1 t'"
      by (rule update_timer_spec [OF ok(1) Reset(3,2,4) pos cb fr]) (use Reset(6) in simp)
    then show ?thesis using not_before_arm [OF ok Reset(3,2) pos cb] by blast
  qed
next
  case (Elapse now t req no task t')
  then have r: "timer_ok t' \<and> armed (tm_wheel t') = (armed (tm_wheel t))(no := None) \<and> keeps_clock t t'"
    by - (rule remove_timer_spec [of t no], simp_all)
  then show ?case using not_before_cancel [of req t t' no] Elapse(4) by blast
next
  case (Poll now t req no will_wake waker r t')
  then have r: "timer_ok t' \<and> armed (tm_wheel t') = armed (tm_wheel t) \<and> keeps_clock t t'"
    by - (rule poll_elapsed_spec [of t no will_wake waker], simp_all)
  then have "not_before req t'"
    using Poll(4) by (intro not_before_subset [of req t t' req]) (simp_all add: keeps_clock_due)
  then show ?case using r by simp
next
  case (Drop now t req no t')
  then have r: "timer_ok t' \<and> armed (tm_wheel t') = (armed (tm_wheel t))(no := None) \<and> keeps_clock t t'"
    by - (rule handle_drop_spec [of t no], simp_all)
  then show ?case using not_before_cancel [of req t t' no] Drop(4) by blast
next
  case (Drive now t req ready d r d' t')
  then have ok: "timer_ok t" "not_before req t" by simp_all
  show ?case
  proof (rule driver_round_cases [OF ok(1), of now ready d])
    fix cbs t1 D
    assume "driver_round now ready d t = Some (Fired (woken_tasks D (wh_timers (tm_wheel t))) cbs, d, t1)"
      "timer_ok t1" "armed (tm_wheel t1) = armed (tm_wheel t) |` (- D)"
      "\<And>no idx. armed (tm_wheel t1) no = Some idx \<Longrightarrow> due_time t1 idx = due_time t idx"
    moreover from this have "not_before req t1"
      by (intro not_before_subset [OF ok(2)]) (auto simp: restrict_map_def map_le_def split: if_splits)
    ultimately show ?thesis using Drive(2) by simp
  qed (use Drive(2) ok in simp_all)
next
  case (Driver_Drop now t req d t')
  then have ok: "timer_ok t" "not_before req t" by simp_all
  show ?case
  proof (rule stop_wheel_spec [OF timer_okD(1) [OF ok(1)]])
    fix t1 assume "stop_wheel t = Some t1" "timer_ok t1" "armed (tm_wheel t1) = Map.empty"
    then show ?thesis using Driver_Drop(2) ok by (auto simp: driver_drop_def not_before_def split: if_splits)
  qed
next
  case (System_Stop now t req t')
  show ?case
  proof (rule timer_reset_spec [of t])
    show "timer_ok t" using System_Stop by simp
    fix t1 assume "timer_reset t = Some t1" "timer_ok t1" "armed (tm_wheel t1) = Map.empty"
    then show ?thesis using System_Stop(2) by (auto simp: not_before_def)
  qed
qed

section \<open>Properties\<close>

text \<open>A wheel with one timer of 100 milliseconds, armed at the instant 0 with units of 16 milliseconds.\<close>

definition demo_timer :: "nat Timer" where
  "demo_timer = snd (the (add_timer 4 0 0 1 0 100 timer_new))"

definition demo_driver :: TimerDriver where
  "demo_driver = \<lparr>td_generation = 0, td_armed = None\<rparr>"

lemma demo_delay: "wheel_delay 4 0 0 100 (timer_new :: nat Timer) = 6"
  by (simp add: wheel_delay_def timer_new_def as_millis_def to_units_def)

lemma demo_bucket:
  "fst (calc_bucket 4 0 0 100 (timer_new :: nat Timer)) = (7, 7)"
proof -
  have "calc_wheel_index 0 (wrapping_add 0 6) 6 = (7, 7)" 
    by (simp add: calc_wheel_index_def calc_index_def wrapping_add_def upt_rec [of 0 8] Let_def)
  then show ?thesis by (simp add: calc_bucket_eq demo_delay) (simp add: timer_new_def)
qed

lemma demo_add: "\<exists>call. add_timer 4 0 0 1 0 100 timer_new = Some (call, demo_timer)"
  and demo_armed: "armed (tm_wheel demo_timer) = [1 \<mapsto> 7]"
  and demo_clock: "tm_elapsed demo_timer = 0" "tm_elapsed_time demo_timer = Some 0" "tm_units demo_timer = Some 4"
    "tm_generation demo_timer = 0" "tm_next_expiry demo_timer = 7"
proof -
  let ?t = "timer_new :: nat Timer"
  have emp: "armed (tm_wheel ?t) = Map.empty" by (auto simp: timer_new_def armed_def new_entry_def)
  have f: "tm_elapsed ?t < 2 ^ 63" "wh_timers (tm_wheel ?t) 1 = None" "bucket_free (tm_wheel ?t) 7 0"
    by (simp_all add: timer_new_def bucket_free_def)
  obtain t1 where cb: "calc_bucket 4 0 0 100 ?t = ((7, 7), t1)" using demo_bucket by (metis prod.collapse)
  show "\<exists>call. add_timer 4 0 0 1 0 100 timer_new = Some (call, demo_timer)"
    and "armed (tm_wheel demo_timer) = [1 \<mapsto> 7]"
    by (rule add_timer_spec [OF timer_new_ok f(1) _ f(2) _ cb f(3)], simp_all add: demo_timer_def emp)+
  have k: "keeps_clock t1 demo_timer"
    by (rule add_timer_spec [OF timer_new_ok f(1) _ f(2) _ cb f(3)], simp_all add: demo_timer_def)
  have "tm_elapsed t1 = 0 \<and> tm_elapsed_time t1 = Some 0 \<and> tm_units t1 = Some 4"
    using cb by (auto simp: calc_bucket_eq timer_new_def)
  then show "tm_elapsed demo_timer = 0" "tm_elapsed_time demo_timer = Some 0" "tm_units demo_timer = Some 4"
    using k by (simp_all add: keeps_clock_def)
  show "tm_generation demo_timer = 0"
    by (rule add_timer_spec [OF timer_new_ok f(1) _ f(2) _ cb f(3)], simp_all add: demo_timer_def)
      (simp_all add: timer_new_def)
  let ?w = "(tm_wheel ?t)\<lparr>wh_timers := (wh_timers (tm_wheel ?t))(1 \<mapsto> new_entry)\<rparr>"
  obtain w where "wheel_link 0 1 7 ?w = Some w" using wheel_link_some [of ?w 1 new_entry] by auto
  then have "demo_timer = snd (update_next_expiry 0 7 (t1\<lparr>tm_wheel := w\<rparr>))"
    using cb calc_bucket_timer(3) [OF cb] by (simp add: demo_timer_def add_timer_def)
  moreover have "tm_elapsed_time (t1\<lparr>tm_wheel := w\<rparr>) \<noteq> None" using calc_bucket_timer(5) [OF cb] by simp
  ultimately have "tm_next_expiry demo_timer = min (tm_next_expiry (t1\<lparr>tm_wheel := w\<rparr>)) 7"
    using update_next_expiry_spec(1) [of 0 7 "t1\<lparr>tm_wheel := w\<rparr>"] by (metis prod.collapse)
  moreover have "tm_next_expiry (t1\<lparr>tm_wheel := w\<rparr>) = U64_MAX" using calc_bucket_timer(2) [OF cb] by (simp add: timer_new_def)
  ultimately show "tm_next_expiry demo_timer = 7" by (simp add: U64_MAX_def)
qed


lemma demo_run: "timer_run 0 demo_timer [1 \<mapsto> 100000000]"
proof -
  obtain call where add: "add_timer 4 0 0 1 0 100 timer_new = Some (call, demo_timer)" using demo_add by blast
  have c: "WHEEL_TIMEOUT_CUTOFF = 63 * 8 ^ 7" using lvl_start_Suc [of 7] by (simp add: WHEEL_TIMEOUT_CUTOFF_def)
  have r: "requested 4 0 0 100 (timer_new :: nat Timer) = Some 100000000"
    by (simp add: requested_def demo_delay c from_millis_def)
  have "timer_run 0 demo_timer (Map.empty(1 := requested 4 0 0 100 (timer_new :: nat Timer)))"
  proof (rule timer_run.Add [OF timer_run.Init order_refl _ _ _ add])
    show "tm_elapsed (timer_new :: nat Timer) < 2 ^ 63" "wh_timers (tm_wheel (timer_new :: nat Timer)) 1 = None"
      by (simp_all add: timer_new_def)
    show "slot_free 4 0 0 0 100 (timer_new :: nat Timer)"
      by (simp add: slot_free_def demo_bucket bucket_free_def) (simp add: timer_new_def)
  qed
  then show ?thesis unfolding r .
qed

lemma demo_due: "bucket_expiry 0 7 = 7" "bucket_expiry 7 7 = 7" "due_time demo_timer 7 = 112000000"
proof -
  show b: "bucket_expiry 0 7 = 7" "bucket_expiry 7 7 = 7" by (simp_all add: bucket_expiry_def bucket_tick_def)
  then show "due_time demo_timer 7 = 112000000"
    by (simp add: due_time_def demo_clock to_millis_def from_millis_def)
qed

lemma demo_overdue: "overdue 112000000 demo_timer = {1}" "overdue 111999999 demo_timer = {}"
  by (auto simp: overdue_def demo_armed demo_due split: if_splits)

lemma demo_now: "timer_run 112000000 demo_timer [1 \<mapsto> 100000000]"
  by (rule timer_run.Clock [OF demo_run]) simp

text \<open>C15. In every state that is reached by handle operations, driver rounds, the end of the runtime
  and the passing of time, entries and buckets point to each other, the bitmaps mark exactly the
  occupied buckets, the next expiry is after the clock and not after the expiry of any bucket that
  holds timers, and while there is a next expiry the driver is running and the clock is anchored to
  an instant.\<close>
theorem timer_run_invariant:
  assumes "timer_run now t req"
  shows "timer_ok t"
  using timer_run_inv [OF assms] by simp

theorem timer_run_invariant_witness: "timer_ok demo_timer \<and> armed (tm_wheel demo_timer) 1 = Some 7"
  using timer_run_invariant [OF demo_run] by (simp add: demo_armed)

text \<open>C9. A round of the driver expires a timer only when the delay it was last armed with, counted from
  the instant of that call, has passed (for delays within the capacity of the wheel).\<close>
theorem timer_never_early:
  assumes "timer_run now t req" "driver_round now ready d t = Some (r, d', t')"
    and "armed (tm_wheel t) no \<noteq> None" "armed (tm_wheel t') no = None" "req no = Some inst"
  shows "inst \<le> now"
proof -
  have ok: "timer_ok t" "not_before req t" using timer_run_inv [OF assms(1)] by simp_all
  have "no \<in> overdue now t"
    by (rule driver_round_cases [OF ok(1), of now ready d]) (use assms(2-4) in \<open>auto simp: restrict_map_def split: if_splits\<close>)
  then show ?thesis using ok(2) assms(5) by (fastforce simp: overdue_def not_before_def)
qed

theorem timer_never_early_witness:
  "\<exists>r d' t'. driver_round 112000000 False demo_driver demo_timer = Some (r, d', t')
    \<and> armed (tm_wheel demo_timer) 1 = Some 7 \<and> armed (tm_wheel t') 1 = None \<and> (100000000 :: nat) \<le> 112000000"
proof (rule driver_round_cases [OF timer_run_inv [OF demo_now, THEN conjunct1], of 112000000 False demo_driver])
  fix cbs t' D
  assume D: "D = due_timers (tm_next_expiry demo_timer) (armed (tm_wheel demo_timer))"
    and r: "driver_round 112000000 False demo_driver demo_timer =
      Some (Fired (woken_tasks D (wh_timers (tm_wheel demo_timer))) cbs, demo_driver, t')"
    and a: "armed (tm_wheel t') = armed (tm_wheel demo_timer) |` (- D)"
  have n: "armed (tm_wheel demo_timer) 1 \<noteq> None" "armed (tm_wheel t') 1 = None"
    by (simp_all add: a D demo_armed demo_clock due_timers_def demo_due)
  have "100000000 \<le> (112000000 :: nat)" by (rule timer_never_early [OF demo_now r n]) simp
  then show ?thesis using r n(2) by (simp add: demo_armed)
qed (simp_all add: demo_overdue)

text \<open>C10. A poll of the driver ends, without a panic, after at most one round for each bucket, one for a
  stale expiry and one for each time the sleep is ready too early. It expires only timers that are
  due, and all of them, unless it stops to deliver callbacks; exactly the tasks of the timers it
  expires are woken.\<close>
theorem driver_fires_due_timers:
  assumes "timer_run now t req" "tm_generation t = td_generation d" "513 + length polls < fuel"
  shows "\<exists>r d' t' E. driver_poll fuel now polls d t = Some (r, d', t') \<and> timer_ok t' \<and> E \<subseteq> overdue now t
    \<and> armed (tm_wheel t') = armed (tm_wheel t) |` (- E)
    \<and> (r = Waiting (woken_tasks E (wh_timers (tm_wheel t))) \<and> E = overdue now t
       \<or> (\<exists>cbs. cbs \<noteq> {} \<and> r = Deliver (woken_tasks E (wh_timers (tm_wheel t))) cbs))"
proof -
  have ok: "timer_ok t" using timer_run_inv [OF assms(1)] by simp
  have "pending_rounds t + length polls < fuel" using pending_rounds_bound [OF timer_okD(1) [OF ok]] assms(3) by simp
  from driver_loop_spec [OF ok this, of now "{}" d] show ?thesis
    using assms(2) by (simp add: driver_poll_def) blast
qed

theorem driver_fires_due_timers_witness:
  "\<exists>r d' t' E. driver_poll 514 112000000 [] demo_driver demo_timer = Some (r, d', t') \<and> timer_ok t'
    \<and> E \<subseteq> {1} \<and> armed (tm_wheel t') = [1 \<mapsto> 7] |` (- E)
    \<and> (r = Waiting (woken_tasks E (wh_timers (tm_wheel demo_timer))) \<and> E = {1}
       \<or> (\<exists>cbs. cbs \<noteq> {} \<and> r = Deliver (woken_tasks E (wh_timers (tm_wheel demo_timer))) cbs))"
  using driver_fires_due_timers [OF demo_now, of demo_driver "[]" 514]
  by (simp add: demo_driver_def demo_clock demo_overdue demo_armed)

text \<open>C24. The bucket picked for a delay within the capacity of the wheel (counted from where its clock
  stands) is on the wheel, is due no earlier than the delay from now, and
  later by at most a unit or a seventh of the time between the instant the clock of the wheel stands
  at and the instant asked for. On a wheel whose clock is not running (no timer is armed) this time is
  the delay itself: the timer is late by at most a unit or a seventh of its delay.\<close>
theorem timer_delay_bounds:
  assumes "tm_elapsed t < 2 ^ 63" "now \<le> now'" "calc_bucket u now now' millis t = ((idx, expiry), t')"
    and "wheel_delay u now now' millis t < WHEEL_TIMEOUT_CUTOFF"
  shows "idx < WHEEL_SIZE \<and> now + from_millis millis \<le> due_time t' idx
    \<and> due_time t' idx \<le> max now (the (tm_elapsed_time t')) + from_millis (millis
        + to_millis (max 1 (wheel_delay u now now' millis t div 7)) (the (tm_units t')))
    \<and> (tm_elapsed_time t = None \<longrightarrow> due_time t' idx \<le> now' + from_millis (millis
        + to_millis (max 1 (to_units millis (the (tm_units t')) div 7)) (the (tm_units t'))))"
proof -
  have "wheel_delay u now now' millis t = to_units millis (the (tm_units t'))" "the (tm_elapsed_time t') = now'"
    if "tm_elapsed_time t = None"
    using that assms(2,3) by (auto simp: calc_bucket_eq wheel_delay_def as_millis_def)
  then show ?thesis using calc_bucket_due [OF assms(1-3)] assms(2,4) by (auto simp: max_absorb2)
qed

theorem timer_delay_bounds_witness:
  "\<exists>t'. calc_bucket 4 0 0 100 (timer_new :: nat Timer) = ((7, 7), t') \<and> 100000000 \<le> due_time t' 7
    \<and> due_time t' 7 \<le> 116000000"
proof -
  let ?t = "timer_new :: nat Timer"
  obtain t' where cb: "calc_bucket 4 0 0 100 ?t = ((7, 7), t')" using demo_bucket by (metis prod.collapse)
  have "wheel_delay 4 0 0 100 ?t < WHEEL_TIMEOUT_CUTOFF" using lvl_start_Suc [of 7] by (simp add: demo_delay WHEEL_TIMEOUT_CUTOFF_def)
  moreover have "tm_elapsed ?t < 2 ^ 63" by (simp add: timer_new_def)
  moreover have "tm_elapsed_time t' = Some 0" "tm_units t' = Some 4" using cb by (auto simp: calc_bucket_eq timer_new_def)
  ultimately show ?thesis using timer_delay_bounds [of ?t 0 0 4 100 7 7 t'] cb
    by (simp add: demo_delay from_millis_def to_millis_def)
qed

text \<open>
  The level of a bucket follows from the distance to the wheel's clock, which stands still until the
  next bucket expires. A timer of 100 milliseconds that is armed twelve hours after the only other
  timer, one of twenty hours, shares the granularity of a delay of twelve hours: it is due 49 minutes
  later.
\<close>

lemma short_timer_late:
  fixes long :: "nat Timer"
  assumes "add_timer 4 0 0 1 0 72000000 timer_new = Some (call, long)" "h12 = from_millis 43200000"
  shows "\<exists>req idx expiry t'. timer_run h12 long req \<and> overdue h12 long = {}
    \<and> calc_bucket 4 h12 h12 100 long = ((idx, expiry), t') \<and> due_time t' idx = h12 + from_millis 2937344"
proof -
  let ?t = "timer_new :: nat Timer"
  have f: "tm_elapsed ?t < 2 ^ 63" "wh_timers (tm_wheel ?t) 1 = None"
    by (simp_all add: timer_new_def)
  obtain idx0 expiry0 t1 where cb: "calc_bucket 4 0 0 72000000 ?t = ((idx0, expiry0), t1)" by (metis surj_pair)
  have free: "bucket_free (tm_wheel ?t) idx0 0"
    using calc_bucket_due(1) [OF f(1) order_refl cb] by (simp add: timer_new_def bucket_free_def)
  have emp: "armed (tm_wheel ?t) = Map.empty" by (auto simp: timer_new_def armed_def new_entry_def)
  have sp: "armed (tm_wheel long) = [1 \<mapsto> idx0] \<and> keeps_clock t1 long"
    by (rule add_timer_spec [OF timer_new_ok f(1) _ f(2) _ cb free]) (use assms(1) emp in simp_all)
  have "tm_elapsed t1 = 0 \<and> tm_elapsed_time t1 = Some 0 \<and> tm_units t1 = Some 4"
    using cb by (auto simp: calc_bucket_eq timer_new_def)
  then have clk: "tm_elapsed long = 0" "tm_elapsed_time long = Some 0" "tm_units long = Some 4"
    using sp by (simp_all add: keeps_clock_def)
  have cut: "WHEEL_TIMEOUT_CUTOFF = 63 * 8 ^ 7" using lvl_start_Suc [of 7] by (simp add: WHEEL_TIMEOUT_CUTOFF_def)
  have "slot_free 4 0 0 0 72000000 ?t" using free cb by (simp add: slot_free_def)
  from timer_run.Clock [OF timer_run.Add [OF timer_run.Init order_refl f(1,2) this assms(1)], of h12]
  have run: "timer_run h12 long (Map.empty(1 := requested 4 0 0 72000000 ?t))" by simp
  have "wheel_delay 4 0 0 72000000 ?t = 4500000" by (simp add: wheel_delay_def timer_new_def as_millis_def to_units_def)
  then have "0 + from_millis 72000000 \<le> due_time t1 idx0" using calc_bucket_due(5) [OF f(1) order_refl cb] cut by simp
  then have "from_millis 72000000 \<le> due_time long idx0" using keeps_clock_due [of t1 long] sp by simp
  then have od: "overdue h12 long = {}"
    using sp by (auto simp: overdue_def assms(2) from_millis_def split: if_splits)
  have wd: "wheel_delay 4 h12 h12 100 long = 2700006"
    by (simp add: wheel_delay_def clk assms(2) as_millis_def from_millis_def to_units_def)
  have ci: "calc_wheel_index 0 (wrapping_add 0 2700006) 2700006 = (395, 2883584)"
    by (simp add: calc_wheel_index_def calc_index_def wrapping_add_def upt_conv_Cons Let_def)
  obtain t' where t': "calc_bucket 4 h12 h12 100 long = ((395, 2883584), t')" "tm_elapsed t' = 0"
      "tm_elapsed_time t' = Some 0" "tm_units t' = Some 4"
    using ci by (simp add: calc_bucket_eq clk wd)
  then have "bucket_expiry 0 395 = 2883584" using calc_bucket_due(2) [of long h12 h12 4 100 395 2883584 t'] clk by simp
  then have "due_time t' 395 = h12 + from_millis 2937344"
    by (simp add: due_time_def t' assms(2) to_millis_def from_millis_def)
  then show ?thesis using run od t'(1) by blast
qed

text \<open>C16. \<^verbatim>\<open>next_pending_bucket\<close>, which scans the bitmaps level by level and stops early, is the
  least expiry of the buckets that hold timers.\<close>
theorem next_pending_bucket_minimum:
  assumes "timer_run now t req"
  shows "next_pending_bucket t =
    (if ran (armed (tm_wheel t)) = {} then None
     else Some (Min (bucket_expiry (tm_elapsed t) ` ran (armed (tm_wheel t)))))"
proof (rule next_pending_spec)
  have ok: "timer_ok t" using timer_run_inv [OF assms] by simp
  show "wheel_ok (tm_wheel t)" by (rule timer_okD(1) [OF ok])
  show "bucket_expiry (tm_elapsed t) idx < U64_MAX" if "idx \<in> ran (armed (tm_wheel t))" for idx
    using that timer_ok_armed(3) [OF ok] by (auto simp: ran_def)
qed

theorem next_pending_bucket_minimum_witness: "next_pending_bucket demo_timer = Some 7"
  using next_pending_bucket_minimum [OF demo_run] by (simp add: demo_armed demo_clock demo_due)

text \<open>C18. At a clock value exactly the timers of the buckets that expire there are taken out of the
  wheel, on all levels, and exactly their tasks are woken.\<close>
theorem execute_expired_exact:
  assumes "timer_run now t req"
  shows "\<exists>w'. execute_expired_timers clk (tm_wheel t) =
      Some (w', woken_tasks (due_timers clk (armed (tm_wheel t))) (wh_timers (tm_wheel t)))
    \<and> armed w' = armed (tm_wheel t) |` (- due_timers clk (armed (tm_wheel t))) \<and> wheel_ok w'"
  by (rule execute_expired_spec [OF timer_okD(1) [OF timer_run_inv [OF assms, THEN conjunct1]], of clk]) blast

theorem execute_expired_exact_witness:
  "\<exists>w' woken. execute_expired_timers 7 (tm_wheel demo_timer) = Some (w', woken) \<and> armed w' = Map.empty"
  using execute_expired_exact [OF demo_run, of 7]
  by (auto simp: demo_armed due_timers_def demo_due restrict_map_def fun_eq_iff)

text \<open>On a handle of the wheel no operation panics: a poll, a query, a reset, an early expiry and a
  drop return, and so do a round of the driver, its end and the reset of the runtime.\<close>
lemma timer_operations_total:
  assumes "timer_run now t req" "no \<in> dom (wh_timers (tm_wheel t))"
    and "tm_elapsed t < 2 ^ 63" "now \<le> now'" "slot_free u now now' key millis t"
  shows "is_elapsed no t = Some (armed (tm_wheel t) no = None)
    \<and> (\<exists>t'. poll_elapsed will_wake waker no t = Some (armed (tm_wheel t) no = None, t'))
    \<and> update_timer u now now' key no millis t \<noteq> None \<and> remove_timer no t \<noteq> None \<and> handle_drop no t \<noteq> None
    \<and> driver_round now ready d t \<noteq> None \<and> driver_drop d t \<noteq> None \<and> timer_reset t \<noteq> None"
proof -
  have ok: "timer_ok t" using timer_run_inv [OF assms(1)] by simp
  have r: "remove_timer no t \<noteq> None" by (rule remove_timer_spec [OF ok assms(2)]) simp
  have "update_timer u now now' key no millis t \<noteq> None"
  proof (cases "millis = 0")
    case True
    then show ?thesis using r by (simp add: update_timer_def)
  next
    case False
    obtain idx expiry t1 where cb: "calc_bucket u now now' millis t = ((idx, expiry), t1)" by (metis surj_pair)
    have fr: "bucket_free (tm_wheel t) idx key" using assms(5) False cb by (simp add: slot_free_def)
    show ?thesis by (rule update_timer_spec [OF ok assms(3,4,2) _ cb fr]) (use False in simp_all)
  qed
  moreover have "is_elapsed no t = Some (armed (tm_wheel t) no = None)"
    using assms(2) by (auto simp: is_elapsed_def armed_def)
  moreover have "\<exists>t'. poll_elapsed will_wake waker no t = Some (armed (tm_wheel t) no = None, t')"
    by (rule poll_elapsed_spec [OF ok assms(2), of will_wake waker]) blast
  moreover have "handle_drop no t \<noteq> None" by (rule handle_drop_spec [OF ok assms(2)]) simp
  moreover have "driver_round now ready d t \<noteq> None" by (rule driver_round_cases [OF ok, of now ready d]) simp_all
  moreover have "driver_drop d t \<noteq> None"
    by (rule stop_wheel_spec [OF timer_okD(1) [OF ok]]) (simp add: driver_drop_def)
  moreover have "timer_reset t \<noteq> None" by (rule timer_reset_spec [OF ok]) simp
  ultimately show ?thesis using r by blast
qed


end
