(* ===== verification/Timer_Callback.thy ===== *)
theory Timer_Callback
  imports Timer_Run
begin

text \<open>
  Callback timers (\<^verbatim>\<open>ntex-util/src/time/callbacks.rs\<close>) and the part of the timer driver that delivers
  them. A callback runs outside the wheel and may use timers; what it does is an argument. The key of
  a new timer, its slot in the bucket and the identity of its state are arguments of the operations.
\<close>


section \<open>State\<close>

text \<open>
  \<open>ct_states\<close> holds the \<^verbatim>\<open>CallbackState\<close> of every handle that is alive, by its identity: upgrading
  the weak reference of a ticket is a lookup there.
\<close>

record CallbackState =
  cs_arm :: nat
  cs_pending :: bool

record 'w CallbackTimers =
  ct_timer :: "'w Timer"
  ct_states :: "nat \<rightharpoonup> CallbackState"

record CallbackTimer =
  ch_hnd :: nat
  ch_state :: nat

definition callbacks_default :: Callbacks where
  "callbacks_default = \<lparr>cb_entries = Map.empty, cb_ready = {}\<rparr>"

definition callbacks_get_or_insert :: "Callbacks option \<Rightarrow> Callbacks" where
  "callbacks_get_or_insert cbs = (case cbs of Some c \<Rightarrow> c | None \<Rightarrow> callbacks_default)"

definition insert_callback :: "nat \<Rightarrow> nat \<Rightarrow> nat \<Rightarrow> 'w Wheel \<Rightarrow> 'w Wheel" where
  "insert_callback no sid generation w =
     (let c = callbacks_get_or_insert (wh_callbacks w)
      in w\<lparr>wh_timers := (wh_timers w)(no \<mapsto> new_entry\<lparr>te_callback := True\<rparr>),
           wh_callbacks := Some (c\<lparr>cb_entries := (cb_entries c)(no \<mapsto>
             \<lparr>tk_state = sid, tk_arm = 0, tk_generation = generation\<rparr>)\<rparr>)\<rparr>)"

section \<open>Operations\<close>

definition callback_new ::
    "nat \<Rightarrow> nat \<Rightarrow> nat \<Rightarrow> nat \<Rightarrow> nat \<Rightarrow> nat \<Rightarrow> nat \<Rightarrow> 'w CallbackTimers
      \<Rightarrow> (driver_call \<times> CallbackTimer \<times> 'w CallbackTimers) option" where
  "callback_new sys_units now now' no key sid duration ct =
     (let states = (ct_states ct)(sid \<mapsto> \<lparr>cs_arm = 0, cs_pending = True\<rparr>);
          ((idx, expiry), t) = calc_bucket sys_units now now' (max duration 1) (ct_timer ct)
      in case wheel_link key no idx (insert_callback no sid (tm_generation t) (tm_wheel t)) of
           None \<Rightarrow> None
         | Some w \<Rightarrow>
             let (call, t) = update_next_expiry now' expiry (t\<lparr>tm_wheel := w\<rparr>)
             in Some (call, \<lparr>ch_hnd = no, ch_state = sid\<rparr>, \<lparr>ct_timer = t, ct_states = states\<rparr>))"

text \<open>The ticket of a handle gets the next arm number; the state of the handle follows it.\<close>

definition rearm_ticket :: "nat \<Rightarrow> nat \<Rightarrow> Callbacks option \<Rightarrow> (nat \<times> Callbacks) option" where
  "rearm_ticket hnd generation cbs =
     (case cbs of
        None \<Rightarrow> None
      | Some c \<Rightarrow>
          (case cb_entries c hnd of
             None \<Rightarrow> None
           | Some ticket \<Rightarrow>
               let ticket = ticket\<lparr>tk_arm := wrapping_add (tk_arm ticket) 1, tk_generation := generation\<rparr>
               in Some (tk_arm ticket, c\<lparr>cb_entries := (cb_entries c)(hnd \<mapsto> ticket)\<rparr>)))"

definition callback_reset ::
    "nat \<Rightarrow> nat \<Rightarrow> nat \<Rightarrow> nat \<Rightarrow> CallbackTimer \<Rightarrow> nat \<Rightarrow> 'w CallbackTimers
      \<Rightarrow> (driver_call \<times> 'w CallbackTimers) option" where
  "callback_reset sys_units now now' key h duration ct =
     (let ((idx, expiry), t) = calc_bucket sys_units now now' (max duration 1) (ct_timer ct)
      in case rearm_ticket (ch_hnd h) (tm_generation t) (wh_callbacks (tm_wheel t)) of
           None \<Rightarrow> None
         | Some (a, c) \<Rightarrow>
             let states = (ct_states ct)(ch_state h \<mapsto> \<lparr>cs_arm = a, cs_pending = True\<rparr>)
             in case wheel_relink key (ch_hnd h) idx ((tm_wheel t)\<lparr>wh_callbacks := Some c\<rparr>) of
                  None \<Rightarrow> None
                | Some w \<Rightarrow>
                    let (call, t) = update_next_expiry now' expiry (t\<lparr>tm_wheel := w\<rparr>)
                    in Some (call, \<lparr>ct_timer = t, ct_states = states\<rparr>))"

definition set_pending :: "nat \<Rightarrow> bool \<Rightarrow> (nat \<rightharpoonup> CallbackState) \<Rightarrow> (nat \<rightharpoonup> CallbackState)" where
  "set_pending sid b states = states(sid := map_option (\<lambda>st. st\<lparr>cs_pending := b\<rparr>) (states sid))"

definition callback_cancel :: "CallbackTimer \<Rightarrow> 'w CallbackTimers \<Rightarrow> 'w CallbackTimers option" where
  "callback_cancel h ct =
     (case wheel_unlink (ch_hnd h) (tm_wheel (ct_timer ct)) of
        None \<Rightarrow> None
      | Some (_, w) \<Rightarrow> Some (\<lparr>ct_timer = (ct_timer ct)\<lparr>tm_wheel := w\<rparr>,
                             ct_states = set_pending (ch_state h) False (ct_states ct)\<rparr>))"

definition callback_is_elapsed :: "CallbackTimer \<Rightarrow> 'w CallbackTimers \<Rightarrow> bool option" where
  "callback_is_elapsed h ct = is_elapsed (ch_hnd h) (ct_timer ct)"

definition callback_drop :: "CallbackTimer \<Rightarrow> 'w CallbackTimers \<Rightarrow> 'w CallbackTimers option" where
  "callback_drop h ct =
     (case wheel_unlink (ch_hnd h) (tm_wheel (ct_timer ct)) of
        None \<Rightarrow> None
      | Some (_, w) \<Rightarrow>
          (case wh_callbacks w of
             None \<Rightarrow> None
           | Some c \<Rightarrow>
               Some (\<lparr>ct_timer = (ct_timer ct)\<lparr>tm_wheel := w\<lparr>wh_timers := (wh_timers w)(ch_hnd h := None),
                        wh_callbacks := Some (c\<lparr>cb_entries := (cb_entries c)(ch_hnd h := None)\<rparr>)\<rparr>\<rparr>,
                      ct_states = (ct_states ct)(ch_state h := None)\<rparr>)))"

text \<open>\<^verbatim>\<open>stop_wheel\<close> with the flags of the callback states.\<close>

definition stop_callbacks :: "'w CallbackTimers \<Rightarrow> 'w CallbackTimers option" where
  "stop_callbacks ct =
     (case stop_wheel (ct_timer ct) of
        None \<Rightarrow> None
      | Some t \<Rightarrow>
          let sids = (case wh_callbacks (tm_wheel (ct_timer ct)) of
                 None \<Rightarrow> {} | Some c \<Rightarrow> tk_state ` ran (cb_entries c))
          in Some (\<lparr>ct_timer = t, ct_states = (\<lambda>sid. if sid \<in> sids
               then map_option (\<lambda>st. st\<lparr>cs_pending := False\<rparr>) (ct_states ct sid) else ct_states ct sid)\<rparr>))"

section \<open>Delivery\<close>

definition claim_ticket :: "nat \<Rightarrow> CallbackTicket \<Rightarrow> 'w CallbackTimers \<Rightarrow> (bool \<times> 'w CallbackTimers)" where
  "claim_ticket generation ticket ct =
     (if tk_generation ticket \<noteq> generation then (False, ct)
      else case ct_states ct (tk_state ticket) of
        None \<Rightarrow> (False, ct)
      | Some st \<Rightarrow>
          if cs_arm st = tk_arm ticket
          then (cs_pending st, ct\<lparr>ct_states := set_pending (tk_state ticket) False (ct_states ct)\<rparr>)
          else (False, ct))"

text \<open>
  The tickets that are ready, in turn. \<open>call\<close> is what the callback of a state does to the timers. The
  result is \<open>None\<close> when the runtime has been stopped on the way and the driver ends; the list has the
  states whose callback has run.
\<close>

fun deliver ::
    "(nat \<Rightarrow> 'w CallbackTimers \<Rightarrow> 'w CallbackTimers) \<Rightarrow> nat \<Rightarrow> CallbackTicket list \<Rightarrow> nat list \<Rightarrow> 'w CallbackTimers
      \<Rightarrow> nat list \<times> bool \<times> 'w CallbackTimers" where
  "deliver call generation [] ran_cbs ct = (ran_cbs, tm_generation (ct_timer ct) = generation, ct)"
| "deliver call generation (ticket # tickets) ran_cbs ct =
     (if tm_generation (ct_timer ct) \<noteq> generation then (ran_cbs, False, ct)
      else case claim_ticket generation ticket ct of
        (False, ct) \<Rightarrow> deliver call generation tickets ran_cbs ct
      | (True, ct) \<Rightarrow> deliver call generation tickets (ran_cbs @ [tk_state ticket]) (call (tk_state ticket) ct))"

section \<open>Each arm runs the callback at most once\<close>

text \<open>
  Steps on callback timers, with the number of times each state has been armed and its callback has
  been run. The other operations of the wheel change \<open>ct_timer\<close> only.
\<close>

inductive callback_run :: "'w CallbackTimers \<Rightarrow> (nat \<Rightarrow> nat) \<Rightarrow> (nat \<Rightarrow> nat) \<Rightarrow> bool" where
  Start: "callback_run \<lparr>ct_timer = t, ct_states = Map.empty\<rparr> (\<lambda>_. 0) (\<lambda>_. 0)"
| Wheel: "callback_run ct arms runs \<Longrightarrow> callback_run (ct\<lparr>ct_timer := t\<rparr>) arms runs"
| New: "\<lbrakk>callback_run ct arms runs; arms sid = 0; callback_new u now now' no key sid duration ct = Some (call, h, ct')\<rbrakk>
    \<Longrightarrow> callback_run ct' (arms(sid := 1)) runs"
| Reset: "\<lbrakk>callback_run ct arms runs; callback_reset u now now' key h duration ct = Some (call, ct')\<rbrakk>
    \<Longrightarrow> callback_run ct' (arms(ch_state h := Suc (arms (ch_state h)))) runs"
| Cancel: "\<lbrakk>callback_run ct arms runs; callback_cancel h ct = Some ct'\<rbrakk> \<Longrightarrow> callback_run ct' arms runs"
| Drop: "\<lbrakk>callback_run ct arms runs; callback_drop h ct = Some ct'\<rbrakk> \<Longrightarrow> callback_run ct' arms runs"
| Stop: "\<lbrakk>callback_run ct arms runs; stop_callbacks ct = Some ct'\<rbrakk> \<Longrightarrow> callback_run ct' arms runs"
| Claim: "\<lbrakk>callback_run ct arms runs; claim_ticket generation ticket ct = (ok, ct')\<rbrakk>
    \<Longrightarrow> callback_run ct' arms (if ok then runs(tk_state ticket := Suc (runs (tk_state ticket))) else runs)"

definition is_pending :: "(nat \<rightharpoonup> CallbackState) \<Rightarrow> nat \<Rightarrow> bool" where
  "is_pending states sid \<longleftrightarrow> (\<exists>st. states sid = Some st \<and> cs_pending st)"

text \<open>What the operations do to the pending flags.\<close>

lemma callback_new_states:
  "callback_new u now now' no key sid duration ct = Some (call, h, ct') \<Longrightarrow>
    ct_states ct' = (ct_states ct)(sid \<mapsto> \<lparr>cs_arm = 0, cs_pending = True\<rparr>)"
  by (auto simp: callback_new_def Let_def split: option.splits prod.splits)

lemma callback_reset_states:
  assumes "callback_reset u now now' key h duration ct = Some (call, ct')"
  obtains c ticket where "wh_callbacks (tm_wheel (ct_timer ct)) = Some c" "cb_entries c (ch_hnd h) = Some ticket"
    "ct_states ct' = (ct_states ct)(ch_state h \<mapsto> \<lparr>cs_arm = wrapping_add (tk_arm ticket) 1, cs_pending = True\<rparr>)"
proof -
  have "\<exists>c ticket. wh_callbacks (tm_wheel (ct_timer ct)) = Some c \<and> cb_entries c (ch_hnd h) = Some ticket
    \<and> ct_states ct' = (ct_states ct)(ch_state h \<mapsto> \<lparr>cs_arm = wrapping_add (tk_arm ticket) 1, cs_pending = True\<rparr>)"
    using assms by (fastforce simp: callback_reset_def rearm_ticket_def Let_def dest: calc_bucket_timer(3)
        split: option.splits prod.splits)
  then show ?thesis using that by blast
qed

lemma callback_cancel_states:
  "callback_cancel h ct = Some ct' \<Longrightarrow> ct_states ct' = set_pending (ch_state h) False (ct_states ct)"
  by (auto simp: callback_cancel_def split: option.splits)

lemma callback_drop_states:
  "callback_drop h ct = Some ct' \<Longrightarrow> ct_states ct' = (ct_states ct)(ch_state h := None)"
  by (auto simp: callback_drop_def split: option.splits)

lemma stop_callbacks_pending:
  assumes "stop_callbacks ct = Some ct'"
  shows "is_pending (ct_states ct') sid \<longleftrightarrow> is_pending (ct_states ct) sid
    \<and> \<not> (\<exists>c tk. wh_callbacks (tm_wheel (ct_timer ct)) = Some c \<and> tk \<in> ran (cb_entries c) \<and> tk_state tk = sid)"
  using assms by (auto simp: stop_callbacks_def is_pending_def Let_def split: option.splits if_splits)

lemma pending_clear [simp]: "is_pending (set_pending sid False states) sid' \<longleftrightarrow> is_pending states sid' \<and> sid' \<noteq> sid"
  by (auto simp: is_pending_def set_pending_def)

lemma claim_ticket_cases:
  assumes "claim_ticket generation ticket ct = (ok, ct')"
  shows "ok \<longleftrightarrow> tk_generation ticket = generation \<and> is_pending (ct_states ct) (tk_state ticket)
      \<and> (\<exists>st. ct_states ct (tk_state ticket) = Some st \<and> cs_arm st = tk_arm ticket)"
    "is_pending (ct_states ct') sid \<longleftrightarrow> is_pending (ct_states ct) sid \<and> \<not> (ok \<and> sid = tk_state ticket)"
    "ct_timer ct' = ct_timer ct"
  using assms
  by (auto simp: claim_ticket_def is_pending_def set_pending_def split: if_splits option.splits)

lemma callback_run_inv:
  assumes "callback_run ct arms runs"
  shows "runs sid + of_bool (is_pending (ct_states ct) sid) \<le> arms sid"
  using assms
proof (induction arbitrary: sid)
  case (Start t)
  then show ?case by (simp add: is_pending_def)
next
  case (Wheel ct arms runs t)
  then show ?case by simp
next
  case (New ct arms runs sid' u now now' no key duration call h ct')
  have "runs sid' = 0" using New(4) [of sid'] New(2) by simp
  then show ?case using callback_new_states [OF New(3)] New(4) [of sid]
    by (auto simp: is_pending_def split: if_splits)
next
  case (Reset ct arms runs u now now' key h duration call ct')
  show ?case by (rule callback_reset_states [OF Reset(2)]) (use Reset(3) [of sid] in \<open>auto simp: is_pending_def split: if_splits\<close>)
next
  case (Cancel ct arms runs h ct')
  show ?case using callback_cancel_states [OF Cancel(2)] Cancel(3) [of sid] by (auto simp: of_bool_def split: if_splits)
next
  case (Drop ct arms runs h ct')
  show ?case using callback_drop_states [OF Drop(2)] Drop(3) [of sid] by (auto simp: is_pending_def of_bool_def split: if_splits)
next
  case (Stop ct arms runs ct')
  show ?case using stop_callbacks_pending [OF Stop(2), of sid] Stop(3) [of sid] by (auto simp: of_bool_def split: if_splits)
next
  case (Claim ct arms runs generation ticket ok ct')
  show ?case using claim_ticket_cases(1) [OF Claim(2)] claim_ticket_cases(2) [OF Claim(2), of sid] Claim(3) [of sid]
    by (auto simp: of_bool_def split: if_splits)
qed

text \<open>
  Delivery is a sequence of such steps when the callbacks are. \<open>grow\<close> says how often a callback arms
  each state; \<open>deliver_arms\<close> adds it up over the callbacks that a delivery runs.
\<close>

fun deliver_arms ::
    "(nat \<Rightarrow> 'w CallbackTimers \<Rightarrow> 'w CallbackTimers) \<Rightarrow> (nat \<Rightarrow> 'w CallbackTimers \<Rightarrow> nat \<Rightarrow> nat) \<Rightarrow> nat
      \<Rightarrow> CallbackTicket list \<Rightarrow> 'w CallbackTimers \<Rightarrow> nat \<Rightarrow> nat" where
  "deliver_arms call grow generation [] ct sid = 0"
| "deliver_arms call grow generation (ticket # tickets) ct sid =
     (if tm_generation (ct_timer ct) \<noteq> generation then 0
      else case claim_ticket generation ticket ct of
        (False, ct) \<Rightarrow> deliver_arms call grow generation tickets ct sid
      | (True, ct) \<Rightarrow> grow (tk_state ticket) ct sid
          + deliver_arms call grow generation tickets (call (tk_state ticket) ct) sid)"

lemma deliver_run:
  assumes "callback_run ct arms runs" "deliver call generation tickets rs ct = (rs', alive, ct')"
    and "\<And>sid ct arms runs. callback_run ct arms runs \<Longrightarrow> callback_run (call sid ct) (\<lambda>s. arms s + grow sid ct s) runs"
  shows "\<exists>new. rs' = rs @ new \<and> callback_run ct' (\<lambda>sid. arms sid + deliver_arms call grow generation tickets ct sid)
    (\<lambda>sid. runs sid + count_list new sid)"
  using assms(1,2)
proof (induction tickets arbitrary: rs ct arms runs)
  case Nil
  then show ?case by auto
next
  case (Cons ticket tickets)
  obtain ok ct1 where cl: "claim_ticket generation ticket ct = (ok, ct1)" by fastforce
  note run1 = callback_run.Claim [OF Cons(2) cl]
  consider "tm_generation (ct_timer ct) \<noteq> generation" | "tm_generation (ct_timer ct) = generation" "\<not> ok"
    | "tm_generation (ct_timer ct) = generation" ok by blast
  then show ?case
  proof cases
    case 1
    then show ?thesis using Cons(2,3) by auto
  next
    case 2
    then show ?thesis using Cons(1) [of ct1 arms runs rs] run1 Cons(3) cl by simp
  next
    case 3
    let ?st = "tk_state ticket"
    let ?arms = "\<lambda>sid. (arms sid + grow ?st ct1 sid) + deliver_arms call grow generation tickets (call ?st ct1) sid"
    have r2: "callback_run (call ?st ct1) (\<lambda>sid. arms sid + grow ?st ct1 sid) (runs(?st := Suc (runs ?st)))"
      by (rule assms(3)) (use run1 3 in simp)
    have "deliver call generation tickets (rs @ [?st]) (call ?st ct1) = (rs', alive, ct')"
      using Cons(3) 3 cl by simp
    then obtain new where n: "rs' = (rs @ [?st]) @ new"
        "callback_run ct' ?arms (\<lambda>sid. (runs(?st := Suc (runs ?st))) sid + count_list new sid)"
      using Cons(1) [OF r2] by blast
    have "(\<lambda>sid. (runs(?st := Suc (runs ?st))) sid + count_list new sid) = (\<lambda>sid. runs sid + count_list (?st # new) sid)"
      by (auto simp: fun_eq_iff)
    moreover have "?arms = (\<lambda>sid. arms sid + deliver_arms call grow generation (ticket # tickets) ct sid)"
      using 3 cl by (simp add: fun_eq_iff)
    ultimately show ?thesis using n by (intro exI [of _ "?st # new"]) auto
  qed
qed

section \<open>Properties\<close>

text \<open>C26. An arm of a callback timer runs its callback at most once. \<open>arms\<close> and \<open>runs\<close> count, for each
  callback, how often it was armed and has run, over any sequence of operations and claims; a delivery
  of tickets, also of the same ticket twice, adds a run for each callback it calls and the arms that
  these callbacks make themselves (\<open>grow\<close>), and no more. Then every callback has run no more often than
  it was armed, and less often while a run is pending.\<close>
theorem callback_at_most_once:
  assumes "callback_run ct arms runs" "deliver call generation tickets [] ct = (rs, alive, ct')"
    and "\<And>sid ct arms runs. callback_run ct arms runs \<Longrightarrow> callback_run (call sid ct) (\<lambda>s. arms s + grow sid ct s) runs"
  shows "callback_run ct' (\<lambda>sid. arms sid + deliver_arms call grow generation tickets ct sid) (\<lambda>sid. runs sid + count_list rs sid)
    \<and> runs sid + count_list rs sid + of_bool (is_pending (ct_states ct') sid)
        \<le> arms sid + deliver_arms call grow generation tickets ct sid"
proof -
  have "callback_run ct' (\<lambda>sid. arms sid + deliver_arms call grow generation tickets ct sid) (\<lambda>sid. runs sid + count_list rs sid)"
    using deliver_run [OF assms(1,2), where grow = grow] assms(3) by auto
  then show ?thesis using callback_run_inv by blast
qed

definition demo_callbacks :: "nat CallbackTimers" where
  "demo_callbacks = \<lparr>ct_timer = timer_new, ct_states = [9 \<mapsto> \<lparr>cs_arm = 0, cs_pending = True\<rparr>]\<rparr>"

definition demo_ticket :: CallbackTicket where
  "demo_ticket = \<lparr>tk_state = 9, tk_arm = 0, tk_generation = 0\<rparr>"

lemma demo_callbacks_run: "callback_run demo_callbacks (\<lambda>sid. if sid = 9 then 1 else 0) (\<lambda>_. 0)"
proof -
  let ?ct = "\<lparr>ct_timer = timer_new, ct_states = Map.empty\<rparr> :: nat CallbackTimers"
  have "\<exists>call h ct'. callback_new 4 0 0 1 0 9 100 ?ct = Some (call, h, ct')"
  proof -
    obtain idx expiry t where cb: "calc_bucket 4 0 0 100 (timer_new :: nat Timer) = ((idx, expiry), t)" by (metis surj_pair)
    have "wh_timers (insert_callback 1 9 (tm_generation t) (tm_wheel t)) 1 = Some (new_entry\<lparr>te_callback := True\<rparr>)"
      by (simp add: insert_callback_def Let_def)
    then obtain w where "wheel_link 0 1 idx (insert_callback 1 9 (tm_generation t) (tm_wheel t)) = Some w"
      using wheel_link_some by blast
    then show ?thesis using cb by (auto simp: callback_new_def Let_def split: prod.splits)
  qed
  then obtain call h ct' where n: "callback_new 4 0 0 1 0 9 100 ?ct = Some (call, h, ct')" by blast
  have "callback_run (ct'\<lparr>ct_timer := timer_new\<rparr>) ((\<lambda>_. 0)(9 := 1)) (\<lambda>_. 0)"
    by (rule callback_run.Wheel, rule callback_run.New [OF callback_run.Start _ n]) simp
  moreover have "ct'\<lparr>ct_timer := timer_new\<rparr> = demo_callbacks"
    using callback_new_states [OF n] by (simp add: demo_callbacks_def)
  moreover have "((\<lambda>_. 0)(9 := 1)) = (\<lambda>sid :: nat. if sid = 9 then 1 else (0 :: nat))" by auto
  ultimately show ?thesis by (simp only:)
qed

text \<open>Two tickets of the same arm: the callback runs once, and the timer has been armed once.\<close>

theorem callback_at_most_once_witness:
  "\<exists>ct'. deliver (\<lambda>_ ct. ct) 0 [demo_ticket, demo_ticket] [] demo_callbacks = ([9], True, ct')
    \<and> count_list [9] 9 + of_bool (is_pending (ct_states ct') 9) \<le> (1 :: nat)"
proof -
  have "\<exists>ct'. deliver (\<lambda>_ ct. ct) 0 [demo_ticket, demo_ticket] [] demo_callbacks = ([9], True, ct')"
    by (simp add: demo_ticket_def demo_callbacks_def claim_ticket_def set_pending_def) (simp add: timer_new_def)
  then obtain ct' where d: "deliver (\<lambda>_ ct. ct) 0 [demo_ticket, demo_ticket] [] demo_callbacks = ([9], True, ct')" by blast
  have "deliver_arms (\<lambda>_ ct. ct) (\<lambda>_ _ _. 0) 0 [demo_ticket, demo_ticket] demo_callbacks 9 = 0"
    by (simp split: prod.splits bool.splits)
  with callback_at_most_once [OF demo_callbacks_run d, where grow = "\<lambda>_ _ _. 0" and sid = 9] d show ?thesis by auto
qed

text \<open>Once a callback timer is cancelled, dropped or armed again, or the runtime has stopped, a ticket
  that was queued before does not run the callback any more.\<close>
lemma callback_suppressed:
  assumes "tk_state ticket = ch_state h"
    and "callback_cancel h ct = Some ct' \<or> callback_drop h ct = Some ct'
      \<or> (\<exists>c. wh_callbacks (tm_wheel (ct_timer ct)) = Some c \<and> cb_entries c (ch_hnd h) = Some ticket
          \<and> (stop_callbacks ct = Some ct'
             \<or> tk_arm ticket < 2 ^ 64 \<and> callback_reset u now now' key h duration ct = Some (call, ct')))"
  shows "\<not> fst (claim_ticket generation ticket ct')"
proof -
  obtain ok ct2 where cl: "claim_ticket generation ticket ct' = (ok, ct2)" by fastforce
  note ok = claim_ticket_cases(1) [OF cl]
  from assms(2) show ?thesis
  proof (elim disjE exE conjE)
    assume "callback_cancel h ct = Some ct'"
    then show ?thesis using ok cl assms(1) by (simp add: callback_cancel_states)
  next
    assume "callback_drop h ct = Some ct'"
    then show ?thesis using ok cl assms(1) by (simp add: callback_drop_states)
  next
    fix c assume "wh_callbacks (tm_wheel (ct_timer ct)) = Some c" "cb_entries c (ch_hnd h) = Some ticket" "stop_callbacks ct = Some ct'"
    then show ?thesis using ok cl by (auto simp: stop_callbacks_pending ran_def)
  next
    fix c assume c: "wh_callbacks (tm_wheel (ct_timer ct)) = Some c" "cb_entries c (ch_hnd h) = Some ticket"
      "tk_arm ticket < 2 ^ 64" and r: "callback_reset u now now' key h duration ct = Some (call, ct')"
    have "tk_arm ticket \<noteq> wrapping_add (tk_arm ticket) 1"
      using c(3) by (cases "tk_arm ticket = 2 ^ 64 - 1") (auto simp: wrapping_add_def)
    then show ?thesis by - (rule callback_reset_states [OF r], use ok cl assms(1) c in auto)
  qed
qed


end
