(* ===== verification/Timer_Lowres.thy ===== *)
theory Timer_Lowres
  imports Timer_Driver
begin

text \<open>
  The cached system time of \<^verbatim>\<open>ntex-util/src/time/wheel.rs\<close> and the task that invalidates it. What
  \<^verbatim>\<open>SystemTime::now()\<close> returns and whether the sleep of the task is ready are arguments.
\<close>

section \<open>Operations\<close>

record LowresTimerDriver =
  ld_generation :: nat

datatype lowres_call = No_Lowres | Wake_Lowres | Start_Lowres LowresTimerDriver

definition lowres_start :: "'w Timer \<Rightarrow> lowres_call \<times> 'w Timer" where
  "lowres_start t =
     (let t = timer_insert_flags {LOWRES_DRIVER} t in (Start_Lowres \<lparr>ld_generation = tm_generation t\<rparr>, t))"

definition refresh_lowres :: "'w Timer \<Rightarrow> lowres_call \<times> 'w Timer" where
  "refresh_lowres t = (if LOWRES_DRIVER \<in> tm_flags t then (Wake_Lowres, t) else lowres_start t)"

definition system_time :: "nat \<Rightarrow> 'w Timer \<Rightarrow> nat \<times> lowres_call \<times> 'w Timer" where
  "system_time now t =
     (case tm_lowres_stime t of
        Some cur \<Rightarrow> (cur, No_Lowres, t)
      | None \<Rightarrow>
          if RUNNING \<in> tm_flags t then
            let (call, t) = refresh_lowres (t\<lparr>tm_lowres_stime := Some now\<rparr>) in (now, call, t)
          else (now, No_Lowres, t))"

definition lowres_drop :: "LowresTimerDriver \<Rightarrow> 'w Timer \<Rightarrow> 'w Timer" where
  "lowres_drop d t = (if tm_generation t = ld_generation d then stop_lowres t else t)"

text \<open>\<open>ready\<close>: the sleep is ready when it is polled. \<open>None\<close>: the task ends. The first component tells
  whether the sleep is armed for another interval.\<close>

definition lowres_poll :: "bool \<Rightarrow> LowresTimerDriver \<Rightarrow> 'w Timer \<Rightarrow> (bool \<times> 'w Timer) option" where
  "lowres_poll ready d t =
     (if tm_generation t \<noteq> ld_generation d then None
      else
        let reset = LOWRES_TIMER \<notin> tm_flags t;
            flags = tm_flags t \<union> {LOWRES_TIMER};
            t = t\<lparr>tm_flags := flags\<rparr>
        in Some (reset, if ready then t\<lparr>tm_lowres_stime := None, tm_flags := flags - {LOWRES_TIMER}\<rparr> else t))"

section \<open>The cached value is covered by the task\<close>

text \<open>A value is cached only while the task that invalidates it is running.\<close>

definition lowres_ok :: "'w Timer \<Rightarrow> bool" where
  "lowres_ok t \<longleftrightarrow> (tm_lowres_stime t \<noteq> None \<longrightarrow> LOWRES_DRIVER \<in> tm_flags t)"

lemma system_time_ok:
  assumes "lowres_ok t" "system_time now t = (r, call, t')"
  shows "lowres_ok t'" "tm_lowres_stime t = None \<Longrightarrow> r = now" "tm_lowres_stime t = Some cur \<Longrightarrow> r = cur"
    "tm_lowres_stime t = None \<Longrightarrow> tm_lowres_stime t' \<noteq> None \<Longrightarrow> call \<noteq> No_Lowres"
  using assms by (auto simp: system_time_def refresh_lowres_def lowres_start_def timer_insert_flags_def lowres_ok_def Let_def
      split: option.splits if_splits prod.splits)

lemma lowres_poll_ok:
  assumes "lowres_ok t" "lowres_poll ready d t = Some (reset, t')"
  shows "lowres_ok t'" "ready \<Longrightarrow> tm_lowres_stime t' = None" "\<not> ready \<Longrightarrow> LOWRES_TIMER \<in> tm_flags t'"
  using assms by (auto simp: lowres_poll_def lowres_ok_def Let_def split: if_splits)

lemma stop_lowres_ok: "lowres_ok (stop_lowres t)"
  by (simp add: lowres_ok_def stop_lowres_def)

lemma lowres_drop_ok: "lowres_ok t \<Longrightarrow> lowres_ok (lowres_drop d t)"
  by (simp add: lowres_drop_def stop_lowres_ok)

lemma timer_reset_lowres: "timer_reset t = Some t' \<Longrightarrow> lowres_ok t' \<and> tm_lowres_stime t' = None"
  by (auto simp: timer_reset_def stop_lowres_def lowres_ok_def)

end
