(* ===== verification/Local_Waker.thy ===== *)
theory Local_Waker
  imports Prelude
begin

text \<open>
  \<^verbatim>\<open>LocalWaker\<close> (\<^verbatim>\<open>ntex-util/src/task.rs\<close>): a slot for the waker of the task that waits. The slot is an
  option; the type variable is a waker, and \<open>will_wake\<close> tells whether two wakers wake the same task.
  Operations that wake return the wakers that were called, in order. The contract that a channel
  relies on is the locale \<open>waker_slot\<close>.
\<close>

section \<open>Operations\<close>

datatype 'a poll = Ready 'a | Pending

definition lw_new :: "'w option" where
  "lw_new = None"

definition lw_register :: "('w \<Rightarrow> 'w \<Rightarrow> bool) \<Rightarrow> 'w \<Rightarrow> 'w option \<Rightarrow> bool \<times> 'w option" where
  "lw_register will_wake waker slot =
     (let registered = slot \<noteq> None;
          same = (case slot of Some prev \<Rightarrow> will_wake prev waker | None \<Rightarrow> False)
      in (registered, if same then slot else Some waker))"

definition lw_take_local :: "'w option \<Rightarrow> 'w option \<times> 'w option" where
  "lw_take_local slot = (slot, None)"

definition lw_wake :: "'w option \<Rightarrow> 'w list \<times> 'w option" where
  "lw_wake slot = (case lw_take_local slot of (Some waker, slot) \<Rightarrow> ([waker], slot) | (None, slot) \<Rightarrow> ([], slot))"

definition lw_wake_checked :: "'w option \<Rightarrow> bool \<times> 'w list \<times> 'w option" where
  "lw_wake_checked slot =
     (case lw_take_local slot of (Some waker, slot) \<Rightarrow> (True, [waker], slot) | (None, slot) \<Rightarrow> (False, [], slot))"

definition lw_is_set :: "'w option \<Rightarrow> bool" where
  "lw_is_set slot \<longleftrightarrow> slot \<noteq> None"

definition lw_clone :: "'w option \<Rightarrow> 'w option" where
  "lw_clone slot = lw_new"

section \<open>The contract\<close>

text \<open>
  After \<open>register\<close> the slot is set, and the next \<open>wake\<close> calls a waker of the registered task exactly
  once and empties the slot.
\<close>

locale waker_slot =
  fixes register :: "'w \<Rightarrow> 's \<Rightarrow> bool \<times> 's"
    and wake :: "'s \<Rightarrow> 'w list \<times> 's"
    and is_set :: "'s \<Rightarrow> bool"
    and same :: "'w \<Rightarrow> 'w \<Rightarrow> bool"
  assumes register_set: "is_set (snd (register w s))"
    and register_was_set: "fst (register w s) \<longleftrightarrow> is_set s"
    and register_wakes: "\<exists>w'. fst (wake (snd (register w s))) = [w'] \<and> (w' = w \<or> same w' w)"
    and wake_unset: "\<not> is_set (snd (wake s))"
    and wake_called: "fst (wake s) = [] \<longleftrightarrow> \<not> is_set s"
begin

text \<open>A waker that is registered is called by the first \<open>wake\<close> and by no later one.\<close>

lemma wake_once:
  assumes "register w s = (r, s1)" "wake s1 = (ws, s2)" "wake s2 = (ws', s3)"
  shows "(\<exists>w'. ws = [w'] \<and> (w' = w \<or> same w' w)) \<and> ws' = []"
  using register_wakes [of w s] wake_unset [of s1] wake_called [of s2] assms by simp

end

lemma lw_wake_eq [simp]:
  "lw_wake slot = (case slot of None \<Rightarrow> [] | Some w \<Rightarrow> [w], None)"
  by (auto simp: lw_wake_def lw_take_local_def split: option.splits)

interpretation local_waker: waker_slot "lw_register will_wake" lw_wake lw_is_set will_wake for will_wake
  by unfold_locales
    (auto simp: lw_is_set_def lw_register_def Let_def split: option.splits)

end
