(* ===== verification/Channel_Mpsc.thy ===== *)
theory Channel_Mpsc
  imports Local_Waker
begin

text \<open>
  The multi-producer, single-consumer queue of \<^verbatim>\<open>ntex-util/src/channel/mpsc.rs\<close>. The shared cell is a
  record; the number of senders and whether the receiver is alive give its strong count. Operations
  return the wakers they call, in order. Wakers do not run inside an operation.
\<close>

section \<open>State\<close>

record ('a, 'w) Shared =
  sh_buffer :: "'a list"
  sh_blocked_recv :: "'w option"
  sh_closed :: "'w option"
  sh_has_receiver :: bool
  sh_senders :: nat
  sh_receiver :: bool

definition channel :: "('a, 'w) Shared" where
  "channel = \<lparr>sh_buffer = [], sh_blocked_recv = lw_new, sh_closed = lw_new, sh_has_receiver = True,
     sh_senders = 1, sh_receiver = True\<rparr>"

definition strong_count :: "('a, 'w) Shared \<Rightarrow> nat" where
  "strong_count s = sh_senders s + of_bool (sh_receiver s)"

definition wake_recv :: "('a, 'w) Shared \<Rightarrow> 'w list \<times> ('a, 'w) Shared" where
  "wake_recv s = (let (ws, slot) = lw_wake (sh_blocked_recv s) in (ws, s\<lparr>sh_blocked_recv := slot\<rparr>))"

definition wake_closed :: "('a, 'w) Shared \<Rightarrow> 'w list \<times> ('a, 'w) Shared" where
  "wake_closed s = (let (ws, slot) = lw_wake (sh_closed s) in (ws, s\<lparr>sh_closed := slot\<rparr>))"

definition shared_close :: "('a, 'w) Shared \<Rightarrow> 'w list \<times> ('a, 'w) Shared" where
  "shared_close s =
     (let (ws, s) = wake_recv (s\<lparr>sh_has_receiver := False\<rparr>);
          (ws', s) = wake_closed s
      in (ws @ ws', s))"

section \<open>Senders\<close>

definition send :: "'a \<Rightarrow> ('a, 'w) Shared \<Rightarrow> ('a + unit) \<times> 'w list \<times> ('a, 'w) Shared" where
  "send item s =
     (if \<not> sh_has_receiver s then (Inl item, [], s)
      else let (ws, s) = wake_recv (s\<lparr>sh_buffer := sh_buffer s @ [item]\<rparr>) in (Inr (), ws, s))"

definition sender_close :: "('a, 'w) Shared \<Rightarrow> 'w list \<times> ('a, 'w) Shared" where
  "sender_close s = shared_close s"

definition mpsc_is_closed :: "('a, 'w) Shared \<Rightarrow> bool" where
  "mpsc_is_closed s \<longleftrightarrow> strong_count s = 1 \<or> \<not> sh_has_receiver s"

definition poll_closed :: "('w \<Rightarrow> 'w \<Rightarrow> bool) \<Rightarrow> 'w \<Rightarrow> ('a, 'w) Shared \<Rightarrow> unit poll \<times> ('a, 'w) Shared" where
  "poll_closed will_wake w s =
     (if sh_has_receiver s then (Pending, s\<lparr>sh_closed := snd (lw_register will_wake w (sh_closed s))\<rparr>)
      else (Ready (), s))"

definition sender_clone :: "('a, 'w) Shared \<Rightarrow> ('a, 'w) Shared" where
  "sender_clone s = s\<lparr>sh_senders := sh_senders s + 1\<rparr>"

definition sender_drop :: "('a, 'w) Shared \<Rightarrow> 'w list \<times> ('a, 'w) Shared" where
  "sender_drop s =
     (let count = strong_count s;
          (ws, s) = (if sh_has_receiver s \<and> count = 2 then wake_recv s else ([], s))
      in (ws, s\<lparr>sh_senders := sh_senders s - 1\<rparr>))"

section \<open>The receiver\<close>

definition receiver_sender :: "('a, 'w) Shared \<Rightarrow> ('a, 'w) Shared" where
  "receiver_sender s = s\<lparr>sh_senders := sh_senders s + 1\<rparr>"

definition receiver_close :: "('a, 'w) Shared \<Rightarrow> 'w list \<times> ('a, 'w) Shared" where
  "receiver_close s = shared_close s"

definition poll_recv :: "('w \<Rightarrow> 'w \<Rightarrow> bool) \<Rightarrow> 'w \<Rightarrow> ('a, 'w) Shared \<Rightarrow> 'a option poll \<times> ('a, 'w) Shared" where
  "poll_recv will_wake w s =
     (case sh_buffer s of
        msg # buffer \<Rightarrow> (Ready (Some msg), s\<lparr>sh_buffer := buffer\<rparr>)
      | [] \<Rightarrow>
          if sh_has_receiver s then
            let s = s\<lparr>sh_blocked_recv := snd (lw_register will_wake w (sh_blocked_recv s))\<rparr>
            in if strong_count s = 1 then (Ready None, s) else (Pending, s)
          else (Ready None, s))"

definition is_terminated :: "('a, 'w) Shared \<Rightarrow> bool" where
  "is_terminated s \<longleftrightarrow> mpsc_is_closed s \<and> sh_buffer s = []"

definition receiver_drop :: "('a, 'w) Shared \<Rightarrow> 'w list \<times> ('a, 'w) Shared" where
  "receiver_drop s =
     (let s = s\<lparr>sh_has_receiver := False, sh_buffer := []\<rparr>;
          (ws, s) = wake_closed s
      in (ws, s\<lparr>sh_receiver := False\<rparr>))"

section \<open>Runs\<close>

text \<open>
  The operations of the handles that are alive, with the messages that were accepted, those that were
  received, and whether the receiver waits: its last poll was pending and it has not been woken since.
\<close>

inductive mpsc_run :: "('a, 'w) Shared \<Rightarrow> 'a list \<Rightarrow> 'a list \<Rightarrow> bool \<Rightarrow> bool" where
  Open: "mpsc_run channel [] [] False"
| Send: "\<lbrakk>mpsc_run s sent got waiting; 0 < sh_senders s; send item s = (r, ws, s')\<rbrakk>
    \<Longrightarrow> mpsc_run s' (if r = Inr () then sent @ [item] else sent) got (waiting \<and> lw_is_set (sh_blocked_recv s'))"
| Close: "\<lbrakk>mpsc_run s sent got waiting; sender_close s = (ws, s') \<or> receiver_close s = (ws, s')\<rbrakk>
    \<Longrightarrow> mpsc_run s' sent got (waiting \<and> lw_is_set (sh_blocked_recv s'))"
| Poll_Closed: "\<lbrakk>mpsc_run s sent got waiting; poll_closed will_wake w s = (r, s')\<rbrakk> \<Longrightarrow> mpsc_run s' sent got waiting"
| Clone: "\<lbrakk>mpsc_run s sent got waiting; 0 < sh_senders s\<rbrakk> \<Longrightarrow> mpsc_run (sender_clone s) sent got waiting"
| Sender_Drop: "\<lbrakk>mpsc_run s sent got waiting; 0 < sh_senders s; sender_drop s = (ws, s')\<rbrakk>
    \<Longrightarrow> mpsc_run s' sent got (waiting \<and> lw_is_set (sh_blocked_recv s'))"
| Add_Sender: "\<lbrakk>mpsc_run s sent got waiting; sh_receiver s\<rbrakk> \<Longrightarrow> mpsc_run (receiver_sender s) sent got waiting"
| Recv: "\<lbrakk>mpsc_run s sent got waiting; sh_receiver s; poll_recv will_wake w s = (r, s')\<rbrakk>
    \<Longrightarrow> mpsc_run s' sent (case r of Ready (Some msg) \<Rightarrow> got @ [msg] | _ \<Rightarrow> got) (r = Pending)"
| Receiver_Drop: "\<lbrakk>mpsc_run s sent got waiting; sh_receiver s; receiver_drop s = (ws, s')\<rbrakk> \<Longrightarrow> mpsc_run s' sent got False"

definition mpsc_inv :: "('a, 'w) Shared \<Rightarrow> 'a list \<Rightarrow> 'a list \<Rightarrow> bool \<Rightarrow> bool" where
  "mpsc_inv s sent got waiting \<longleftrightarrow>
     (sh_has_receiver s \<longrightarrow> sh_receiver s)
     \<and> (if sh_receiver s then sent = got @ sh_buffer s else sh_buffer s = [] \<and> (\<exists>lost. sent = got @ lost))
     \<and> (waiting \<longrightarrow> lw_is_set (sh_blocked_recv s) \<and> sh_buffer s = [] \<and> sh_has_receiver s \<and> 0 < sh_senders s)"

lemmas mpsc_ops = send_def sender_close_def receiver_close_def shared_close_def poll_closed_def sender_clone_def
  sender_drop_def receiver_sender_def poll_recv_def receiver_drop_def wake_recv_def wake_closed_def strong_count_def

lemma mpsc_run_inv:
  assumes "mpsc_run s sent got waiting"
  shows "mpsc_inv s sent got waiting"
  using assms
proof induction
  case Open
  then show ?case by (simp add: mpsc_inv_def channel_def)
next
  case (Recv s sent got waiting will_wake w r s')
  then show ?case
    by (cases "sh_buffer s") (auto simp: mpsc_inv_def poll_recv_def strong_count_def local_waker.register_set Let_def split: if_splits)
next
  case (Sender_Drop s sent got waiting ws s')
  then show ?case
    by (auto simp: mpsc_inv_def sender_drop_def wake_recv_def strong_count_def lw_is_set_def Let_def split: if_splits)
qed (auto simp: mpsc_inv_def mpsc_ops lw_is_set_def Let_def split: if_splits)

section \<open>Properties\<close>

text \<open>C30. Messages are received in the order in which they were accepted and none is lost or duplicated
  while the receiver lives: what was accepted is what was received followed by what is buffered.\<close>
theorem mpsc_fifo:
  assumes "mpsc_run s sent got waiting" "sh_receiver s"
  shows "sent = got @ sh_buffer s"
  using mpsc_run_inv [OF assms(1)] assms(2) by (simp add: mpsc_inv_def)

text \<open>C21. A receiver is not left waiting: while its last poll was pending and it has not been woken, its
  waker is registered and polling again would still be pending, because the queue is empty, not
  closed, and there is a sender.\<close>
theorem mpsc_no_lost_wakeup:
  assumes "mpsc_run s sent got True"
  shows "lw_is_set (sh_blocked_recv s) \<and> fst (poll_recv will_wake w s) = Pending \<and> \<not> mpsc_is_closed s"
  using mpsc_run_inv [OF assms]
  by (auto simp: mpsc_inv_def poll_recv_def strong_count_def mpsc_is_closed_def Let_def)


theorem mpsc_fifo_witness:
  "\<exists>s. mpsc_run (s :: (nat, nat) Shared) [5, 6] [5] False \<and> sh_receiver s \<and> [5, 6] = [5] @ sh_buffer s"
proof -
  define s1 where "s1 = snd (snd (send 5 (channel :: (nat, nat) Shared)))"
  define s2 where "s2 = snd (snd (send 6 s1))"
  define s3 where "s3 = snd (poll_recv (=) 0 s2)"
  note defs = s1_def s2_def s3_def channel_def send_def wake_recv_def poll_recv_def lw_new_def Let_def
  have "mpsc_run s1 ([] @ [5]) [] (False \<and> lw_is_set (sh_blocked_recv s1))"
    using mpsc_run.Send [OF mpsc_run.Open, of 5 "Inr ()" "[]" s1] by (simp add: defs)
  then have "mpsc_run s2 [5, 6] [] False"
    using mpsc_run.Send [of s1 "[5]" "[]" False 6 "Inr ()" "[]" s2] by (simp add: defs)
  then have "mpsc_run s3 [5, 6] [5] False"
    using mpsc_run.Recv [of s2 "[5, 6]" "[]" False "(=)" 0 "Ready (Some 5)" s3] by (simp add: defs)
  moreover have "sh_receiver s3" by (simp add: defs)
  ultimately show ?thesis using mpsc_fifo by blast
qed

theorem mpsc_no_lost_wakeup_witness:
  "\<exists>s. mpsc_run (s :: (nat, nat) Shared) [] [] True \<and> fst (poll_recv (=) 0 s) = Pending \<and> sh_blocked_recv s = Some 3"
proof -
  define s1 where "s1 = snd (poll_recv (=) 3 (channel :: (nat, nat) Shared))"
  note defs = s1_def channel_def poll_recv_def lw_new_def lw_register_def strong_count_def Let_def
  have "mpsc_run s1 [] [] True"
    using mpsc_run.Recv [OF mpsc_run.Open, of "(=)" 3 Pending s1] by (simp add: defs)
  moreover have "sh_blocked_recv s1 = Some 3" by (simp add: defs)
  ultimately show ?thesis using mpsc_no_lost_wakeup [of s1 "[]" "[]" "(=)" 0] by blast
qed

end
