(* ===== verification/Channel_Condition.thy ===== *)
theory Channel_Condition
  imports Local_Waker
begin

text \<open>
  The condition of \<^verbatim>\<open>ntex-util/src/channel/condition.rs\<close>, which hands a value to all waiters that wait
  for it. The slab of waiters is a partial function from tokens; the token of a new waiter is an
  argument. A token of a waiter that is alive is in the slab. Wakers that are called are a set: the
  order follows the slab.
\<close>

section \<open>State\<close>

datatype 'a ConditionResult = ConditionValue 'a | ConditionLocked | ConditionDropped

datatype ConditionState = CS_Normal | CS_Locked | CS_Dropped

record ('a, 'w) ConditionItem =
  it_val :: "'a ConditionResult"
  it_waker :: "'w option"

record ('a, 'w) ConditionInner =
  ci_data :: "nat \<rightharpoonup> ('a, 'w) ConditionItem option"
  ci_count :: nat
  ci_state :: ConditionState

definition condition_new :: "('a, 'w) ConditionInner" where
  "condition_new = \<lparr>ci_data = Map.empty, ci_count = 1, ci_state = CS_Normal\<rparr>"

definition condition_clone :: "('a, 'w) ConditionInner \<Rightarrow> ('a, 'w) ConditionInner" where
  "condition_clone c = c\<lparr>ci_count := ci_count c + 1\<rparr>"

definition condition_wait :: "nat \<Rightarrow> ('a, 'w) ConditionInner \<Rightarrow> ('a, 'w) ConditionInner" where
  "condition_wait token c = c\<lparr>ci_data := (ci_data c)(token \<mapsto> None)\<rparr>"

section \<open>Notification\<close>

text \<open>An item whose waker is registered is woken and gets the result; the others stay as they are.\<close>

definition deliver_item :: "'a ConditionResult \<Rightarrow> ('a, 'w) ConditionItem \<Rightarrow> ('a, 'w) ConditionItem" where
  "deliver_item v i = (case lw_wake_checked (it_waker i) of (woken, _, slot) \<Rightarrow>
     if woken then i\<lparr>it_val := v, it_waker := slot\<rparr> else i\<lparr>it_waker := slot\<rparr>)"

definition deliver_all ::
    "'a ConditionResult \<Rightarrow> ('a, 'w) ConditionInner \<Rightarrow> 'w set \<times> ('a, 'w) ConditionInner" where
  "deliver_all v c =
     ({w. \<exists>token i. ci_data c token = Some (Some i) \<and> w \<in> set (fst (snd (lw_wake_checked (it_waker i))))},
      c\<lparr>ci_data := (\<lambda>token. map_option (map_option (deliver_item v)) (ci_data c token))\<rparr>)"

definition condition_notify :: "'a \<Rightarrow> ('a, 'w) ConditionInner \<Rightarrow> 'w set \<times> ('a, 'w) ConditionInner" where
  "condition_notify val c = (if ci_state c \<noteq> CS_Normal then ({}, c) else deliver_all (ConditionValue val) c)"

definition notify_and_lock :: "'a \<Rightarrow> ('a, 'w) ConditionInner \<Rightarrow> 'w set \<times> ('a, 'w) ConditionInner" where
  "notify_and_lock val c = (let (ws, c) = condition_notify val c in (ws, c\<lparr>ci_state := CS_Locked\<rparr>))"

text \<open>\<open>None\<close>: the subtraction panics.\<close>

definition condition_drop :: "('a, 'w) ConditionInner \<Rightarrow> ('w set \<times> ('a, 'w) ConditionInner) option" where
  "condition_drop c =
     (if ci_count c = 0 then None
      else
        let c = c\<lparr>ci_count := ci_count c - 1\<rparr>
        in Some (if ci_count c = 0 then deliver_all ConditionDropped (c\<lparr>ci_state := CS_Dropped\<rparr>) else ({}, c)))"

section \<open>Waiters\<close>

definition poll_ready ::
    "('w \<Rightarrow> 'w \<Rightarrow> bool) \<Rightarrow> 'w \<Rightarrow> nat \<Rightarrow> ('a, 'w) ConditionInner
      \<Rightarrow> ('a ConditionResult poll \<times> ('a, 'w) ConditionInner) option" where
  "poll_ready will_wake w token c =
     (let status = (case ci_state c of
              CS_Normal \<Rightarrow> Pending | CS_Locked \<Rightarrow> Ready ConditionLocked | CS_Dropped \<Rightarrow> Ready ConditionDropped)
      in case ci_data c token of
        None \<Rightarrow> None
      | Some None \<Rightarrow>
          if ci_state c = CS_Normal then
            Some (Pending, c\<lparr>ci_data := (ci_data c)(token \<mapsto> Some
              \<lparr>it_val = ConditionLocked, it_waker = snd (lw_register will_wake w lw_new)\<rparr>)\<rparr>)
          else Some (status, c)
      | Some (Some i) \<Rightarrow>
          let (registered, slot) = lw_register will_wake w (it_waker i) in
          if \<not> registered
          then Some (Ready (it_val i), c\<lparr>ci_data := (ci_data c)(token \<mapsto> Some (i\<lparr>it_val := ConditionLocked, it_waker := slot\<rparr>))\<rparr>)
          else Some (status, c\<lparr>ci_data := (ci_data c)(token \<mapsto> Some (i\<lparr>it_waker := slot\<rparr>))\<rparr>))"

definition waiter_clone :: "nat \<Rightarrow> ('a, 'w) ConditionInner \<Rightarrow> ('a, 'w) ConditionInner" where
  "waiter_clone token c = c\<lparr>ci_data := (ci_data c)(token \<mapsto> None)\<rparr>"

definition waiter_drop :: "nat \<Rightarrow> ('a, 'w) ConditionInner \<Rightarrow> ('a, 'w) ConditionInner" where
  "waiter_drop token c = c\<lparr>ci_data := (ci_data c)(token := None)\<rparr>"

section \<open>What a waiter gets\<close>

text \<open>
  The operations of the other handles, seen from the waiter with a token: they neither poll nor drop
  it, and new waiters get other tokens. The results that are handed out on the way are recorded in
  order (a notification hands out its value while the condition is neither locked nor dropped, and
  dropping the last condition hands out \<open>ConditionDropped\<close>), and so are the wakers that are called.
\<close>

inductive others ::
    "nat \<Rightarrow> ('a, 'w) ConditionInner \<Rightarrow> 'a ConditionResult list \<Rightarrow> 'w set \<Rightarrow> ('a, 'w) ConditionInner \<Rightarrow> bool"
  for token c where
  Refl: "others token c [] {} c"
| Clone: "others token c vs W c' \<Longrightarrow> others token c vs W (condition_clone c')"
| Wait: "others token c vs W c' \<Longrightarrow> new \<noteq> token \<Longrightarrow> others token c vs W (condition_wait new c')"
| Notify: "others token c vs W c' \<Longrightarrow> condition_notify val c' = (ws, c'')
    \<Longrightarrow> others token c (vs @ (if ci_state c' = CS_Normal then [ConditionValue val] else [])) (W \<union> ws) c''"
| Lock: "others token c vs W c' \<Longrightarrow> notify_and_lock val c' = (ws, c'')
    \<Longrightarrow> others token c (vs @ (if ci_state c' = CS_Normal then [ConditionValue val] else [])) (W \<union> ws) c''"
| Drop: "others token c vs W c' \<Longrightarrow> condition_drop c' = Some (ws, c'')
    \<Longrightarrow> others token c (vs @ (if ci_count c' = 1 then [ConditionDropped] else [])) (W \<union> ws) c''"
| Poll: "others token c vs W c' \<Longrightarrow> other \<noteq> token \<Longrightarrow> poll_ready will_wake w other c' = Some (r, c'')
    \<Longrightarrow> others token c vs W c''"
| Waiter_Clone: "others token c vs W c' \<Longrightarrow> new \<noteq> token \<Longrightarrow> others token c vs W (waiter_clone new c')"
| Waiter_Drop: "others token c vs W c' \<Longrightarrow> other \<noteq> token \<Longrightarrow> others token c vs W (waiter_drop other c')"

lemma deliver_item_unset [simp]: "it_waker i = None \<Longrightarrow> deliver_item v i = i"
  by (simp add: deliver_item_def lw_wake_checked_def lw_take_local_def)

lemma deliver_item_set: "it_waker i \<noteq> None \<Longrightarrow> deliver_item v i = i\<lparr>it_val := v, it_waker := None\<rparr>"
  by (auto simp: deliver_item_def lw_wake_checked_def lw_take_local_def)

text \<open>A poll of another waiter leaves the item and the state alone.\<close>

lemma poll_other:
  "\<lbrakk>poll_ready will_wake w other c = Some (r, c'); other \<noteq> token\<rbrakk> \<Longrightarrow> ci_data c' token = ci_data c token \<and> ci_state c' = ci_state c"
  by (auto simp: poll_ready_def Let_def split: option.splits if_splits prod.splits)

text \<open>What has been handed out decides what the item holds: nothing yet, or the first result.\<close>

definition item_after :: "('a, 'w) ConditionItem \<Rightarrow> 'a ConditionResult list \<Rightarrow> ('a, 'w) ConditionItem" where
  "item_after i vs = (case vs of [] \<Rightarrow> i | v # _ \<Rightarrow> i\<lparr>it_val := v, it_waker := None\<rparr>)"

lemma item_after_deliver:
  "it_waker i \<noteq> None \<Longrightarrow> deliver_item v (item_after i vs) = item_after i (vs @ [v])"
  by (cases vs) (simp_all add: item_after_def deliver_item_set)

lemma item_after_wake:
  assumes "ci_data c token = Some (Some (item_after i vs))" "it_waker i = Some w" "deliver_all v c = (ws, c')"
  shows "ci_data c' token = Some (Some (item_after i (vs @ [v])))" "vs = [] \<Longrightarrow> w \<in> ws"
    "ci_state c' = ci_state c"
  using assms item_after_deliver [of i v vs]
  by (auto simp: deliver_all_def item_after_def lw_wake_checked_def lw_take_local_def intro!: exI [of _ token] exI [of _ i])

lemma others_item:
  assumes "others token c vs W c'" "ci_data c token = Some (Some i)" "it_waker i = Some w" "ci_state c = CS_Normal"
  shows "ci_data c' token = Some (Some (item_after i vs)) \<and> (vs = [] \<longrightarrow> ci_state c' = CS_Normal) \<and> (vs \<noteq> [] \<longrightarrow> w \<in> W)"
  using assms(1)
proof induction
  case Refl
  then show ?case using assms by (simp add: item_after_def)
next
  case (Notify vs W c' val ws c'')
  then show ?case using item_after_wake [of c' token i vs w "ConditionValue val" ws c''] assms(3)
    by (auto simp: condition_notify_def split: if_splits)
next
  case (Lock vs W c' val ws c'')
  then obtain c1 where c1: "condition_notify val c' = (ws, c1)" "c'' = c1\<lparr>ci_state := CS_Locked\<rparr>"
    by (auto simp: notify_and_lock_def split: prod.splits)
  then show ?case using item_after_wake [of c' token i vs w "ConditionValue val" ws c1] Lock assms(3)
    by (auto simp: condition_notify_def split: if_splits)
next
  case (Drop vs W c' ws c'')
  let ?c = "c'\<lparr>ci_count := ci_count c' - 1, ci_state := CS_Dropped\<rparr>"
  show ?case
  proof (cases "ci_count c' = 1")
    case True
    then have "deliver_all ConditionDropped ?c = (ws, c'')" using Drop(2) by (simp add: condition_drop_def Let_def split: if_splits)
    then show ?thesis using item_after_wake [of ?c token i vs w ConditionDropped ws c''] Drop(3) assms(3) True by auto
  next
    case False
    then show ?thesis using Drop by (auto simp: condition_drop_def Let_def split: if_splits)
  qed
next
  case (Poll vs W c' other will_wake w' r c'')
  then show ?case using poll_other [OF Poll(3,2)] by simp
qed (auto simp: condition_clone_def condition_wait_def waiter_clone_def waiter_drop_def)

text \<open>A pending poll leaves a waker of the task in the item.\<close>

lemma poll_pending:
  assumes "poll_ready will_wake w token c0 = Some (Pending, c1)"
  obtains i w' where "ci_data c1 token = Some (Some i)" "it_waker i = Some w'" "w' = w \<or> will_wake w' w" "ci_state c1 = CS_Normal"
  using assms by (auto simp: poll_ready_def lw_register_def lw_new_def Let_def
      split: option.splits if_splits prod.splits ConditionState.splits)

section \<open>Properties\<close>

text \<open>C31. A waiter whose last poll was pending gets the first result that is handed out afterwards, whatever
  the other handles do before and after that: clones, new waiters, polls and drops of other waiters,
  later notifications, locking and dropping the condition. Once a result is handed out the task of
  the waiter has been woken and its next poll returns that result; until then a poll stays pending.\<close>
theorem waiter_gets_value:
  assumes "poll_ready will_wake w token c0 = Some (Pending, c1)" "others token c1 vs W c2"
  shows "(vs \<noteq> [] \<longrightarrow> (\<exists>w' \<in> W. w' = w \<or> will_wake w' w))
    \<and> (\<exists>c3. poll_ready will_wake' w2 token c2 = Some (case vs of [] \<Rightarrow> Pending | v # _ \<Rightarrow> Ready v, c3))"
proof -
  obtain i w' where i: "ci_data c1 token = Some (Some i)" "it_waker i = Some w'" "w' = w \<or> will_wake w' w" "ci_state c1 = CS_Normal"
    using poll_pending [OF assms(1)] by blast
  note o = others_item [OF assms(2) i(1,2,4)]
  have "\<exists>c3. poll_ready will_wake' w2 token c2 = Some (case vs of [] \<Rightarrow> Pending | v # _ \<Rightarrow> Ready v, c3)"
    using o i(2) by (cases vs) (auto simp: poll_ready_def item_after_def lw_register_def Let_def)
  then show ?thesis using o i(3) by blast
qed

text \<open>Two waiters wait; the one that polled first is woken by the notification and gets its value.\<close>

theorem waiter_gets_value_witness:
  "\<exists>c1 c2 ws c3 c4 c5. poll_ready (=) 7 0 (condition_wait 1 (condition_wait 0 condition_new) :: (nat, nat) ConditionInner) = Some (Pending, c1)
    \<and> poll_ready (=) 8 1 c1 = Some (Pending, c2) \<and> condition_notify 5 c2 = (ws, c3) \<and> 7 \<in> ws
    \<and> condition_notify 6 c3 = ({}, c4) \<and> poll_ready (=) 9 0 c4 = Some (Ready (ConditionValue 5), c5)"
proof -
  let ?c = "condition_wait 1 (condition_wait 0 condition_new) :: (nat, nat) ConditionInner"
  let ?i = "\<lambda>w. \<lparr>it_val = ConditionLocked, it_waker = Some w\<rparr> :: (nat, nat) ConditionItem"
  obtain c1 where c1: "poll_ready (=) 7 0 ?c = Some (Pending, c1)" "ci_data c1 = [0 \<mapsto> Some (?i 7), 1 \<mapsto> None]" "ci_state c1 = CS_Normal"
    by (simp add: poll_ready_def condition_wait_def condition_new_def lw_new_def lw_register_def fun_upd_twist Let_def)
  obtain c2 where c2: "poll_ready (=) 8 1 c1 = Some (Pending, c2)" "ci_data c2 = [0 \<mapsto> Some (?i 7), 1 \<mapsto> Some (?i 8)]" "ci_state c2 = CS_Normal"
    using c1 by (simp add: poll_ready_def lw_new_def lw_register_def Let_def)
  obtain ws c3 where c3: "condition_notify 5 c2 = (ws, c3)" by fastforce
  then have d3: "ci_data c3 = map_option (map_option (deliver_item (ConditionValue 5))) \<circ> ci_data c2" "ci_state c3 = CS_Normal"
    and ws: "ws = {7, 8}"
    using c2 by (auto simp: condition_notify_def deliver_all_def lw_wake_checked_def lw_take_local_def split: if_splits)
  then obtain c4 where c4: "condition_notify 6 c3 = ({}, c4)"
    using c2 by (auto simp: condition_notify_def deliver_all_def deliver_item_def lw_wake_checked_def lw_take_local_def split: if_splits)
  have "others 0 c1 ([] @ [ConditionValue 5] @ [ConditionValue 6]) ({} \<union> ws \<union> {}) c4"
    using others.Notify [OF others.Notify [OF others.Poll [OF others.Refl _ c2(1)] c3] c4] c2(3) d3(2) by simp
  from waiter_gets_value [OF c1(1) this, of "(=)" 9] show ?thesis using c1(1) c2(1) c3 c4 ws by auto
qed

end
