(* ===== verification/Byte_Stream.thy ===== *)
theory Byte_Stream
  imports Local_Waker
begin

text \<open>
  The buffered byte stream of \<^verbatim>\<open>ntex-util/src/channel/bstream.rs\<close>, which carries the bodies of requests
  and responses. A chunk is a list of bytes, the type variables are errors and wakers. The stream
  counts its senders; a sender reaches the shared state only while the receiver is alive. \<open>bs_changed\<close>
  counts the calls of the readiness notifier, where the stream has one. Operations return the wakers
  they call, in order.
\<close>

section \<open>State\<close>

datatype StreamStatus = Status_Eof | Status_Ready | Status_Dropped

datatype StreamFlag = EOF | ERROR | NEED_READ | SENDER_GONE | RECEIVER_GONE

definition HIGH_WATERMARK :: nat where "HIGH_WATERMARK = 32768"
definition LOW_WATERMARK :: nat where "LOW_WATERMARK = HIGH_WATERMARK div 2"

record ('e, 'w) Stream =
  bs_len :: nat
  bs_flags :: "StreamFlag set"
  bs_err :: "'e option"
  bs_items :: "u8 list list"
  bs_recv_task :: "'w option"
  bs_send_task :: "'w option"
  bs_high_watermark :: nat
  bs_low_watermark :: nat
  bs_changed :: "nat option"
  bs_senders :: nat
  bs_receiver :: bool

definition flags_status :: "StreamFlag set \<Rightarrow> StreamStatus poll" where
  "flags_status fs =
     (if SENDER_GONE \<in> fs \<or> RECEIVER_GONE \<in> fs \<or> ERROR \<in> fs then Ready Status_Dropped
      else if EOF \<in> fs then Ready Status_Eof
      else if NEED_READ \<in> fs then Ready Status_Ready
      else Pending)"

definition inner_new :: "bool \<Rightarrow> ('e, 'w) Stream" where
  "inner_new eof =
     \<lparr>bs_len = 0, bs_flags = (if eof then {EOF} else {NEED_READ}), bs_err = None, bs_items = [],
      bs_recv_task = lw_new, bs_send_task = lw_new, bs_high_watermark = HIGH_WATERMARK,
      bs_low_watermark = LOW_WATERMARK, bs_changed = None, bs_senders = 0, bs_receiver = False\<rparr>"

definition channel_inner :: "('e, 'w) Stream \<Rightarrow> ('e, 'w) Stream" where
  "channel_inner inner = inner\<lparr>bs_senders := 1, bs_receiver := True\<rparr>"

definition bs_channel :: "('e, 'w) Stream" where
  "bs_channel = channel_inner (inner_new False)"

definition channel_with_notifier :: "nat \<Rightarrow> ('e, 'w) Stream" where
  "channel_with_notifier changed = channel_inner ((inner_new False)\<lparr>bs_changed := Some changed\<rparr>)"

definition bs_eof :: "('e, 'w) Stream" where
  "bs_eof = channel_inner (inner_new True)"

section \<open>The shared state\<close>

definition stream_insert_flag :: "StreamFlag set \<Rightarrow> ('e, 'w) Stream \<Rightarrow> ('e, 'w) Stream" where
  "stream_insert_flag f s = s\<lparr>bs_flags := bs_flags s \<union> f\<rparr>"

definition stream_remove_flag :: "StreamFlag set \<Rightarrow> ('e, 'w) Stream \<Rightarrow> ('e, 'w) Stream" where
  "stream_remove_flag f s = s\<lparr>bs_flags := bs_flags s - f\<rparr>"

definition notify :: "StreamFlag set \<Rightarrow> bool \<Rightarrow> bool \<Rightarrow> ('e, 'w) Stream \<Rightarrow> 'w list \<times> ('e, 'w) Stream" where
  "notify previous recv send s =
     (let s = (if flags_status previous \<noteq> flags_status (bs_flags s)
               then s\<lparr>bs_changed := map_option Suc (bs_changed s)\<rparr> else s);
          (ws, slot) = (if recv then lw_wake (bs_recv_task s) else ([], bs_recv_task s));
          (ws', slot') = (if send then lw_wake (bs_send_task s) else ([], bs_send_task s))
      in (ws @ ws', s\<lparr>bs_recv_task := slot, bs_send_task := slot'\<rparr>))"

definition set_watermarks :: "nat \<Rightarrow> nat \<Rightarrow> ('e, 'w) Stream \<Rightarrow> 'w list \<times> ('e, 'w) Stream" where
  "set_watermarks high low s =
     (let s = s\<lparr>bs_high_watermark := high, bs_low_watermark := min low (high - 1)\<rparr>;
          flags = bs_flags s
      in if EOF \<in> flags \<or> ERROR \<in> flags \<or> SENDER_GONE \<in> flags then ([], s)
         else if bs_len s < high then
           if NEED_READ \<notin> flags then notify flags False True (stream_insert_flag {NEED_READ} s) else ([], s)
         else notify flags False False (stream_remove_flag {NEED_READ} s))"

definition max_buffer_size :: "nat \<Rightarrow> ('e, 'w) Stream \<Rightarrow> 'w list \<times> ('e, 'w) Stream" where
  "max_buffer_size n s = (let n = (if n < 2 ^ 32 then n else 2 ^ 32 - 1) in set_watermarks n (n div 2) s)"

definition inner_set_error :: "'e \<Rightarrow> ('e, 'w) Stream \<Rightarrow> 'w list \<times> ('e, 'w) Stream" where
  "inner_set_error err s = notify (bs_flags s) True True (stream_insert_flag {ERROR} (s\<lparr>bs_err := Some err\<rparr>))"

definition inner_feed_eof :: "('e, 'w) Stream \<Rightarrow> 'w list \<times> ('e, 'w) Stream" where
  "inner_feed_eof s = notify (bs_flags s) True True (stream_insert_flag {EOF} s)"

definition inner_feed_data :: "u8 list \<Rightarrow> ('e, 'w) Stream \<Rightarrow> 'w list \<times> ('e, 'w) Stream" where
  "inner_feed_data data s =
     (let flags = bs_flags s;
          len = bs_len s + length data;
          s = s\<lparr>bs_len := len, bs_items := bs_items s @ [data]\<rparr>;
          s = (if bs_high_watermark s \<le> len then stream_remove_flag {NEED_READ} s else s)
      in notify flags True False s)"

text \<open>\<open>Inl\<close> is the panic of the subtraction.\<close>

definition get_data :: "('e, 'w) Stream \<Rightarrow> unit + u8 list option \<times> 'w list \<times> ('e, 'w) Stream" where
  "get_data s =
     (case bs_items s of
        [] \<Rightarrow> Inr (None, [], s)
      | data # items \<Rightarrow>
          let s = s\<lparr>bs_items := items\<rparr>; flags = bs_flags s in
          if bs_len s < length data then Inl ()
          else
            let len = bs_len s - length data;
                s = s\<lparr>bs_len := len\<rparr>;
                (ws, s) = (if len \<le> bs_low_watermark s then notify flags False True (stream_insert_flag {NEED_READ} s) else ([], s))
            in Inr (Some data, ws, s))"

definition unread_data :: "u8 list \<Rightarrow> ('e, 'w) Stream \<Rightarrow> 'w list \<times> ('e, 'w) Stream" where
  "unread_data data s =
     (let flags = bs_flags s in
      if data \<noteq> [] then
        let s = s\<lparr>bs_len := bs_len s + length data, bs_items := data # bs_items s\<rparr>;
            s = (if bs_high_watermark s \<le> bs_len s then stream_remove_flag {NEED_READ} s else s)
        in notify flags False False s
      else ([], s))"

section \<open>The receiver\<close>

definition bs_put :: "u8 list \<Rightarrow> ('e, 'w) Stream \<Rightarrow> 'w list \<times> ('e, 'w) Stream" where
  "bs_put data s = unread_data data s"

definition bs_empty :: "u8 list option \<Rightarrow> ('e, 'w) Stream" where
  "bs_empty data =
     (let rx = (inner_new True)\<lparr>bs_receiver := True\<rparr>
      in case data of Some data \<Rightarrow> snd (bs_put data rx) | None \<Rightarrow> rx)"

definition is_eof :: "('e, 'w) Stream \<Rightarrow> bool" where
  "is_eof s \<longleftrightarrow> EOF \<in> bs_flags s"

definition poll_read ::
    "('w \<Rightarrow> 'w \<Rightarrow> bool) \<Rightarrow> 'w \<Rightarrow> ('e, 'w) Stream
      \<Rightarrow> unit + ('e + u8 list) option poll \<times> 'w list \<times> ('e, 'w) Stream" where
  "poll_read will_wake w s =
     (case get_data s of
        Inl _ \<Rightarrow> Inl ()
      | Inr (Some data, ws, s) \<Rightarrow> Inr (Ready (Some (Inr data)), ws, s)
      | Inr (None, ws, s) \<Rightarrow>
          (case bs_err s of
             Some err \<Rightarrow> Inr (Ready (Some (Inl err)), ws, stream_insert_flag {EOF} (s\<lparr>bs_err := None\<rparr>))
           | None \<Rightarrow>
               if EOF \<in> bs_flags s \<or> ERROR \<in> bs_flags s then Inr (Ready None, ws, s)
               else Inr (Pending, ws, s\<lparr>bs_recv_task := snd (lw_register will_wake w (bs_recv_task s))\<rparr>)))"

definition bs_receiver_drop :: "('e, 'w) Stream \<Rightarrow> 'w list \<times> ('e, 'w) Stream" where
  "bs_receiver_drop s =
     (let flags = bs_flags s;
          (ws, s) = notify flags False True (stream_insert_flag {RECEIVER_GONE} s)
      in (ws, s\<lparr>bs_receiver := False\<rparr>))"

section \<open>Senders\<close>

definition bs_sender_clone :: "('e, 'w) Stream \<Rightarrow> ('e, 'w) Stream" where
  "bs_sender_clone s = s\<lparr>bs_senders := bs_senders s + 1\<rparr>"

definition bs_sender_drop :: "('e, 'w) Stream \<Rightarrow> 'w list \<times> ('e, 'w) Stream" where
  "bs_sender_drop s =
     (let (ws, s) =
        (if bs_senders s = 1 \<and> bs_receiver s
         then notify (bs_flags s) True True (stream_insert_flag {EOF, SENDER_GONE} s) else ([], s))
      in (ws, s\<lparr>bs_senders := bs_senders s - 1\<rparr>))"

definition bs_is_closed :: "('e, 'w) Stream \<Rightarrow> bool" where
  "bs_is_closed s \<longleftrightarrow> \<not> bs_receiver s \<or> RECEIVER_GONE \<in> bs_flags s"

definition bs_set_error :: "'e \<Rightarrow> ('e, 'w) Stream \<Rightarrow> 'w list \<times> ('e, 'w) Stream" where
  "bs_set_error err s = (if bs_receiver s then inner_set_error err s else ([], s))"

definition bs_feed_eof :: "('e, 'w) Stream \<Rightarrow> 'w list \<times> ('e, 'w) Stream" where
  "bs_feed_eof s = (if bs_receiver s then inner_feed_eof s else ([], s))"

definition bs_feed_data :: "u8 list \<Rightarrow> ('e, 'w) Stream \<Rightarrow> 'w list \<times> ('e, 'w) Stream" where
  "bs_feed_data data s = (if bs_receiver s then inner_feed_data data s else ([], s))"

definition bs_poll_ready :: "('w \<Rightarrow> 'w \<Rightarrow> bool) \<Rightarrow> 'w \<Rightarrow> ('e, 'w) Stream \<Rightarrow> StreamStatus poll \<times> ('e, 'w) Stream" where
  "bs_poll_ready will_wake w s =
     (if bs_receiver s then
        let status = flags_status (bs_flags s)
        in (status, if status = Pending then s\<lparr>bs_send_task := snd (lw_register will_wake w (bs_send_task s))\<rparr> else s)
      else (Ready Status_Dropped, s))"

section \<open>Runs\<close>

text \<open>
  The operations of the handles that are alive, with the bytes that were fed and those the receiver
  has taken. Putting back returns bytes that were taken last, while no read waits. The high watermark
  is set to a positive value: with 0 the sender of an empty stream is never ready.
\<close>

inductive stream_run :: "('e, 'w) Stream \<Rightarrow> u8 list \<Rightarrow> u8 list \<Rightarrow> bool" where
  Open: "s \<in> {bs_channel, channel_with_notifier n, bs_eof} \<Longrightarrow> stream_run s [] []"
| Watermarks: "\<lbrakk>stream_run s fed got; bs_receiver s; 0 < high; set_watermarks high low s = (ws, s')\<rbrakk> \<Longrightarrow> stream_run s' fed got"
| Put: "\<lbrakk>stream_run s fed (got @ data); bs_receiver s; \<not> lw_is_set (bs_recv_task s); bs_put data s = (ws, s')\<rbrakk>
    \<Longrightarrow> stream_run s' fed got"
| Read: "\<lbrakk>stream_run s fed got; bs_receiver s; poll_read will_wake w s = Inr (r, ws, s')\<rbrakk>
    \<Longrightarrow> stream_run s' fed (case r of Ready (Some (Inr data)) \<Rightarrow> got @ data | _ \<Rightarrow> got)"
| Receiver_Drop: "\<lbrakk>stream_run s fed got; bs_receiver s; bs_receiver_drop s = (ws, s')\<rbrakk> \<Longrightarrow> stream_run s' fed got"
| Clone: "\<lbrakk>stream_run s fed got; 0 < bs_senders s\<rbrakk> \<Longrightarrow> stream_run (bs_sender_clone s) fed got"
| Sender_Drop: "\<lbrakk>stream_run s fed got; 0 < bs_senders s; bs_sender_drop s = (ws, s')\<rbrakk> \<Longrightarrow> stream_run s' fed got"
| Set_Error: "\<lbrakk>stream_run s fed got; 0 < bs_senders s; bs_set_error err s = (ws, s')\<rbrakk> \<Longrightarrow> stream_run s' fed got"
| Feed_Eof: "\<lbrakk>stream_run s fed got; 0 < bs_senders s; bs_feed_eof s = (ws, s')\<rbrakk> \<Longrightarrow> stream_run s' fed got"
| Feed_Data: "\<lbrakk>stream_run s fed got; 0 < bs_senders s; bs_feed_data data s = (ws, s')\<rbrakk>
    \<Longrightarrow> stream_run s' (if bs_receiver s then fed @ data else fed) got"
| Poll_Ready: "\<lbrakk>stream_run s fed got; 0 < bs_senders s; bs_poll_ready will_wake w s = (r, s')\<rbrakk> \<Longrightarrow> stream_run s' fed got"

text \<open>
  The length is that of the chunks, the low watermark is below the high one, a sender that is not
  ready sees more than the low watermark in the buffer, and a registered task has a reason to wait.
\<close>

definition stream_ok :: "('e, 'w) Stream \<Rightarrow> bool" where
  "stream_ok s \<longleftrightarrow>
     bs_len s = length (concat (bs_items s)) \<and> bs_low_watermark s < bs_high_watermark s
     \<and> (flags_status (bs_flags s) = Pending \<longrightarrow> bs_low_watermark s < bs_len s)
     \<and> (bs_err s \<noteq> None \<longrightarrow> ERROR \<in> bs_flags s)
     \<and> (lw_is_set (bs_send_task s) \<longrightarrow> flags_status (bs_flags s) = Pending)
     \<and> (lw_is_set (bs_recv_task s) \<longrightarrow>
          bs_items s = [] \<and> bs_err s = None \<and> EOF \<notin> bs_flags s \<and> ERROR \<notin> bs_flags s)"

lemma notify_fields:
  assumes "notify previous recv send s = (ws, s')"
  shows "bs_len s' = bs_len s" "bs_flags s' = bs_flags s" "bs_err s' = bs_err s" "bs_items s' = bs_items s"
    "bs_high_watermark s' = bs_high_watermark s" "bs_low_watermark s' = bs_low_watermark s"
    "bs_senders s' = bs_senders s" "bs_receiver s' = bs_receiver s"
    "lw_is_set (bs_recv_task s') \<longleftrightarrow> \<not> recv \<and> lw_is_set (bs_recv_task s)"
    "lw_is_set (bs_send_task s') \<longleftrightarrow> \<not> send \<and> lw_is_set (bs_send_task s)"
  using assms by (auto simp: notify_def lw_is_set_def Let_def split: if_splits)

lemma notify_ok:
  assumes "notify previous recv send s = (ws, s')"
    and "bs_len s = length (concat (bs_items s))" "bs_low_watermark s < bs_high_watermark s"
    and "flags_status (bs_flags s) = Pending \<Longrightarrow> bs_low_watermark s < bs_len s"
    and "bs_err s \<noteq> None \<Longrightarrow> ERROR \<in> bs_flags s"
    and "\<not> send \<Longrightarrow> lw_is_set (bs_send_task s) \<Longrightarrow> flags_status (bs_flags s) = Pending"
    and "\<not> recv \<Longrightarrow> lw_is_set (bs_recv_task s) \<Longrightarrow>
          bs_items s = [] \<and> bs_err s = None \<and> EOF \<notin> bs_flags s \<and> ERROR \<notin> bs_flags s"
  shows "stream_ok s'"
  using assms(2-) by (auto simp: stream_ok_def notify_fields [OF assms(1)])

lemma status_pending [simp]:
  "flags_status fs = Pending \<longleftrightarrow>
     EOF \<notin> fs \<and> ERROR \<notin> fs \<and> NEED_READ \<notin> fs \<and> SENDER_GONE \<notin> fs \<and> RECEIVER_GONE \<notin> fs"
  by (auto simp: flags_status_def)

lemmas stream_defs = stream_ok_def stream_insert_flag_def stream_remove_flag_def

lemma stream_ok_handles [simp]:
  "stream_ok (s\<lparr>bs_senders := n\<rparr>) \<longleftrightarrow> stream_ok s" "stream_ok (s\<lparr>bs_receiver := b\<rparr>) \<longleftrightarrow> stream_ok s"
  by (simp_all add: stream_ok_def)

lemma set_watermarks_ok:
  assumes "stream_ok s" "0 < high" "set_watermarks high low s = (ws, s')"
  shows "stream_ok s' \<and> bs_items s' = bs_items s"
proof -
  let ?s = "s\<lparr>bs_high_watermark := high, bs_low_watermark := min low (high - 1)\<rparr>"
  have hl: "min low (high - 1) < high" using assms(2) by linarith
  consider "EOF \<in> bs_flags s \<or> ERROR \<in> bs_flags s \<or> SENDER_GONE \<in> bs_flags s" "s' = ?s"
    | "NEED_READ \<in> bs_flags s" "bs_len s < high" "s' = ?s"
    | "NEED_READ \<notin> bs_flags s" "notify (bs_flags s) False True (stream_insert_flag {NEED_READ} ?s) = (ws, s')"
    | "\<not> (EOF \<in> bs_flags s \<or> ERROR \<in> bs_flags s \<or> SENDER_GONE \<in> bs_flags s)" "\<not> bs_len s < high"
      "notify (bs_flags s) False False (stream_remove_flag {NEED_READ} ?s) = (ws, s')"
    using assms(3) by (auto simp: set_watermarks_def Let_def split: if_splits)
  then show ?thesis
  proof cases
    case 3
    then show ?thesis using assms(1) hl notify_ok [OF 3(2)] notify_fields(4) [OF 3(2)] by (auto simp: stream_defs)
  next
    case 4
    then show ?thesis using assms(1) hl notify_ok [OF 4(3)] notify_fields(4) [OF 4(3)] by (auto simp: stream_defs)
  qed (use assms(1) hl in \<open>auto simp: stream_defs\<close>)
qed

lemma inner_feed_data_ok:
  assumes "stream_ok s" "inner_feed_data data s = (ws, s')"
  shows "stream_ok s' \<and> bs_items s' = bs_items s @ [data]"
proof -
  define s1 where "s1 = s\<lparr>bs_len := bs_len s + length data, bs_items := bs_items s @ [data]\<rparr>"
  define s2 where "s2 = (if bs_high_watermark s \<le> bs_len s + length data then stream_remove_flag {NEED_READ} s1 else s1)"
  have f: "bs_len s2 = bs_len s + length data" "bs_items s2 = bs_items s @ [data]" "bs_err s2 = bs_err s"
    "bs_low_watermark s2 = bs_low_watermark s" "bs_high_watermark s2 = bs_high_watermark s"
    "bs_recv_task s2 = bs_recv_task s" "bs_send_task s2 = bs_send_task s"
    "bs_flags s2 = (if bs_high_watermark s \<le> bs_len s + length data then bs_flags s - {NEED_READ} else bs_flags s)"
    by (simp_all add: s2_def s1_def stream_remove_flag_def)
  have n: "notify (bs_flags s) True False s2 = (ws, s')"
    using assms(2) by (auto simp: inner_feed_data_def s1_def s2_def Let_def)
  have "stream_ok s'" by (rule notify_ok [OF n]) (use assms(1) in \<open>auto simp: f stream_ok_def split: if_splits\<close>)
  then show ?thesis using notify_fields(4) [OF n] by (simp add: f)
qed

lemma unread_data_ok:
  assumes "stream_ok s" "\<not> lw_is_set (bs_recv_task s)" "unread_data data s = (ws, s')"
  shows "stream_ok s' \<and> concat (bs_items s') = data @ concat (bs_items s)"
proof (cases "data = []")
  case True
  then show ?thesis using assms by (simp add: unread_data_def)
next
  case False
  define s1 where "s1 = s\<lparr>bs_len := bs_len s + length data, bs_items := data # bs_items s\<rparr>"
  define s2 where "s2 = (if bs_high_watermark s \<le> bs_len s + length data then stream_remove_flag {NEED_READ} s1 else s1)"
  have f: "bs_len s2 = bs_len s + length data" "bs_items s2 = data # bs_items s" "bs_err s2 = bs_err s"
    "bs_low_watermark s2 = bs_low_watermark s" "bs_high_watermark s2 = bs_high_watermark s"
    "bs_recv_task s2 = bs_recv_task s" "bs_send_task s2 = bs_send_task s"
    "bs_flags s2 = (if bs_high_watermark s \<le> bs_len s + length data then bs_flags s - {NEED_READ} else bs_flags s)"
    by (simp_all add: s2_def s1_def stream_remove_flag_def)
  have n: "notify (bs_flags s) False False s2 = (ws, s')"
    using assms(3) False by (auto simp: unread_data_def s1_def s2_def Let_def)
  have "stream_ok s'" by (rule notify_ok [OF n]) (use assms(1,2) in \<open>auto simp: f stream_ok_def split: if_splits\<close>)
  then show ?thesis using notify_fields(4) [OF n] by (simp add: f)
qed

text \<open>Taking a chunk: the subtraction does not underflow, and the sender is woken at the low watermark.\<close>

lemma get_data_Cons:
  assumes "stream_ok s" "bs_items s = data # items"
  obtains ws s' where "get_data s = Inr (Some data, ws, s')" "stream_ok s'" "bs_items s' = items"
    "bs_low_watermark s' = bs_low_watermark s" "bs_receiver s' = bs_receiver s"
    "lw_is_set (bs_send_task s') \<longleftrightarrow> lw_is_set (bs_send_task s) \<and> bs_low_watermark s < bs_len s'"
    "lw_is_set (bs_send_task s') \<Longrightarrow> bs_send_task s' = bs_send_task s"
    "lw_is_set (bs_send_task s) \<Longrightarrow> \<not> lw_is_set (bs_send_task s') \<Longrightarrow>
      the (bs_send_task s) \<in> set ws \<and> NEED_READ \<in> bs_flags s'"
proof -
  define s1 where "s1 = s\<lparr>bs_items := items, bs_len := bs_len s - length data\<rparr>"
  have len: "bs_len s = length data + length (concat items)" using assms by (simp add: stream_ok_def)
  show ?thesis
  proof (cases "bs_len s1 \<le> bs_low_watermark s")
    case True
    obtain ws s' where n: "notify (bs_flags s) False True (stream_insert_flag {NEED_READ} s1) = (ws, s')" by fastforce
    have g: "get_data s = Inr (Some data, ws, s')"
      using assms(2) n True len by (simp add: get_data_def s1_def Let_def)
    have ok: "stream_ok s'" by (rule notify_ok [OF n]) (use assms len in \<open>auto simp: s1_def stream_defs\<close>)
    have "the (bs_send_task s) \<in> set ws" if "lw_is_set (bs_send_task s)"
      using n that by (auto simp: notify_def s1_def stream_insert_flag_def lw_is_set_def Let_def split: if_splits)
    then show ?thesis using that [OF g ok] notify_fields [OF n] True by (simp add: s1_def stream_insert_flag_def)
  next
    case False
    have g: "get_data s = Inr (Some data, [], s1)"
      using assms(2) False len by (simp add: get_data_def s1_def Let_def)
    have ok: "stream_ok s1" using assms False len by (auto simp: s1_def stream_ok_def)
    show ?thesis using that [OF g ok] False by (simp add: s1_def)
  qed
qed

lemma poll_read_ok:
  assumes "stream_ok s" "poll_read will_wake w s = Inr (r, ws, s')"
  shows "stream_ok s' \<and> concat (bs_items s) = (case r of Ready (Some (Inr data)) \<Rightarrow> data @ concat (bs_items s') | _ \<Rightarrow> concat (bs_items s'))"
proof (cases "bs_items s")
  case Nil
  then have "get_data s = Inr (None, [], s)" by (simp add: get_data_def)
  then show ?thesis using assms Nil
    by (auto simp: poll_read_def stream_defs local_waker.register_set split: option.splits if_splits)
next
  case (Cons data items)
  show ?thesis
    by (rule get_data_Cons [OF assms(1) Cons]) (use assms(2) Cons in \<open>auto simp: poll_read_def\<close>)
qed

text \<open>The operations that end the stream.\<close>

lemma terminal_ok:
  assumes "stream_ok s" "notify (bs_flags s) True True (stream_insert_flag fs (s\<lparr>bs_err := err\<rparr>)) = (ws, s')"
    "err = bs_err s \<or> ERROR \<in> fs"
  shows "stream_ok s' \<and> bs_items s' = bs_items s"
proof -
  have "stream_ok s'" by (rule notify_ok [OF assms(2)]) (use assms(1,3) in \<open>auto simp: stream_defs\<close>)
  then show ?thesis using notify_fields(4) [OF assms(2)] by (simp add: stream_insert_flag_def)
qed

lemma bs_receiver_drop_ok:
  assumes "stream_ok s" "bs_receiver_drop s = (ws, s')"
  shows "stream_ok s' \<and> bs_items s' = bs_items s"
proof -
  obtain ws1 s1 where n: "notify (bs_flags s) False True (stream_insert_flag {RECEIVER_GONE} s) = (ws1, s1)" by fastforce
  have "stream_ok s1" by (rule notify_ok [OF n]) (use assms(1) in \<open>auto simp: stream_defs\<close>)
  then show ?thesis using assms(2) n notify_fields(4) [OF n] by (auto simp: bs_receiver_drop_def stream_insert_flag_def)
qed

lemma stream_run_inv:
  assumes "stream_run s fed got"
  shows "stream_ok s \<and> fed = got @ concat (bs_items s)"
  using assms
proof induction
  case (Open s n)
  then show ?case
    by (auto simp: bs_channel_def channel_with_notifier_def bs_eof_def channel_inner_def inner_new_def stream_ok_def
        HIGH_WATERMARK_def LOW_WATERMARK_def lw_new_def lw_is_set_def)
next
  case (Watermarks s fed got high low ws s')
  then show ?case using set_watermarks_ok [of s high low ws s'] by simp
next
  case (Put s fed got data ws s')
  then show ?case using unread_data_ok [of s data ws s'] by (simp add: bs_put_def)
next
  case (Read s fed got will_wake w r ws s')
  then show ?case using poll_read_ok [of s will_wake w r ws s'] by (auto split: poll.splits option.splits sum.splits)
next
  case (Receiver_Drop s fed got ws s')
  then show ?case using bs_receiver_drop_ok [of s ws s'] by simp
next
  case (Clone s fed got)
  then show ?case by (simp add: bs_sender_clone_def)
next
  case (Sender_Drop s fed got ws s')
  show ?case
  proof (cases "bs_senders s = 1 \<and> bs_receiver s")
    case True
    obtain ws1 s1 where n: "notify (bs_flags s) True True (stream_insert_flag {EOF, SENDER_GONE} (s\<lparr>bs_err := bs_err s\<rparr>)) = (ws1, s1)"
      by fastforce
    have "stream_ok s1 \<and> bs_items s1 = bs_items s" using terminal_ok [OF _ n] Sender_Drop(4) by simp
    then show ?thesis using Sender_Drop(3,4) True n by (auto simp: bs_sender_drop_def)
  next
    case False
    then show ?thesis using Sender_Drop(3,4) by (auto simp: bs_sender_drop_def)
  qed
next
  case (Set_Error s fed got err ws s')
  then show ?case using terminal_ok [of s "{ERROR}" "Some err" ws s']
    by (auto simp: bs_set_error_def inner_set_error_def split: if_splits)
next
  case (Feed_Eof s fed got ws s')
  then show ?case using terminal_ok [of s "{EOF}" "bs_err s" ws s']
    by (auto simp: bs_feed_eof_def inner_feed_eof_def split: if_splits)
next
  case (Feed_Data s fed got data ws s')
  then show ?case using inner_feed_data_ok [of s data ws s'] by (auto simp: bs_feed_data_def split: if_splits)
next
  case (Poll_Ready s fed got will_wake w r s')
  then show ?case by (auto simp: bs_poll_ready_def stream_ok_def Let_def split: if_splits)
qed


section \<open>Properties\<close>

text \<open>C29. The receiver takes the bytes in the order they were fed, none lost and none twice, also when it
  puts bytes back: what was fed is what it has taken followed by the buffer, whose length is counted
  exactly, so that no read panics.\<close>
theorem stream_content:
  assumes "stream_run s fed got"
  shows "fed = got @ concat (bs_items s) \<and> bs_len s = length (concat (bs_items s)) \<and> poll_read will_wake w s \<noteq> Inl ()"
proof -
  have ok: "stream_ok s" and f: "fed = got @ concat (bs_items s)" using stream_run_inv [OF assms] by simp_all
  have "poll_read will_wake w s \<noteq> Inl ()"
  proof (cases "bs_items s")
    case Nil
    then show ?thesis by (auto simp: poll_read_def get_data_def split: option.splits)
  next
    case (Cons data items)
    show ?thesis by (rule get_data_Cons [OF ok Cons]) (simp add: poll_read_def)
  qed
  then show ?thesis using ok f by (simp add: stream_ok_def)
qed

text \<open>A number of reads in a row, with the wakers they call.\<close>

fun read_chunks :: "('w \<Rightarrow> 'w \<Rightarrow> bool) \<Rightarrow> 'w \<Rightarrow> nat \<Rightarrow> ('e, 'w) Stream \<Rightarrow> 'w list \<times> ('e, 'w) Stream" where
  "read_chunks will_wake w 0 s = ([], s)"
| "read_chunks will_wake w (Suc n) s =
     (case poll_read will_wake w s of
        Inl _ \<Rightarrow> ([], s)
      | Inr (r, ws, s) \<Rightarrow> let (ws', s) = read_chunks will_wake w n s in (ws @ ws', s))"

lemma reads_wake_sender:
  assumes "stream_ok s" "lw_is_set (bs_send_task s)"
  shows "\<exists>k ws s'. k \<le> length (bs_items s) \<and> read_chunks will_wake w k s = (ws, s')
    \<and> the (bs_send_task s) \<in> set ws \<and> NEED_READ \<in> bs_flags s'"
  using assms
proof (induction "bs_items s" arbitrary: s)
  case Nil
  then show ?case by (auto simp: stream_ok_def simp flip: Nil(1))
next
  case (Cons data items)
  note c = get_data_Cons [OF Cons(3) Cons(2) [symmetric]]
  show ?case
  proof (rule c)
    fix ws s1
    assume g: "get_data s = Inr (Some data, ws, s1)" "stream_ok s1" "bs_items s1 = items"
      and t: "lw_is_set (bs_send_task s1) \<Longrightarrow> bs_send_task s1 = bs_send_task s"
      and wk: "lw_is_set (bs_send_task s) \<Longrightarrow> \<not> lw_is_set (bs_send_task s1) \<Longrightarrow>
        the (bs_send_task s) \<in> set ws \<and> NEED_READ \<in> bs_flags s1"
    have p: "poll_read will_wake w s = Inr (Ready (Some (Inr data)), ws, s1)" using g(1) by (simp add: poll_read_def)
    show ?thesis
    proof (cases "lw_is_set (bs_send_task s1)")
      case True
      then obtain k ws' s' where "k \<le> length items" "read_chunks will_wake w k s1 = (ws', s')"
          "the (bs_send_task s1) \<in> set ws'" "NEED_READ \<in> bs_flags s'"
        using Cons(1) [OF g(3) [symmetric] g(2)] g(3) by auto
      then show ?thesis using p t [OF True] Cons(2) by (intro exI [of _ "Suc k"] exI [of _ "ws @ ws'"] exI [of _ s']) (simp flip: Cons(2))
    next
      case False
      then show ?thesis using p wk Cons(2,4)
        by (intro exI [of _ "Suc 0"] exI [of _ ws] exI [of _ s1]) (simp flip: Cons(2))
    qed
  qed
qed

text \<open>C20. A sender and a receiver never wait for each other: a sender that waits sees data in the buffer,
  so the receiver does not wait, and after at most as many reads as there are chunks the sender has
  been woken and may send.\<close>
theorem stream_sender_progress:
  assumes "stream_run s fed got" "lw_is_set (bs_send_task s)"
  shows "flags_status (bs_flags s) = Pending \<and> \<not> lw_is_set (bs_recv_task s)
    \<and> (\<exists>k ws s'. k \<le> length (bs_items s) \<and> read_chunks will_wake w k s = (ws, s')
        \<and> the (bs_send_task s) \<in> set ws \<and> NEED_READ \<in> bs_flags s')"
proof -
  have ok: "stream_ok s" using stream_run_inv [OF assms(1)] by simp
  then have "flags_status (bs_flags s) = Pending" "bs_low_watermark s < bs_len s" using assms(2) unfolding stream_ok_def by auto
  moreover from this have "\<not> lw_is_set (bs_recv_task s)" using ok unfolding stream_ok_def by fastforce
  ultimately show ?thesis using reads_wake_sender [OF ok assms(2)] by blast
qed


text \<open>A stream with the watermarks 2 and 1, the chunks 1, 2 and 3, and a sender that waits.\<close>

definition demo_limits :: "(nat, nat) Stream" where
  "demo_limits = snd (set_watermarks 2 1 bs_channel)"

definition demo_fed :: "(nat, nat) Stream" where
  "demo_fed = snd (bs_feed_data [3] (snd (bs_feed_data [1, 2] demo_limits)))"

definition demo_stream :: "(nat, nat) Stream" where
  "demo_stream = snd (bs_poll_ready (=) 7 demo_fed)"

lemmas demo_defs = demo_stream_def demo_fed_def demo_limits_def bs_channel_def channel_inner_def inner_new_def
  set_watermarks_def bs_feed_data_def inner_feed_data_def bs_poll_ready_def notify_def flags_status_def stream_insert_flag_def
  stream_remove_flag_def lw_new_def lw_register_def lw_is_set_def Let_def HIGH_WATERMARK_def LOW_WATERMARK_def

lemma demo_senders: "bs_senders demo_limits = 1" "bs_receiver demo_limits"
    "bs_senders (snd (bs_feed_data d demo_limits)) = 1" "bs_receiver (snd (bs_feed_data d demo_limits))"
    "bs_senders demo_fed = 1" "bs_receiver demo_stream"
  by (simp_all add: demo_defs)

lemma demo_stream_run: "stream_run demo_stream [1, 2, 3] []"
proof -
  have "stream_run demo_limits [] []" unfolding demo_limits_def
    by (rule stream_run.Watermarks [OF stream_run.Open [where n = 0] _ _ surjective_pairing])
      (simp_all add: bs_channel_def channel_inner_def)
  then have "stream_run (snd (bs_feed_data [1, 2] demo_limits)) (if bs_receiver demo_limits then [] @ [1, 2] else []) []"
    by (rule stream_run.Feed_Data [OF _ _ surjective_pairing]) (simp add: demo_senders)
  then have "stream_run (snd (bs_feed_data [1, 2] demo_limits)) [1, 2] []" by (simp add: demo_senders)
  then have "stream_run demo_fed (if bs_receiver (snd (bs_feed_data [1, 2] demo_limits)) then [1, 2] @ [3] else [1, 2]) []"
    unfolding demo_fed_def by (rule stream_run.Feed_Data [OF _ _ surjective_pairing]) (simp add: demo_senders)
  then have "stream_run demo_fed [1, 2, 3] []" by (simp add: demo_senders)
  then show ?thesis unfolding demo_stream_def
    by (rule stream_run.Poll_Ready [OF _ _ surjective_pairing]) (simp add: demo_senders)
qed

theorem stream_content_witness:
  "[1, 2, 3] = [] @ concat (bs_items demo_stream) \<and> bs_len demo_stream = 3 \<and> poll_read (=) 0 demo_stream \<noteq> Inl ()"
  using stream_content [OF demo_stream_run, of "(=)" 0] by (metis append_Nil length_Cons list.size(3) numeral_3_eq_3)

theorem stream_sender_progress_witness:
  "bs_send_task demo_stream = Some 7 \<and> flags_status (bs_flags demo_stream) = Pending
    \<and> (\<exists>k ws s'. k \<le> 2 \<and> read_chunks (=) 0 k demo_stream = (ws, s') \<and> 7 \<in> set ws \<and> NEED_READ \<in> bs_flags s')"
proof -
  have t: "bs_send_task demo_stream = Some 7" "length (bs_items demo_stream) = 2" by (simp_all add: demo_defs)
  have "lw_is_set (bs_send_task demo_stream)" using t(1) by (simp add: lw_is_set_def)
  then show ?thesis using stream_sender_progress [OF demo_stream_run, of "(=)" 0] t by auto
qed

end
