(* ===== verification/Service_Counter.thy ===== *)
theory Service_Counter
  imports Local_Waker
begin

text \<open>
  The counter of \<^verbatim>\<open>ntex-util/src/services/counter.rs\<close>, which limits the number of requests in flight. The
  slab of tasks is a partial function from keys; the key of a new handle is an argument. \<open>cn_changed\<close>
  counts the calls of the readiness notifier, once there is one. \<open>None\<close> is a panic.
\<close>

section \<open>Operations\<close>

record 'w CounterInner =
  cn_count :: nat
  cn_capacity :: nat
  cn_tasks :: "nat \<rightharpoonup> 'w option"
  cn_changed :: "nat option"

definition counter_new :: "nat \<Rightarrow> nat \<Rightarrow> 'w CounterInner" where
  "counter_new idx capacity =
     \<lparr>cn_count = 0, cn_capacity = capacity, cn_tasks = [idx \<mapsto> lw_new], cn_changed = None\<rparr>"

definition counter_notify :: "'w CounterInner \<Rightarrow> 'w set \<times> 'w CounterInner" where
  "counter_notify c =
     ({w. \<exists>idx slot. cn_tasks c idx = Some slot \<and> w \<in> set (fst (lw_wake slot))},
      c\<lparr>cn_changed := map_option Suc (cn_changed c),
        cn_tasks := (\<lambda>idx. map_option (\<lambda>slot. snd (lw_wake slot)) (cn_tasks c idx))\<rparr>)"

definition counter_inc :: "'w CounterInner \<Rightarrow> 'w set \<times> 'w CounterInner" where
  "counter_inc c =
     (let num = cn_count c + 1; c = c\<lparr>cn_count := num\<rparr>
      in if num = cn_capacity c then counter_notify c else ({}, c))"

definition counter_dec :: "'w CounterInner \<Rightarrow> ('w set \<times> 'w CounterInner) option" where
  "counter_dec c =
     (let num = cn_count c in
      if num = 0 then None
      else let c = c\<lparr>cn_count := num - 1\<rparr>
           in Some (if num = cn_capacity c then counter_notify c else ({}, c)))"

text \<open>A guard is taken, and dropped.\<close>

definition counter_get :: "'w CounterInner \<Rightarrow> 'w set \<times> 'w CounterInner" where
  "counter_get c = counter_inc c"

definition guard_drop :: "'w CounterInner \<Rightarrow> ('w set \<times> 'w CounterInner) option" where
  "guard_drop c = counter_dec c"

definition set_capacity :: "nat \<Rightarrow> 'w CounterInner \<Rightarrow> 'w set \<times> 'w CounterInner" where
  "set_capacity cap c = counter_notify (c\<lparr>cn_capacity := cap\<rparr>)"

definition is_available :: "'w CounterInner \<Rightarrow> bool" where
  "is_available c \<longleftrightarrow> cn_count c < cn_capacity c"

definition counter_register ::
    "('w \<Rightarrow> 'w \<Rightarrow> bool) \<Rightarrow> 'w \<Rightarrow> nat \<Rightarrow> 'w CounterInner \<Rightarrow> 'w CounterInner option" where
  "counter_register will_wake w idx c =
     (case cn_tasks c idx of
        None \<Rightarrow> None
      | Some slot \<Rightarrow> Some (c\<lparr>cn_tasks := (cn_tasks c)(idx \<mapsto> snd (lw_register will_wake w slot))\<rparr>))"

definition poll_available ::
    "('w \<Rightarrow> 'w \<Rightarrow> bool) \<Rightarrow> 'w \<Rightarrow> nat \<Rightarrow> 'w CounterInner \<Rightarrow> (bool \<times> 'w CounterInner) option" where
  "poll_available will_wake w idx c =
     (if cn_count c < cn_capacity c then Some (True, c)
      else map_option (Pair False) (counter_register will_wake w idx c))"

definition poll_unavailable ::
    "('w \<Rightarrow> 'w \<Rightarrow> bool) \<Rightarrow> 'w \<Rightarrow> nat \<Rightarrow> 'w CounterInner \<Rightarrow> (bool \<times> 'w CounterInner) option" where
  "poll_unavailable will_wake w idx c =
     (if is_available c then map_option (Pair False) (counter_register will_wake w idx c) else Some (True, c))"

definition counter_total :: "'w CounterInner \<Rightarrow> nat" where
  "counter_total c = cn_count c"

definition counter_bind :: "'w CounterInner \<Rightarrow> 'w CounterInner" where
  "counter_bind c = (if cn_changed c = None then c\<lparr>cn_changed := Some 0\<rparr> else c)"

definition counter_clone :: "nat \<Rightarrow> 'w CounterInner \<Rightarrow> 'w CounterInner" where
  "counter_clone idx c = c\<lparr>cn_tasks := (cn_tasks c)(idx \<mapsto> lw_new)\<rparr>"

definition counter_drop :: "nat \<Rightarrow> 'w CounterInner \<Rightarrow> 'w CounterInner option" where
  "counter_drop idx c = (if cn_tasks c idx = None then None else Some (c\<lparr>cn_tasks := (cn_tasks c)(idx := None)\<rparr>))"

section \<open>Runs\<close>

text \<open>
  The number of guards that are alive, and what each handle waits for: \<open>Some True\<close> for capacity,
  \<open>Some False\<close> for the counter to be full. A handle that is woken no longer waits.
\<close>

definition still :: "'w CounterInner \<Rightarrow> (nat \<rightharpoonup> bool) \<Rightarrow> (nat \<rightharpoonup> bool)" where
  "still c waits = (\<lambda>idx. if (\<exists>slot. cn_tasks c idx = Some slot \<and> lw_is_set slot) then waits idx else None)"

inductive counter_run :: "'w CounterInner \<Rightarrow> nat \<Rightarrow> (nat \<rightharpoonup> bool) \<Rightarrow> bool" where
  New: "counter_run (counter_new idx cap) 0 Map.empty"
| Get: "\<lbrakk>counter_run c guards waits; counter_get c = (ws, c')\<rbrakk> \<Longrightarrow> counter_run c' (Suc guards) (still c' waits)"
| Guard_Drop: "\<lbrakk>counter_run c (Suc guards) waits; guard_drop c = Some (ws, c')\<rbrakk> \<Longrightarrow> counter_run c' guards (still c' waits)"
| Set_Capacity: "\<lbrakk>counter_run c guards waits; set_capacity cap c = (ws, c')\<rbrakk> \<Longrightarrow> counter_run c' guards (still c' waits)"
| Available: "\<lbrakk>counter_run c guards waits; poll_available will_wake w idx c = Some (r, c')\<rbrakk>
    \<Longrightarrow> counter_run c' guards (waits(idx := if r then None else Some True))"
| Unavailable: "\<lbrakk>counter_run c guards waits; poll_unavailable will_wake w idx c = Some (r, c')\<rbrakk>
    \<Longrightarrow> counter_run c' guards (waits(idx := if r then None else Some False))"
| Bind: "counter_run c guards waits \<Longrightarrow> counter_run (counter_bind c) guards waits"
| Clone: "\<lbrakk>counter_run c guards waits; cn_tasks c idx = None\<rbrakk> \<Longrightarrow> counter_run (counter_clone idx c) guards waits"
| Drop: "\<lbrakk>counter_run c guards waits; counter_drop idx c = Some c'\<rbrakk> \<Longrightarrow> counter_run c' guards (waits(idx := None))"

definition counter_ok :: "'w CounterInner \<Rightarrow> nat \<Rightarrow> (nat \<rightharpoonup> bool) \<Rightarrow> bool" where
  "counter_ok c guards waits \<longleftrightarrow> cn_count c = guards
     \<and> (\<forall>idx b. waits idx = Some b \<longrightarrow> (\<exists>slot. cn_tasks c idx = Some slot \<and> lw_is_set slot) \<and> b = (\<not> is_available c))"

lemma still_notify [simp]: "still (snd (counter_notify c)) waits = Map.empty"
  by (auto simp: still_def counter_notify_def lw_is_set_def fun_eq_iff)

lemma counter_ok_same:
  assumes "counter_ok c guards waits" "cn_tasks c' = cn_tasks c" "is_available c' = is_available c" "cn_count c' = guards'"
  shows "counter_ok c' guards' (still c' waits)"
  using assms by (simp add: counter_ok_def still_def split: if_splits)

lemma counter_run_inv:
  assumes "counter_run c guards waits"
  shows "counter_ok c guards waits"
  using assms
proof induction
  case (Get c guards waits ws c')
  show ?case
  proof (cases "cn_count c + 1 = cn_capacity c")
    case True
    then have c': "c' = snd (counter_notify (c\<lparr>cn_count := cn_count c + 1\<rparr>))"
      using Get(2) by (simp add: counter_get_def counter_inc_def)
    show ?thesis unfolding c' using Get(3) by (simp add: counter_ok_def) (simp add: counter_notify_def)
  next
    case False
    then have c': "c' = c\<lparr>cn_count := cn_count c + 1\<rparr>" using Get(2) by (simp add: counter_get_def counter_inc_def)
    show ?thesis
      by (rule counter_ok_same [OF Get(3)]) (use False Get(3) in \<open>auto simp: c' is_available_def counter_ok_def\<close>)
  qed
next
  case (Guard_Drop c guards waits ws c')
  show ?case
  proof (cases "cn_count c = cn_capacity c")
    case True
    then have c': "c' = snd (counter_notify (c\<lparr>cn_count := cn_count c - 1\<rparr>))"
      using Guard_Drop(2) by (auto simp: guard_drop_def counter_dec_def Let_def split: if_splits)
    show ?thesis unfolding c' using Guard_Drop(3) by (simp add: counter_ok_def) (simp add: counter_notify_def)
  next
    case False
    then have c': "c' = c\<lparr>cn_count := cn_count c - 1\<rparr>"
      using Guard_Drop(2) by (auto simp: guard_drop_def counter_dec_def Let_def split: if_splits)
    show ?thesis
      by (rule counter_ok_same [OF Guard_Drop(3)]) (use False Guard_Drop(3) in \<open>auto simp: c' is_available_def counter_ok_def\<close>)
  qed
next
  case (Set_Capacity c guards waits cap ws c')
  then have c': "c' = snd (counter_notify (c\<lparr>cn_capacity := cap\<rparr>))" by (simp add: set_capacity_def)
  show ?case unfolding c' using Set_Capacity(3) by (simp add: counter_ok_def) (simp add: counter_notify_def)
next
  case (Available c guards waits will_wake w idx r c')
  then show ?case
    by (auto simp: poll_available_def counter_register_def counter_ok_def is_available_def local_waker.register_set
        split: if_splits option.splits)
next
  case (Unavailable c guards waits will_wake w idx r c')
  then show ?case
    by (auto simp: poll_unavailable_def counter_register_def counter_ok_def is_available_def local_waker.register_set
        split: if_splits option.splits)
next
  case (Clone c guards waits idx)
  then have "waits idx = None" by (cases "waits idx") (force simp: counter_ok_def)+
  then show ?case using Clone(3) by (fastforce simp: counter_ok_def counter_clone_def is_available_def)
next
  case (Drop c guards waits idx c')
  then have "c' = c\<lparr>cn_tasks := (cn_tasks c)(idx := None)\<rparr>" by (simp add: counter_drop_def split: if_splits)
  then show ?case using Drop(3) by (fastforce simp: counter_ok_def is_available_def)
qed (auto simp: counter_ok_def counter_new_def counter_bind_def is_available_def)

section \<open>Properties\<close>

text \<open>C32. The count is the number of guards that are alive, so dropping a guard does not panic, and no
  wake-up is lost: while a handle waits for capacity the counter is full, while it waits for the
  counter to fill up there is capacity, and its task is registered.\<close>
theorem counter_no_lost_wakeup:
  assumes "counter_run c guards waits"
  shows "counter_total c = guards \<and> (0 < guards \<longrightarrow> guard_drop c \<noteq> None)
    \<and> (waits idx = Some True \<longrightarrow> \<not> is_available c) \<and> (waits idx = Some False \<longrightarrow> is_available c)
    \<and> (waits idx \<noteq> None \<longrightarrow> (\<exists>slot. cn_tasks c idx = Some slot \<and> lw_is_set slot))"
  using counter_run_inv [OF assms]
  by (fastforce simp: counter_ok_def counter_total_def guard_drop_def counter_dec_def Let_def)

theorem counter_no_lost_wakeup_witness:
  "\<exists>c. counter_run (c :: nat CounterInner) 1 [0 \<mapsto> True] \<and> counter_total c = 1 \<and> \<not> is_available c
    \<and> (\<exists>c'. guard_drop c = Some ({7}, c') \<and> is_available c')"
proof -
  define c1 where "c1 = snd (counter_get (counter_new 0 1 :: nat CounterInner))"
  define c2 where "c2 = snd (the (poll_available (=) 7 0 c1))"
  note defs = c2_def c1_def counter_get_def counter_inc_def counter_new_def counter_notify_def poll_available_def
    counter_register_def lw_register_def lw_new_def Let_def
  have "counter_run c1 (Suc 0) (still c1 Map.empty)"
    unfolding c1_def by (rule counter_run.Get [OF counter_run.New surjective_pairing])
  moreover have "still c1 Map.empty = Map.empty" by (auto simp: still_def)
  moreover have "poll_available (=) 7 0 c1 = Some (False, c2)" by (simp add: defs)
  ultimately have r: "counter_run c2 1 [0 \<mapsto> True]" using counter_run.Available [of c1 1 Map.empty "(=)" 7 0 False c2] by simp
  have "\<exists>c'. guard_drop c2 = Some ({7}, c') \<and> is_available c'"
    by (auto simp: defs guard_drop_def counter_dec_def is_available_def split: if_splits)
  then show ?thesis using r counter_no_lost_wakeup [OF r, of 0] by auto
qed

end
