(* ===== verification/Router_Path.thy ===== *)
theory Router_Path
  imports Prelude
begin

text \<open>
  The path that a router matches, \<^verbatim>\<open>ntex-router/src/path.rs\<close> and the trait \<^verbatim>\<open>ResourcePath\<close> of
  \<^verbatim>\<open>ntex-router/src/lib.rs\<close>.

  A \<^verbatim>\<open>&str\<close> is the list of its UTF-8 bytes. The path source \<^verbatim>\<open>T: ResourcePath\<close> of a \<^verbatim>\<open>Path<T>\<close> is
  represented by the full path it returns; the functions of the trait that do not depend on a
  value, \<^verbatim>\<open>unquote\<close> and \<^verbatim>\<open>needs_unquote\<close>, are the record \<open>ResourcePath\<close>. An operation that may
  not return a value (it panics, or its loop runs forever) has a result of type \<open>run\<close>, with
  \<open>Panics\<close> for both.
\<close>

section \<open>Panics, borrowed and owned strings\<close>

datatype 'a run = Panics | Returns 'a

lemma run_cases_iff: "r \<noteq> Panics \<longleftrightarrow> (\<exists>x. r = Returns x)"
  by (cases r) auto

text \<open>\<^verbatim>\<open>Cow<'_, str>\<close>.\<close>

datatype Cow = Borrowed bytes | Owned bytes

fun cow_ref :: "Cow \<Rightarrow> bytes" where
  "cow_ref (Borrowed s) = s"
| "cow_ref (Owned s) = s"

fun is_owned :: "Cow \<Rightarrow> bool" where
  "is_owned (Borrowed s) \<longleftrightarrow> False"
| "is_owned (Owned s) \<longleftrightarrow> True"

lemma is_owned_iff: "\<not> is_owned c \<longleftrightarrow> c = Borrowed (cow_ref c)"
  by (cases c) auto

text \<open>\<^verbatim>\<open>&s[a..b]\<close> of a byte range, with the panic out of range.\<close>

definition str_slice :: "bytes \<Rightarrow> nat \<Rightarrow> nat \<Rightarrow> bytes run" where
  "str_slice s a b = (if a \<le> b \<and> b \<le> length s then Returns (take (b - a) (drop a s)) else Panics)"

definition u32_saturating_add :: "u32 \<Rightarrow> u32 \<Rightarrow> u32" where
  "u32_saturating_add a b = (if uint a + uint b < 2 ^ 32 then a + b else - 1)"

text \<open>\<^verbatim>\<open>u32::try_from(n).unwrap_or(u32::MAX)\<close>.\<close>

definition u32_clamp :: "nat \<Rightarrow> u32" where
  "u32_clamp n = (if int n < 2 ^ 32 then of_nat n else - 1)"

section \<open>Path sources\<close>

record ResourcePath =
  rp_unquote :: "bytes \<Rightarrow> Cow"
  rp_needs_unquote :: "bytes \<Rightarrow> bool"

text \<open>The sources \<^verbatim>\<open>String\<close>, \<^verbatim>\<open>&str\<close> and \<^verbatim>\<open>ByteString\<close>, with the default \<^verbatim>\<open>unquote\<close> of the trait.\<close>

definition str_resource_path :: ResourcePath where
  "str_resource_path = \<lparr>rp_unquote = Borrowed, rp_needs_unquote = \<lambda>_. False\<rparr>"

lemma str_resource_path_simps [simp]:
  "rp_unquote str_resource_path = Borrowed"
  "rp_needs_unquote str_resource_path s = False"
  by (simp_all add: str_resource_path_def)

section \<open>Paths\<close>

datatype PathItem = Item_Static bytes | Item_Segment bytes | IdxSegment u32 u32

record Path =
  p_resource :: bytes
  p_skip :: u32
  p_segments :: "(bytes \<times> PathItem) list"

definition Path_new :: "bytes \<Rightarrow> Path" where
  "Path_new r = \<lparr>p_resource = r, p_skip = 0, p_segments = []\<rparr>"

definition Path_path :: "Path \<Rightarrow> bytes" where
  "Path_path p =
     (if unat (p_skip p) \<le> length (p_resource p) then drop (unat (p_skip p)) (p_resource p) else [])"

definition Path_set :: "bytes \<Rightarrow> Path \<Rightarrow> Path" where
  "Path_set r p = p\<lparr>p_skip := 0, p_resource := r, p_segments := []\<rparr>"

definition Path_reset :: "Path \<Rightarrow> Path" where
  "Path_reset p = p\<lparr>p_skip := 0, p_segments := []\<rparr>"

definition Path_skip :: "u32 \<Rightarrow> Path \<Rightarrow> Path" where
  "Path_skip n p =
     p\<lparr>p_skip := min (u32_saturating_add (p_skip p) n) (u32_clamp (length (p_resource p)))\<rparr>"

definition Path_add_static :: "bytes \<Rightarrow> bytes \<Rightarrow> Path \<Rightarrow> Path" where
  "Path_add_static name value p = p\<lparr>p_segments := p_segments p @ [(name, Item_Static value)]\<rparr>"

definition Path_is_empty :: "Path \<Rightarrow> bool" where
  "Path_is_empty p \<longleftrightarrow> p_segments p = []"

definition Path_len :: "Path \<Rightarrow> nat" where
  "Path_len p = length (p_segments p)"

fun item_str :: "bytes \<Rightarrow> PathItem \<Rightarrow> bytes run" where
  "item_str path (Item_Static s) = Returns s"
| "item_str path (Item_Segment s) = Returns s"
| "item_str path (IdxSegment s e) = str_slice path (unat s) (unat e)"

fun get_segment :: "bytes \<Rightarrow> (bytes \<times> PathItem) list \<Rightarrow> bytes \<Rightarrow> bytes run option" where
  "get_segment path [] key = None"
| "get_segment path ((name, it) # segs) key =
     (if key = name then Some (item_str path it) else get_segment path segs key)"

definition Path_get :: "Path \<Rightarrow> bytes \<Rightarrow> bytes option run" where
  "Path_get p key = (case get_segment (p_resource p) (p_segments p) key of
       Some (Returns s) \<Rightarrow> Returns (Some s)
     | Some Panics \<Rightarrow> Panics
     | None \<Rightarrow> Returns (if key = ascii ''tail'' then Some (Path_path p) else None))"

text \<open>\<^verbatim>\<open>PathIter\<close>: the cursor \<^verbatim>\<open>idx\<close> over the segments.\<close>

definition PathIter_next :: "Path \<Rightarrow> nat \<Rightarrow> ((bytes \<times> bytes) \<times> nat) option run" where
  "PathIter_next p i = (if i < Path_len p
     then (case p_segments p ! i of (name, it) \<Rightarrow>
       (case item_str (p_resource p) it of
          Panics \<Rightarrow> Panics
        | Returns s \<Rightarrow> Returns (Some ((name, s), i + 1))))
     else Returns None)"

text \<open>Indexing by name and by position, with the panics of \<^verbatim>\<open>expect\<close> and out of range.\<close>

definition Path_index :: "Path \<Rightarrow> bytes \<Rightarrow> bytes run" where
  "Path_index p name = (case Path_get p name of
       Returns (Some s) \<Rightarrow> Returns s | Returns None \<Rightarrow> Panics | Panics \<Rightarrow> Panics)"

definition Path_index_usize :: "Path \<Rightarrow> nat \<Rightarrow> bytes run" where
  "Path_index_usize p i =
     (if i < length (p_segments p) then item_str (p_resource p) (snd (p_segments p ! i)) else Panics)"

section \<open>Well-formed paths\<close>

fun item_in :: "nat \<Rightarrow> PathItem \<Rightarrow> bool" where
  "item_in n (IdxSegment s e) \<longleftrightarrow> s \<le> e \<and> unat e \<le> n"
| "item_in n it \<longleftrightarrow> True"

text \<open>The skipped length and the stored ranges stay inside the full path.\<close>

definition path_ok :: "Path \<Rightarrow> bool" where
  "path_ok p \<longleftrightarrow> unat (p_skip p) \<le> length (p_resource p) \<and>
     (\<forall>(name, it) \<in> set (p_segments p). item_in (length (p_resource p)) it)"

lemma item_str_in: "item_in (length path) it \<Longrightarrow> item_str path it \<noteq> Panics"
  by (cases it) (auto simp: str_slice_def word_le_nat_alt)

lemma get_segment_ok:
  assumes "\<forall>(name, it) \<in> set segs. item_in (length path) it"
  shows "get_segment path segs key \<noteq> Some Panics"
  using assms by (induction path segs key rule: get_segment.induct) (auto simp: item_str_in)

lemma Path_get_ok:
  assumes "path_ok p"
  shows "Path_get p key \<noteq> Panics"
  using get_segment_ok [of "p_segments p" "p_resource p" key] assms
  by (auto simp: Path_get_def path_ok_def split: option.splits run.splits)

lemma PathIter_next_ok:
  assumes "path_ok p"
  shows "PathIter_next p i \<noteq> Panics"
proof (cases "i < Path_len p")
  case True
  then have "p_segments p ! i \<in> set (p_segments p)"
    by (simp add: Path_len_def)
  then have "item_in (length (p_resource p)) (snd (p_segments p ! i))"
    using assms by (auto simp: path_ok_def)
  then show ?thesis
    using True item_str_in by (auto simp: PathIter_next_def split: prod.splits run.splits)
qed (simp add: PathIter_next_def)

lemma unat_Path_skip:
  assumes "length (p_resource p) < 2 ^ 32"
  shows "unat (p_skip (Path_skip n p)) = min (unat (p_skip p) + unat n) (length (p_resource p))"
proof -
  let ?s = "u32_saturating_add (p_skip p) n"
  have len: "unat (u32_clamp (length (p_resource p))) = length (p_resource p)"
    using assms by (simp add: u32_clamp_def unat_of_nat)
  have e: "uint (p_skip p) + uint n < 2 ^ 32 \<longleftrightarrow> unat (p_skip p) + unat n < 2 ^ 32"
  proof -
    have "uint (p_skip p) + uint n = int (unat (p_skip p) + unat n)" by simp
    moreover have "int (unat (p_skip p) + unat n) < 2 ^ 32 \<longleftrightarrow> unat (p_skip p) + unat n < 2 ^ 32"
      using of_nat_less_iff [of "unat (p_skip p) + unat n" "2 ^ 32", where 'a = int] by (simp only: of_nat_power of_nat_numeral)
    ultimately show ?thesis by (simp only: )
  qed
  have "unat ?s = min (unat (p_skip p) + unat n) (2 ^ 32 - 1)"
  proof (cases "uint (p_skip p) + uint n < 2 ^ 32")
    case True
    then have "unat (p_skip p) + unat n < 2 ^ 32" unfolding e .
    then show ?thesis using True by (simp add: u32_saturating_add_def unat_word_ariths)
  next
    case False
    then have "\<not> unat (p_skip p) + unat n < 2 ^ 32" unfolding e .
    then show ?thesis
      using False by (simp add: u32_saturating_add_def unsigned_minus_1_eq_mask mask_eq_exp_minus_1)
  qed
  then show ?thesis
    using assms len by (auto simp: Path_skip_def min_def word_le_nat_alt)
qed

lemma Path_skip_frame [simp]:
  "p_resource (Path_skip n p) = p_resource p" "p_segments (Path_skip n p) = p_segments p"
  by (simp_all add: Path_skip_def)

lemma Path_skip_le:
  assumes "length (p_resource p) < 2 ^ 32"
  shows "unat (p_skip (Path_skip n p)) \<le> length (p_resource p)"
proof -
  have "unat (of_nat (length (p_resource p)) :: u32) = length (p_resource p)"
    using assms by (simp add: unat_of_nat)
  then show ?thesis
    using assms by (auto simp: Path_skip_def u32_clamp_def min_def word_le_nat_alt)
qed

end
