(* ===== verification/Router_Resource.thy ===== *)
theory Router_Resource
  imports Router_Path
begin

text \<open>
  Resource definitions, \<^verbatim>\<open>ntex-router/src/resource.rs\<close>: path patterns are parsed into segments,
  which the tree matches, and into path elements, from which a path is built.

  The \<^verbatim>\<open>regex\<close> crate is the parameter \<open>Regex\<close>: \<open>re_escape\<close> is \<^verbatim>\<open>regex::escape\<close>, \<open>re_names\<close> is the
  list of the named captures of a compiled pattern (\<open>None\<close>: \<^verbatim>\<open>Regex::new\<close> fails), \<open>re_captures\<close>
  the ranges of the named captures in a string (\<open>None\<close>: no match). A compiled pattern is
  represented by its source, which is what \<^verbatim>\<open>PartialEq\<close> of \<^verbatim>\<open>Segment\<close> compares.
\<close>

section \<open>Segments and path elements\<close>

record Regex =
  re_escape :: "bytes \<Rightarrow> bytes"
  re_names :: "bytes \<Rightarrow> bytes list option"
  re_captures :: "bytes \<Rightarrow> bytes \<Rightarrow> (bytes \<Rightarrow> (nat \<times> nat) option) option"

datatype Segment = Static bytes | Dynamic (seg_pattern: bytes) (seg_names: "bytes list") (seg_tail: bool) (seg_whole: bool)

fun segment_eq :: "Segment \<Rightarrow> Segment \<Rightarrow> bool" where
  "segment_eq (Static p1) (Static p2) \<longleftrightarrow> p1 = p2"
| "segment_eq (Static p1) (Dynamic _ _ _ _) \<longleftrightarrow> False"
| "segment_eq (Dynamic _ _ _ _) (Static p2) \<longleftrightarrow> False"
| "segment_eq (Dynamic p1 _ t1 _) (Dynamic p2 _ t2 _) \<longleftrightarrow> p1 = p2 \<and> t1 = t2"

datatype PathElement = Str bytes | Var bytes

fun is_str :: "PathElement \<Rightarrow> bool" where
  "is_str (Str s) \<longleftrightarrow> True"
| "is_str (Var s) \<longleftrightarrow> False"

fun as_str :: "PathElement \<Rightarrow> bytes" where
  "as_str (Str s) = s"
| "as_str (Var s) = s"

record Segments =
  sg_tp :: "Segment list"
  sg_slesh :: bool

record ResourceDef =
  rd_id :: u16
  rd_tp :: "Segments list"
  rd_name :: bytes
  rd_patterns :: "bytes list"
  rd_elements :: "PathElement list"
  rd_prefix :: bool

section \<open>String functions\<close>

text \<open>\<^verbatim>\<open>str::find\<close> of a set of ASCII characters, \<^verbatim>\<open>strip_prefix\<close> and \<^verbatim>\<open>strip_suffix\<close> of one.\<close>

fun str_find :: "(u8 \<Rightarrow> bool) \<Rightarrow> bytes \<Rightarrow> nat option" where
  "str_find f [] = None"
| "str_find f (b # bs) = (if f b then Some 0 else map_option Suc (str_find f bs))"

fun strip_first :: "u8 \<Rightarrow> bytes \<Rightarrow> bytes option" where
  "strip_first c [] = None"
| "strip_first c (b # bs) = (if b = c then Some bs else None)"

definition strip_last :: "u8 \<Rightarrow> bytes \<Rightarrow> bytes option" where
  "strip_last c bs = (if bs \<noteq> [] \<and> last bs = c then Some (butlast bs) else None)"

abbreviation "SLASH \<equiv> 47 :: u8"
abbreviation "LBRACE \<equiv> 123 :: u8"
abbreviation "RBRACE \<equiv> 125 :: u8"
abbreviation "COLON \<equiv> 58 :: u8"
abbreviation "STAR \<equiv> 42 :: u8"

definition starts_slash :: "bytes \<Rightarrow> bool" where
  "starts_slash s \<longleftrightarrow> s \<noteq> [] \<and> hd s = SLASH"

definition unslash :: "bytes \<Rightarrow> bytes" where
  "unslash s = (if starts_slash s then tl s else s)"

lemma str_find_Some:
  "str_find f s = Some i \<longleftrightarrow> i < length s \<and> f (s ! i) \<and> (\<forall>j<i. \<not> f (s ! j))"
proof (induction s arbitrary: i)
  case (Cons b bs)
  show ?case
    by (cases i) (auto simp: Cons.IH nth_Cons less_Suc_eq_0_disj)
qed simp

lemma str_find_None: "str_find f s = None \<longleftrightarrow> (\<forall>b\<in>set s. \<not> f b)"
  by (induction s) auto

lemma str_find_lt: "str_find f s = Some i \<Longrightarrow> i < length s"
  by (simp add: str_find_Some)

section \<open>Parsing\<close>

text \<open>\<^verbatim>\<open>pattern.find(|c| ...)\<close> with the nesting of braces, for the closing brace.\<close>

fun find_close :: "nat \<Rightarrow> bytes \<Rightarrow> nat option" where
  "find_close n [] = None"
| "find_close n (b # bs) =
     (if b = LBRACE then map_option Suc (find_close (n + 1) bs)
      else if b = RBRACE then (if n - 1 = 0 then Some 0 else map_option Suc (find_close (n - 1) bs))
      else map_option Suc (find_close n bs))"

lemma find_close_lt: "find_close n s = Some i \<Longrightarrow> i < length s"
  by (induction n s arbitrary: i rule: find_close.induct) (auto split: if_splits)

text \<open>One parameter, from its opening brace: the regular expression, the name, what follows and
  whether it is a tail.\<close>

definition parse_param :: "Regex \<Rightarrow> bytes \<Rightarrow> (bytes \<times> bytes \<times> bytes \<times> bool) run" where
  "parse_param R pattern = (case find_close 0 pattern of
       None \<Rightarrow> Panics
     | Some close_idx \<Rightarrow>
         (let rem = drop (close_idx + 1) pattern;
              param = drop 1 (take close_idx pattern);
              tail = (rem = [STAR])
          in case str_find ((=) COLON) param of
               Some idx \<Rightarrow>
                 (if tail then Panics
                  else Returns (ascii ''(?P<'' @ re_escape R (take idx param) @ ascii ''>'' @
                           drop (idx + 1) param @ ascii '')'', take idx param, rem, tail))
             | None \<Rightarrow>
                 Returns (ascii ''(?P<'' @ re_escape R param @ ascii ''>'' @
                   (if tail then ascii ''.*'' else ascii ''.+'') @ ascii '')'',
                   param, (if tail then drop 1 rem else rem), tail)))"

lemma parse_param_shorter:
  assumes "parse_param R s = Returns (grp, name, rem, tail)"
  shows "length rem < length s"
  using assms by (auto simp: parse_param_def Let_def dest!: find_close_lt split: option.splits if_splits)

text \<open>The loop of \<^verbatim>\<open>parse_segment\<close> over the parameters of a segment.\<close>

function parse_params :: "Regex \<Rightarrow> bytes \<Rightarrow> nat option \<Rightarrow> bytes \<Rightarrow> bytes \<Rightarrow> bool \<Rightarrow> PathElement list
    \<Rightarrow> (bytes \<times> bytes \<times> bool \<times> PathElement list) run" where
  "parse_params R re end_idx pattern rem tail elems = (case str_find ((=) LBRACE) pattern of
       None \<Rightarrow> Returns (re, rem, tail, elems)
     | Some start_idx \<Rightarrow>
         if (case end_idx of None \<Rightarrow> False | Some e \<Rightarrow> start_idx > e) then Returns (re, rem, tail, elems)
         else (case parse_param R (drop start_idx pattern) of
             Panics \<Rightarrow> Panics
           | Returns (grp, name, rem, tail) \<Rightarrow>
               (let re = re @ re_escape R (take start_idx pattern) @ grp;
                    elems = elems @ [Str (take start_idx pattern), Var name]
                in case str_find (\<lambda>c. c = LBRACE \<or> c = SLASH) rem of
                     Some idx \<Rightarrow> parse_params R re (Some idx) rem rem tail elems
                   | None \<Rightarrow> Returns (re @ re_escape R rem, [], tail, elems))))"
  by pat_completeness auto
termination
  by (relation "measure (\<lambda>(R, re, end_idx, pattern, rem, tail, elems). length pattern)")
    (auto dest!: parse_param_shorter)

declare parse_params.simps [simp del]

definition parse_segment ::
    "Regex \<Rightarrow> bytes \<Rightarrow> PathElement list \<Rightarrow> (bytes \<times> bytes \<times> bool \<times> PathElement list) run" where
  "parse_segment R pattern elems =
     (case parse_params R (ascii ''^'') None (unslash pattern) pattern False (elems @ [Str (ascii ''/'')]) of
        Panics \<Rightarrow> Panics
      | Returns (re, rem, tail, elems) \<Rightarrow>
          (case str_find ((=) SLASH) rem of
             Some idx \<Rightarrow> Returns (re @ re_escape R (take idx rem) @ ascii ''$'', drop idx rem, tail, elems)
           | None \<Rightarrow> Returns (re @ re_escape R rem @ ascii ''$'', [], tail, elems)))"

lemma parse_param_tail: "parse_param R s = Returns (grp, name, rem, True) \<Longrightarrow> rem = []"
  by (auto simp: parse_param_def Let_def simp del: drop_drop split: option.splits if_splits)

lemma parse_params_rem:
  assumes "parse_params R re e pattern rem tail elems = Returns (re', rem', tail', elems')"
    and "tail \<Longrightarrow> rem = []"
  shows "length rem' \<le> max (length rem) (length pattern) \<and> (tail' \<longrightarrow> rem' = [])"
  using assms
proof (induction R re e pattern rem tail elems rule: parse_params.induct)
  case (1 R re e pattern rem tail elems)
  show ?case
  proof (cases "str_find ((=) LBRACE) pattern = None \<or>
      (\<exists>i e'. str_find ((=) LBRACE) pattern = Some i \<and> e = Some e' \<and> i > e')")
    case True
    then show ?thesis
      using 1(2,3) by (auto simp: parse_params.simps [of R re e])
  next
    case False
    then obtain i where i: "str_find ((=) LBRACE) pattern = Some i"
      "\<not> (case e of None \<Rightarrow> False | Some e \<Rightarrow> i > e)"
      by (cases e) auto
    with 1(2) obtain grp name r t where q: "parse_param R (drop i pattern) = Returns (grp, name, r, t)"
      by (auto simp: parse_params.simps [of R re e] split: run.splits)
    note sh = parse_param_shorter [OF q] and tl = parse_param_tail [of R "drop i pattern" grp name r]
    show ?thesis
      using 1(1) [OF i q refl refl refl refl refl] 1(2) i q sh tl
      by (auto simp: parse_params.simps [of R re e] Let_def split: option.splits)
  qed
qed

lemma parse_params_first:
  assumes "parse_params R re None pattern rem False elems = Returns (re', rem', tail', elems')"
    and "str_find ((=) LBRACE) pattern \<noteq> None"
  shows "length rem' < length pattern"
proof -
  obtain i where i: "str_find ((=) LBRACE) pattern = Some i"
    using assms(2) by auto
  with assms(1) obtain grp name r t where q: "parse_param R (drop i pattern) = Returns (grp, name, r, t)"
    by (auto simp: parse_params.simps [of R re None] split: run.splits)
  have r: "length r < length pattern" "t \<Longrightarrow> r = []"
    using parse_param_shorter [OF q] q parse_param_tail [of R "drop i pattern" grp name r]
    by (auto)
  show ?thesis
    using assms(1) i q r parse_params_rem [of R _ _ r r t]
    by (fastforce simp: parse_params.simps [of R re None] Let_def split: option.splits)
qed

lemma parse_segment_rem:
  assumes "parse_segment R pattern elems = Returns (re, rem, tail, elems')"
  shows "tail \<Longrightarrow> rem = []" and "rem \<noteq> [] \<Longrightarrow> starts_slash rem"
    and "str_find ((=) LBRACE) (unslash pattern) \<noteq> None \<Longrightarrow> length rem < length pattern"
proof -
  obtain re1 rem1 where p: "parse_params R (ascii ''^'') None (unslash pattern) pattern False
      (elems @ [Str (ascii ''/'')]) = Returns (re1, rem1, tail, elems')"
    and rem: "rem = (case str_find ((=) SLASH) rem1 of Some i \<Rightarrow> drop i rem1 | None \<Rightarrow> [])"
    using assms by (auto simp: parse_segment_def split: run.splits option.splits)
  have len: "length rem \<le> length rem1"
    by (auto simp: rem split: option.splits)
  show "tail \<Longrightarrow> rem = []"
    using parse_params_rem [OF p] len by auto
  show "rem \<noteq> [] \<Longrightarrow> starts_slash rem"
  proof (cases "str_find ((=) SLASH) rem1")
    case (Some i)
    then have "i < length rem1" "rem1 ! i = SLASH"
      by (auto simp: str_find_Some)
    with Some show ?thesis
      by (simp add: rem starts_slash_def hd_drop_conv_nth)
  qed (simp add: rem)
  show "str_find ((=) LBRACE) (unslash pattern) \<noteq> None \<Longrightarrow> length rem < length pattern"
    using parse_params_first [OF p] len
    by (auto simp: unslash_def starts_slash_def split: if_splits)
qed

text \<open>Whether a dynamic segment is a single \<^verbatim>\<open>{name}\<close> with the default pattern.\<close>

definition is_whole :: "bytes \<Rightarrow> bytes \<Rightarrow> bytes list \<Rightarrow> bool \<Rightarrow> bool" where
  "is_whole pattern rem names tail \<longleftrightarrow> \<not> tail \<and> length names = 1 \<and>
     (case strip_first LBRACE (unslash (take (length pattern - length rem) pattern)) of
        None \<Rightarrow> False
      | Some s \<Rightarrow> (case strip_last RBRACE s of
          None \<Rightarrow> False
        | Some s \<Rightarrow> str_find (\<lambda>c. c = LBRACE \<or> c = RBRACE \<or> c = COLON) s = None))"

lemma first_special_brace:
  assumes "str_find (\<lambda>c. c = LBRACE \<or> c = SLASH) s = Some i"
    and "str_find ((=) SLASH) (take (Suc i) s) = None"
  shows "str_find ((=) LBRACE) s \<noteq> None"
  using assms by (auto simp: str_find_Some str_find_None in_set_conv_nth)

lemma first_special_slash:
  assumes "str_find (\<lambda>c. c = LBRACE \<or> c = SLASH) s = Some i"
    and "str_find ((=) SLASH) (take (Suc i) s) = Some j"
  shows "j = i"
  using assms by (auto simp: str_find_Some less_Suc_eq)

text \<open>The loop of \<^verbatim>\<open>parse\<close>: what is left for the tail, the segments and the elements.\<close>

function parse_loop :: "Regex \<Rightarrow> bytes \<Rightarrow> Segment list \<Rightarrow> PathElement list
    \<Rightarrow> (bytes \<times> Segment list \<times> PathElement list) run" where
  "parse_loop R pattern pelems elems =
     (let start = (if starts_slash pattern then 1 else 0)
      in case str_find (\<lambda>c. c = LBRACE \<or> c = SLASH) (drop start pattern) of
           None \<Rightarrow> Returns (pattern, pelems, elems)
         | Some idx \<Rightarrow>
             (case str_find ((=) SLASH) (take (Suc idx) (drop start pattern)) of
                Some i \<Rightarrow>
                  parse_loop R (drop (i + start) pattern)
                    (pelems @ [Static (drop start (take (i + start) pattern))])
                    (elems @ [Str (take (i + start) pattern)])
              | None \<Rightarrow>
                  (case parse_segment R pattern elems of
                     Panics \<Rightarrow> Panics
                   | Returns (re_part, rem, tail, elems) \<Rightarrow>
                       (case re_names R re_part of
                          None \<Rightarrow> Panics
                        | Some names \<Rightarrow>
                            (let pelems = pelems @
                                   [Dynamic re_part names tail (is_whole pattern rem names tail)]
                             in if rem = [] then Returns (rem, pelems, elems)
                                else parse_loop R rem pelems elems)))))"
  by pat_completeness auto
termination
proof (relation "measure (\<lambda>(R, pattern, pelems, elems). length pattern)", goal_cases)
  case (2 R pattern pelems elems start idx x re_part y rem ya tail elems' names pelems')
  then have "str_find ((=) LBRACE) (unslash pattern) \<noteq> None"
    using first_special_brace [of "drop start pattern" idx]
    by (auto simp: unslash_def drop_Suc split: if_splits)
  with 2 show ?case
    using parse_segment_rem(3) by fastforce
next
  case (3 R pattern pelems elems start idx i)
  then have i: "i < length (drop start pattern)"
    using str_find_lt by fastforce
  show ?case
  proof (cases "starts_slash pattern")
    case True
    with i 3 show ?thesis by auto
  next
    case False
    with 3 have "i \<noteq> 0"
      by (cases pattern; cases i) (auto simp: starts_slash_def str_find_Some)
    with i False 3 show ?thesis by auto
  qed
qed auto

declare parse_loop.simps [simp del]

text \<open>The loop that merges adjacent strings and drops empty ones.\<close>

fun merge_elements :: "PathElement list \<Rightarrow> PathElement list" where
  "merge_elements (x # y # zs) =
     (if is_str y \<and> as_str y = [] then merge_elements (x # zs)
      else if is_str x \<and> is_str y then merge_elements (Str (as_str x @ as_str y) # zs)
      else x # merge_elements (y # zs))"
| "merge_elements xs = xs"

definition parse_pattern :: "Regex \<Rightarrow> bytes \<Rightarrow> (Segments \<times> PathElement list) run" where
  "parse_pattern R pattern =
     (if pattern = [] then Returns (\<lparr>sg_tp = [], sg_slesh = False\<rparr>, [])
      else case parse_loop R pattern [] [] of
        Panics \<Rightarrow> Panics
      | Returns (pattern, pelems, elems) \<Rightarrow>
          (let slesh = (pattern \<noteq> [] \<and> last pattern = SLASH);
               pattern = (if slesh then butlast pattern else pattern);
               elems = elems @ [Str pattern];
               pattern = unslash pattern;
               last_seg =
                 (if pattern = [] then Returns []
                  else case strip_last STAR pattern of
                    Some stripped \<Rightarrow>
                      (let re = ascii ''^'' @ re_escape R stripped @ ascii ''(.+)''
                       in case re_names R re of None \<Rightarrow> Panics | Some _ \<Rightarrow> Returns [Dynamic re [] True False])
                  | None \<Rightarrow> Returns [Static pattern])
           in case last_seg of
                Panics \<Rightarrow> Panics
              | Returns seg \<Rightarrow>
                  Returns (\<lparr>sg_tp = pelems @ seg, sg_slesh = slesh\<rparr>,
                    merge_elements (elems @ (if slesh then [Str [SLASH]] else [])))))"

section \<open>Resource definitions\<close>

fun parse_all :: "Regex \<Rightarrow> bytes list \<Rightarrow> (Segments \<times> PathElement list) list run" where
  "parse_all R [] = Returns []"
| "parse_all R (p # ps) = (case parse_pattern R p of
       Panics \<Rightarrow> Panics
     | Returns x \<Rightarrow> (case parse_all R ps of Panics \<Rightarrow> Panics | Returns xs \<Rightarrow> Returns (x # xs)))"

definition ResourceDef_create :: "Regex \<Rightarrow> bytes list \<Rightarrow> bool \<Rightarrow> ResourceDef run" where
  "ResourceDef_create R patterns prfx = (case parse_all R patterns of
       Panics \<Rightarrow> Panics
     | Returns xs \<Rightarrow> Returns \<lparr>rd_id = 0, rd_tp = map fst xs, rd_name = [], rd_patterns = patterns,
         rd_elements = (case xs of [] \<Rightarrow> [] | x # _ \<Rightarrow> snd x), rd_prefix = prfx\<rparr>)"

definition ResourceDef_new :: "Regex \<Rightarrow> bytes list \<Rightarrow> ResourceDef run" where
  "ResourceDef_new R path = ResourceDef_create R path False"

definition ResourceDef_prefix :: "Regex \<Rightarrow> bytes list \<Rightarrow> ResourceDef run" where
  "ResourceDef_prefix R path = ResourceDef_create R path True"

definition insert_slash :: "bytes \<Rightarrow> bytes" where
  "insert_slash path = (if path \<noteq> [] \<and> \<not> starts_slash path then SLASH # path else path)"

definition ResourceDef_root_prefix :: "Regex \<Rightarrow> bytes list \<Rightarrow> ResourceDef run" where
  "ResourceDef_root_prefix R path = ResourceDef_create R (map insert_slash path) True"

definition ResourceDef_set_id :: "u16 \<Rightarrow> ResourceDef \<Rightarrow> ResourceDef" where
  "ResourceDef_set_id i rd = rd\<lparr>rd_id := i\<rparr>"

definition ResourceDef_set_name :: "bytes \<Rightarrow> ResourceDef \<Rightarrow> ResourceDef" where
  "ResourceDef_set_name name rd = rd\<lparr>rd_name := name\<rparr>"

definition ResourceDef_pattern :: "ResourceDef \<Rightarrow> bytes" where
  "ResourceDef_pattern rd = (case rd_patterns rd of [] \<Rightarrow> [] | p # _ \<Rightarrow> p)"

section \<open>Building paths\<close>

text \<open>The closure \<^verbatim>\<open>element\<close> with its state \<open>'s\<close>. The third component is the state after the call.\<close>

fun build_elements :: "('s \<Rightarrow> bytes \<Rightarrow> bytes option \<times> 's) \<Rightarrow> PathElement list \<Rightarrow> nat \<Rightarrow> bytes \<Rightarrow> 's
    \<Rightarrow> bool \<times> bytes \<times> 's" where
  "build_elements element [] len path s = (True, path, s)"
| "build_elements element (Str x # els) len path s = build_elements element els len (path @ x) s"
| "build_elements element (Var name # els) len path s = (case element s name of
       (Some val, s') \<Rightarrow> build_elements element els len (path @ val) s'
     | (None, s') \<Rightarrow> (False, take len path, s'))"

definition build_path_with ::
    "ResourceDef \<Rightarrow> bytes \<Rightarrow> ('s \<Rightarrow> bytes \<Rightarrow> bytes option \<times> 's) \<Rightarrow> 's \<Rightarrow> bool \<times> bytes \<times> 's" where
  "build_path_with rd path element s = build_elements element (rd_elements rd) (length path) path s"

fun next_element :: "bytes list \<Rightarrow> bytes \<Rightarrow> bytes option \<times> bytes list" where
  "next_element [] name = (None, [])"
| "next_element (x # xs) name = (Some x, xs)"

definition build_path :: "ResourceDef \<Rightarrow> bytes \<Rightarrow> bytes list \<Rightarrow> bool \<times> bytes \<times> bytes list" where
  "build_path rd path elements = build_path_with rd path next_element elements"

definition build_path_named :: "ResourceDef \<Rightarrow> bytes \<Rightarrow> (bytes \<rightharpoonup> bytes) \<Rightarrow> bool \<times> bytes" where
  "build_path_named rd path elements =
     (case build_path_with rd path (\<lambda>_ name. (elements name, ())) () of (ok, path, _) \<Rightarrow> (ok, path))"

section \<open>Well-formed segments\<close>

fun is_tail :: "Segment \<Rightarrow> bool" where
  "is_tail (Static s) \<longleftrightarrow> False"
| "is_tail (Dynamic p names tail whole) \<longleftrightarrow> tail"

fun seg_fine :: "Segment \<Rightarrow> bool" where
  "seg_fine (Static s) \<longleftrightarrow> True"
| "seg_fine (Dynamic p names tail whole) \<longleftrightarrow> (whole \<longrightarrow> \<not> tail \<and> length names = 1)"

definition no_tail :: "Segment list \<Rightarrow> bool" where
  "no_tail key \<longleftrightarrow> (\<forall>s\<in>set key. \<not> is_tail s)"

text \<open>A tail is the last segment.\<close>

definition key_ok :: "Segment list \<Rightarrow> bool" where
  "key_ok key \<longleftrightarrow> (\<forall>s\<in>set key. seg_fine s) \<and> no_tail (butlast key)"

text \<open>A pattern that ends with a slash has no tail.\<close>

definition segments_ok :: "Segments \<Rightarrow> bool" where
  "segments_ok sg \<longleftrightarrow> key_ok (sg_tp sg) \<and> (sg_slesh sg \<longrightarrow> no_tail (sg_tp sg))"

definition resource_ok :: "ResourceDef \<Rightarrow> bool" where
  "resource_ok rd \<longleftrightarrow> (\<forall>sg\<in>set (rd_tp rd). segments_ok sg)"

lemma no_tail_simps [simp]:
  "no_tail []" "no_tail (s # key) \<longleftrightarrow> \<not> is_tail s \<and> no_tail key"
  "no_tail (k1 @ k2) \<longleftrightarrow> no_tail k1 \<and> no_tail k2"
  by (auto simp: no_tail_def)

lemma no_tail_butlast: "no_tail key \<Longrightarrow> no_tail (butlast key)"
  by (auto simp: no_tail_def dest: in_set_butlastD)

lemma key_ok_Nil [simp]: "key_ok []"
  by (simp add: key_ok_def)

lemma key_ok_Cons:
  "key_ok (s # key) \<longleftrightarrow> seg_fine s \<and> key_ok key \<and> (key \<noteq> [] \<longrightarrow> \<not> is_tail s)"
  by (auto simp: key_ok_def)

lemma key_ok_append:
  "key_ok (k1 @ k2) \<longleftrightarrow> key_ok k1 \<and> key_ok k2 \<and> (k2 \<noteq> [] \<longrightarrow> no_tail k1)"
  by (induction k1) (auto simp: key_ok_Cons)

lemma key_ok_snoc:
  "key_ok (key @ [s]) \<longleftrightarrow> (\<forall>s\<in>set key. seg_fine s) \<and> no_tail key \<and> seg_fine s"
  by (auto simp: key_ok_def)

lemma is_whole_fine [simp]: "seg_fine (Dynamic p names tail (is_whole pat rem names tail))"
  by (simp add: is_whole_def)

lemma parse_loop_ok:
  assumes "parse_loop R p pe el = Returns (p', pe', el')" "key_ok pe" "no_tail pe"
  shows "key_ok pe' \<and> (p' \<noteq> [] \<longrightarrow> no_tail pe') \<and> SLASH \<notin> set (unslash p')"
  using assms
proof (induction R p pe el rule: parse_loop.induct)
  case (1 R p pe el)
  define start where "start = (if starts_slash p then 1 else 0 :: nat)"
  note unf = parse_loop.simps [of R p pe el, folded start_def, unfolded Let_def]
  note IH = 1(2,1) [OF start_def]
  show ?case
  proof (cases "str_find (\<lambda>c. c = LBRACE \<or> c = SLASH) (drop start p)")
    case None
    then show ?thesis
      using 1(3-5) None [unfolded str_find_None] by (simp add: unf) (auto simp: unslash_def start_def drop_Suc)
  next
    case (Some idx)
    note sidx = this
    show ?thesis
    proof (cases "str_find ((=) SLASH) (take (Suc idx) (drop start p))")
      case (Some i)
      show ?thesis
        using 1(3-5) by (intro IH(1) [OF sidx Some]) (simp_all add: unf sidx Some key_ok_append key_ok_Cons)
    next
      case None
      obtain re rem tail el2 names where ps: "parse_segment R p el = Returns (re, rem, tail, el2)"
        and nm: "re_names R re = Some names"
        using 1(3) sidx None by (auto simp: unf split: run.splits option.splits)
      define seg where "seg = Dynamic re names tail (is_whole p rem names tail)"
      have ok: "key_ok (pe @ [seg])" and t: "is_tail seg \<Longrightarrow> rem = []"
        using 1(4,5) parse_segment_rem(1) [OF ps] by (auto simp: seg_def key_ok_append key_ok_Cons is_whole_def)
      show ?thesis
      proof (cases "rem = []")
        case True
        with 1(3) sidx None ps nm show ?thesis
          using ok by (auto simp: unf seg_def unslash_def starts_slash_def)
      next
        case False
        show ?thesis
          using False 1(3,5) ok t sidx None ps nm
          by (intro IH(2) [OF sidx None ps refl refl refl nm refl, folded seg_def]) (auto simp: unf seg_def)
      qed
    qed
  qed
qed

lemma parse_segments_ok:
  assumes "parse_pattern R p = Returns (sg, el)"
  shows "segments_ok sg"
proof (cases "p = []")
  case True
  with assms show ?thesis by (auto simp: parse_pattern_def segments_ok_def)
next
  case False
  then obtain p' pe' el' where pl: "parse_loop R p [] [] = Returns (p', pe', el')"
    using assms by (auto simp: parse_pattern_def split: run.splits)
  note ok = parse_loop_ok [OF pl]
  have "p' = [SLASH]" if "p' \<noteq> []" "last p' = SLASH"
  proof (cases p')
    case (Cons a bs)
    with ok that last_in_set [of bs] show ?thesis
      by (cases "bs = []") (auto simp: unslash_def starts_slash_def split: if_splits)
  qed (use that in simp)
  then show ?thesis
    using assms False ok
    by (auto simp: parse_pattern_def pl Let_def segments_ok_def key_ok_append key_ok_Cons unslash_def
        starts_slash_def split: run.splits if_splits option.splits)
qed

lemma parse_all_ok:
  "parse_all R ps = Returns xs \<Longrightarrow> length xs = length ps \<and> (\<forall>x\<in>set xs. segments_ok (fst x))"
proof (induction ps arbitrary: xs)
  case (Cons p ps)
  then obtain x ys where "parse_pattern R p = Returns x" "parse_all R ps = Returns ys" "xs = x # ys"
    by (auto split: run.splits)
  with Cons.IH show ?case
    by (cases x) (auto dest: parse_segments_ok)
qed simp

text \<open>C39. A parsed resource is well-formed: a tail is the last segment of a pattern, a pattern that ends with
  a slash has none, a segment that is matched without its expression has one name, and there is a
  list of segments for each pattern. The tree relies on this.\<close>

theorem resource_def_ok:
  assumes "ResourceDef_create R ps prfx = Returns rd"
  shows "resource_ok rd \<and> length (rd_tp rd) = length ps"
proof -
  obtain xs where "parse_all R ps = Returns xs" "rd_tp rd = map fst xs"
    using assms by (auto simp: ResourceDef_create_def split: run.splits)
  then show ?thesis
    using parse_all_ok by (fastforce simp: resource_ok_def)
qed

theorem resource_def_ok_witness:
  "\<exists>rd. ResourceDef_create \<lparr>re_escape = id, re_names = \<lambda>_. Some [ascii ''n''], re_captures = \<lambda>_ _. None\<rparr>
     [ascii ''/a/{n}'', ascii ''/b/''] True = Returns rd \<and> resource_ok rd \<and> length (rd_tp rd) = 2"
proof -
  have "ResourceDef_create \<lparr>re_escape = id, re_names = \<lambda>_. Some [ascii ''n''], re_captures = \<lambda>_ _. None\<rparr>
     [ascii ''/a/{n}'', ascii ''/b/''] True \<noteq> Panics" by code_simp
  then obtain rd where "ResourceDef_create \<lparr>re_escape = id, re_names = \<lambda>_. Some [ascii ''n''], re_captures = \<lambda>_ _. None\<rparr>
     [ascii ''/a/{n}'', ascii ''/b/''] True = Returns rd"
    by (cases "ResourceDef_create \<lparr>re_escape = id, re_names = \<lambda>_. Some [ascii ''n''], re_captures = \<lambda>_ _. None\<rparr>
     [ascii ''/a/{n}'', ascii ''/b/''] True") auto
  with resource_def_ok [OF this] show ?thesis by simp
qed

end
