(* ===== verification/Router_Tree.thy ===== *)
theory Router_Tree
  imports Router_Resource "HOL-Library.Product_Lexorder" "HOL-Library.List_Lexorder"
begin

text \<open>
  The pattern tree of the router, \<^verbatim>\<open>ntex-router/src/tree.rs\<close>: its nodes, the hash tables with
  linear probing that index the static children of a node and the static paths of the root, and
  the insertion of resources.

  The unit \<open>probing\<close> proves linear probing once; both hash tables are interpretations of it.
\<close>

section \<open>Keys and slots\<close>

type_synonym StaticKey = "nat \<times> u64 \<times> u64"

text \<open>\<^verbatim>\<open>from_le_bytes\<close>, the base-256 digits evaluated in the word type.\<close>

fun word_from_le_bytes :: "bytes \<Rightarrow> 'a::len word" where
  "word_from_le_bytes [] = 0"
| "word_from_le_bytes (b # bs) = ucast b + 256 * word_from_le_bytes bs"

definition u32_from_le_bytes :: "bytes \<Rightarrow> u32" where
  "u32_from_le_bytes = word_from_le_bytes"

definition u64_from_le_bytes :: "bytes \<Rightarrow> u64" where
  "u64_from_le_bytes = word_from_le_bytes"

lemma word_from_le_bytes_nat: "word_from_le_bytes bs = of_nat (le_nat bs)"
proof (induction bs)
  case (Cons b bs)
  have "ucast b = (of_nat (unat b) :: 'a word)"
    by (simp add: of_nat_unat)
  with Cons show ?case by simp
qed simp

definition static_key :: "bytes \<Rightarrow> StaticKey" where
  "static_key b = (let n = length b in
     if n \<ge> 8 then (n, u64_from_le_bytes (take 8 b), u64_from_le_bytes (drop (n - 8) b))
     else if n \<ge> 4 then
       (n, ucast (u32_from_le_bytes (take 4 b)), ucast (u32_from_le_bytes (drop (n - 4) b)))
     else if n > 0 then
       (n, ucast (b ! 0) OR push_bit 8 (ucast (b ! (n div 2))) OR push_bit 16 (ucast (b ! (n - 1))), 0)
     else (n, 0, 0))"

definition static_slot :: "StaticKey \<Rightarrow> nat \<Rightarrow> nat" where
  "static_slot key msk = (case key of (n, k1, k2) \<Rightarrow>
     unat (drop_bit 32 ((k1 XOR word_rotl 29 k2 XOR of_nat n) * 0x9E3779B97F4A7C15 :: u64) AND of_nat msk))"

definition find_slash :: "bytes \<Rightarrow> nat" where
  "find_slash path = (case str_find ((=) SLASH) path of Some i \<Rightarrow> i | None \<Rightarrow> length path)"

section \<open>Trees\<close>

record TreeStatic =
  st_key :: StaticKey
  st_pos :: u32

record TreeExact =
  ex_key :: StaticKey
  ex_path :: bytes
  ex_value :: u32
  ex_skip :: u32

datatype TreeValue = Val nat | Slash nat | Prefix nat | PrefixSlash nat

fun tree_value :: "TreeValue \<Rightarrow> nat" where
  "tree_value (Val v) = v"
| "tree_value (Slash v) = v"
| "tree_value (Prefix v) = v"
| "tree_value (PrefixSlash v) = v"

datatype Tree = Tree (t_key: "Segment list") (t_items: "TreeItem list")
    (t_statics: "TreeStatic list") (t_rest: "u32 list") (t_exact: "TreeExact list")
  and TreeItem = Leaf TreeValue | Subtree Tree

definition Tree_default :: Tree where
  "Tree_default = Tree [] [] [] [] []"

definition Tree_child :: "Segment list \<Rightarrow> TreeValue \<Rightarrow> Tree" where
  "Tree_child key value = Tree key [Leaf value] [] [] []"

section \<open>Linear probing\<close>

text \<open>\<^verbatim>\<open>while\<close> not \<open>stop\<close>: the next slot of the table.\<close>

partial_function (option) probe :: "('s \<Rightarrow> bool) \<Rightarrow> 's list \<Rightarrow> nat \<Rightarrow> nat option" where
  "probe stop tab slot =
     (if stop (tab ! slot) then Some slot else probe stop tab ((slot + 1) AND (length tab - 1)))"

declare probe.simps [code]

fun next_power_from :: "nat \<Rightarrow> nat \<Rightarrow> nat \<Rightarrow> nat" where
  "next_power_from 0 n p = p"
| "next_power_from (Suc fuel) n p = (if n \<le> p then p else next_power_from fuel n (2 * p))"

text \<open>\<^verbatim>\<open>usize::next_power_of_two\<close>; \<open>n\<close> doublings of 1 are enough to reach \<open>n\<close>.\<close>

definition next_power_of_two :: "nat \<Rightarrow> nat" where
  "next_power_of_two n = next_power_from n n 1"

definition static_free :: "TreeStatic \<Rightarrow> bool" where
  "static_free s \<longleftrightarrow> st_pos s = - 1"

definition exact_free :: "TreeExact \<Rightarrow> bool" where
  "exact_free e \<longleftrightarrow> ex_value e = - 1"

section \<open>The index of a node\<close>

fun first_static :: "TreeItem \<Rightarrow> bytes option" where
  "first_static (Subtree t) = (case t_key t of Static s # _ \<Rightarrow> Some s | _ \<Rightarrow> None)"
| "first_static (Leaf v) = None"

text \<open>The static entries and the positions of the other items, from position \<open>pos\<close>.\<close>

fun split_items :: "nat \<Rightarrow> TreeItem list \<Rightarrow> (StaticKey \<times> bytes \<times> u32) list \<times> u32 list" where
  "split_items pos [] = ([], [])"
| "split_items pos (it # its) = (case split_items (pos + 1) its of (ss, rs) \<Rightarrow>
     (case first_static it of
        Some s \<Rightarrow> ((static_key s, s, of_nat pos) # ss, rs)
      | None \<Rightarrow> (ss, of_nat pos # rs)))"

text \<open>The loop that fills the table, with the check against the previous entry.\<close>

fun place_statics :: "bytes option \<Rightarrow> (StaticKey \<times> bytes \<times> u32) list \<Rightarrow> TreeStatic list
    \<Rightarrow> TreeStatic list run" where
  "place_statics prev [] table = Returns table"
| "place_statics prev ((key, s, pos) # es) table =
     (if prev = Some s then Panics
      else case probe static_free table (static_slot key (length table - 1)) of
        None \<Rightarrow> Panics
      | Some slot \<Rightarrow> place_statics (Some s) es (table[slot := \<lparr>st_key = key, st_pos = pos\<rparr>]))"

definition static_table :: "(StaticKey \<times> bytes \<times> u32) list \<Rightarrow> TreeStatic list run" where
  "static_table statics =
     (let size = next_power_of_two (length statics * 2);
          table = replicate size \<lparr>st_key = (0, 0, 0), st_pos = - 1\<rparr>
      in case place_statics None (sort statics) table of
           Panics \<Rightarrow> Panics
         | Returns table \<Rightarrow> Returns (if statics = [] then [] else table))"

fun build_index :: "Tree \<Rightarrow> Tree run" and build_items :: "TreeItem list \<Rightarrow> TreeItem list run" where
  "build_index (Tree key items statics rest exact) = (case build_items items of
       Panics \<Rightarrow> Panics
     | Returns items \<Rightarrow> (case split_items 0 items of (ss, rs) \<Rightarrow>
         (case static_table ss of
            Panics \<Rightarrow> Panics
          | Returns table \<Rightarrow> Returns (Tree key items table (sort rs) exact))))"
| "build_items [] = Returns []"
| "build_items (Leaf v # items) = (case build_items items of
       Panics \<Rightarrow> Panics
     | Returns items \<Rightarrow> Returns (Leaf v # items))"
| "build_items (Subtree t # items) = (case build_index t of
       Panics \<Rightarrow> Panics
     | Returns t \<Rightarrow> (case build_items items of
         Panics \<Rightarrow> Panics
       | Returns items \<Rightarrow> Returns (Subtree t # items)))"

text \<open>First static segment of the sub tree at \<open>pos\<close>.\<close>

definition static_at :: "Tree \<Rightarrow> u32 \<Rightarrow> bytes run" where
  "static_at t pos = (if unat pos < length (t_items t)
     then (case first_static (t_items t ! unat pos) of Some s \<Rightarrow> Returns s | None \<Rightarrow> Panics)
     else Panics)"

text \<open>A slot of the static table that holds the segment.\<close>

definition static_hit :: "Tree \<Rightarrow> StaticKey \<Rightarrow> bytes \<Rightarrow> TreeStatic \<Rightarrow> bool" where
  "static_hit t key seg s \<longleftrightarrow>
     st_key s = key \<and> (fst key \<le> 16 \<or> static_at t (st_pos s) = Returns seg)"

text \<open>A slot where \<^verbatim>\<open>static_at\<close> is called and panics.\<close>

definition static_bad :: "Tree \<Rightarrow> StaticKey \<Rightarrow> TreeStatic \<Rightarrow> bool" where
  "static_bad t key s \<longleftrightarrow> st_key s = key \<and> \<not> fst key \<le> 16 \<and> static_at t (st_pos s) = Panics"

definition find_static :: "Tree \<Rightarrow> StaticKey \<Rightarrow> bytes \<Rightarrow> u32 option run" where
  "find_static t key seg =
     (if t_statics t = [] then Returns None
      else case probe (\<lambda>s. static_free s \<or> static_hit t key seg s \<or> static_bad t key s) (t_statics t)
          (static_slot key (length (t_statics t) - 1)) of
        None \<Rightarrow> Panics
      | Some slot \<Rightarrow>
          (let s = t_statics t ! slot in
           if static_free s then Returns None
           else if static_bad t key s then Panics
           else Returns (Some (st_pos s))))"

section \<open>Children of a node\<close>

datatype Children = Indexed Tree nat "u32 option" | Filtered "TreeItem list" bytes

definition children :: "Tree \<Rightarrow> bytes \<Rightarrow> bool \<Rightarrow> Children run" where
  "children t seg insensitive =
     (if insensitive \<and> t_statics t \<noteq> [] then Returns (Filtered (t_items t) seg)
      else case find_static t (static_key seg) seg of
        Panics \<Rightarrow> Panics
      | Returns stat \<Rightarrow> Returns (Indexed t 0 stat))"

text \<open>\<^verbatim>\<open>items[pos as usize]\<close>: \<open>None\<close> out of range.\<close>

definition item_at :: "Tree \<Rightarrow> u32 \<Rightarrow> TreeItem option" where
  "item_at t pos = (if unat pos < length (t_items t) then Some (t_items t ! unat pos) else None)"

fun find_child :: "bytes \<Rightarrow> TreeItem list \<Rightarrow> ((TreeItem \<times> bool) \<times> TreeItem list) option" where
  "find_child seg [] = None"
| "find_child seg (it # items) = (case first_static it of
       Some pattern \<Rightarrow>
         (if eq_ignore_ascii_case pattern seg then Some ((it, True), items) else find_child seg items)
     | None \<Rightarrow> Some ((it, False), items))"

text \<open>\<^verbatim>\<open>Children::next\<close>. The item is \<open>None\<close> where indexing panics.\<close>

fun children_next :: "Children \<Rightarrow> ((TreeItem option \<times> bool) \<times> Children) option" where
  "children_next (Indexed t rst stat) =
     (case (if rst < length (t_rest t) then Some (t_rest t ! rst) else None, stat) of
        (Some r, Some s) \<Rightarrow>
          (if s > r then Some ((item_at t r, False), Indexed t (rst + 1) stat)
           else Some ((item_at t s, True), Indexed t rst None))
      | (None, Some s) \<Rightarrow> Some ((item_at t s, True), Indexed t rst None)
      | (Some r, None) \<Rightarrow> Some ((item_at t r, False), Indexed t (rst + 1) None)
      | (None, None) \<Rightarrow> None)"
| "children_next (Filtered items seg) = (case find_child seg items of
       Some ((it, m), items) \<Rightarrow> Some ((Some it, m), Filtered items seg)
     | None \<Rightarrow> None)"

fun children_left :: "Children \<Rightarrow> nat" where
  "children_left (Indexed t rst stat) =
     (length (t_rest t) - rst) + (case stat of None \<Rightarrow> 0 | Some _ \<Rightarrow> 1)"
| "children_left (Filtered items seg) = length items"

lemma find_child_shorter: "find_child seg items = Some (x, items') \<Longrightarrow> length items' < length items"
  by (induction seg items rule: find_child.induct) (auto split: option.splits if_splits)

lemma children_next_less: "children_next c = Some (x, c') \<Longrightarrow> children_left c' < children_left c"
  by (cases c) (auto split: option.splits if_splits dest!: find_child_shorter)

text \<open>All that the iterator yields.\<close>

function children_collect :: "Children \<Rightarrow> (TreeItem option \<times> bool) list" where
  "children_collect c = (case children_next c of None \<Rightarrow> [] | Some (x, c') \<Rightarrow> x # children_collect c')"
  by pat_completeness auto
termination
  by (relation "measure children_left") (auto dest!: children_next_less)

declare children_collect.simps [simp del]

section \<open>Insertion\<close>

fun common_prefix :: "Segment list \<Rightarrow> Segment list \<Rightarrow> nat" where
  "common_prefix (a # k1) (b # k2) = (if segment_eq a b then Suc (common_prefix k1 k2) else 0)"
| "common_prefix _ _ = 0"

text \<open>The node after its key is split at \<open>p\<close>.\<close>

definition split_key :: "nat \<Rightarrow> Tree \<Rightarrow> Tree" where
  "split_key p t = (if p < length (t_key t)
     then Tree (take p (t_key t)) [Subtree (Tree (drop p (t_key t)) (t_items t) [] [] [])]
            (t_statics t) (t_rest t) (t_exact t)
     else t)"

fun with_items :: "TreeItem list \<Rightarrow> Tree \<Rightarrow> Tree" where
  "with_items items (Tree k _ s r e) = Tree k items s r e"

fun value_item :: "TreeValue \<Rightarrow> TreeItem" where
  "value_item (PrefixSlash v) = Subtree (Tree_child [] (Prefix v))"
| "value_item value = Leaf value"

lemma common_prefix_pos: "common_prefix k1 k2 > 0 \<Longrightarrow> k1 \<noteq> [] \<and> k2 \<noteq> []"
  by (cases k1; cases k2) auto

function insert_path :: "Tree \<Rightarrow> Segment list \<Rightarrow> TreeValue \<Rightarrow> Tree"
  and insert_items :: "TreeItem list \<Rightarrow> Segment list \<Rightarrow> TreeValue \<Rightarrow> TreeItem list" where
  "insert_path t key value =
     (let p = common_prefix (t_key t) key;
          t' = split_key p t
      in if p = length key then with_items (t_items t' @ [value_item value]) t'
         else with_items (insert_items (t_items t') (drop p key) value) t')"
| "insert_items [] key value = [Subtree (Tree_child key value)]"
| "insert_items (Leaf v # items) key value = Leaf v # insert_items items key value"
| "insert_items (Subtree t # items) key value =
     (if common_prefix (t_key t) key > 0 then Subtree (insert_path t key value) # items
      else Subtree t # insert_items items key value)"
  by pat_completeness auto
termination
proof (relation "measures
    [\<lambda>x. case x of Inl (t, key, v) \<Rightarrow> length key - common_prefix (t_key t) key | Inr (items, key, v) \<Rightarrow> length key,
     \<lambda>x. case x of Inl _ \<Rightarrow> 1 | Inr _ \<Rightarrow> 0,
     \<lambda>x. case x of Inl _ \<Rightarrow> 0 | Inr (items, _) \<Rightarrow> length items]", goal_cases)
  case (4 t items key val)
  then show ?case
    using common_prefix_pos [of "t_key t" key] by auto
qed auto

declare insert_path.simps [simp del]

text \<open>The kind of value of a pattern.\<close>

definition resource_value :: "bool \<Rightarrow> bool \<Rightarrow> nat \<Rightarrow> TreeValue" where
  "resource_value slesh prfx value =
     (if slesh then (if prfx then PrefixSlash value else Slash value)
      else if prfx then Prefix value else Val value)"

fun insert_segments :: "bool \<Rightarrow> nat \<Rightarrow> Segments list \<Rightarrow> Tree \<Rightarrow> Tree" where
  "insert_segments prfx value [] t = t"
| "insert_segments prfx value (sg # sgs) t =
     insert_segments prfx value sgs
       (insert_path t (sg_tp sg) (resource_value (sg_slesh sg) prfx value))"

fun clear_exact :: "Tree \<Rightarrow> Tree" where
  "clear_exact (Tree k i s r e) = Tree k i s r []"

definition Tree_insert :: "Tree \<Rightarrow> ResourceDef \<Rightarrow> nat \<Rightarrow> Tree run" where
  "Tree_insert t rd value =
     build_index (insert_segments (rd_prefix rd) value (rd_tp rd) (clear_exact t))"

definition Tree_new :: "ResourceDef \<Rightarrow> nat \<Rightarrow> Tree run" where
  "Tree_new rd value = (case rd_tp rd of
       [] \<Rightarrow> Panics
     | sg # sgs \<Rightarrow> build_index (insert_segments (rd_prefix rd) value sgs
         (Tree_child (sg_tp sg) (resource_value (sg_slesh sg) (rd_prefix rd) value))))"

end
