(* ===== verification/Router_Find.thy ===== *)
theory Router_Find
  imports Router_Tree
begin

text \<open>
  Matching of a path in the pattern tree: \<^verbatim>\<open>find_inner2\<close>, \<^verbatim>\<open>find_inner_wrapped\<close>, \<^verbatim>\<open>find_root\<close> and
  \<^verbatim>\<open>find_checked_inner\<close> of \<^verbatim>\<open>ntex-router/src/tree.rs\<close>.

  The state that is threaded through a match is the list of the captured segments; \<open>Ctx\<close> holds
  what does not change below the root, with the two parameters of the router: the matcher of
  regular expressions and the \<^verbatim>\<open>unquote\<close> of the path source.
\<close>

section \<open>Context and loops\<close>

type_synonym Captured = "(bytes \<times> PathItem) list"

record Ctx =
  cx_check :: "nat \<Rightarrow> bool"
  cx_insensitive :: bool
  cx_unquote :: bool
  cx_base_skip :: int
  cx_captures :: "bytes \<Rightarrow> bytes \<Rightarrow> (bytes \<Rightarrow> (nat \<times> nat) option) option"
  cx_decode :: "bytes \<Rightarrow> Cow"

text \<open>A \<^verbatim>\<open>for\<close> loop whose body may return from the function: \<open>Some r\<close> returns \<open>r\<close>.\<close>

fun for_each :: "('x \<Rightarrow> 's \<Rightarrow> ('r option \<times> 's) run) \<Rightarrow> 'x list \<Rightarrow> 's \<Rightarrow> ('r option \<times> 's) run" where
  "for_each f [] s = Returns (None, s)"
| "for_each f (x # xs) s = (case f x s of
       Panics \<Rightarrow> Panics
     | Returns (Some r, s') \<Rightarrow> Returns (Some r, s')
     | Returns (None, s') \<Rightarrow> for_each f xs s')"

lemma for_each_cong [fundef_cong]:
  assumes "xs = ys" "s = t" "\<And>x s. x \<in> set ys \<Longrightarrow> f x s = g x s"
  shows "for_each f xs s = for_each g ys t"
proof -
  have "for_each f ys s = for_each g ys s" if "\<And>x s. x \<in> set ys \<Longrightarrow> f x s = g x s"
    using that by (induction ys arbitrary: s) (auto split: run.splits option.splits prod.splits)
  with assms show ?thesis by simp
qed

lemma for_each_append:
  "for_each f (xs @ ys) s = (case for_each f xs s of
       Returns (None, s') \<Rightarrow> for_each f ys s'
     | r \<Rightarrow> r)"
  by (induction xs arbitrary: s) (auto split: run.splits option.splits prod.splits)

section \<open>Segments\<close>

definition first_segment :: "Ctx \<Rightarrow> bytes \<Rightarrow> nat \<times> Cow" where
  "first_segment cx path =
     (let idx = find_slash path; seg = take idx path
      in (idx, if cx_unquote cx then cx_decode cx seg else Borrowed seg))"

text \<open>A range of the path as it is stored, \<^verbatim>\<open>PathItem::IdxSegment\<close> with its casts.\<close>

definition idx_item :: "Ctx \<Rightarrow> nat \<Rightarrow> nat \<Rightarrow> PathItem" where
  "idx_item cx a b = IdxSegment (of_int (cx_base_skip cx + int a)) (of_int (cx_base_skip cx + int b))"

text \<open>The loop over the names of the captures: whether all of them are found.\<close>

fun push_names :: "Ctx \<Rightarrow> bytes \<Rightarrow> bool \<Rightarrow> nat \<Rightarrow> (bytes \<Rightarrow> (nat \<times> nat) option) \<Rightarrow> bytes list \<Rightarrow> Captured
    \<Rightarrow> bool \<times> Captured" where
  "push_names cx seg quoted skip caps [] segs = (True, segs)"
| "push_names cx seg quoted skip caps (name # names) segs = (case caps name of
       None \<Rightarrow> (False, segs)
     | Some (a, b) \<Rightarrow>
         push_names cx seg quoted skip caps names
           (segs @ [(name, if quoted then Item_Segment (take (b - a) (drop a seg))
                           else idx_item cx (skip + a) (skip + b))]))"

text \<open>
  The match of the first segment of a key: whether it matches, and the segments captured. \<open>seg\<close> is
  the whole rest of the path for a tail.
\<close>

definition match_dynamic :: "Ctx \<Rightarrow> bytes \<Rightarrow> bytes list \<Rightarrow> bool \<Rightarrow> bytes \<Rightarrow> bool \<Rightarrow> nat \<Rightarrow> Captured
    \<Rightarrow> (bool \<times> Captured) run" where
  "match_dynamic cx pattern names whole seg quoted skip segs =
     (if whole then
        (if seg = [] \<or> 10 \<in> set seg then Returns (False, segs)
         else case names of
           [] \<Rightarrow> Panics
         | name # _ \<Rightarrow>
             Returns (True, segs @ [(name, if quoted then Item_Segment seg
                                           else idx_item cx skip (skip + length seg))]))
      else case cx_captures cx pattern seg of
        None \<Rightarrow> Returns (False, segs)
      | Some caps \<Rightarrow> Returns (push_names cx seg quoted skip caps names segs))"

fun match_segment :: "Ctx \<Rightarrow> Segment \<Rightarrow> bytes \<Rightarrow> bytes \<Rightarrow> bool \<Rightarrow> bool \<Rightarrow> nat \<Rightarrow> Captured
    \<Rightarrow> (bool \<times> Captured) run" where
  "match_segment cx (Static pattern) path segment quoted matched skip segs =
     Returns (matched \<or> (if cx_insensitive cx then eq_ignore_ascii_case pattern segment
                         else pattern = segment), segs)"
| "match_segment cx (Dynamic pattern names tail whole) path segment quoted matched skip segs =
     match_dynamic cx pattern names whole (if tail then path else segment) quoted skip segs"

fun tail_checked :: "Segment \<Rightarrow> bool" where
  "tail_checked (Static pattern) \<longleftrightarrow> False"
| "tail_checked (Dynamic pattern names tail whole) \<longleftrightarrow> tail \<and> \<not> whole"

section \<open>Values of a node\<close>

fun check_value :: "Ctx \<Rightarrow> nat option \<Rightarrow> nat \<Rightarrow> Captured \<Rightarrow> ((nat \<times> nat) option \<times> Captured) run" where
  "check_value cx None skip segs = Returns (None, segs)"
| "check_value cx (Some v) skip segs = Returns (if cx_check cx v then Some (v, skip) else None, segs)"

text \<open>The items of a tail, of a node without key and of a node whose path is consumed.\<close>

definition tail_items :: "Ctx \<Rightarrow> nat \<Rightarrow> TreeItem list \<Rightarrow> Captured \<Rightarrow> ((nat \<times> nat) option \<times> Captured) run" where
  "tail_items cx skip = for_each (\<lambda>it segs. case it of
       Subtree _ \<Rightarrow> Panics
     | Leaf v \<Rightarrow> check_value cx (Some (tree_value v)) skip segs)"

definition prefix_items :: "Ctx \<Rightarrow> nat \<Rightarrow> TreeItem list \<Rightarrow> Captured \<Rightarrow> ((nat \<times> nat) option \<times> Captured) run" where
  "prefix_items cx skip = for_each (\<lambda>it segs. case it of
       Leaf (Prefix v) \<Rightarrow> check_value cx (Some v) skip segs
     | _ \<Rightarrow> Panics)"

definition consumed_items :: "Ctx \<Rightarrow> nat \<Rightarrow> TreeItem list \<Rightarrow> Captured \<Rightarrow> ((nat \<times> nat) option \<times> Captured) run" where
  "consumed_items cx skip = for_each (\<lambda>it segs. case it of
       Leaf (Val v) \<Rightarrow> check_value cx (Some v) skip segs
     | Leaf (Prefix v) \<Rightarrow> check_value cx (Some v) skip segs
     | _ \<Rightarrow> Returns (None, segs))"

fun slash_value :: "bool \<Rightarrow> TreeValue \<Rightarrow> nat option" where
  "slash_value slash (Val v) = None"
| "slash_value slash (Slash v) = (if slash then Some v else None)"
| "slash_value slash (Prefix v) = Some v"
| "slash_value slash (PrefixSlash v) = Some v"

section \<open>Termination\<close>

lemma find_child_mem: "find_child seg items = Some ((it, m), items') \<Longrightarrow> it \<in> set items \<and> set items' \<subseteq> set items"
  by (induction seg items rule: find_child.induct) (auto split: option.splits if_splits)

fun children_of :: "Children \<Rightarrow> TreeItem set" where
  "children_of (Indexed t rst stat) = set (t_items t)"
| "children_of (Filtered items seg) = set items"

lemma children_next_mem:
  assumes "children_next c = Some ((Some it, m), c')"
  shows "it \<in> children_of c" and "children_of c' \<subseteq> children_of c"
  using assms by (cases c; auto simp: item_at_def split: option.splits if_splits dest: find_child_mem)+

lemma children_next_of: "children_next c = Some (x, c') \<Longrightarrow> children_of c' \<subseteq> children_of c"
  by (cases c) (auto split: option.splits if_splits dest!: find_child_mem)

lemma children_collect_mem: "(Some it, m) \<in> set (children_collect c) \<Longrightarrow> it \<in> children_of c"
proof (induction c rule: children_collect.induct)
  case (1 c)
  show ?case
  proof (cases "children_next c")
    case None
    with 1(2) show ?thesis by (simp add: children_collect.simps [of c])
  next
    case (Some p)
    obtain x c' where p: "p = (x, c')" by (cases p)
    note nx = Some [unfolded p]
    have "(Some it, m) = x \<or> (Some it, m) \<in> set (children_collect c')"
      using 1(2) by (simp add: children_collect.simps [of c] nx)
    then show ?thesis
      using 1(1) [OF nx refl] nx children_next_mem(1) [of c it m c'] children_next_of [OF nx] by auto
  qed
qed

lemma children_mem:
  assumes "children t seg ins = Returns c" "(Some it, m) \<in> set (children_collect c)"
  shows "it \<in> set (t_items t)"
  using assms children_collect_mem [OF assms(2)]
  by (auto simp: children_def split: if_splits run.splits)

lemma size_subtree: "Subtree t' \<in> set (t_items t) \<Longrightarrow> size t' < size t"
  by (cases t) (auto dest: size_list_estimation' [where f = size, OF _ order_refl])

section \<open>Search\<close>

type_synonym First = "(nat \<times> bytes \<times> bool \<times> bool) option"
type_synonym Found = "((nat \<times> nat) option \<times> Captured) run"

text \<open>The first segment of the path, unless the parent has already split it.\<close>

definition next_segment :: "Ctx \<Rightarrow> bytes \<Rightarrow> First \<Rightarrow> nat \<times> bytes \<times> bool \<times> bool" where
  "next_segment cx path fst_seg = (case fst_seg of
       Some f \<Rightarrow> f
     | None \<Rightarrow> (case first_segment cx path of (idx, seg) \<Rightarrow> (idx, cow_ref seg, is_owned seg, False)))"

definition truncate_segs :: "nat \<Rightarrow> Found \<Rightarrow> Found" where
  "truncate_segs len r = (case r of
       Returns (None, segs) \<Rightarrow> Returns (None, take len segs)
     | r \<Rightarrow> r)"

function find_loop :: "Ctx \<Rightarrow> Tree \<Rightarrow> Segment list \<Rightarrow> bytes \<Rightarrow> nat \<Rightarrow> First \<Rightarrow> Captured \<Rightarrow> Found"
  and find_inner2 :: "Ctx \<Rightarrow> Tree \<Rightarrow> bytes \<Rightarrow> nat \<Rightarrow> First \<Rightarrow> Captured \<Rightarrow> Found"
  and find_inner_wrapped :: "Ctx \<Rightarrow> Tree \<Rightarrow> bytes \<Rightarrow> nat \<Rightarrow> First \<Rightarrow> Captured \<Rightarrow> Found" where
  "find_loop cx t [] path skip fst_seg segs = Panics"
| "find_loop cx t (k # key) path skip fst_seg segs =
     (case next_segment cx path fst_seg of (idx, segment, quoted, matched) \<Rightarrow>
      (case match_segment cx k path segment quoted matched skip segs of
         Panics \<Rightarrow> Panics
       | Returns (False, segs) \<Rightarrow> Returns (None, segs)
       | Returns (True, segs) \<Rightarrow>
           if tail_checked k then
             (case tail_items cx (skip + idx) (t_items t) segs of
                Returns (None, segs) \<Rightarrow> (if key \<noteq> [] then Panics else Returns (None, segs))
              | r \<Rightarrow> r)
           else let skip = skip + idx + 1 in
             if idx = length path then
               (if key = [] then consumed_items cx skip (t_items t) segs else Returns (None, segs))
             else if key = [] then
               (let path = drop idx path;
                    subtree_path = (if length path = 1 then path else drop 1 path);
                    slash = (path = [SLASH])
                in case first_segment cx subtree_path of (sidx, seg) \<Rightarrow>
                   (case children t (cow_ref seg) (cx_insensitive cx) of
                      Panics \<Rightarrow> Panics
                    | Returns c \<Rightarrow>
                        for_each (\<lambda>(it, matched) segs. case it of
                            None \<Rightarrow> Panics
                          | Some (Leaf v) \<Rightarrow> check_value cx (slash_value slash v) (skip - 1) segs
                          | Some (Subtree t') \<Rightarrow>
                              find_inner_wrapped cx t' subtree_path skip
                                (Some (sidx, cow_ref seg, is_owned seg, matched)) segs)
                          (children_collect c) segs))
             else find_loop cx t key (drop (idx + 1) path) skip None segs))"
| "find_inner2 cx t path skip fst_seg segs =
     (if t_key t = [] then prefix_items cx skip (t_items t) segs
      else find_loop cx t (t_key t) path skip fst_seg segs)"
| "find_inner_wrapped cx t path skip fst_seg segs =
     truncate_segs (length segs) (find_inner2 cx t path skip fst_seg segs)"
  by pat_completeness auto
termination
proof (relation "measures
    [\<lambda>x. case x of Inl (cx, t, _) \<Rightarrow> size t | Inr (Inl (cx, t, _)) \<Rightarrow> size t | Inr (Inr (cx, t, _)) \<Rightarrow> size t,
     \<lambda>x. case x of Inl _ \<Rightarrow> 0 | Inr (Inl _) \<Rightarrow> 1 | Inr (Inr _) \<Rightarrow> 2,
     \<lambda>x. case x of Inl (cx, t, key, _) \<Rightarrow> length key | Inr _ \<Rightarrow> 0]", goal_cases)
  case (2 cx t k key path skip fst_seg segs)
  then show ?case
    by (auto dest!: children_mem size_subtree)
qed auto

declare find_loop.simps [simp del] find_inner2.simps [simp del] find_inner_wrapped.simps [simp del]

section \<open>The root\<close>

text \<open>
  At the root a match gives the value and how much of the path to skip, if a sub tree matched it.
\<close>

type_synonym RootFound = "((nat \<times> nat option) option \<times> Captured) run"

definition skip_some :: "Found \<Rightarrow> RootFound" where
  "skip_some r = (case r of
       Panics \<Rightarrow> Panics
     | Returns (None, segs) \<Rightarrow> Returns (None, segs)
     | Returns (Some (v, skip), segs) \<Rightarrow> Returns (Some (v, Some skip), segs))"

fun check_root :: "Ctx \<Rightarrow> nat option \<Rightarrow> Captured \<Rightarrow> RootFound" where
  "check_root cx None segs = Returns (None, segs)"
| "check_root cx (Some v) segs = Returns (if cx_check cx v then Some (v, None) else None, segs)"

fun slash_root_value :: "TreeValue \<Rightarrow> nat option" where
  "slash_root_value (Val v) = None"
| "slash_root_value (Slash v) = Some v"
| "slash_root_value (Prefix v) = Some v"
| "slash_root_value (PrefixSlash v) = Some v"

fun empty_root_value :: "TreeItem \<Rightarrow> nat option" where
  "empty_root_value (Leaf (Val v)) = Some v"
| "empty_root_value (Leaf (Prefix v)) = Some v"
| "empty_root_value _ = None"

fun prefix_root_value :: "TreeValue \<Rightarrow> nat option" where
  "prefix_root_value (PrefixSlash v) = Some v"
| "prefix_root_value _ = None"

text \<open>The loop over the children of a root without key: \<open>val\<close> is what a value of the root gives.\<close>

definition root_children :: "Ctx \<Rightarrow> Tree \<Rightarrow> (TreeValue \<Rightarrow> nat option) \<Rightarrow> bytes \<Rightarrow> nat \<Rightarrow> bytes \<Rightarrow> bool
    \<Rightarrow> Captured \<Rightarrow> RootFound" where
  "root_children cx t val path idx seg quoted segs =
     (case children t seg (cx_insensitive cx) of
        Panics \<Rightarrow> Panics
      | Returns c \<Rightarrow>
          for_each (\<lambda>(it, matched) segs. case it of
              None \<Rightarrow> Panics
            | Some (Leaf v) \<Rightarrow> check_root cx (val v) segs
            | Some (Subtree t') \<Rightarrow>
                skip_some (find_inner_wrapped cx t' path 1 (Some (idx, seg, quoted, matched)) segs))
            (children_collect c) segs)"

definition find_root :: "Ctx \<Rightarrow> Tree \<Rightarrow> bytes \<Rightarrow> Captured \<Rightarrow> RootFound" where
  "find_root cx t path segs =
     (if t_key t = [] then
        (if path = [SLASH] then
           root_children (cx\<lparr>cx_base_skip := cx_base_skip cx - 1\<rparr>) t slash_root_value [] 0 [] False segs
         else if path = [] then
           for_each (\<lambda>it. check_root cx (empty_root_value it)) (t_items t) segs
         else
           (case (case strip_first SLASH path of
                    Some spath \<Rightarrow> (spath, cx)
                  | None \<Rightarrow> (path, cx\<lparr>cx_base_skip := cx_base_skip cx - 1\<rparr>)) of
              (subtree_path, cx) \<Rightarrow>
                (case first_segment cx subtree_path of (idx, seg) \<Rightarrow>
                   root_children cx t prefix_root_value subtree_path idx (cow_ref seg) (is_owned seg) segs)))
      else if path \<noteq> [] then
        (case (case strip_first SLASH path of
                 Some spath \<Rightarrow> (spath, cx)
               | None \<Rightarrow> (path, cx\<lparr>cx_base_skip := cx_base_skip cx - 1\<rparr>)) of
           (subtree_path, cx) \<Rightarrow> skip_some (find_inner_wrapped cx t subtree_path 1 None segs))
      else Returns (None, segs))"

section \<open>The table of static paths\<close>

definition exact_hit :: "StaticKey \<Rightarrow> bytes \<Rightarrow> TreeExact \<Rightarrow> bool" where
  "exact_hit key path e \<longleftrightarrow> ex_key e = key \<and> (fst key \<le> 16 \<or> ex_path e = path)"

definition find_exact :: "Tree \<Rightarrow> bytes \<Rightarrow> TreeExact option run" where
  "find_exact t path =
     (if t_exact t = [] then Returns None
      else case probe (\<lambda>e. exact_free e \<or> exact_hit (static_key path) path e) (t_exact t)
          (static_slot (static_key path) (length (t_exact t) - 1)) of
        None \<Rightarrow> Panics
      | Some slot \<Rightarrow>
          Returns (if exact_free (t_exact t ! slot) then None else Some (t_exact t ! slot)))"

text \<open>
  \<^verbatim>\<open>find_checked_inner\<close>. \<open>check\<close> is called with the resource while its segments are taken out; they
  are put back after a match only.
\<close>

definition find_checked_inner :: "Regex \<Rightarrow> ResourcePath \<Rightarrow> Tree \<Rightarrow> Path \<Rightarrow> bool \<Rightarrow> (nat \<Rightarrow> Path \<Rightarrow> bool)
    \<Rightarrow> (nat option \<times> Path) run" where
  "find_checked_inner R T t p insensitive check =
     (let segments = p_segments p;
          resource = p\<lparr>p_segments := []\<rparr>;
          path = Path_path resource;
          unquote = rp_needs_unquote T path
      in case find_exact t path of
           Panics \<Rightarrow> Panics
         | Returns e \<Rightarrow>
             (let hit = (case e of
                     None \<Rightarrow> None
                   | Some e \<Rightarrow>
                       (if (\<not> unquote \<or> \<not> is_owned (rp_unquote T path)) \<and>
                           check (unat (ex_value e)) resource
                        then Some (unat (ex_value e), Some (unat (ex_skip e))) else None));
                  res = (case hit of
                     Some r \<Rightarrow> Returns (Some r, segments)
                   | None \<Rightarrow>
                       find_root \<lparr>cx_check = (\<lambda>v. check v resource), cx_insensitive = insensitive,
                         cx_unquote = unquote, cx_base_skip = int (unat (p_skip p)),
                         cx_captures = re_captures R, cx_decode = rp_unquote T\<rparr> t path segments)
              in case res of
                   Panics \<Rightarrow> Panics
                 | Returns (None, _) \<Rightarrow> Returns (None, resource)
                 | Returns (Some (v, skip), segments) \<Rightarrow>
                     Returns (Some v,
                       (case skip of None \<Rightarrow> id | Some n \<Rightarrow> Path_skip (of_nat n)) (resource\<lparr>p_segments := segments\<rparr>))))"

definition Tree_find :: "Regex \<Rightarrow> ResourcePath \<Rightarrow> Tree \<Rightarrow> Path \<Rightarrow> (nat option \<times> Path) run" where
  "Tree_find R T t p = find_checked_inner R T t p False (\<lambda>_ _. True)"

definition Tree_find_insensitive :: "Regex \<Rightarrow> ResourcePath \<Rightarrow> Tree \<Rightarrow> Path \<Rightarrow> (nat option \<times> Path) run" where
  "Tree_find_insensitive R T t p = find_checked_inner R T t p True (\<lambda>_ _. True)"

definition Tree_find_checked ::
    "Regex \<Rightarrow> ResourcePath \<Rightarrow> Tree \<Rightarrow> Path \<Rightarrow> (nat \<Rightarrow> Path \<Rightarrow> bool) \<Rightarrow> (nat option \<times> Path) run" where
  "Tree_find_checked R T t p check = find_checked_inner R T t p False check"

definition Tree_find_checked_insensitive ::
    "Regex \<Rightarrow> ResourcePath \<Rightarrow> Tree \<Rightarrow> Path \<Rightarrow> (nat \<Rightarrow> Path \<Rightarrow> bool) \<Rightarrow> (nat option \<times> Path) run" where
  "Tree_find_checked_insensitive R T t p check = find_checked_inner R T t p True check"

end
