(* ===== verification/Router_Index.thy ===== *)
theory Router_Index
  imports Router_Tree
begin

text \<open>
  Correctness of the index of the pattern tree: keys of short segments determine the segment,
  linear probing finds an entry exactly if it was placed, and the children that the iterator
  yields are those whose static segment is the one asked for, in the order of the items.
\<close>

section \<open>Keys of short segments\<close>

lemma word_from_le_bytes_inj:
  assumes "(word_from_le_bytes xs :: 'a::len word) = word_from_le_bytes ys"
    and "length xs = length ys" "8 * length xs \<le> LENGTH('a)"
  shows "xs = ys"
proof -
  have "256 ^ length xs \<le> (2 :: nat) ^ LENGTH('a)"
    using power_increasing [OF assms(3), of "2 :: nat"] by (simp add: power_mult)
  then have "le_nat xs < 2 ^ LENGTH('a)" "le_nat ys < 2 ^ LENGTH('a)"
    using le_nat_less [of xs] le_nat_less [of ys] assms(2) by simp_all
  then have "le_nat xs = le_nat ys"
    using assms(1) by (simp add: word_from_le_bytes_nat word_of_nat_eq_iff take_bit_nat_eq_self)
  then show ?thesis
    using assms(2) by (metis le_bytes_le_nat)
qed

lemma pack3_inj:
  fixes a b c a' b' c' :: u8
  assumes "(ucast a OR push_bit 8 (ucast b) OR push_bit 16 (ucast c) :: u64) =
    ucast a' OR push_bit 8 (ucast b') OR push_bit 16 (ucast c')"
  shows "a = a'" "b = b'" "c = c'"
proof -
  have bits: "bit (ucast a OR push_bit 8 (ucast b) OR push_bit 16 (ucast c) :: u64) n \<longleftrightarrow>
    bit (ucast a' OR push_bit 8 (ucast b') OR push_bit 16 (ucast c') :: u64) n" for n
    by (simp only: assms)
  have "bit a n \<longleftrightarrow> bit a' n" if "n < 8" for n
    using bits [of n] that by (auto simp: bit_simps)
  moreover have "bit b n \<longleftrightarrow> bit b' n" if "n < 8" for n
    using bits [of "n + 8"] that by (auto simp: bit_simps dest: bit_imp_le_length)
  moreover have "bit c n \<longleftrightarrow> bit c' n" if "n < 8" for n
    using bits [of "n + 16"] that by (auto simp: bit_simps dest: bit_imp_le_length)
  ultimately show "a = a'" "b = b'" "c = c'"
    by (auto intro: bit_word_eqI)
qed

lemma take_drop_cover:
  assumes "take k xs = take k ys" "drop (length xs - k) xs = drop (length ys - k) ys"
    "length xs = length ys" "length xs \<le> 2 * k"
  shows "xs = ys"
proof (rule nth_equalityI)
  fix i assume i: "i < length xs"
  show "xs ! i = ys ! i"
  proof (cases "i < k")
    case True
    then show ?thesis using assms(1) by (metis nth_take)
  next
    case False
    with i assms(4) have "i \<ge> length xs - k" by linarith
    moreover have "zs ! i = drop (length xs - k) zs ! (i - (length xs - k))"
      if "length zs = length xs" for zs :: "'a list"
      using that i calculation by simp
    ultimately show ?thesis using assms(2,3) by metis
  qed
qed (fact assms(3))

lemma short_list_eq:
  assumes "length xs = length ys" "0 < length xs" "length xs < 4"
    "xs ! 0 = ys ! 0" "xs ! (length xs div 2) = ys ! (length xs div 2)"
    "xs ! (length xs - 1) = ys ! (length xs - 1)"
  shows "xs = ys"
proof (rule nth_equalityI)
  fix i assume "i < length xs"
  with assms(3) have "i = 0 \<or> i = length xs div 2 \<or> i = length xs - 1"
    by linarith
  with assms(4-6) show "xs ! i = ys ! i" by blast
qed (fact assms(1))

lemma fst_static_key [simp]: "fst (static_key s) = length s"
  by (simp add: static_key_def Let_def)

lemma static_key_inj_lemma:
  assumes "static_key s = static_key s'" "length s \<le> 16"
  shows "s = s'"
proof -
  have len: "length s = length s'"
    using arg_cong [OF assms(1), of fst] by simp
  have h1: "fst (snd (static_key s)) = fst (snd (static_key s'))"
    and h2: "snd (snd (static_key s)) = snd (snd (static_key s'))"
    by (simp_all only: assms(1))
  consider "length s \<ge> 8" | "length s \<ge> 4" "length s < 8" | "0 < length s" "length s < 4" | "length s = 0"
    by linarith
  then show ?thesis
  proof cases
    case 1
    then have e: "u64_from_le_bytes (take 8 s) = u64_from_le_bytes (take 8 s')"
      "u64_from_le_bytes (drop (length s - 8) s) = u64_from_le_bytes (drop (length s' - 8) s')"
      using h1 h2 len by (simp_all add: static_key_def Let_def)
    have t: "take 8 s = take 8 s'"
      by (rule word_from_le_bytes_inj [OF e(1) [unfolded u64_from_le_bytes_def]]) (simp_all add: len)
    have d: "drop (length s - 8) s = drop (length s' - 8) s'"
      by (rule word_from_le_bytes_inj [OF e(2) [unfolded u64_from_le_bytes_def]]) (simp_all add: len)
    from assms(2) len show ?thesis by (intro take_drop_cover [OF t d]) auto
  next
    case 2
    have ucast_eq: "x = y" if "(ucast x :: u64) = ucast y" for x y :: u32
    proof (rule bit_word_eqI)
      fix n assume "n < LENGTH(32)"
      then show "bit x n \<longleftrightarrow> bit y n"
        using arg_cong [OF that, of "\<lambda>w. bit w n"] by (simp add: bit_simps)
    qed
    have e: "u32_from_le_bytes (take 4 s) = u32_from_le_bytes (take 4 s')"
      "u32_from_le_bytes (drop (length s - 4) s) = u32_from_le_bytes (drop (length s' - 4) s')"
      using h1 h2 len 2 by (simp_all add: static_key_def Let_def ucast_eq)
    have t: "take 4 s = take 4 s'"
      by (rule word_from_le_bytes_inj [OF e(1) [unfolded u32_from_le_bytes_def]]) (simp_all add: len)
    have d: "drop (length s - 4) s = drop (length s' - 4) s'"
      by (rule word_from_le_bytes_inj [OF e(2) [unfolded u32_from_le_bytes_def]]) (simp_all add: len)
    from 2 len show ?thesis by (intro take_drop_cover [OF t d]) auto
  next
    case 3
    then have "s ! 0 = s' ! 0 \<and> s ! (length s div 2) = s' ! (length s div 2) \<and>
        s ! (length s - 1) = s' ! (length s - 1)"
      using h1 len pack3_inj [of "s ! 0" "s ! (length s div 2)" "s ! (length s - 1)"
          "s' ! 0" "s' ! (length s div 2)" "s' ! (length s - 1)"]
      by (simp add: static_key_def Let_def)
    with 3 len show ?thesis by (intro short_list_eq) auto
  qed (use len in simp)
qed

section \<open>Linear probing\<close>

lemma and_power_minus_1: "(n :: nat) AND (2 ^ k - 1) = n mod 2 ^ k"
  by (metis mask_eq_exp_minus_1 take_bit_eq_mask take_bit_eq_mod)

lemma probe_walk:
  assumes "length tab = 2 ^ k" "stop (tab ! ((s + d) mod length tab))"
    "\<forall>j<d. \<not> stop (tab ! ((s + j) mod length tab))" "s < length tab"
  shows "probe stop tab s = Some ((s + d) mod length tab)"
  using assms(2-4)
proof (induction d arbitrary: s)
  case 0
  then show ?case by (simp add: probe.simps)
next
  case (Suc d)
  let ?s = "(s + 1) mod length tab"
  have shift: "(?s + j) mod length tab = (s + Suc j) mod length tab" for j
    by (simp add: mod_add_left_eq)
  have "\<not> stop (tab ! s)"
    using Suc.prems(2,3) by (metis add_0_right mod_less zero_less_Suc)
  then have "probe stop tab s = probe stop tab ?s"
    using assms(1) and_power_minus_1 [of "s + 1" k] by (subst probe.simps) simp
  also have "\<dots> = Some ((?s + d) mod length tab)"
  proof (rule Suc.IH)
    show "stop (tab ! ((?s + d) mod length tab))"
      using Suc.prems(1) unfolding shift .
    show "\<forall>j<d. \<not> stop (tab ! ((?s + j) mod length tab))"
      using Suc.prems(2) unfolding shift by auto
    show "?s < length tab"
      using Suc.prems(3) by (intro mod_less_divisor) linarith
  qed
  finally show ?case unfolding shift .
qed

text \<open>The slots in use, and that each entry is reached from its home without a free slot between.\<close>

definition used :: "('s \<Rightarrow> bool) \<Rightarrow> 's list \<Rightarrow> nat set" where
  "used free tab = {i. i < length tab \<and> \<not> free (tab ! i)}"

definition chained :: "('s \<Rightarrow> bool) \<Rightarrow> (nat \<Rightarrow> 's \<Rightarrow> nat) \<Rightarrow> 's list \<Rightarrow> bool" where
  "chained free home tab \<longleftrightarrow> (\<forall>i\<in>used free tab.
     \<exists>d. i = (home (length tab) (tab ! i) + d) mod length tab \<and>
       (\<forall>j<d. (home (length tab) (tab ! i) + j) mod length tab \<in> used free tab))"

fun fill :: "('s \<Rightarrow> bool) \<Rightarrow> (nat \<Rightarrow> 's \<Rightarrow> nat) \<Rightarrow> 's list \<Rightarrow> 's list \<Rightarrow> 's list option" where
  "fill free home [] tab = Some tab"
| "fill free home (e # es) tab = (case probe free tab (home (length tab) e) of
       None \<Rightarrow> None
     | Some slot \<Rightarrow> fill free home es (tab[slot := e]))"

lemma finite_used [simp]: "finite (used free tab)"
  by (simp add: used_def)

lemma used_entries: "{e \<in> set tab. \<not> free e} = (!) tab ` used free tab"
  by (auto simp: used_def in_set_conv_nth)

lemma used_update:
  assumes "slot < length tab" "\<not> free e"
  shows "used free (tab[slot := e]) = insert slot (used free tab)"
  using assms by (auto simp: used_def nth_list_update)

lemma used_replicate: "free e \<Longrightarrow> used free (replicate n e) = {}"
  by (auto simp: used_def)

lemma free_slot_reached:
  assumes "card (used free tab) < length tab" "s < length tab"
  shows "\<exists>d. free (tab ! ((s + d) mod length tab))"
proof -
  have "\<not> {..<length tab} \<subseteq> used free tab"
    using assms(1) card_mono [OF finite_used, of "{..<length tab}" free tab] by auto
  then obtain i where i: "i < length tab" "free (tab ! i)"
    by (auto simp: used_def)
  have "(s + (i + length tab - s)) mod length tab = i"
    using i(1) assms(2) by simp
  with i(2) have "free (tab ! ((s + (i + length tab - s)) mod length tab))" by simp
  then show ?thesis by blast
qed

locale probing =
  fixes free :: "'s \<Rightarrow> bool" and home :: "nat \<Rightarrow> 's \<Rightarrow> nat"
  assumes home_less: "home (2 ^ k) e < 2 ^ k"
begin

lemma home_bound: "length tab = 2 ^ k \<Longrightarrow> home (length tab) e < length tab"
  using home_less by simp

lemma place:
  assumes "length tab = 2 ^ k" "chained free home tab" "card (used free tab) < length tab" "\<not> free e"
  obtains slot where "probe free tab (home (length tab) e) = Some slot" "slot < length tab"
    "slot \<notin> used free tab" "chained free home (tab[slot := e])"
proof -
  let ?h = "home (length tab) e" and ?m = "length tab"
  define d where "d = (LEAST d. free (tab ! ((?h + d) mod ?m)))"
  have ex: "\<exists>d. free (tab ! ((?h + d) mod ?m))"
    using free_slot_reached [OF assms(3) home_bound [OF assms(1)]] .
  have d: "free (tab ! ((?h + d) mod ?m))" and dj: "\<forall>j<d. \<not> free (tab ! ((?h + j) mod ?m))"
    unfolding d_def using LeastI_ex [OF ex] not_less_Least [of _ "\<lambda>d. free (tab ! ((?h + d) mod ?m))"]
    by blast+
  have pos: "0 < ?m" using assms(3) by linarith
  let ?slot = "(?h + d) mod ?m"
  have slot: "?slot < ?m" using pos by simp
  have us: "used free (tab[?slot := e]) = insert ?slot (used free tab)"
    using used_update [where free = free, OF slot assms(4)] .
  have "chained free home (tab[?slot := e])"
    unfolding chained_def us length_list_update
  proof
    fix i assume i: "i \<in> insert ?slot (used free tab)"
    show "\<exists>d. i = (home ?m (tab[?slot := e] ! i) + d) mod ?m \<and>
        (\<forall>j<d. (home ?m (tab[?slot := e] ! i) + j) mod ?m \<in> insert ?slot (used free tab))"
    proof (cases "i = ?slot")
      case True
      then have "tab[?slot := e] ! i = e"
        using slot by simp
      with True dj pos show ?thesis
        by (intro exI [of _ d]) (auto simp: used_def)
    next
      case False
      then have e: "tab[?slot := e] ! i = tab ! i"
        by simp
      from False i have "i \<in> used free tab" by simp
      then obtain d' where "i = (home ?m (tab ! i) + d') mod ?m"
        "\<forall>j<d'. (home ?m (tab ! i) + j) mod ?m \<in> used free tab"
        using assms(2) unfolding chained_def by blast
      then show ?thesis
        unfolding e by blast
    qed
  qed
  moreover have "?slot \<notin> used free tab"
    using d by (simp add: used_def)
  ultimately show ?thesis
    using that probe_walk [where stop = free, OF assms(1) d dj home_bound [OF assms(1)]] slot by blast
qed

lemma fill_ok:
  assumes "length tab = 2 ^ k" "chained free home tab" "card (used free tab) + length es < length tab"
    "\<forall>e\<in>set es. \<not> free e"
  shows "\<exists>tab'. fill free home es tab = Some tab' \<and> length tab' = length tab \<and> chained free home tab' \<and>
    card (used free tab') = card (used free tab) + length es \<and>
    {e \<in> set tab'. \<not> free e} = {e \<in> set tab. \<not> free e} \<union> set es"
  using assms
proof (induction es arbitrary: tab)
  case (Cons e es)
  then obtain slot where slot: "probe free tab (home (length tab) e) = Some slot" "slot < length tab"
    "slot \<notin> used free tab" "chained free home (tab[slot := e])"
    by (auto intro: place [of tab k e])
  have ne: "\<not> free e" using Cons.prems(4) by simp
  note us = used_update [where free = free, OF slot(2) ne]
  have card: "card (used free (tab[slot := e])) = Suc (card (used free tab))"
    unfolding us using slot(3) by simp
  have ents: "{x \<in> set (tab[slot := e]). \<not> free x} = insert e {x \<in> set tab. \<not> free x}"
    unfolding used_entries us using slot(2,3) by (auto simp: nth_list_update)
  show ?case
    using Cons.IH [of "tab[slot := e]"] Cons.prems slot(1,4) card ents by auto
qed simp

lemma lookup:
  assumes "length tab = 2 ^ k" "chained free home tab" "card (used free tab) < length tab"
    "h < length tab" "\<forall>e\<in>set tab. \<not> free e \<and> P e \<longrightarrow> home (length tab) e = h"
  obtains slot where "probe (\<lambda>s. free s \<or> P s) tab h = Some slot" "slot < length tab"
    "free (tab ! slot) \<Longrightarrow> \<forall>e\<in>set tab. \<not> free e \<longrightarrow> \<not> P e" "\<not> free (tab ! slot) \<Longrightarrow> P (tab ! slot)"
proof -
  let ?m = "length tab" and ?stop = "\<lambda>s. free s \<or> P s"
  define d where "d = (LEAST d. ?stop (tab ! ((h + d) mod ?m)))"
  have "\<exists>d. ?stop (tab ! ((h + d) mod ?m))"
    using free_slot_reached [OF assms(3,4)] by blast
  then have d: "?stop (tab ! ((h + d) mod ?m))" and dj: "\<forall>j<d. \<not> ?stop (tab ! ((h + j) mod ?m))"
    unfolding d_def using LeastI_ex [of "\<lambda>d. ?stop (tab ! ((h + d) mod ?m))"]
      not_less_Least [of _ "\<lambda>d. ?stop (tab ! ((h + d) mod ?m))"] by blast+
  let ?slot = "(h + d) mod ?m"
  have slot: "?slot < ?m" using assms(4) by (intro mod_less_divisor) linarith
  have none: "\<not> P e" if fr: "free (tab ! ?slot)" and e: "e \<in> set tab" "\<not> free e" for e
  proof
    assume P: "P e"
    obtain i where i: "i < ?m" "tab ! i = e" using e(1) by (auto simp: in_set_conv_nth)
    then have "i \<in> used free tab" using e(2) by (simp add: used_def)
    then obtain d' where d': "i = (h + d') mod ?m" "\<forall>j<d'. (h + j) mod ?m \<in> used free tab"
      using assms(2,5) e P i unfolding chained_def by metis
    have "d' \<noteq> d" using fr e(2) i d'(1) by auto
    moreover have "\<not> d' < d" using dj d'(1) i P by auto
    moreover have "\<not> d < d'" using d'(2) fr by (auto simp: used_def)
    ultimately show False by linarith
  qed
  show ?thesis
    by (rule that [of ?slot]) (use probe_walk [where stop = ?stop, OF assms(1) d dj assms(4)] slot none d in auto)
qed

end

section \<open>The table of static segments\<close>

definition static_home :: "nat \<Rightarrow> TreeStatic \<Rightarrow> nat" where
  "static_home m s = static_slot (st_key s) (m - 1)"

lemma static_slot_less: "static_slot key (2 ^ k - 1) < 2 ^ k"
proof -
  obtain n k1 k2 where key: "key = (n, k1, k2)" by (cases key)
  let ?x = "drop_bit 32 ((k1 XOR word_rotl 29 k2 XOR of_nat n) * 0x9E3779B97F4A7C15 :: u64)"
  have "unat (?x AND of_nat (2 ^ k - 1)) \<le> unat (of_nat (2 ^ k - 1) :: u64)"
    by (simp add: word_and_le1 flip: word_le_nat_alt)
  also have "\<dots> \<le> 2 ^ k - 1"
    unfolding unat_of_nat by (rule mod_less_eq_dividend)
  also have "\<dots> < 2 ^ k" by simp
  finally show ?thesis by (simp add: static_slot_def key)
qed

interpretation statics: probing static_free static_home
  by unfold_locales (simp only: static_home_def static_slot_less)

fun static_entry :: "StaticKey \<times> bytes \<times> u32 \<Rightarrow> TreeStatic" where
  "static_entry (key, s, pos) = \<lparr>st_key = key, st_pos = pos\<rparr>"

lemma place_statics_fill:
  assumes "distinct (map (fst \<circ> snd) es)" "prev \<notin> Some ` set (map (fst \<circ> snd) es)"
  shows "place_statics prev es table =
    (case fill static_free static_home (map static_entry es) table of None \<Rightarrow> Panics | Some tab \<Rightarrow> Returns tab)"
  using assms
  by (induction prev es table rule: place_statics.induct) (auto simp: static_home_def inj_image_mem_iff split: option.splits)

lemma next_power_from_ok:
  assumes "n \<le> 2 ^ fuel * p" "p = 2 ^ j"
  shows "\<exists>k. next_power_from fuel n p = 2 ^ k \<and> n \<le> 2 ^ k"
  using assms
proof (induction fuel n p arbitrary: j rule: next_power_from.induct)
  case (2 fuel n p)
  show ?case
  proof (cases "n \<le> p")
    case False
    then show ?thesis
      using 2(1) [of "Suc j"] 2(2,3) by (simp add: ac_simps)
  qed (use 2(3) in auto)
qed auto

lemma next_power_of_two_ok: "\<exists>k. next_power_of_two n = 2 ^ k \<and> n \<le> next_power_of_two n"
proof -
  have "n \<le> 2 ^ n * 1" using less_exp [of n] by simp
  then show ?thesis
    using next_power_from_ok [of n n 1 0] by (auto simp: next_power_of_two_def)
qed

lemma table_room: "length es < next_power_of_two (length es * 2)"
proof (cases es)
  case Nil
  then show ?thesis by (simp add: next_power_of_two_def)
next
  case (Cons a list)
  then show ?thesis
    using next_power_of_two_ok [of "length es * 2"] by auto
qed

lemma chained_replicate: "free e \<Longrightarrow> chained free home (replicate n e)"
  by (simp add: chained_def used_replicate)

lemma static_table_ok:
  assumes "distinct (map (fst \<circ> snd) ss)" "\<forall>(key, s, pos) \<in> set ss. pos \<noteq> - 1"
  obtains tab k where "static_table ss = Returns (if ss = [] then [] else tab)" "length tab = 2 ^ k"
    "chained static_free static_home tab" "card (used static_free tab) < length tab"
    "{e \<in> set tab. \<not> static_free e} = static_entry ` set ss"
proof -
  let ?empty = "\<lparr>st_key = (0, 0, 0), st_pos = - 1\<rparr> :: TreeStatic"
  obtain k where k: "next_power_of_two (length ss * 2) = 2 ^ k"
    using next_power_of_two_ok by blast
  let ?tab = "replicate (next_power_of_two (length ss * 2)) ?empty"
  have fr: "static_free ?empty" by (simp add: static_free_def)
  have perm: "set (sort ss) = set ss" "length (sort ss) = length ss" by simp_all
  have dist: "distinct (map (fst \<circ> snd) (sort ss))"
    using assms(1) by (metis distinct_map distinct_sort set_sort)
  have ents: "\<forall>e\<in>set (map static_entry (sort ss)). \<not> static_free e"
    using assms(2) by (auto simp: static_free_def)
  have "card (used static_free ?tab) + length (map static_entry (sort ss)) < length ?tab"
    using table_room [of ss] used_replicate [of static_free, OF fr] by simp
  from statics.fill_ok [OF _ chained_replicate this ents, of k] obtain tab
    where tab: "fill static_free static_home (map static_entry (sort ss)) ?tab = Some tab"
      "length tab = length ?tab" "chained static_free static_home tab"
      "card (used static_free tab) = card (used static_free ?tab) + length (map static_entry (sort ss))"
      "{e \<in> set tab. \<not> static_free e} = {e \<in> set ?tab. \<not> static_free e} \<union> set (map static_entry (sort ss))"
    using k fr by auto
  have "static_table ss = Returns (if ss = [] then [] else tab)"
    using tab(1) by (simp add: static_table_def Let_def place_statics_fill [OF dist])
  moreover have "card (used static_free tab) < length tab"
    using tab(2,4) table_room [of ss] used_replicate [of static_free, OF fr] by simp
  moreover have "{e \<in> set tab. \<not> static_free e} = static_entry ` set ss"
    using tab(5) fr by auto
  ultimately show ?thesis
    using that [of tab k] tab(2,3) k by simp
qed

section \<open>The index of a node\<close>

fun static_pos :: "nat \<Rightarrow> TreeItem list \<Rightarrow> bytes \<Rightarrow> u32 option" where
  "static_pos p [] seg = None"
| "static_pos p (it # its) seg =
     (if first_static it = Some seg then Some (of_nat p) else static_pos (p + 1) its seg)"

definition statics_of :: "TreeItem list \<Rightarrow> bytes list" where
  "statics_of items = List.map_filter first_static items"

lemma statics_of_simps [simp]:
  "statics_of [] = []"
  "statics_of (it # its) = (case first_static it of Some s \<Rightarrow> s # statics_of its | None \<Rightarrow> statics_of its)"
  by (simp_all add: statics_of_def map_filter_simps split: option.splits)

lemma set_statics_of: "set (statics_of items) = {s. \<exists>it\<in>set items. first_static it = Some s}"
  by (induction items) (auto split: option.splits)

text \<open>What the index of a node has to give for its items.\<close>

definition node_indexed :: "Tree \<Rightarrow> bool" where
  "node_indexed t \<longleftrightarrow> t_rest t = snd (split_items 0 (t_items t)) \<and>
     (t_statics t = [] \<longrightarrow> statics_of (t_items t) = []) \<and>
     (\<forall>seg. find_static t (static_key seg) seg = Returns (static_pos 0 (t_items t) seg))"

lemma split_items_strings: "map (fst \<circ> snd) (fst (split_items p items)) = statics_of items"
  by (induction items arbitrary: p) (auto split: prod.splits option.splits simp: prod_eq_iff)

lemma split_items_fst:
  "set (fst (split_items p items)) =
     {(static_key s, s, of_nat (p + i)) | s i. i < length items \<and> first_static (items ! i) = Some s}"
proof (induction items arbitrary: p)
  case (Cons it its)
  have "{(static_key s, s, of_nat (p + i) :: u32) | s i. i < length (it # its) \<and> first_static ((it # its) ! i) = Some s} =
     {(static_key s, s, of_nat p) | s. first_static it = Some s} \<union>
     {(static_key s, s, of_nat (p + 1 + i)) | s i. i < length its \<and> first_static (its ! i) = Some s}"
    (is "?L = ?A \<union> ?B")
  proof
    show "?L \<subseteq> ?A \<union> ?B"
    proof
      fix x assume "x \<in> ?L"
      then obtain s i where x: "x = (static_key s, s, of_nat (p + i))" "i < length (it # its)"
        "first_static ((it # its) ! i) = Some s" by blast
      then show "x \<in> ?A \<union> ?B"
        by (cases i) auto
    qed
    show "?A \<union> ?B \<subseteq> ?L"
    proof
      fix x assume "x \<in> ?A \<union> ?B"
      then consider s where "x = (static_key s, s, of_nat p)" "first_static it = Some s"
        | s i where "x = (static_key s, s, of_nat (p + 1 + i))" "i < length its" "first_static (its ! i) = Some s"
        by blast
      then show "x \<in> ?L"
      proof cases
        case 1
        then show ?thesis by (intro CollectI exI [of _ s] exI [of _ 0]) simp
      next
        case 2
        then show ?thesis by (intro CollectI exI [of _ s] exI [of _ "Suc i"]) simp
      qed
    qed
  qed
  then show ?case
    using Cons.IH [of "p + 1"] by (auto split: prod.splits option.splits)
qed simp

lemma sorted_positions:
  assumes "p + length items < 2 ^ 32"
  shows "sorted (snd (split_items p items)) \<and> (\<forall>r\<in>set (snd (split_items p items)). p \<le> unat r \<and> unat r < p + length items)"
  using assms
proof (induction items arbitrary: p)
  case (Cons it its)
  have p: "unat (of_nat p :: u32) = p"
    using Cons.prems by (simp add: unat_of_nat)
  obtain ss rs where sp: "split_items (p + 1) its = (ss, rs)"
    by (cases "split_items (p + 1) its")
  have rs: "sorted rs" "\<forall>r\<in>set rs. p + 1 \<le> unat r \<and> unat r < p + 1 + length its"
    using Cons.IH [of "p + 1"] Cons.prems sp by simp_all
  moreover have "\<forall>r\<in>set rs. of_nat p \<le> r"
    using rs(2) p by (auto simp: word_le_nat_alt)
  ultimately show ?case
    using p sp by (cases "first_static it") (auto intro: less_imp_le simp: Suc_le_eq)
qed simp

lemma static_pos_Some:
  assumes "distinct (statics_of items)" "i < length items" "first_static (items ! i) = Some s"
  shows "static_pos p items s = Some (of_nat (p + i))"
  using assms
proof (induction items arbitrary: p i)
  case (Cons it its)
  show ?case
  proof (cases i)
    case 0
    with Cons.prems show ?thesis by simp
  next
    case (Suc j)
    then have "first_static it \<noteq> Some s"
      using Cons.prems nth_mem [of j its] by (auto simp: set_statics_of)
    then show ?thesis
      using Cons.IH [of j "p + 1"] Cons.prems Suc by (auto split: option.splits)
  qed
qed simp

lemma static_pos_None: "s \<notin> set (statics_of items) \<Longrightarrow> static_pos p items s = None"
  unfolding set_statics_of by (induction items arbitrary: p) auto

lemma find_static_ok:
  assumes items: "distinct (statics_of (t_items t))" "length (t_items t) < 2 ^ 32 - 1"
    and tab: "t_statics t = tab" "length tab = 2 ^ k" "chained static_free static_home tab"
      "card (used static_free tab) < length tab"
      "{e \<in> set tab. \<not> static_free e} = static_entry ` set (fst (split_items 0 (t_items t)))"
  shows "find_static t (static_key seg) seg = Returns (static_pos 0 (t_items t) seg)"
proof -
  let ?key = "static_key seg" and ?items = "t_items t"
  let ?P = "\<lambda>s. static_hit t ?key seg s \<or> static_bad t ?key s"
  have ent: "\<exists>i s. i < length ?items \<and> first_static (?items ! i) = Some s \<and> st_key e = static_key s \<and>
      st_pos e = of_nat i \<and> static_at t (st_pos e) = Returns s"
    if e: "e \<in> set tab" "\<not> static_free e" for e
  proof -
    have "e \<in> static_entry ` set (fst (split_items 0 ?items))"
      using e tab(5) by blast
    then obtain i s where i: "i < length ?items" "first_static (?items ! i) = Some s"
      "e = static_entry (static_key s, s, of_nat i)"
      unfolding split_items_fst by auto
    moreover have "unat (of_nat i :: u32) = i"
      using i(1) items(2) by (simp add: unat_of_nat)
    ultimately show ?thesis
      by (intro exI [of _ i] exI [of _ s]) (simp add: static_at_def)
  qed
  have hit: "?P e \<longleftrightarrow> st_key e = static_key s \<and> s = seg" if "st_key e = static_key s" "static_at t (st_pos e) = Returns s" for e s
    using that static_key_inj_lemma [of seg s] by (auto simp: static_hit_def static_bad_def)
  have home: "\<forall>e\<in>set tab. \<not> static_free e \<and> ?P e \<longrightarrow> static_home (length tab) e = static_slot ?key (length tab - 1)"
    by (auto simp: static_home_def static_hit_def static_bad_def)
  have "static_slot ?key (length tab - 1) < length tab"
    using static_slot_less [of ?key k] tab(2) by simp
  from statics.lookup [OF tab(2,3,4) this home] obtain slot where slot:
    "probe (\<lambda>s. static_free s \<or> ?P s) tab (static_slot ?key (length tab - 1)) = Some slot" "slot < length tab"
    "static_free (tab ! slot) \<Longrightarrow> \<forall>e\<in>set tab. \<not> static_free e \<longrightarrow> \<not> ?P e"
    "\<not> static_free (tab ! slot) \<Longrightarrow> ?P (tab ! slot)"
    by blast
  have ne: "tab \<noteq> []" using slot(2) by auto
  show ?thesis
  proof (cases "static_free (tab ! slot)")
    case True
    have "seg \<notin> set (statics_of ?items)"
    proof
      assume "seg \<in> set (statics_of ?items)"
      then obtain i where i: "i < length ?items" "first_static (?items ! i) = Some seg"
        by (auto simp: set_statics_of in_set_conv_nth)
      then have "static_entry (static_key seg, seg, of_nat i) \<in> {e \<in> set tab. \<not> static_free e}"
        unfolding tab(5) split_items_fst by force
      then have e: "static_entry (static_key seg, seg, of_nat i) \<in> set tab"
        "\<not> static_free (static_entry (static_key seg, seg, of_nat i))" by auto
      have "unat (of_nat i :: u32) = i"
        using i(1) items(2) by (simp add: unat_of_nat)
      then have "?P (static_entry (static_key seg, seg, of_nat i))"
        using i by (simp add: static_hit_def static_at_def)
      with slot(3) [OF True] e show False by blast
    qed
    then show ?thesis
      using slot(1) True ne tab(1) by (simp add: find_static_def static_pos_None Let_def)
  next
    case False
    have mem: "tab ! slot \<in> set tab" using slot(2) by simp
    from ent [OF mem False] obtain i s where i: "i < length ?items" "first_static (?items ! i) = Some s"
      "st_key (tab ! slot) = static_key s" "st_pos (tab ! slot) = of_nat i"
      "static_at t (st_pos (tab ! slot)) = Returns s" by blast
    have "s = seg" using slot(4) [OF False] hit [OF i(3,5)] by simp
    then show ?thesis
      using slot(1) False ne tab(1) i static_pos_Some [OF items(1) i(1,2), of 0]
      by (simp add: find_static_def static_bad_def Let_def)
  qed
qed

section \<open>Indexed trees\<close>

lemma items_induct [case_names Nil Leaf Subtree]:
  assumes "P []" "\<And>v xs. P xs \<Longrightarrow> P (Leaf v # xs)" "\<And>t xs. P xs \<Longrightarrow> P (Subtree t # xs)"
  shows "P xs"
proof (induction xs)
  case (Cons it xs)
  then show ?case by (cases it) (auto intro: assms)
qed (rule assms(1))

text \<open>Predicates on all nodes of a tree: it has an index, and it can have one.\<close>

fun tree_indexed :: "Tree \<Rightarrow> bool" and items_indexed :: "TreeItem list \<Rightarrow> bool" where
  "tree_indexed (Tree k items s r e) \<longleftrightarrow> node_indexed (Tree k items s r e) \<and> items_indexed items"
| "items_indexed [] \<longleftrightarrow> True"
| "items_indexed (Leaf v # items) \<longleftrightarrow> items_indexed items"
| "items_indexed (Subtree t # items) \<longleftrightarrow> tree_indexed t \<and> items_indexed items"

fun tree_fit :: "Tree \<Rightarrow> bool" and items_fit :: "TreeItem list \<Rightarrow> bool" where
  "tree_fit (Tree k items s r e) \<longleftrightarrow>
     distinct (statics_of items) \<and> int (length items) < 2 ^ 32 - 1 \<and> items_fit items"
| "items_fit [] \<longleftrightarrow> True"
| "items_fit (Leaf v # items) \<longleftrightarrow> items_fit items"
| "items_fit (Subtree t # items) \<longleftrightarrow> tree_fit t \<and> items_fit items"

text \<open>
  The tree without index and without table of static paths, as in the test of the crate: every
  child is visited in order.
\<close>

fun unindexed :: "Tree \<Rightarrow> Tree" and unindexed_items :: "TreeItem list \<Rightarrow> TreeItem list" where
  "unindexed (Tree k items s r e) =
     Tree k (unindexed_items items) [] (map of_nat [0..<length items]) []"
| "unindexed_items [] = []"
| "unindexed_items (Leaf v # items) = Leaf v # unindexed_items items"
| "unindexed_items (Subtree t # items) = Subtree (unindexed t) # unindexed_items items"

lemma items_indexed_iff: "items_indexed items \<longleftrightarrow> (\<forall>t. Subtree t \<in> set items \<longrightarrow> tree_indexed t)"
  by (induction items rule: items_induct) auto

lemma items_fit_iff: "items_fit items \<longleftrightarrow> (\<forall>t. Subtree t \<in> set items \<longrightarrow> tree_fit t)"
  by (induction items rule: items_induct) auto

lemma length_unindexed_items [simp]: "length (unindexed_items items) = length items"
  by (induction items rule: items_induct) auto

lemma t_key_unindexed [simp]: "t_key (unindexed t) = t_key t"
  by (cases t) simp

lemma t_items_unindexed: "t_items (unindexed t) = unindexed_items (t_items t)"
  by (cases t) simp

lemma unindexed_key: "unindexed t = unindexed t' \<Longrightarrow> t_key t = t_key t'"
  by (metis t_key_unindexed)

lemma statics_of_unindexed: "statics_of (unindexed_items items) = statics_of items"
  by (induction items rule: items_induct) (auto split: option.split)

lemma tree_fit_unindexed:
  "tree_fit (unindexed t) \<longleftrightarrow> tree_fit t"
  "items_fit (unindexed_items items) \<longleftrightarrow> items_fit items"
  by (induction t and items rule: tree_fit_items_fit.induct) (auto simp: statics_of_unindexed)

lemma build_index_unindexed:
  "build_index t = Returns t' \<Longrightarrow> unindexed t' = unindexed t"
  "build_items items = Returns items' \<Longrightarrow> unindexed_items items' = unindexed_items items"
proof (induction t and items arbitrary: t' and items' rule: build_index_build_items.induct)
  case (1 k items s r e)
  then obtain items' tab rs where "build_items items = Returns items'" "t' = Tree k items' tab rs e"
    by (auto split: run.splits prod.splits)
  with 1(1) [of items'] length_unindexed_items [of items'] length_unindexed_items [of items]
  show ?case by simp
qed (auto split: run.splits)

lemma node_index_ok:
  assumes "distinct (statics_of items)" "int (length items) < 2 ^ 32 - 1"
  obtains tab where "static_table (fst (split_items 0 items)) = Returns tab"
    "node_indexed (Tree k items tab (sort (snd (split_items 0 items))) e)"
proof -
  let ?ss = "fst (split_items 0 items)"
  have len: "length items < 2 ^ 32 - 1" using assms(2) by simp
  have dist: "distinct (map (fst \<circ> snd) ?ss)" using assms(1) by (simp add: split_items_strings)
  have pos: "(of_nat i :: u32) \<noteq> - 1" if "i < length items" for i
  proof
    assume "(of_nat i :: u32) = - 1"
    then have "unat (of_nat i :: u32) = 2 ^ 32 - 1" by (simp add: unsigned_minus_1_eq_mask mask_eq_exp_minus_1)
    with that len show False by (simp add: unat_of_nat)
  qed
  then have "\<forall>(key, s, p) \<in> set ?ss. p \<noteq> - 1"
    unfolding split_items_fst by auto
  from static_table_ok [OF dist this] obtain tab k' where tab:
    "static_table ?ss = Returns (if ?ss = [] then [] else tab)" "length tab = 2 ^ k'"
    "chained static_free static_home tab" "card (used static_free tab) < length tab"
    "{e \<in> set tab. \<not> static_free e} = static_entry ` set ?ss" .
  let ?t = "Tree k items (if ?ss = [] then [] else tab) (sort (snd (split_items 0 items))) e"
  have rest: "sort (snd (split_items 0 items)) = snd (split_items 0 items)"
    using sorted_positions [of 0 items] len by (intro sort_key_id_if_sorted) auto
  have empty: "?ss = [] \<longleftrightarrow> statics_of items = []"
    using split_items_strings [of 0 items] by (metis map_is_Nil_conv)
  have "find_static ?t (static_key seg) seg = Returns (static_pos 0 items seg)" for seg
  proof (cases "?ss = []")
    case True
    then show ?thesis using empty by (simp add: find_static_def static_pos_None)
  next
    case False
    then show ?thesis
      using find_static_ok [of ?t tab k' seg] assms(1) len tab(2-5) by simp
  qed
  then have "node_indexed ?t"
    using rest empty tab(2) by (auto simp: node_indexed_def)
  with tab(1) show ?thesis by (rule that)
qed

lemma build_index_ok:
  "tree_fit t \<Longrightarrow> \<exists>t'. build_index t = Returns t' \<and> tree_indexed t'"
  "items_fit items \<Longrightarrow> \<exists>items'. build_items items = Returns items' \<and> items_indexed items'"
proof (induction t and items rule: build_index_build_items.induct)
  case (1 k items s r e)
  then obtain items' where items': "build_items items = Returns items'" "items_indexed items'"
    by auto
  have un: "unindexed_items items' = unindexed_items items"
    using build_index_unindexed(2) [OF items'(1)] .
  have "statics_of items' = statics_of items" "length items' = length items"
    using un by (metis statics_of_unindexed, metis length_unindexed_items)
  then have "distinct (statics_of items')" "int (length items') < 2 ^ 32 - 1"
    using 1(2) by simp_all
  from node_index_ok [OF this] obtain tab where
    "static_table (fst (split_items 0 items')) = Returns tab"
    "node_indexed (Tree k items' tab (sort (snd (split_items 0 items'))) e)" by blast
  with items' show ?case
    by (auto split: prod.splits)
qed auto

section \<open>The children of a node\<close>

text \<open>The items that can match: all but the sub trees with another first static segment.\<close>

fun visible :: "(bytes \<Rightarrow> bool) \<Rightarrow> TreeItem list \<Rightarrow> (TreeItem option \<times> bool) list" where
  "visible eq [] = []"
| "visible eq (it # its) = (case first_static it of
       Some s \<Rightarrow> (if eq s then (Some it, True) # visible eq its else visible eq its)
     | None \<Rightarrow> (Some it, False) # visible eq its)"

lemma collect_filtered:
  "children_collect (Filtered items seg) = visible (\<lambda>s. eq_ignore_ascii_case s seg) items"
proof (induction items)
  case Nil
  then show ?case by (simp add: children_collect.simps)
next
  case (Cons it its)
  show ?case
  proof (cases "first_static it")
    case None
    then show ?thesis
      using Cons.IH by (subst children_collect.simps) simp
  next
    case (Some s)
    show ?thesis
    proof (cases "eq_ignore_ascii_case s seg")
      case True
      with Some Cons.IH show ?thesis by (subst children_collect.simps) simp
    next
      case False
      with Some have "children_next (Filtered (it # its) seg) = children_next (Filtered its seg)"
        by simp
      then have "children_collect (Filtered (it # its) seg) = children_collect (Filtered its seg)"
        by (simp only: children_collect.simps [of "Filtered (it # its) seg"]
            children_collect.simps [of "Filtered its seg"])
      with Some False Cons.IH show ?thesis by simp
    qed
  qed
qed

lemma static_pos_ge:
  "\<lbrakk>static_pos p items seg = Some s; p + length items < 2 ^ 32\<rbrakk> \<Longrightarrow> p \<le> unat s \<and> unat s < p + length items"
proof (induction p items seg rule: static_pos.induct)
  case (2 p it its seg)
  have "unat (of_nat p :: u32) = p"
    using 2(3) by (simp add: unat_of_nat)
  with 2 show ?case by (auto split: if_splits)
qed simp

lemma collect_indexed_aux:
  assumes "t_items t = pre @ items" "drop i (t_rest t) = snd (split_items (length pre) items)"
    "stat = static_pos (length pre) items seg" "distinct (statics_of items)"
    "length (t_items t) < 2 ^ 32"
  shows "children_collect (Indexed t i stat) = visible (\<lambda>s. s = seg) items"
  using assms
proof (induction items arbitrary: pre i stat)
  case Nil
  then show ?case by (simp add: children_collect.simps)
next
  case (Cons it its)
  let ?p = "length pre"
  have p: "unat (of_nat ?p :: u32) = ?p"
    using Cons.prems(1,5) by (simp add: unat_of_nat)
  have at: "item_at t (of_nat ?p) = Some it"
    using Cons.prems(1) p by (simp add: item_at_def)
  have room: "Suc ?p + length its < 2 ^ 32"
    using Cons.prems(1,5) by simp
  have above: "of_nat ?p < s" if "p' \<le> unat s" "?p < p'" for s :: u32 and p'
    using that p by (simp add: word_less_nat_alt)
  obtain ss rs where sp: "split_items (Suc ?p) its = (ss, rs)"
    by (cases "split_items (Suc ?p) its")
  have rs: "\<forall>r\<in>set rs. of_nat ?p < r"
    using sorted_positions [OF room] sp above by auto
  have IH: "children_collect (Indexed t j st) = visible (\<lambda>s. s = seg) its"
    if "drop j (t_rest t) = rs" "st = static_pos (Suc ?p) its seg" for j st
    using Cons.IH [of "pre @ [it]" j st] Cons.prems that sp by (auto split: option.splits)
  show ?case
  proof (cases "first_static it")
    case None
    then have r: "drop i (t_rest t) = of_nat ?p # rs" and st: "stat = static_pos (Suc ?p) its seg"
      using Cons.prems(2,3) sp by auto
    have i: "i < length (t_rest t)" "t_rest t ! i = of_nat ?p" "drop (Suc i) (t_rest t) = rs"
      using r by (metis drop_all list.distinct(1) not_le, metis nth_via_drop, metis drop_Suc list.sel(3) tl_drop)
    have "of_nat ?p < s" if "stat = Some s" for s
      using static_pos_ge [OF st [symmetric, unfolded that] room] above by auto
    then have "children_next (Indexed t i stat) = Some ((Some it, False), Indexed t (i + 1) stat)"
      using i at by (cases stat) auto
    then show ?thesis
      using IH [of "i + 1" stat] i(3) st None by (subst children_collect.simps) simp
  next
    case (Some s)
    then have r: "drop i (t_rest t) = rs"
      using Cons.prems(2) sp by simp
    show ?thesis
    proof (cases "s = seg")
      case True
      have st: "stat = Some (of_nat ?p)"
        using Cons.prems(3) Some True by simp
      have "\<not> of_nat ?p > t_rest t ! i" if "i < length (t_rest t)"
        using that r rs by (metis Cons_nth_drop_Suc list.set_intros(1) not_less_iff_gr_or_eq)
      then have nx: "children_next (Indexed t i stat) = Some ((Some it, True), Indexed t i None)"
        using st at by auto
      have "seg \<notin> set (statics_of its)"
        using Cons.prems(4) Some True by simp
      then have "children_collect (Indexed t i None) = visible (\<lambda>s. s = seg) its"
        using IH [OF r] by (simp add: static_pos_None)
      then show ?thesis
        using nx Some True by (subst children_collect.simps) simp
    next
      case False
      then have "stat = static_pos (Suc ?p) its seg"
        using Cons.prems(3) Some by simp
      with IH [OF r] Some False show ?thesis by simp
    qed
  qed
qed

lemma children_indexed:
  assumes "node_indexed t" "distinct (statics_of (t_items t))" "int (length (t_items t)) < 2 ^ 32 - 1"
  obtains c where "children t seg ins = Returns c"
    "children_collect c = visible (\<lambda>s. if ins then eq_ignore_ascii_case s seg else s = seg) (t_items t)"
proof (cases "ins \<and> t_statics t \<noteq> []")
  case True
  with that show ?thesis
    by (auto simp: children_def collect_filtered)
next
  case False
  have len: "length (t_items t) < 2 ^ 32" using assms(3) by simp
  have c: "children t seg ins = Returns (Indexed t 0 (static_pos 0 (t_items t) seg))"
    using False assms(1) by (auto simp: children_def node_indexed_def)
  have col: "children_collect (Indexed t 0 (static_pos 0 (t_items t) seg)) = visible (\<lambda>s. s = seg) (t_items t)"
    using assms(1,2) len by (intro collect_indexed_aux [of t "[]"]) (simp_all add: node_indexed_def)
  have vis: "visible e1 items = visible e2 items" if "statics_of items = []" for e1 e2 items
    using that by (induction items) (auto split: option.splits)
  have "visible (\<lambda>s. s = seg) (t_items t) =
      visible (\<lambda>s. if ins then eq_ignore_ascii_case s seg else s = seg) (t_items t)"
    using False assms(1) vis by (cases ins) (auto simp: node_indexed_def)
  with c col that show ?thesis by auto
qed

lemma children_unindexed:
  assumes "int (length (t_items t)) < 2 ^ 32 - 1"
  obtains c where "children (unindexed t) seg ins = Returns c"
    "children_collect c = map (\<lambda>it. (Some it, False)) (unindexed_items (t_items t))"
proof -
  obtain k items s r e where t: "t = Tree k items s r e" by (cases t)
  let ?u = "unindexed t" and ?n = "length items"
  have len: "?n < 2 ^ 32" using assms t by simp
  have "children_collect (Indexed ?u i None) = map (\<lambda>it. (Some it, False)) (drop i (unindexed_items items))"
    if "i \<le> ?n" for i
    using that
  proof (induction "?n - i" arbitrary: i)
    case 0
    then show ?case by (simp add: children_collect.simps t)
  next
    case (Suc m)
    then have i: "i < ?n" by simp
    have "unat (of_nat i :: u32) = i" using i len by (simp add: unat_of_nat)
    then have "children_next (Indexed ?u i None) = Some ((Some (unindexed_items items ! i), False), Indexed ?u (i + 1) None)"
      using i by (simp add: t item_at_def)
    moreover have "drop i (unindexed_items items) = unindexed_items items ! i # drop (i + 1) (unindexed_items items)"
      using i by (simp add: Cons_nth_drop_Suc)
    ultimately show ?case
      using Suc(1) [of "i + 1"] Suc(2) i by (subst children_collect.simps) simp
  qed
  from this [of 0] show ?thesis
    using that [of "Indexed ?u 0 None"] by (simp add: t children_def find_static_def)
qed

end
