(* ===== verification/Router_Match.thy ===== *)
theory Router_Match
  imports Router_Find Router_Index
begin

text \<open>
  The search in the pattern tree does not depend on the index: it gives what a search gives that
  visits every child of a node in order.
\<close>

section \<open>One step of the search\<close>

definition child_body :: "(TreeValue \<Rightarrow> 's \<Rightarrow> ('r option \<times> 's) run) \<Rightarrow> (Tree \<Rightarrow> bool \<Rightarrow> 's \<Rightarrow> ('r option \<times> 's) run)
    \<Rightarrow> TreeItem option \<times> bool \<Rightarrow> 's \<Rightarrow> ('r option \<times> 's) run" where
  "child_body L W = (\<lambda>(it, matched) segs. case it of
       None \<Rightarrow> Panics
     | Some (Leaf v) \<Rightarrow> L v segs
     | Some (Subtree t) \<Rightarrow> W t matched segs)"

lemma child_body_simps [simp]:
  "child_body L W (Some (Leaf v), m) segs = L v segs"
  "child_body L W (Some (Subtree t), m) segs = W t m segs"
  by (simp_all add: child_body_def)

text \<open>The loop over the children of a node whose key is consumed, on the rest of the path.\<close>

definition below :: "Ctx \<Rightarrow> Tree \<Rightarrow> bytes \<Rightarrow> nat \<Rightarrow> Captured \<Rightarrow> Found" where
  "below cx t path skip segs =
     (let subtree_path = (if length path = 1 then path else drop 1 path)
      in case first_segment cx subtree_path of (sidx, seg) \<Rightarrow>
         (case children t (cow_ref seg) (cx_insensitive cx) of
            Panics \<Rightarrow> Panics
          | Returns c \<Rightarrow>
              for_each (child_body (\<lambda>v. check_value cx (slash_value (path = [SLASH]) v) (skip - 1))
                  (\<lambda>t' m. find_inner_wrapped cx t' subtree_path skip (Some (sidx, cow_ref seg, is_owned seg, m))))
                (children_collect c) segs))"

text \<open>What follows the match of a segment of the key.\<close>

definition after_match :: "Ctx \<Rightarrow> Tree \<Rightarrow> Segment \<Rightarrow> Segment list \<Rightarrow> bytes \<Rightarrow> nat \<Rightarrow> nat \<Rightarrow> Captured \<Rightarrow> Found" where
  "after_match cx t k key path skip idx segs =
     (if tail_checked k then
        (case tail_items cx (skip + idx) (t_items t) segs of
           Returns (None, segs) \<Rightarrow> (if key \<noteq> [] then Panics else Returns (None, segs))
         | r \<Rightarrow> r)
      else if idx = length path then
        (if key = [] then consumed_items cx (skip + idx + 1) (t_items t) segs else Returns (None, segs))
      else if key = [] then below cx t (drop idx path) (skip + idx + 1) segs
      else find_loop cx t key (drop (idx + 1) path) (skip + idx + 1) None segs)"

lemma find_loop_step:
  "find_loop cx t (k # key) path skip f segs =
     (case next_segment cx path f of (idx, segment, quoted, matched) \<Rightarrow>
      (case match_segment cx k path segment quoted matched skip segs of
         Panics \<Rightarrow> Panics
       | Returns (False, segs) \<Rightarrow> Returns (None, segs)
       | Returns (True, segs) \<Rightarrow> after_match cx t k key path skip idx segs))"
  unfolding find_loop.simps(2) [of cx t k key] after_match_def below_def child_body_def Let_def ..

lemma root_children_body:
  "root_children cx t val path idx seg quoted segs =
     (case children t seg (cx_insensitive cx) of
        Panics \<Rightarrow> Panics
      | Returns c \<Rightarrow>
          for_each (child_body (\<lambda>v. check_root cx (val v))
              (\<lambda>t' m segs. skip_some (find_inner_wrapped cx t' path 1 (Some (idx, seg, quoted, m)) segs)))
            (children_collect c) segs)"
  unfolding root_children_def child_body_def ..

section \<open>The index does not change the result\<close>

definition seg_eq :: "Ctx \<Rightarrow> bytes \<Rightarrow> bytes \<Rightarrow> bool" where
  "seg_eq cx seg s \<longleftrightarrow> (if cx_insensitive cx then eq_ignore_ascii_case s seg else s = seg)"

lemma for_each_visible:
  assumes "\<And>t'. \<lbrakk>Subtree t' \<in> set items; first_static (Subtree t') = None\<rbrakk> \<Longrightarrow> W t' False = W (unindexed t') False"
    and "\<And>t' s. \<lbrakk>Subtree t' \<in> set items; first_static (Subtree t') = Some s; eq s\<rbrakk> \<Longrightarrow> W t' True = W (unindexed t') False"
    and "\<And>t' s segs. \<lbrakk>Subtree t' \<in> set items; first_static (Subtree t') = Some s; \<not> eq s\<rbrakk>
      \<Longrightarrow> W (unindexed t') False segs = Returns (None, segs)"
  shows "for_each (child_body L W) (visible eq items) segs =
    for_each (child_body L W) (map (\<lambda>it. (Some it, False)) (unindexed_items items)) segs"
  using assms
proof (induction items arbitrary: segs rule: items_induct)
  case (Leaf v xs)
  then show ?case by (auto split: run.splits option.splits)
next
  case (Subtree t xs)
  have IH: "for_each (child_body L W) (visible eq xs) segs =
      for_each (child_body L W) (map (\<lambda>it. (Some it, False)) (unindexed_items xs)) segs" for segs
    using Subtree by simp
  show ?case
  proof (cases "first_static (Subtree t)")
    case None
    with Subtree.prems(1) [of t] show ?thesis
      by (auto simp: IH simp del: first_static.simps split: run.splits option.splits)
  next
    case (Some s)
    show ?thesis
    proof (cases "eq s")
      case True
      with Some Subtree.prems(2) [of t s] show ?thesis
        by (auto simp: IH simp del: first_static.simps split: run.splits option.splits)
    next
      case False
      with Some Subtree.prems(3) [of t s] show ?thesis
        by (simp add: IH del: first_static.simps)
    qed
  qed
qed simp

lemma first_static_Subtree: "first_static (Subtree t) = Some s \<longleftrightarrow> (\<exists>key. t_key t = Static s # key)"
  by (auto split: list.splits Segment.splits)

lemma wrapped_static:
  assumes "first_static (Subtree t) = Some s"
  shows "seg_eq cx seg s \<Longrightarrow> find_inner_wrapped cx t path skip (Some (i, seg, q, True)) segs =
      find_inner_wrapped cx t path skip (Some (i, seg, q, False)) segs"
    and "\<not> seg_eq cx seg s \<Longrightarrow> find_inner_wrapped cx t path skip (Some (i, seg, q, False)) segs = Returns (None, segs)"
  using assms unfolding first_static_Subtree
  by (auto simp: find_inner_wrapped.simps find_inner2.simps find_loop_step next_segment_def seg_eq_def truncate_segs_def)

lemma items_unindexed:
  "tail_items cx skip (unindexed_items items) segs = tail_items cx skip items segs"
  "prefix_items cx skip (unindexed_items items) segs = prefix_items cx skip items segs"
  "consumed_items cx skip (unindexed_items items) segs = consumed_items cx skip items segs"
  by (induction items arbitrary: segs rule: items_induct)
    (auto simp: tail_items_def prefix_items_def consumed_items_def split: run.splits option.splits TreeValue.splits)

lemma tree_indexedD:
  assumes "tree_indexed t"
  shows "node_indexed t" "Subtree t' \<in> set (t_items t) \<Longrightarrow> tree_indexed t'"
  using assms by (cases t; auto simp: items_indexed_iff)+

lemma tree_fitD:
  assumes "tree_fit t"
  shows "distinct (statics_of (t_items t))" "int (length (t_items t)) < 2 ^ 32 - 1"
    "Subtree t' \<in> set (t_items t) \<Longrightarrow> tree_fit t'"
  using assms by (cases t; auto simp: items_fit_iff)+

lemma children_loop_unindexed:
  assumes t: "tree_indexed t" "tree_fit t"
    and W: "\<And>t' m segs. Subtree t' \<in> set (t_items t) \<Longrightarrow> W t' m segs = W (unindexed t') m segs"
    and stat: "\<And>t' s segs. first_static (Subtree t') = Some s \<Longrightarrow>
        (seg_eq cx seg s \<longrightarrow> W t' True segs = W t' False segs) \<and>
        (\<not> seg_eq cx seg s \<longrightarrow> W t' False segs = Returns (None, segs))"
  shows "(case children t seg (cx_insensitive cx) of
        Panics \<Rightarrow> Panics | Returns c \<Rightarrow> for_each (child_body L W) (children_collect c) segs) =
     (case children (unindexed t) seg (cx_insensitive cx) of
        Panics \<Rightarrow> Panics | Returns c \<Rightarrow> for_each (child_body L W) (children_collect c) segs)"
proof -
  obtain c where c: "children t seg (cx_insensitive cx) = Returns c"
    "children_collect c = visible (seg_eq cx seg) (t_items t)"
    using children_indexed [OF tree_indexedD(1) [OF t(1)] tree_fitD(1,2) [OF t(2)], of seg "cx_insensitive cx"]
    by (auto simp: seg_eq_def [abs_def])
  obtain c' where c': "children (unindexed t) seg (cx_insensitive cx) = Returns c'"
    "children_collect c' = map (\<lambda>it. (Some it, False)) (unindexed_items (t_items t))"
    using children_unindexed [OF tree_fitD(2) [OF t(2)], of seg "cx_insensitive cx"] by auto
  have "for_each (child_body L W) (visible (seg_eq cx seg) (t_items t)) segs =
      for_each (child_body L W) (map (\<lambda>it. (Some it, False)) (unindexed_items (t_items t))) segs"
  proof (rule for_each_visible)
    fix t' s assume m: "Subtree t' \<in> set (t_items t)" "first_static (Subtree t') = Some s"
    show "W t' True = W (unindexed t') False" if "seg_eq cx seg s"
      using stat [OF m(2)] W [OF m(1)] that by (simp add: fun_eq_iff)
    show "W (unindexed t') False segs = Returns (None, segs)" if "\<not> seg_eq cx seg s" for segs
      using stat [OF m(2)] W [OF m(1), symmetric] that by simp
  qed (use W in \<open>simp add: fun_eq_iff\<close>)
  with c c' show ?thesis by simp
qed

lemma find_unindexed:
  assumes "tree_indexed t" "tree_fit t"
  shows "find_inner_wrapped cx t path skip f segs = find_inner_wrapped cx (unindexed t) path skip f segs"
  using assms
proof (induction t arbitrary: path skip f segs rule: measure_induct_rule [where f = size])
  case (less t)
  have sub: "find_inner_wrapped cx t' path skip f segs = find_inner_wrapped cx (unindexed t') path skip f segs"
    if "Subtree t' \<in> set (t_items t)" for t' path skip f segs
    using less.IH [OF size_subtree [OF that]] tree_indexedD(2) [OF less.prems(1) that]
      tree_fitD(3) [OF less.prems(2) that] by blast
  have below: "below cx t path skip segs = below cx (unindexed t) path skip segs" for path skip segs
    unfolding below_def Let_def split_def
    by (intro children_loop_unindexed less.prems sub) (use wrapped_static in blast)+
  have loop: "find_loop cx t key path skip f segs = find_loop cx (unindexed t) key path skip f segs"
    for key path skip f segs
  proof (induction key arbitrary: path skip f segs)
    case Nil
    then show ?case by (simp add: find_loop.simps)
  next
    case (Cons k key)
    have "after_match cx t k key path skip idx segs = after_match cx (unindexed t) k key path skip idx segs"
      for idx segs
      unfolding after_match_def t_items_unindexed items_unindexed below Cons.IH ..
    then show ?case by (simp only: find_loop_step)
  qed
  show ?case
    by (simp only: find_inner_wrapped.simps find_inner2.simps t_key_unindexed t_items_unindexed items_unindexed loop)
qed

lemma find_root_unindexed:
  assumes "tree_indexed t" "tree_fit t"
  shows "find_root cx t path segs = find_root cx (unindexed t) path segs"
proof -
  have empty: "for_each (\<lambda>it. check_root cx (empty_root_value it)) (unindexed_items items) segs =
      for_each (\<lambda>it. check_root cx (empty_root_value it)) items segs" for items segs
    by (induction items arbitrary: segs rule: items_induct) (auto split: run.splits option.splits)
  have sub: "find_inner_wrapped cx t' path 1 f segs = find_inner_wrapped cx (unindexed t') path 1 f segs"
    if "Subtree t' \<in> set (t_items t)" for t' f segs cx path
    using find_unindexed [OF tree_indexedD(2) [OF assms(1) that] tree_fitD(3) [OF assms(2) that]] .
  have root: "root_children cx t val path idx seg q segs = root_children cx (unindexed t) val path idx seg q segs"
    for cx val path idx seg q segs
    unfolding root_children_body
    by (rule children_loop_unindexed [OF assms]) (auto simp only: sub wrapped_static skip_some_def
        run.case option.case prod.case simp_thms)
  show ?thesis
    unfolding find_root_def t_key_unindexed t_items_unindexed empty root find_unindexed [OF assms] ..
qed

end
