(* ===== verification/Router_Insert.thy ===== *)
theory Router_Insert
  imports Router_Index "HOL-Library.Multiset"
begin

text \<open>
  Insertion into the pattern tree: the shape that the search relies on is kept, and the routes of
  the tree are those that were inserted.
\<close>

section \<open>Well-formed trees\<close>

fun is_leaf :: "TreeItem \<Rightarrow> bool" where
  "is_leaf (Leaf v) \<longleftrightarrow> True"
| "is_leaf (Subtree t) \<longleftrightarrow> False"

fun is_prefix_leaf :: "TreeItem \<Rightarrow> bool" where
  "is_prefix_leaf (Leaf (Prefix v)) \<longleftrightarrow> True"
| "is_prefix_leaf _ \<longleftrightarrow> False"

text \<open>
  A tail is the last segment of a key and its node has only values; the static children of a node
  differ; a sub tree without key holds only prefix values.
\<close>

fun tree_wf :: "Tree \<Rightarrow> bool" and items_wf :: "TreeItem list \<Rightarrow> bool" where
  "tree_wf (Tree key items s r e) \<longleftrightarrow> key_ok key \<and> (no_tail key \<or> list_all is_leaf items) \<and> items \<noteq> [] \<and>
     distinct (statics_of items) \<and> items_wf items"
| "items_wf [] \<longleftrightarrow> True"
| "items_wf (Leaf v # items) \<longleftrightarrow> items_wf items"
| "items_wf (Subtree t # items) \<longleftrightarrow>
     (if t_key t = [] then t_items t \<noteq> [] \<and> list_all is_prefix_leaf (t_items t) else tree_wf t) \<and> items_wf items"

fun value_ok :: "Segment list \<Rightarrow> TreeValue \<Rightarrow> bool" where
  "value_ok key (PrefixSlash v) \<longleftrightarrow> no_tail key"
| "value_ok key v \<longleftrightarrow> True"

lemma items_wf_append [simp]: "items_wf (xs @ ys) \<longleftrightarrow> items_wf xs \<and> items_wf ys"
  by (induction xs rule: items_induct) auto

lemma items_wf_value [simp]: "items_wf [value_item v]"
  by (cases v) (auto simp: Tree_child_def)

lemma statics_of_append [simp]: "statics_of (xs @ ys) = statics_of xs @ statics_of ys"
  by (induction xs) (auto split: option.splits)

lemma first_static_value [simp]: "first_static (value_item v) = None"
  by (cases v) (auto simp: Tree_child_def)

lemma is_leaf_value: "value_ok key v \<Longrightarrow> \<not> no_tail key \<Longrightarrow> is_leaf (value_item v)"
  by (cases v) auto

lemma common_prefix_le: "common_prefix k1 k2 \<le> length k1" "common_prefix k1 k2 \<le> length k2"
  by (induction k1 k2 rule: common_prefix.induct) auto

lemma common_prefix_eq: "list_all2 segment_eq (take (common_prefix k1 k2) k1) (take (common_prefix k1 k2) k2)"
  by (induction k1 k2 rule: common_prefix.induct) auto

lemma common_prefix_max:
  "\<lbrakk>common_prefix k1 k2 < length k1; common_prefix k1 k2 < length k2\<rbrakk>
    \<Longrightarrow> common_prefix (drop (common_prefix k1 k2) k1) (drop (common_prefix k1 k2) k2) = 0"
  by (induction k1 k2 rule: common_prefix.induct) auto

lemma segment_eq_refl [simp]: "segment_eq s s"
  by (cases s) auto

lemma segment_eq_tail: "segment_eq a b \<Longrightarrow> is_tail a \<longleftrightarrow> is_tail b"
  by (cases a; cases b) auto

lemma segment_eq_Static: "segment_eq a (Static s) \<longleftrightarrow> a = Static s" "segment_eq (Static s) a \<longleftrightarrow> a = Static s"
  by (cases a; auto)+

lemma no_tail_eq: "list_all2 segment_eq k1 k2 \<Longrightarrow> no_tail k1 \<longleftrightarrow> no_tail k2"
  by (induction rule: list_all2_induct) (auto simp: segment_eq_tail)

lemma key_ok_take: "key_ok key \<Longrightarrow> key_ok (take p key)"
  by (metis append_take_drop_id key_ok_append)

lemma key_ok_drop: "key_ok key \<Longrightarrow> key_ok (drop p key)"
  by (metis append_take_drop_id key_ok_append)

lemma key_ok_take_no_tail: "\<lbrakk>key_ok key; p < length key\<rbrakk> \<Longrightarrow> no_tail (take p key)"
  by (metis append_take_drop_id drop_eq_Nil key_ok_append not_le)

lemma value_ok_drop: "value_ok key v \<Longrightarrow> value_ok (drop p key) v"
  by (cases v) (auto simp: no_tail_def dest: in_set_dropD)

text \<open>A node that keeps a part of its key: no tail is left if the new key goes on.\<close>

lemma split_no_tail:
  assumes "key_ok k1" "key_ok k2" "p = common_prefix k1 k2" "p < length k2"
  shows "no_tail (take p k1)"
proof -
  have "no_tail (take p k2)" using assms(2,4) by (rule key_ok_take_no_tail)
  then show ?thesis using common_prefix_eq [of k1 k2] assms(3) no_tail_eq by metis
qed

lemma tree_wf_alt:
  "tree_wf t \<longleftrightarrow> key_ok (t_key t) \<and> (no_tail (t_key t) \<or> list_all is_leaf (t_items t)) \<and> t_items t \<noteq> [] \<and>
     distinct (statics_of (t_items t)) \<and> items_wf (t_items t)"
  by (cases t) simp

lemma with_items_sel [simp]: "t_key (with_items items t) = t_key t" "t_items (with_items items t) = items"
  by (cases t; simp)+

lemma split_key_sel:
  "t_key (split_key p t) = take p (t_key t)"
  "t_items (split_key p t) =
     (if p < length (t_key t) then [Subtree (Tree (drop p (t_key t)) (t_items t) [] [] [])] else t_items t)"
  by (auto simp: split_key_def)

lemma split_key_wf:
  assumes "tree_wf t"
  shows "items_wf (t_items (split_key p t))" "distinct (statics_of (t_items (split_key p t)))"
    "t_items (split_key p t) \<noteq> []"
  using assms key_ok_drop [of "t_key t" p]
  by (auto simp: split_key_sel tree_wf_alt no_tail_def split: list.splits Segment.splits dest: in_set_dropD)

lemma insert_wf:
  "\<lbrakk>tree_wf t; key_ok key; value_ok key v\<rbrakk> \<Longrightarrow> tree_wf (insert_path t key v) \<and>
     t_key (insert_path t key v) = take (common_prefix (t_key t) key) (t_key t)"
  "\<lbrakk>items_wf items; distinct (statics_of items); key \<noteq> []; key_ok key; value_ok key v\<rbrakk>
    \<Longrightarrow> items_wf (insert_items items key v) \<and> distinct (statics_of (insert_items items key v)) \<and>
      set (statics_of (insert_items items key v)) \<subseteq> set (statics_of items) \<union> {s. \<exists>k. key = Static s # k} \<and>
      insert_items items key v \<noteq> []"
proof (induction t key v and items key v rule: insert_path_insert_items.induct)
  case (1 t key v)
  let ?p = "common_prefix (t_key t) key" and ?t = "split_key (common_prefix (t_key t) key) t"
  note sw = split_key_wf [OF 1(2), of ?p]
  have ok: "key_ok (take ?p (t_key t))"
    using 1(2) by (simp add: tree_wf_alt key_ok_take)
  show ?case
  proof (cases "?p = length key")
    case True
    have "no_tail (take ?p (t_key t)) \<or> list_all is_leaf (t_items ?t @ [value_item v])"
    proof (cases "no_tail (take ?p (t_key t))")
      case False
      have nt: "\<not> no_tail key"
        using False common_prefix_eq [of "t_key t" key] no_tail_eq True by fastforce
      have "\<not> ?p < length (t_key t)"
        using False key_ok_take_no_tail 1(2) by (auto simp: tree_wf_alt)
      then have "t_items ?t = t_items t" "take ?p (t_key t) = t_key t"
        by (simp_all add: split_key_sel)
      then show ?thesis
        using False 1(2,4) nt is_leaf_value by (auto simp: tree_wf_alt)
    qed simp
    then show ?thesis
      using True sw ok by (simp add: insert_path.simps [of t key v] Let_def tree_wf_alt split_key_sel)
  next
    case False
    then have lt: "?p < length key"
      using common_prefix_le(2) [of "t_key t" key] by simp
    have "no_tail (take ?p (t_key t))"
      using split_no_tail [OF _ 1(3) refl lt] 1(2) by (simp add: tree_wf_alt)
    moreover have "items_wf (insert_items (t_items ?t) (drop ?p key) v) \<and>
        distinct (statics_of (insert_items (t_items ?t) (drop ?p key) v)) \<and>
        insert_items (t_items ?t) (drop ?p key) v \<noteq> []"
      using 1(1) [OF refl refl False] sw lt key_ok_drop [OF 1(3)] value_ok_drop [OF 1(4)] by simp
    ultimately show ?thesis
      using False ok by (simp add: insert_path.simps [of t key v] Let_def tree_wf_alt split_key_sel)
  qed
next
  case (2 key v)
  then show ?case
    by (cases key) (auto simp: Tree_child_def is_leaf_value split: Segment.splits)
next
  case (3 u items key v)
  then show ?case by auto
next
  case (4 t items key v)
  show ?case
  proof (cases "common_prefix (t_key t) key > 0")
    case True
    then have ne: "t_key t \<noteq> []" using common_prefix_pos by blast
    with 4(3) have "tree_wf t" "items_wf items" by auto
    with 4(1) [OF True] 4(6,7) have w: "tree_wf (insert_path t key v)"
      "t_key (insert_path t key v) = take (common_prefix (t_key t) key) (t_key t)" by auto
    then have hd: "t_key (insert_path t key v) \<noteq> []" "first_static (Subtree (insert_path t key v)) = first_static (Subtree t)"
      using True ne by (cases "t_key t"; cases "common_prefix (t_key t) key"; auto)+
    show ?thesis
      using True w hd 4(3,4) \<open>items_wf items\<close> by (auto split: option.splits simp del: first_static.simps)
  next
    case False
    have "s \<notin> {s. \<exists>k. key = Static s # k}" if "first_static (Subtree t) = Some s" for s
      using that False by (cases key; cases "t_key t") (auto split: Segment.splits)
    then show ?thesis
      using 4(2) [OF False] 4(3-7) False by (auto split: option.splits simp del: first_static.simps)
  qed
qed

section \<open>Routes\<close>

fun slash_route :: "Segment list \<times> TreeValue \<Rightarrow> Segment list \<times> TreeValue" where
  "slash_route (k, Prefix v) = (k, PrefixSlash v)"
| "slash_route (k, v) = (k, v)"

text \<open>
  The keys and values of a tree in the order of the search. A sub tree without key stands for the
  prefix values that \<^verbatim>\<open>insert_path\<close> adds for a pattern that ends with a slash.
\<close>

fun routes :: "Tree \<Rightarrow> (Segment list \<times> TreeValue) list"
  and item_routes :: "TreeItem list \<Rightarrow> (Segment list \<times> TreeValue) list" where
  "routes (Tree key items s r e) = map (\<lambda>(k, v). (key @ k, v)) (item_routes items)"
| "item_routes [] = []"
| "item_routes (Leaf v # items) = ([], v) # item_routes items"
| "item_routes (Subtree t # items) =
     (if t_key t = [] then map slash_route (routes t) else routes t) @ item_routes items"

lemma routes_alt: "routes t = map (\<lambda>(k, v). (t_key t @ k, v)) (item_routes (t_items t))"
  by (cases t) simp

lemma item_routes_append [simp]: "item_routes (xs @ ys) = item_routes xs @ item_routes ys"
  by (induction xs rule: items_induct) auto

lemma item_routes_value [simp]: "item_routes [value_item v] = [([], v)]"
  by (cases v) (auto simp: Tree_child_def)

lemma wf_unindexed:
  "tree_wf (unindexed t) \<longleftrightarrow> tree_wf t" "items_wf (unindexed_items items) \<longleftrightarrow> items_wf items"
proof (induction t and items rule: tree_wf_items_wf.induct)
  case (1 key items s r e)
  have "list_all is_leaf (unindexed_items items) \<longleftrightarrow> list_all is_leaf items"
    "unindexed_items items = [] \<longleftrightarrow> items = []"
    by (induction items rule: items_induct) auto
  with 1 show ?case by (simp add: statics_of_unindexed)
next
  case (4 t items)
  have "list_all is_prefix_leaf (unindexed_items its) \<longleftrightarrow> list_all is_prefix_leaf its"
    "unindexed_items its = [] \<longleftrightarrow> its = []" for its
    by (induction its rule: items_induct) auto
  with 4 show ?case by (auto simp: t_items_unindexed)
qed auto

lemma routes_unindexed:
  "routes (unindexed t) = routes t" "item_routes (unindexed_items items) = item_routes items"
  by (induction t and items rule: routes_item_routes.induct) auto

lemma routes_nonempty:
  "tree_wf t \<Longrightarrow> routes t \<noteq> []" "\<lbrakk>items_wf items; items \<noteq> []\<rbrakk> \<Longrightarrow> item_routes items \<noteq> []"
proof (induction t and items rule: tree_wf_items_wf.induct)
  case (4 t items)
  show ?case
  proof (cases "t_key t = []")
    case True
    with 4(3) have "t_items t \<noteq> []" "list_all is_prefix_leaf (t_items t)" by auto
    then have "item_routes (t_items t) \<noteq> []"
      by (cases "t_items t") (auto elim: is_prefix_leaf.elims)
    with True show ?thesis by (simp add: routes_alt)
  next
    case False
    with 4 show ?thesis by auto
  qed
qed auto

text \<open>A tree with few routes has few items in each node.\<close>

lemma routes_bound:
  "tree_wf t \<Longrightarrow> length (t_items t) \<le> length (routes t) \<and>
     (\<forall>t'. Subtree t' \<in> set (t_items t) \<longrightarrow> length (routes t') \<le> length (routes t))"
  "items_wf items \<Longrightarrow> length items \<le> length (item_routes items) \<and>
     (\<forall>t'. Subtree t' \<in> set items \<longrightarrow> length (routes t') \<le> length (item_routes items))"
proof (induction t and items rule: tree_wf_items_wf.induct)
  case (4 t items)
  have "item_routes [Subtree t] \<noteq> []"
    using routes_nonempty(2) [of "[Subtree t]"] 4(3) by simp
  then have "length (routes t) \<ge> 1"
    by (cases "routes t") (auto split: if_splits)
  with 4 show ?case by auto
qed auto

lemma tree_fit_wf:
  "\<lbrakk>tree_wf t; int (length (routes t)) < 2 ^ 32 - 1\<rbrakk> \<Longrightarrow> tree_fit t"
  "\<lbrakk>items_wf items; int (length (item_routes items)) < 2 ^ 32 - 1\<rbrakk> \<Longrightarrow> items_fit items"
proof (induction t and items rule: tree_wf_items_wf.induct)
  case (1 key items s r e)
  then show ?case
    using routes_bound(2) [of items] by auto
next
  case (4 t items)
  have "tree_fit t"
  proof (cases "t_key t = []")
    case True
    with 4(3) have leaves: "list_all is_prefix_leaf (t_items t)" by auto
    have *: "statics_of its = [] \<and> items_fit its \<and> length (item_routes its) = length its"
      if "list_all is_prefix_leaf its" for its
      using that by (induction its rule: items_induct) (auto elim: is_prefix_leaf.elims)
    from * [OF leaves] 4(4) True show ?thesis
      by (cases t) auto
  next
    case False
    with 4 show ?thesis by simp
  qed
  with 4 show ?case by auto
qed auto

section \<open>Routes after an insertion\<close>

lemma map_routes_prefix:
  "map (\<lambda>(k, v). (k1 @ k, v)) (map (\<lambda>(k, v). (k2 @ k, v)) rs) = map (\<lambda>(k, v). ((k1 @ k2) @ k, v)) rs"
  by (induction rs) auto

lemma routes_split_key: "routes (split_key p t) = routes t"
proof (cases "p < length (t_key t)")
  case True
  then have "drop p (t_key t) \<noteq> []" by simp
  with True show ?thesis
    by (simp add: split_key_def routes_alt [of t] map_routes_prefix del: map_map)
qed (simp add: split_key_def)

text \<open>The segments that occur in the routes.\<close>

definition route_segs :: "(Segment list \<times> TreeValue) list \<Rightarrow> Segment set" where
  "route_segs rs = (\<Union>(k, v)\<in>set rs. set k)"

definition coherent :: "Segment set \<Rightarrow> bool" where
  "coherent S \<longleftrightarrow> (\<forall>a\<in>S. \<forall>b\<in>S. segment_eq a b \<longrightarrow> a = b)"

lemma coherent_subset: "\<lbrakk>coherent S; S' \<subseteq> S\<rbrakk> \<Longrightarrow> coherent S'"
  by (auto simp: coherent_def)

lemma coherent_keys:
  assumes "list_all2 segment_eq k1 k2" "coherent (set k1 \<union> set k2)"
  shows "k1 = k2"
  using assms by (induction rule: list_all2_induct) (auto simp: coherent_def)

lemma t_key_routes: "tree_wf t \<Longrightarrow> set (t_key t) \<subseteq> route_segs (routes t)"
  using routes_nonempty(1) [of t] by (cases "item_routes (t_items t)") (auto simp: routes_alt route_segs_def)

lemma route_segs_item_routes: "route_segs (item_routes (t_items t)) \<subseteq> route_segs (routes t)"
  by (auto simp: routes_alt route_segs_def)

lemma insert_path_key: "t_key (insert_path t key v) = take (common_prefix (t_key t) key) (t_key t)"
  by (simp add: insert_path.simps [of t key v] Let_def split_key_sel)

lemma insert_routes:
  "\<lbrakk>tree_wf t; coherent (route_segs (routes t) \<union> set key)\<rbrakk>
    \<Longrightarrow> mset (routes (insert_path t key v)) = add_mset (key, v) (mset (routes t))"
  "\<lbrakk>items_wf items; key \<noteq> []; coherent (route_segs (item_routes items) \<union> set key)\<rbrakk>
    \<Longrightarrow> mset (item_routes (insert_items items key v)) = add_mset (key, v) (mset (item_routes items))"
proof (induction t key v and items key v rule: insert_path_insert_items.induct)
  case (1 t key v)
  let ?p = "common_prefix (t_key t) key"
  define t' where "t' = split_key ?p t"
  have r: "routes t' = routes t" and k: "t_key t' = take ?p (t_key t)"
    by (simp_all add: t'_def routes_split_key split_key_sel)
  have "set (take ?p (t_key t)) \<union> set (take ?p key) \<subseteq> route_segs (routes t) \<union> set key"
    using t_key_routes [OF 1(2)] by (auto dest: in_set_takeD)
  then have tk: "t_key t' = take ?p key"
    using coherent_keys [OF common_prefix_eq [of "t_key t" key]] coherent_subset [OF 1(3)] k by simp
  show ?case
  proof (cases "?p = length key")
    case True
    then have ins: "insert_path t key v = with_items (t_items t' @ [value_item v]) t'"
      by (simp add: insert_path.simps [of t key v] t'_def Let_def)
    show ?thesis
      unfolding ins r [symmetric] routes_alt [of t'] routes_alt [of "with_items _ _"]
      using True tk by simp
  next
    case False
    then have ins: "insert_path t key v = with_items (insert_items (t_items t') (drop ?p key) v) t'"
      by (simp add: insert_path.simps [of t key v] t'_def Let_def)
    have lt: "?p < length key" using False common_prefix_le(2) [of "t_key t" key] by simp
    have "coherent (route_segs (item_routes (t_items t')) \<union> set (drop ?p key))"
      using route_segs_item_routes [of t'] r by (intro coherent_subset [OF 1(3)]) (auto dest: in_set_dropD)
    then have "mset (item_routes (insert_items (t_items t') (drop ?p key) v)) =
        add_mset (drop ?p key, v) (mset (item_routes (t_items t')))"
      using 1(1) [OF refl t'_def False] split_key_wf(1) [OF 1(2), of ?p] lt by (simp add: t'_def)
    then show ?thesis
      unfolding ins r [symmetric] routes_alt [of t'] routes_alt [of "with_items _ _"]
      using tk by simp
  qed
next
  case (2 key v)
  then show ?case by (simp add: Tree_child_def)
next
  case (3 u items key v)
  then have "coherent (route_segs (item_routes items) \<union> set key)"
    by (elim coherent_subset) (auto simp: route_segs_def)
  with 3 show ?case by (simp add: add_mset_commute)
next
  case (4 t items key v)
  show ?case
  proof (cases "common_prefix (t_key t) key > 0")
    case True
    then have ne: "t_key t \<noteq> []" using common_prefix_pos by blast
    then have "t_key (insert_path t key v) \<noteq> []"
      using True by (simp add: insert_path_key)
    moreover have "coherent (route_segs (routes t) \<union> set key)"
      using 4(5) ne by (elim coherent_subset) (auto simp: route_segs_def)
    ultimately show ?thesis
      using 4(1) [OF True] 4(3) ne True by simp
  next
    case False
    have "coherent (route_segs (item_routes items) \<union> set key)"
      using 4(5) by (elim coherent_subset) (auto simp: route_segs_def)
    then show ?thesis
      using 4(2) [OF False] 4(3,4) False by simp
  qed
qed


text \<open>The values of the routes, whether the keys are coherent or not.\<close>

definition route_values :: "(Segment list \<times> TreeValue) list \<Rightarrow> nat multiset" where
  "route_values rs = mset (map (tree_value \<circ> snd) rs)"

lemma route_values_simps [simp]:
  "route_values [] = {#}" "route_values ((k, v) # rs) = add_mset (tree_value v) (route_values rs)"
  "route_values (xs @ ys) = route_values xs + route_values ys"
  by (simp_all add: route_values_def)

lemma size_route_values [simp]: "size (route_values rs) = length rs"
  by (simp add: route_values_def)

lemma route_values_slash [simp]: "route_values (map slash_route rs) = route_values rs"
proof -
  have "tree_value (snd (slash_route r)) = tree_value (snd r)" for r
    by (cases r rule: slash_route.cases) auto
  then show ?thesis by (simp add: route_values_def comp_def)
qed

lemma route_values_routes: "route_values (routes t) = route_values (item_routes (t_items t))"
  by (simp add: routes_alt route_values_def comp_def split_def)

lemma insert_values:
  "route_values (routes (insert_path t key v)) = add_mset (tree_value v) (route_values (routes t))"
  "key \<noteq> [] \<Longrightarrow> route_values (item_routes (insert_items items key v)) = add_mset (tree_value v) (route_values (item_routes items))"
proof (induction t key v and items key v rule: insert_path_insert_items.induct)
  case (1 t key v)
  let ?p = "common_prefix (t_key t) key"
  have r: "route_values (item_routes (t_items (split_key ?p t))) = route_values (routes t)"
    using routes_split_key [of ?p t] by (metis route_values_routes)
  show ?case
  proof (cases "?p = length key")
    case True
    with r show ?thesis
      by (simp add: insert_path.simps [of t key v] Let_def route_values_routes [of "with_items _ _"])
  next
    case False
    then have "?p < length key" using common_prefix_le(2) [of "t_key t" key] by simp
    with False r 1(1) [OF refl refl False] show ?thesis
      by (simp add: insert_path.simps [of t key v] Let_def route_values_routes [of "with_items _ _"])
  qed
next
  case (2 key v)
  then show ?case by (simp add: Tree_child_def)
next
  case (4 t items key v)
  show ?case
  proof (cases "common_prefix (t_key t) key > 0")
    case True
    then have "t_key t \<noteq> []" "t_key (insert_path t key v) \<noteq> []"
      using common_prefix_pos [OF True] by (simp_all add: insert_path_key)
    then show ?thesis using True 4(1) [OF True] by simp
  next
    case False
    then show ?thesis using 4(2) [OF False] 4(3) by simp
  qed
qed simp

section \<open>Resources\<close>

definition resource_routes :: "ResourceDef \<Rightarrow> nat \<Rightarrow> (Segment list \<times> TreeValue) list" where
  "resource_routes rd val =
     map (\<lambda>sg. (sg_tp sg, resource_value (sg_slesh sg) (rd_prefix rd) val)) (rd_tp rd)"

lemma value_ok_resource: "segments_ok sg \<Longrightarrow> value_ok (sg_tp sg) (resource_value (sg_slesh sg) prfx val)"
  by (auto simp: resource_value_def segments_ok_def)

lemma tree_value_resource [simp]: "tree_value (resource_value s p val) = val"
  by (simp add: resource_value_def)

lemma insert_segments_ok:
  assumes "tree_wf t" "\<forall>sg\<in>set sgs. segments_ok sg"
  shows "tree_wf (insert_segments prfx val sgs t) \<and>
    route_values (routes (insert_segments prfx val sgs t)) = route_values (routes t) + replicate_mset (length sgs) val \<and>
    (coherent (route_segs (routes t) \<union> (\<Union>sg\<in>set sgs. set (sg_tp sg))) \<longrightarrow>
     mset (routes (insert_segments prfx val sgs t)) = mset (routes t) +
       mset (map (\<lambda>sg. (sg_tp sg, resource_value (sg_slesh sg) prfx val)) sgs))"
  using assms
proof (induction prfx val sgs t rule: insert_segments.induct)
  case (2 prfx val sg sgs t)
  let ?v = "resource_value (sg_slesh sg) prfx val" and ?t = "insert_path t (sg_tp sg) (resource_value (sg_slesh sg) prfx val)"
  have ok: "segments_ok sg" using 2(3) by simp
  have wf: "tree_wf ?t"
    using insert_wf(1) [OF 2(2) _ value_ok_resource [OF ok]] ok by (simp add: segments_ok_def)
  have ms: "mset (routes ?t) = add_mset (sg_tp sg, ?v) (mset (routes t))"
    if "coherent (route_segs (routes t) \<union> (\<Union>sg\<in>set (sg # sgs). set (sg_tp sg)))"
    using that by (intro insert_routes(1) 2(2) coherent_subset [OF that]) auto
  moreover have "route_segs (routes ?t) = route_segs (routes t) \<union> set (sg_tp sg)"
    if "mset (routes ?t) = add_mset (sg_tp sg, ?v) (mset (routes t))"
    using arg_cong [OF that, of set_mset] by (auto simp: route_segs_def)
  ultimately show ?case
    using 2(1) [OF wf] 2(3) insert_values(1) [of t "sg_tp sg" ?v] by (auto simp: Un_assoc)
qed simp

lemma tree_child_ok:
  assumes "segments_ok sg"
  shows "tree_wf (Tree_child (sg_tp sg) (resource_value (sg_slesh sg) prfx val))"
    "routes (Tree_child (sg_tp sg) v) = [(sg_tp sg, v)]"
  using assms by (simp_all add: Tree_child_def segments_ok_def)

text \<open>A tree that a search can use: its shape, and an index for each node.\<close>

definition tree_ready :: "Tree \<Rightarrow> bool" where
  "tree_ready t \<longleftrightarrow> tree_wf t \<and> tree_fit t \<and> tree_indexed t \<and> t_exact t = []"

lemma t_exact_build_index: "build_index t = Returns t' \<Longrightarrow> t_exact t' = t_exact t"
  by (cases t) (auto split: run.splits prod.splits)

lemma build_index_ready:
  assumes "tree_wf t" "int (length (routes t)) < 2 ^ 32 - 1" "t_exact t = []"
  obtains t' where "build_index t = Returns t'" "tree_ready t'" "routes t' = routes t"
proof -
  have fit: "tree_fit t" using assms(1,2) by (rule tree_fit_wf)
  from build_index_ok(1) [OF fit] obtain t' where t': "build_index t = Returns t'" "tree_indexed t'"
    by blast
  have un: "unindexed t' = unindexed t" using build_index_unindexed(1) [OF t'(1)] .
  have "tree_wf t'" "tree_fit t'" "routes t' = routes t"
    using assms(1) fit un by (metis wf_unindexed(1), metis tree_fit_unindexed(1), metis routes_unindexed(1))
  then show ?thesis
    using that t' assms(3) t_exact_build_index [OF t'(1)] by (simp add: tree_ready_def)
qed

lemma t_exact_insert_path [simp]: "t_exact (insert_path t key v) = t_exact t"
proof -
  have "t_exact (with_items items t') = t_exact t'" for items t'
    by (cases t') simp
  then show ?thesis
    by (simp add: insert_path.simps [of t key v] Let_def split_key_def)
qed

lemma t_exact_insert_segments [simp]: "t_exact (insert_segments prfx val sgs t) = t_exact t"
  by (induction prfx val sgs t rule: insert_segments.induct) auto

lemma clear_exact_simps [simp]:
  "tree_wf (clear_exact t) \<longleftrightarrow> tree_wf t" "routes (clear_exact t) = routes t" "t_exact (clear_exact t) = []"
  by (cases t; simp)+

lemma Tree_insert_ok:
  assumes "tree_wf t" "resource_ok rd" "int (length (routes t) + length (rd_tp rd)) < 2 ^ 32 - 1"
  obtains t' where "Tree_insert t rd val = Returns t'" "tree_ready t'"
    "route_values (routes t') = route_values (routes t) + replicate_mset (length (rd_tp rd)) val"
    "coherent (route_segs (routes t) \<union> route_segs (resource_routes rd val)) \<Longrightarrow>
      mset (routes t') = mset (routes t) + mset (resource_routes rd val)"
proof -
  let ?t = "insert_segments (rd_prefix rd) val (rd_tp rd) (clear_exact t)"
  have segs: "route_segs (resource_routes rd val) = (\<Union>sg\<in>set (rd_tp rd). set (sg_tp sg))"
    by (auto simp: route_segs_def resource_routes_def)
  have ok: "tree_wf ?t" "route_values (routes ?t) = route_values (routes t) + replicate_mset (length (rd_tp rd)) val"
    "coherent (route_segs (routes t) \<union> route_segs (resource_routes rd val)) \<Longrightarrow>
      mset (routes ?t) = mset (routes t) + mset (resource_routes rd val)"
    using insert_segments_ok [of "clear_exact t" "rd_tp rd" "rd_prefix rd" val] assms(1,2)
    unfolding segs by (simp_all add: resource_ok_def resource_routes_def)
  from arg_cong [OF ok(2), of size] assms(3) have "int (length (routes ?t)) < 2 ^ 32 - 1" by simp
  from build_index_ready [OF ok(1) this] obtain t' where
    "build_index ?t = Returns t'" "tree_ready t'" "routes t' = routes ?t" by auto
  then show ?thesis
    using that ok(2,3) by (simp add: Tree_insert_def)
qed

lemma Tree_new_ok:
  assumes "resource_ok rd" "rd_tp rd \<noteq> []" "int (length (rd_tp rd)) < 2 ^ 32 - 1"
  obtains t' where "Tree_new rd val = Returns t'" "tree_ready t'"
    "route_values (routes t') = replicate_mset (length (rd_tp rd)) val"
    "coherent (route_segs (resource_routes rd val)) \<Longrightarrow> mset (routes t') = mset (resource_routes rd val)"
proof -
  obtain sg sgs where tp: "rd_tp rd = sg # sgs" using assms(2) by (cases "rd_tp rd") auto
  let ?v = "resource_value (sg_slesh sg) (rd_prefix rd) val"
  let ?c = "Tree_child (sg_tp sg) ?v" and ?t = "insert_segments (rd_prefix rd) val sgs (Tree_child (sg_tp sg) (resource_value (sg_slesh sg) (rd_prefix rd) val))"
  have sg: "segments_ok sg" "\<forall>sg\<in>set sgs. segments_ok sg"
    using assms(1) tp by (auto simp: resource_ok_def)
  have segs: "route_segs (routes ?c) \<union> (\<Union>sg\<in>set sgs. set (sg_tp sg)) = route_segs (resource_routes rd val)"
    using tree_child_ok(2) [OF sg(1), of ?v] by (auto simp: route_segs_def resource_routes_def tp)
  have ok: "tree_wf ?t" "route_values (routes ?t) = replicate_mset (length (rd_tp rd)) val"
    "coherent (route_segs (resource_routes rd val)) \<Longrightarrow> mset (routes ?t) = mset (resource_routes rd val)"
    using insert_segments_ok [OF tree_child_ok(1) [OF sg(1)] sg(2), of "rd_prefix rd" val "rd_prefix rd" val]
      tree_child_ok(2) [OF sg(1), of ?v]
    unfolding segs by (simp_all add: tp resource_routes_def)
  have ex: "t_exact ?t = []" by (simp add: Tree_child_def)
  from arg_cong [OF ok(2), of size] assms(3) have "int (length (routes ?t)) < 2 ^ 32 - 1" by simp
  from build_index_ready [OF ok(1) this ex] obtain t' where
    "build_index ?t = Returns t'" "tree_ready t'" "routes t' = routes ?t" by auto
  then show ?thesis
    using that ok(2,3) by (simp add: Tree_new_def tp)
qed

end
