(* ===== verification/Router_Routes.thy ===== *)
theory Router_Routes
  imports Router_Match Router_Insert
begin

text \<open>
  What a search in the pattern tree means for the routes of the tree: it gives the value of the
  first route, in the order of the tree, that accepts the path and passes the check.
\<close>

section \<open>Routes that accept a path\<close>

text \<open>A segment of a key accepts the first segment of a path, or the whole path if it is a tail.\<close>

fun accepts :: "Ctx \<Rightarrow> Segment \<Rightarrow> bytes \<Rightarrow> bool" where
  "accepts cx (Static s) path \<longleftrightarrow> seg_eq cx (cow_ref (snd (first_segment cx path))) s"
| "accepts cx (Dynamic pattern names tail whole) path \<longleftrightarrow>
     (let seg = (if tail then path else cow_ref (snd (first_segment cx path)))
      in if whole then seg \<noteq> [] \<and> 10 \<notin> set seg
         else case cx_captures cx pattern seg of
           None \<Rightarrow> False
         | Some caps \<Rightarrow> \<forall>name\<in>set names. caps name \<noteq> None)"

text \<open>A route accepts a path: its key consumes the path, or leaves a rest that its value allows.\<close>

fun route_accepts :: "Ctx \<Rightarrow> Segment list \<Rightarrow> TreeValue \<Rightarrow> bytes \<Rightarrow> bool" where
  "route_accepts cx [] v path \<longleftrightarrow> False"
| "route_accepts cx (k # key) v path \<longleftrightarrow> accepts cx k path \<and>
     (let idx = find_slash path in
      if is_tail k then key = []
      else if idx = length path then key = [] \<and> (\<exists>x. v = Val x \<or> v = Prefix x)
      else if key = [] then slash_value (drop idx path = [SLASH]) v \<noteq> None
      else route_accepts cx key v (drop (idx + 1) path))"

definition root_accepts :: "Ctx \<Rightarrow> Segment list \<Rightarrow> TreeValue \<Rightarrow> bytes \<Rightarrow> bool" where
  "root_accepts cx key v path \<longleftrightarrow>
     (if key = [] then
        (if path = [] then (\<exists>x. v = Val x \<or> v = Prefix x)
         else if path = [SLASH] then (\<forall>x. v \<noteq> Val x)
         else (\<exists>x. v = PrefixSlash x))
      else path \<noteq> [] \<and> route_accepts cx key v (unslash path))"

text \<open>The value of the first route of a list that accepts the path and passes the check.\<close>

fun first_route :: "Ctx \<Rightarrow> (Segment list \<Rightarrow> TreeValue \<Rightarrow> bool) \<Rightarrow> (Segment list \<times> TreeValue) list \<Rightarrow> nat option" where
  "first_route cx acc [] = None"
| "first_route cx acc ((k, v) # rs) =
     (if acc k v \<and> cx_check cx (tree_value v) then Some (tree_value v) else first_route cx acc rs)"

lemma first_route_append:
  "first_route cx acc (xs @ ys) = (case first_route cx acc xs of Some v \<Rightarrow> Some v | None \<Rightarrow> first_route cx acc ys)"
  by (induction cx acc xs rule: first_route.induct) auto

lemma first_route_None:
  "first_route cx acc rs = None \<longleftrightarrow> (\<forall>(k, v)\<in>set rs. \<not> (acc k v \<and> cx_check cx (tree_value v)))"
  by (induction cx acc rs rule: first_route.induct) auto

lemma first_route_Some:
  "first_route cx acc rs = Some x \<Longrightarrow> \<exists>(k, v)\<in>set rs. acc k v \<and> cx_check cx (tree_value v) \<and> x = tree_value v"
  by (induction cx acc rs rule: first_route.induct) (auto split: if_splits)

lemma first_route_cong:
  "(\<And>k v. (k, v) \<in> set rs \<Longrightarrow> acc k v = acc' k v) \<Longrightarrow> first_route cx acc rs = first_route cx acc' rs"
  by (induction cx acc rs rule: first_route.induct) auto

lemma first_route_map:
  "first_route cx acc (map (\<lambda>(k, v). (key @ k, v)) rs) = first_route cx (\<lambda>k. acc (key @ k)) rs"
  by (induction rs) auto

section \<open>The value that a search gives\<close>

definition gives :: "(('v \<times> 'k) option \<times> 's) run \<Rightarrow> 'v option \<Rightarrow> bool" where
  "gives r x \<longleftrightarrow> (\<exists>y s. r = Returns (y, s) \<and> map_option fst y = x)"

lemma gives_Returns [simp]: "gives (Returns (y, s)) x \<longleftrightarrow> map_option fst y = x"
  by (simp add: gives_def)

lemma gives_truncate [simp]: "gives (truncate_segs n r) x \<longleftrightarrow> gives r x"
  by (auto simp: gives_def truncate_segs_def split: run.splits option.splits)

lemma gives_skip_some [simp]: "gives (skip_some r) x \<longleftrightarrow> gives r x"
  by (auto simp: gives_def skip_some_def split: run.splits option.splits)

lemma gives_for_each:
  assumes "\<And>x s. x \<in> set xs \<Longrightarrow> gives (f x s) (first_route cx acc (R x))"
  shows "gives (for_each f xs s) (first_route cx acc (concat (map R xs)))"
  using assms
proof (induction xs arbitrary: s)
  case (Cons x xs)
  from Cons.prems [of x s] obtain y s' where "f x s = Returns (y, s')" "first_route cx acc (R x) = map_option fst y"
    by (auto simp: gives_def)
  with Cons.IH Cons.prems show ?case
    by (cases y) (auto simp: first_route_append)
qed simp

lemma item_routes_concat: "item_routes items = concat (map (\<lambda>it. item_routes [it]) items)"
  by (induction items rule: items_induct) auto

lemma gives_items:
  assumes "\<And>it s. it \<in> set items \<Longrightarrow> gives (f it s) (first_route cx acc (item_routes [it]))"
  shows "gives (for_each f items s) (first_route cx acc (item_routes items))"
  unfolding item_routes_concat [of items] by (rule gives_for_each) (rule assms)

section \<open>Matching of a segment\<close>

lemma push_names_result:
  "\<exists>ex. push_names cx seg q skip caps names segs = (\<forall>name\<in>set names. caps name \<noteq> None, segs @ ex)"
proof (induction names arbitrary: segs)
  case (Cons n names)
  show ?case
  proof (cases "caps n")
    case (Some ab)
    obtain a b where ab: "ab = (a, b)" by (cases ab)
    let ?it = "if q then Item_Segment (take (b - a) (drop a seg)) else idx_item cx (skip + a) (skip + b)"
    from Cons.IH [of "segs @ [(n, ?it)]"] show ?thesis
      by (auto simp: Some ab)
  qed simp
qed simp

lemma match_segment_result:
  assumes "seg_fine k" "first_segment cx path = (idx, seg)"
  shows "\<exists>ex. match_segment cx k path (cow_ref seg) q False skip segs = Returns (accepts cx k path, segs @ ex)"
proof (cases k)
  case (Static s)
  then show ?thesis using assms(2) by (simp add: seg_eq_def)
next
  case (Dynamic pattern names tail whole)
  let ?s = "if tail then path else cow_ref seg"
  have acc: "accepts cx k path \<longleftrightarrow> (if whole then ?s \<noteq> [] \<and> 10 \<notin> set ?s
         else case cx_captures cx pattern ?s of None \<Rightarrow> False | Some caps \<Rightarrow> \<forall>name\<in>set names. caps name \<noteq> None)"
    using assms(2) Dynamic by (simp add: Let_def)
  show ?thesis
  proof (cases whole)
    case True
    then obtain n where "names = [n]"
      using assms(1) Dynamic by (auto simp: length_Suc_conv)
    with True show ?thesis
      unfolding acc by (auto simp: Dynamic match_dynamic_def)
  next
    case False
    then show ?thesis
      unfolding acc using push_names_result by (auto simp: Dynamic match_dynamic_def split: option.splits)
  qed
qed

lemma next_segment_first:
  assumes "first_segment cx path = (idx, seg)" "f = None \<or> f = Some (idx, cow_ref seg, is_owned seg, False)"
  shows "next_segment cx path f = (idx, cow_ref seg, is_owned seg, False)"
  using assms by (auto simp: next_segment_def)

lemma find_loop_result:
  assumes "seg_fine k" "first_segment cx path = (idx, seg)" "f = None \<or> f = Some (idx, cow_ref seg, is_owned seg, False)"
  obtains ex where "find_loop cx t (k # key) path skip f segs =
    (if accepts cx k path then after_match cx t k key path skip idx (segs @ ex) else Returns (None, segs @ ex))"
proof -
  obtain ex where "match_segment cx k path (cow_ref seg) (is_owned seg) False skip segs = Returns (accepts cx k path, segs @ ex)"
    using match_segment_result [OF assms(1,2)] by blast
  then have "find_loop cx t (k # key) path skip f segs =
      (if accepts cx k path then after_match cx t k key path skip idx (segs @ ex) else Returns (None, segs @ ex))"
    by (simp add: find_loop_step next_segment_first [OF assms(2,3)])
  then show ?thesis by (rule that)
qed

lemma fst_first_segment: "first_segment cx path = (idx, seg) \<Longrightarrow> idx = find_slash path"
  by (auto simp: first_segment_def Let_def)

section \<open>Children in order\<close>

definition item_body :: "(TreeValue \<Rightarrow> 's \<Rightarrow> ('r option \<times> 's) run) \<Rightarrow> (Tree \<Rightarrow> 's \<Rightarrow> ('r option \<times> 's) run)
    \<Rightarrow> TreeItem \<Rightarrow> 's \<Rightarrow> ('r option \<times> 's) run" where
  "item_body L W it = (case it of Leaf v \<Rightarrow> L v | Subtree t \<Rightarrow> W t)"

lemma item_body_simps [simp]: "item_body L W (Leaf v) = L v" "item_body L W (Subtree t) = W t"
  by (simp_all add: item_body_def)

lemma children_loop_linear:
  assumes "tree_indexed t" "tree_fit t"
    and W: "\<And>t' m segs. Subtree t' \<in> set (t_items t) \<Longrightarrow> W t' m segs = W (unindexed t') m segs"
    and "\<And>t' s segs. first_static (Subtree t') = Some s \<Longrightarrow>
        (seg_eq cx seg s \<longrightarrow> W t' True segs = W t' False segs) \<and>
        (\<not> seg_eq cx seg s \<longrightarrow> W t' False segs = Returns (None, segs))"
  shows "(case children t seg (cx_insensitive cx) of
        Panics \<Rightarrow> Panics | Returns c \<Rightarrow> for_each (child_body L W) (children_collect c) segs) =
     for_each (item_body L (\<lambda>t'. W t' False)) (t_items t) segs"
proof -
  have "for_each (child_body L W) (map (\<lambda>it. (Some it, False)) (unindexed_items items)) segs =
      for_each (item_body L (\<lambda>t'. W t' False)) items segs"
    if "\<And>t' segs. Subtree t' \<in> set items \<Longrightarrow> W t' False segs = W (unindexed t') False segs" for items segs
    using that by (induction items arbitrary: segs rule: items_induct) (auto split: run.splits option.splits)
  moreover obtain c' where "children (unindexed t) seg (cx_insensitive cx) = Returns c'"
    "children_collect c' = map (\<lambda>it. (Some it, False)) (unindexed_items (t_items t))"
    using children_unindexed [OF tree_fitD(2) [OF assms(2)], of seg "cx_insensitive cx"] by auto
  moreover have "(case children t seg (cx_insensitive cx) of
        Panics \<Rightarrow> Panics | Returns c \<Rightarrow> for_each (child_body L W) (children_collect c) segs) =
     (case children (unindexed t) seg (cx_insensitive cx) of
        Panics \<Rightarrow> Panics | Returns c \<Rightarrow> for_each (child_body L W) (children_collect c) segs)"
    by (rule children_loop_unindexed [OF assms(1,2)]) (use W assms(4) in blast)+
  ultimately show ?thesis
    using W by simp
qed

lemma below_linear:
  assumes "tree_indexed t" "tree_fit t" "sp = (if length path = 1 then path else drop 1 path)"
    "first_segment cx sp = (sidx, seg)"
  shows "below cx t path skip segs =
    for_each (item_body (\<lambda>v. check_value cx (slash_value (path = [SLASH]) v) (skip - 1))
      (\<lambda>t'. find_inner_wrapped cx t' sp skip (Some (sidx, cow_ref seg, is_owned seg, False)))) (t_items t) segs"
proof -
  have W: "find_inner_wrapped cx t' sp skip f segs = find_inner_wrapped cx (unindexed t') sp skip f segs"
    if "Subtree t' \<in> set (t_items t)" for t' f segs
    using find_unindexed tree_indexedD(2) [OF assms(1) that] tree_fitD(3) [OF assms(2) that] by blast
  show ?thesis
    unfolding below_def Let_def assms(3) [symmetric] assms(4) prod.case
    by (rule children_loop_linear [OF assms(1,2)]) (erule W, use wrapped_static in blast)
qed

lemma root_children_linear:
  assumes "tree_indexed t" "tree_fit t"
  shows "root_children cx t val path idx seg q segs =
    for_each (item_body (\<lambda>v. check_root cx (val v))
      (\<lambda>t' segs. skip_some (find_inner_wrapped cx t' path 1 (Some (idx, seg, q, False)) segs))) (t_items t) segs"
proof -
  have W: "find_inner_wrapped cx t' path 1 f segs = find_inner_wrapped cx (unindexed t') path 1 f segs"
    if "Subtree t' \<in> set (t_items t)" for t' f segs
    using find_unindexed tree_indexedD(2) [OF assms(1) that] tree_fitD(3) [OF assms(2) that] by blast
  show ?thesis
    unfolding root_children_body
    by (rule children_loop_linear [OF assms]) (auto simp only: W wrapped_static skip_some_def
        run.case option.case prod.case simp_thms)
qed

section \<open>Paths that end with a slash\<close>

text \<open>
  Where the key of a node is consumed and only \<^verbatim>\<open>/\<close> is left, the search below goes on with the path
  \<^verbatim>\<open>/\<close>, while within a key it goes on with the empty path. The difference is not visible if the
  path does not end with a slash, or if no segment accepts an empty one.
\<close>

definition slash_ok :: "Ctx \<Rightarrow> Segment set \<Rightarrow> bytes \<Rightarrow> bool" where
  "slash_ok cx S path \<longleftrightarrow>
     (path \<noteq> [] \<and> last path = SLASH \<longrightarrow> (\<forall>k\<in>S. \<not> accepts cx k [] \<and> \<not> accepts cx k [SLASH]))"

lemma slash_ok_drop: "slash_ok cx S path \<Longrightarrow> slash_ok cx S (drop n path)"
  by (auto simp: slash_ok_def)

lemma slash_ok_mono: "\<lbrakk>slash_ok cx S path; S' \<subseteq> S\<rbrakk> \<Longrightarrow> slash_ok cx S' path"
  by (auto simp: slash_ok_def)

lemma find_slash_le: "find_slash path \<le> length path"
  by (auto simp: find_slash_def dest: str_find_lt split: option.splits)

lemma find_slash_drop:
  assumes "find_slash path < length path"
  shows "drop (find_slash path) path = SLASH # drop (find_slash path + 1) path"
proof -
  obtain i where i: "str_find ((=) SLASH) path = Some i"
    using assms by (auto simp: find_slash_def split: option.splits)
  then have "find_slash path = i"
    by (simp add: find_slash_def)
  moreover have "path ! i = SLASH" "i < length path"
    using i by (auto simp: str_find_Some)
  ultimately show ?thesis by (simp add: Cons_nth_drop_Suc [symmetric])
qed

text \<open>Routes with a key that starts with \<open>k\<close>, below a node that consumed a segment.\<close>

lemma first_route_below:
  assumes "rs \<noteq> [] \<Longrightarrow> \<forall>(k2, v)\<in>set rs. k2 \<noteq> [] \<and> hd k2 = h" "h \<in> S" "slash_ok cx S path"
    "accepts cx k path" "\<not> is_tail k" "find_slash path < length path"
    "sp = (let p = drop (find_slash path) path in if length p = 1 then p else drop 1 p)"
  shows "first_route cx (\<lambda>k2 v. route_accepts cx k2 v sp) rs =
    first_route cx (\<lambda>k2 v. route_accepts cx (k # k2) v path) rs"
proof (rule first_route_cong)
  fix k2 v assume m: "(k2, v) \<in> set rs"
  then have k2: "k2 \<noteq> []" "hd k2 = h" using assms(1) by force+
  have p: "drop (find_slash path) path = SLASH # drop (find_slash path + 1) path"
    by (rule find_slash_drop [OF assms(6)])
  have rhs: "route_accepts cx (k # k2) v path = route_accepts cx k2 v (drop (find_slash path + 1) path)"
    using assms(4-6) k2(1) by (simp add: Let_def)
  show "route_accepts cx k2 v sp = route_accepts cx (k # k2) v path"
  proof (cases "drop (find_slash path + 1) path = []")
    case True
    then have sp: "sp = [SLASH]" using p assms(7) by (simp add: Let_def)
    have "path \<noteq> []" "last path = SLASH"
      using p True assms(6) last_drop [of "find_slash path" path] by auto
    then have "\<not> accepts cx h []" "\<not> accepts cx h [SLASH]"
      using assms(2,3) by (auto simp: slash_ok_def)
    with k2 show ?thesis unfolding rhs sp True by (cases k2) auto
  next
    case False
    then have "sp = drop (find_slash path + 1) path"
      using p assms(7) by (simp add: Let_def)
    then show ?thesis unfolding rhs by simp
  qed
qed

section \<open>The search gives the first route\<close>

lemma slash_value_value: "slash_value b v = Some x \<Longrightarrow> x = tree_value v"
  by (cases v) (auto split: if_splits)

lemma gives_check_value: "gives (check_value cx v skip segs) (case v of None \<Rightarrow> None | Some x \<Rightarrow> if cx_check cx x then Some x else None)"
  by (cases v) auto

lemma prefix_sub:
  assumes "t_key t = []" "list_all is_prefix_leaf (t_items t)"
  obtains vs where "t_items t = map (\<lambda>v. Leaf (Prefix v)) vs" "item_routes [Subtree t] = map (\<lambda>v. ([], PrefixSlash v)) vs"
proof -
  have "\<exists>vs. items = map (\<lambda>v. Leaf (Prefix v)) vs" if "list_all is_prefix_leaf items" for items
    using that
  proof (induction items rule: items_induct)
    case (Leaf v xs)
    then obtain vs x where "xs = map (\<lambda>v. Leaf (Prefix v)) vs" "v = Prefix x"
      by (cases v) auto
    then show ?case by (intro exI [of _ "x # vs"]) simp
  qed auto
  from this [OF assms(2)] obtain vs where vs: "t_items t = map (\<lambda>v. Leaf (Prefix v)) vs" by blast
  have "item_routes (map (\<lambda>v. Leaf (Prefix v)) vs) = map (\<lambda>v. ([], Prefix v)) vs"
    by (induction vs) auto
  then have "item_routes [Subtree t] = map (\<lambda>v. ([], PrefixSlash v)) vs"
    using assms(1) vs by (simp add: routes_alt)
  with vs show ?thesis by (rule that)
qed

lemma find_prefix_sub:
  assumes "t_key t = []" "list_all is_prefix_leaf (t_items t)"
  shows "gives (find_inner_wrapped cx t path skip f segs) (first_route cx (\<lambda>_ _. True) (item_routes [Subtree t]))"
proof -
  obtain vs where vs: "t_items t = map (\<lambda>v. Leaf (Prefix v)) vs" "item_routes [Subtree t] = map (\<lambda>v. ([], PrefixSlash v)) vs"
    using prefix_sub [OF assms] .
  have "gives (prefix_items cx skip (map (\<lambda>v. Leaf (Prefix v)) vs) segs) (first_route cx (\<lambda>_ _. True) (map (\<lambda>v. ([], PrefixSlash v)) vs))"
    by (induction vs arbitrary: segs) (auto simp: prefix_items_def)
  then show ?thesis
    unfolding vs(2) by (simp add: find_inner_wrapped.simps find_inner2.simps assms(1) vs(1))
qed

lemma items_wfD:
  assumes "items_wf items" "Subtree t \<in> set items"
  shows "t_key t = [] \<Longrightarrow> list_all is_prefix_leaf (t_items t)" "t_key t \<noteq> [] \<Longrightarrow> tree_wf t"
    "item_routes [Subtree t] \<noteq> []"
proof -
  have "items_wf [Subtree t]"
    using assms by (induction items rule: items_induct) auto
  then show "t_key t = [] \<Longrightarrow> list_all is_prefix_leaf (t_items t)" "t_key t \<noteq> [] \<Longrightarrow> tree_wf t"
    "item_routes [Subtree t] \<noteq> []"
    using routes_nonempty(2) [of "[Subtree t]"] by auto
qed

lemma tail_checked_fine: "seg_fine k \<Longrightarrow> tail_checked k \<longleftrightarrow> is_tail k"
  by (cases k) auto

lemma route_segs_sub:
  assumes "Subtree t' \<in> set (t_items t)" "t_key t' \<noteq> []"
  shows "route_segs (routes t') \<subseteq> route_segs (routes t)"
proof -
  have "set (routes t') \<subseteq> set (item_routes (t_items t))"
    using assms unfolding item_routes_concat [of "t_items t"] by auto
  then have "route_segs (routes t') \<subseteq> route_segs (item_routes (t_items t))"
    by (auto simp: route_segs_def)
  then show ?thesis using route_segs_item_routes by blast
qed

text \<open>The three loops over the items of a node.\<close>

lemma gives_tail_items:
  assumes "list_all is_leaf items" "\<And>v. acc [] v"
  shows "gives (tail_items cx skip items segs) (first_route cx acc (item_routes items))"
  unfolding tail_items_def
proof (rule gives_items, goal_cases)
  case (1 it s)
  with assms show ?case by (cases it) (auto simp: list_all_iff)
qed

lemma gives_consumed_items:
  assumes "items_wf items" "\<And>v. acc [] v \<longleftrightarrow> (\<exists>x. v = Val x \<or> v = Prefix x)" "\<And>k v. k \<noteq> [] \<Longrightarrow> \<not> acc k v"
  shows "gives (consumed_items cx skip items segs) (first_route cx acc (item_routes items))"
  unfolding consumed_items_def
proof (rule gives_items, goal_cases)
  case (1 it s)
  show ?case
  proof (cases it)
    case (Leaf v)
    then show ?thesis using assms(2) by (cases v) auto
  next
    case (Subtree t)
    have "first_route cx acc (item_routes [Subtree t]) = None"
    proof (cases "t_key t = []")
      case True
      with items_wfD(1) [OF assms(1)] 1 Subtree prefix_sub obtain vs
        where "item_routes [Subtree t] = map (\<lambda>v. ([], PrefixSlash v)) vs" by metis
      then show ?thesis
        unfolding first_route_None using assms(2) by auto
    next
      case False
      then show ?thesis
        unfolding first_route_None using assms(3) by (auto simp: routes_alt)
    qed
    with Subtree show ?thesis by simp
  qed
qed

lemma first_route_none: "(\<And>k v. (k, v) \<in> set rs \<Longrightarrow> \<not> acc k v) \<Longrightarrow> first_route cx acc rs = None"
  by (auto simp: first_route_None)

lemma first_segment_find_slash: "\<exists>seg. first_segment cx path = (find_slash path, seg)"
  by (auto simp: first_segment_def Let_def)

lemma gives_below:
  assumes t: "items_wf (t_items t)" "tree_indexed t" "tree_fit t"
    and k: "accepts cx k path" "\<not> is_tail k" "find_slash path < length path"
    and S: "slash_ok cx (route_segs (item_routes (t_items t))) path"
    and sub: "\<And>t' sp skip sidx seg segs. \<lbrakk>Subtree t' \<in> set (t_items t); t_key t' \<noteq> []; first_segment cx sp = (sidx, seg);
        slash_ok cx (route_segs (routes t')) sp\<rbrakk> \<Longrightarrow>
      gives (find_inner_wrapped cx t' sp skip (Some (sidx, cow_ref seg, is_owned seg, False)) segs)
        (first_route cx (\<lambda>k v. route_accepts cx k v sp) (routes t'))"
  shows "gives (below cx t (drop (find_slash path) path) skip segs)
    (first_route cx (\<lambda>k2 v. route_accepts cx (k # k2) v path) (item_routes (t_items t)))"
proof -
  let ?p = "drop (find_slash path) path"
  define sp where "sp = (if length ?p = 1 then ?p else drop 1 ?p)"
  obtain sidx seg where seg: "first_segment cx sp = (sidx, seg)" by (cases "first_segment cx sp")
  show ?thesis
    unfolding below_linear [OF t(2,3) sp_def seg]
  proof (rule gives_items)
    fix it s assume it: "it \<in> set (t_items t)"
    show "gives (item_body (\<lambda>v. check_value cx (slash_value (?p = [SLASH]) v) (skip - 1))
          (\<lambda>t'. find_inner_wrapped cx t' sp skip (Some (sidx, cow_ref seg, is_owned seg, False))) it s)
        (first_route cx (\<lambda>k2 v. route_accepts cx (k # k2) v path) (item_routes [it]))"
    proof (cases it)
      case (Leaf v)
      have "route_accepts cx [k] v path \<longleftrightarrow> slash_value (?p = [SLASH]) v \<noteq> None"
        using k by (simp add: Let_def)
      then show ?thesis
        using Leaf slash_value_value [of "?p = [SLASH]" v]
        by (cases "slash_value (?p = [SLASH]) v") (auto simp del: route_accepts.simps)
    next
      case (Subtree t')
      note mem = it [unfolded Subtree]
      show ?thesis
      proof (cases "t_key t' = []")
        case True
        note pl = items_wfD(1) [OF t(1) mem True]
        obtain vs where vs: "item_routes [Subtree t'] = map (\<lambda>v. ([], PrefixSlash v)) vs"
          using prefix_sub [OF True pl] .
        have "first_route cx (\<lambda>k2 v. route_accepts cx (k # k2) v path) (item_routes [Subtree t']) =
            first_route cx (\<lambda>_ _. True) (item_routes [Subtree t'])"
          unfolding vs using k by (intro first_route_cong) (auto simp: Let_def)
        then show ?thesis
          using find_prefix_sub [OF True pl] Subtree by simp
      next
        case False
        have ir: "item_routes [Subtree t'] = routes t'" using False by simp
        have seg_sub: "route_segs (routes t') \<subseteq> route_segs (item_routes (t_items t))"
        proof -
          have "set (item_routes [Subtree t']) \<subseteq> set (item_routes (t_items t))"
            using mem unfolding item_routes_concat [of "t_items t"] by (auto simp del: item_routes.simps)
          then show ?thesis unfolding ir by (auto simp: route_segs_def)
        qed
        have hd: "hd (t_key t') \<in> route_segs (item_routes (t_items t))"
          using t_key_routes [OF items_wfD(2) [OF t(1) mem False]] False seg_sub
          by (meson hd_in_set subsetD)
        have "slash_ok cx (route_segs (routes t')) sp"
          using slash_ok_mono [OF S seg_sub] by (auto simp: sp_def intro!: slash_ok_drop simp del: drop_drop)
        from sub [OF mem False seg this] have "gives (find_inner_wrapped cx t' sp skip (Some (sidx, cow_ref seg, is_owned seg, False)) s)
            (first_route cx (\<lambda>k v. route_accepts cx k v sp) (routes t'))" .
        also have "first_route cx (\<lambda>k v. route_accepts cx k v sp) (routes t') =
            first_route cx (\<lambda>k2 v. route_accepts cx (k # k2) v path) (routes t')"
          by (rule first_route_below [OF _ hd S k]) (use False in \<open>auto simp: routes_alt sp_def Let_def\<close>)
        finally show ?thesis using Subtree ir by simp
      qed
    qed
  qed
qed

lemma find_loop_routes:
  assumes t: "items_wf (t_items t)" "tree_indexed t" "tree_fit t"
    and sub: "\<And>t' sp skip sidx seg segs. \<lbrakk>Subtree t' \<in> set (t_items t); t_key t' \<noteq> []; first_segment cx sp = (sidx, seg);
        slash_ok cx (route_segs (routes t')) sp\<rbrakk> \<Longrightarrow>
      gives (find_inner_wrapped cx t' sp skip (Some (sidx, cow_ref seg, is_owned seg, False)) segs)
        (first_route cx (\<lambda>k v. route_accepts cx k v sp) (routes t'))"
    and key: "key \<noteq> []" "key_ok key" "no_tail key \<or> list_all is_leaf (t_items t)"
    and S: "slash_ok cx (route_segs (item_routes (t_items t))) path"
    and f: "first_segment cx path = (idx, seg)" "f = None \<or> f = Some (idx, cow_ref seg, is_owned seg, False)"
  shows "gives (find_loop cx t key path skip f segs)
    (first_route cx (\<lambda>k v. route_accepts cx (key @ k) v path) (item_routes (t_items t)))"
  using key S f
proof (induction key arbitrary: path skip f segs idx seg)
  case (Cons k key)
  have fine: "seg_fine k" using Cons.prems(2) by (simp add: key_ok_Cons)
  have idx: "idx = find_slash path" using fst_first_segment [OF Cons.prems(5)] .
  obtain ex where loop: "find_loop cx t (k # key) path skip f segs =
    (if accepts cx k path then after_match cx t k key path skip idx (segs @ ex) else Returns (None, segs @ ex))"
    using find_loop_result [OF fine Cons.prems(5,6)] .
  show ?case
  proof (cases "accepts cx k path")
    case False
    then show ?thesis unfolding loop by (simp add: first_route_none)
  next
    case acc: True
    consider "is_tail k" | "\<not> is_tail k" "idx = length path" "key = []" | "\<not> is_tail k" "idx = length path" "key \<noteq> []"
      | "\<not> is_tail k" "idx < length path" "key = []" | "\<not> is_tail k" "idx < length path" "key \<noteq> []"
      using find_slash_le [of path] idx by linarith
    then show ?thesis
    proof cases
      case 1
      then have "key = []" and leaves: "list_all is_leaf (t_items t)"
        using Cons.prems(2,3) by (auto simp: key_ok_Cons)
      have "gives (tail_items cx (skip + idx) (t_items t) (segs @ ex))
          (first_route cx (\<lambda>k2 v. route_accepts cx (k # k2) v path) (item_routes (t_items t)))"
        using acc 1 by (intro gives_tail_items leaves) simp
      then show ?thesis
        unfolding loop using acc 1 \<open>key = []\<close>
        by (auto simp: after_match_def tail_checked_fine [OF fine] gives_def split: option.splits)
    next
      case 2
      have "gives (consumed_items cx (skip + idx + 1) (t_items t) (segs @ ex))
          (first_route cx (\<lambda>k2 v. route_accepts cx (k # k2) v path) (item_routes (t_items t)))"
        using acc 2 idx by (intro gives_consumed_items t(1)) (auto simp: Let_def)
      then show ?thesis
        unfolding loop using acc 2 by (simp add: after_match_def tail_checked_fine [OF fine])
    next
      case 3
      then show ?thesis
        unfolding loop using acc idx
        by (simp add: after_match_def tail_checked_fine [OF fine] first_route_none Let_def)
    next
      case 4
      have "gives (below cx t (drop idx path) (skip + idx + 1) (segs @ ex))
          (first_route cx (\<lambda>k2 v. route_accepts cx (k # k2) v path) (item_routes (t_items t)))"
        unfolding idx using acc 4 idx by (intro gives_below t Cons.prems(4) sub) auto
      then show ?thesis
        unfolding loop using acc 4 by (simp add: after_match_def tail_checked_fine [OF fine])
    next
      case 5
      let ?path = "drop (idx + 1) path"
      obtain seg' where seg': "first_segment cx ?path = (find_slash ?path, seg')"
        using first_segment_find_slash by blast
      have "gives (find_loop cx t key ?path (skip + idx + 1) None (segs @ ex))
          (first_route cx (\<lambda>k v. route_accepts cx (key @ k) v ?path) (item_routes (t_items t)))"
        using Cons.prems(2,3) 5(3) slash_ok_drop [OF Cons.prems(4)]
        by (intro Cons.IH [OF _ _ _ _ seg']) (auto simp: key_ok_Cons)
      also have "first_route cx (\<lambda>k v. route_accepts cx (key @ k) v ?path) (item_routes (t_items t)) =
          first_route cx (\<lambda>k2 v. route_accepts cx ((k # key) @ k2) v path) (item_routes (t_items t))"
        using acc 5 idx by (intro first_route_cong) (simp add: Let_def)
      finally show ?thesis
        unfolding loop using acc 5 by (simp add: after_match_def tail_checked_fine [OF fine])
    qed
  qed
qed simp

lemma find_routes:
  assumes "tree_wf t" "tree_indexed t" "tree_fit t" "t_key t \<noteq> []"
    "slash_ok cx (route_segs (routes t)) path"
    "first_segment cx path = (idx, seg)" "f = None \<or> f = Some (idx, cow_ref seg, is_owned seg, False)"
  shows "gives (find_inner_wrapped cx t path skip f segs) (first_route cx (\<lambda>k v. route_accepts cx k v path) (routes t))"
  using assms
proof (induction t arbitrary: path skip f segs idx seg rule: measure_induct_rule [where f = size])
  case (less t)
  have sub: "gives (find_inner_wrapped cx t' sp skip (Some (sidx, cow_ref seg, is_owned seg, False)) segs)
        (first_route cx (\<lambda>k v. route_accepts cx k v sp) (routes t'))"
    if m: "Subtree t' \<in> set (t_items t)" "t_key t' \<noteq> []" "first_segment cx sp = (sidx, seg)"
      "slash_ok cx (route_segs (routes t')) sp" for t' sp skip sidx seg segs
  proof -
    have "tree_wf t'"
      using items_wfD(2) [OF _ m(1,2)] less.prems(1) by (simp add: tree_wf_alt)
    from less.IH [OF size_subtree [OF m(1)] this tree_indexedD(2) [OF less.prems(2) m(1)]
        tree_fitD(3) [OF less.prems(3) m(1)] m(2,4,3)]
    show ?thesis by simp
  qed
  have wf: "items_wf (t_items t)" "key_ok (t_key t)" "no_tail (t_key t) \<or> list_all is_leaf (t_items t)"
    using less.prems(1) by (auto simp: tree_wf_alt)
  have "gives (find_loop cx t (t_key t) path skip f segs)
      (first_route cx (\<lambda>k v. route_accepts cx (t_key t @ k) v path) (item_routes (t_items t)))"
    by (rule find_loop_routes [OF wf(1) less.prems(2,3) sub less.prems(4) wf(2,3)
          slash_ok_mono [OF less.prems(5) route_segs_item_routes] less.prems(6,7)])
  then show ?case
    using less.prems(4)
    by (simp add: find_inner_wrapped.simps find_inner2.simps routes_alt [of t] first_route_map)
qed

section \<open>The search at the root\<close>

lemma first_segment_base [simp]: "first_segment (cx\<lparr>cx_base_skip := b\<rparr>) path = first_segment cx path"
  by (simp add: first_segment_def Let_def)

lemma accepts_base [simp]: "accepts (cx\<lparr>cx_base_skip := b\<rparr>) k path = accepts cx k path"
  by (cases k) (simp_all add: seg_eq_def Let_def)

lemma route_accepts_base [simp]: "route_accepts (cx\<lparr>cx_base_skip := b\<rparr>) key v path = route_accepts cx key v path"
  by (induction cx key v path rule: route_accepts.induct) (simp_all add: Let_def)

lemma first_route_base [simp]: "first_route (cx\<lparr>cx_base_skip := b\<rparr>) acc rs = first_route cx acc rs"
  by (induction cx acc rs rule: first_route.induct) simp_all

lemma slash_ok_base [simp]: "slash_ok (cx\<lparr>cx_base_skip := b\<rparr>) S path = slash_ok cx S path"
  by (simp add: slash_ok_def)

lemma strip_first_unslash:
  assumes "path \<noteq> []"
  shows "(case strip_first SLASH path of Some s \<Rightarrow> (s, a) | None \<Rightarrow> (path, b)) =
    (unslash path, if starts_slash path then a else b)"
  using assms by (cases path) (auto simp: unslash_def starts_slash_def)

lemma slash_ok_unslash: "slash_ok cx S path \<Longrightarrow> slash_ok cx S (unslash path)"
  using slash_ok_drop [of cx S path 1] by (auto simp: unslash_def drop_Suc)

lemma gives_root_children:
  assumes t: "items_wf (t_items t)" "tree_indexed t" "tree_fit t"
    and acc: "\<And>v. acc [] v \<longleftrightarrow> val v \<noteq> None" "\<And>v x. val v = Some x \<Longrightarrow> x = tree_value v"
      "\<And>k v. k \<noteq> [] \<Longrightarrow> acc k v \<longleftrightarrow> route_accepts cx k v sp" "\<And>x. acc [] (PrefixSlash x)"
    and S: "slash_ok cx (route_segs (item_routes (t_items t))) sp"
    and seg: "first_segment cx sp = (idx, seg)"
  shows "gives (root_children cx t val sp idx (cow_ref seg) (is_owned seg) segs) (first_route cx acc (item_routes (t_items t)))"
  unfolding root_children_linear [OF t(2,3)]
proof (rule gives_items)
  fix it s assume it: "it \<in> set (t_items t)"
  show "gives (item_body (\<lambda>v. check_root cx (val v))
      (\<lambda>t' segs. skip_some (find_inner_wrapped cx t' sp 1 (Some (idx, cow_ref seg, is_owned seg, False)) segs)) it s)
      (first_route cx acc (item_routes [it]))"
  proof (cases it)
    case (Leaf v)
    with acc(1,2) [of v] show ?thesis by (cases "val v") auto
  next
    case (Subtree t')
    note mem = it [unfolded Subtree]
    show ?thesis
    proof (cases "t_key t' = []")
      case True
      note pl = items_wfD(1) [OF t(1) mem True]
      obtain vs where vs: "item_routes [Subtree t'] = map (\<lambda>v. ([], PrefixSlash v)) vs"
        using prefix_sub [OF True pl] .
      have "first_route cx acc (item_routes [Subtree t']) = first_route cx (\<lambda>_ _. True) (item_routes [Subtree t'])"
        unfolding vs by (rule first_route_cong) (use acc(4) in auto)
      then show ?thesis using find_prefix_sub [OF True pl] Subtree by simp
    next
      case False
      have ir: "item_routes [Subtree t'] = routes t'" using False by simp
      have "set (item_routes [Subtree t']) \<subseteq> set (item_routes (t_items t))"
        using mem unfolding item_routes_concat [of "t_items t"] by (auto simp del: item_routes.simps)
      then have "slash_ok cx (route_segs (routes t')) sp"
        unfolding ir by (intro slash_ok_mono [OF S]) (auto simp: route_segs_def)
      from find_routes [OF items_wfD(2) [OF t(1) mem False] tree_indexedD(2) [OF t(2) mem] tree_fitD(3) [OF t(3) mem] False this seg]
      have "gives (find_inner_wrapped cx t' sp 1 (Some (idx, cow_ref seg, is_owned seg, False)) s)
          (first_route cx (\<lambda>k v. route_accepts cx k v sp) (routes t'))" by simp
      also have "first_route cx (\<lambda>k v. route_accepts cx k v sp) (routes t') = first_route cx acc (routes t')"
        by (rule first_route_cong) (use False acc(3) in \<open>auto simp: routes_alt\<close>)
      finally show ?thesis using Subtree ir by simp
    qed
  qed
qed

lemma items_wf_mem: "\<lbrakk>items_wf items; it \<in> set items\<rbrakk> \<Longrightarrow> items_wf [it]"
  by (induction items rule: items_induct) auto

lemma gives_empty_root:
  assumes "items_wf items" "\<And>v. acc [] v \<longleftrightarrow> (\<exists>x. v = Val x \<or> v = Prefix x)" "\<And>k v. k \<noteq> [] \<Longrightarrow> \<not> acc k v"
  shows "gives (for_each (\<lambda>it. check_root cx (empty_root_value it)) items segs) (first_route cx acc (item_routes items))"
proof (rule gives_items)
  fix it s assume it: "it \<in> set items"
  show "gives (check_root cx (empty_root_value it) s) (first_route cx acc (item_routes [it]))"
  proof (cases it)
    case (Leaf v)
    then show ?thesis using assms(2) by (cases v) auto
  next
    case (Subtree t)
    have "gives (consumed_items cx 0 [it] s) (first_route cx acc (item_routes [it]))"
      by (rule gives_consumed_items [where acc = acc, OF items_wf_mem [OF assms(1) it] assms(2,3)])
    with Subtree show ?thesis by (simp add: consumed_items_def)
  qed
qed

lemma find_root_routes:
  assumes t: "tree_wf t" "tree_indexed t" "tree_fit t"
    and S: "slash_ok cx (route_segs (routes t)) path"
    and e: "cx_unquote cx \<longrightarrow> cx_decode cx [] = Borrowed []"
  shows "gives (find_root cx t path segs) (first_route cx (\<lambda>k v. root_accepts cx k v path) (routes t))"
proof (cases "t_key t = []")
  case True
  have wf: "items_wf (t_items t)" using t(1) by (simp add: tree_wf_alt)
  have r: "routes t = item_routes (t_items t)" using True by (simp add: routes_alt)
  consider "path = [SLASH]" | "path = []" | "path \<noteq> []" "path \<noteq> [SLASH]" by blast
  then show ?thesis
  proof cases
    case 1
    let ?cx = "cx\<lparr>cx_base_skip := cx_base_skip cx - 1\<rparr>"
    have seg: "first_segment ?cx [] = (0, Borrowed [])"
      using e by (simp add: first_segment_def find_slash_def)
    have "gives (root_children ?cx t slash_root_value [] 0 (cow_ref (Borrowed [])) (is_owned (Borrowed [])) segs)
        (first_route ?cx (\<lambda>k v. root_accepts cx k v path) (item_routes (t_items t)))"
    proof (rule gives_root_children [OF wf t(2,3) _ _ _ _ _ seg])
      show "root_accepts cx [] v path = (slash_root_value v \<noteq> None)" for v
        using 1 by (cases v) (auto simp: root_accepts_def)
      show "x = tree_value v" if "slash_root_value v = Some x" for v x
        using that by (cases v) auto
    qed (auto simp: root_accepts_def 1 unslash_def starts_slash_def slash_ok_def)
    with True 1 r show ?thesis by (simp add: find_root_def)
  next
    case 2
    have "gives (for_each (\<lambda>it. check_root cx (empty_root_value it)) (t_items t) segs)
        (first_route cx (\<lambda>k v. root_accepts cx k v path) (item_routes (t_items t)))"
      by (rule gives_empty_root [OF wf]) (auto simp: root_accepts_def 2)
    with True 2 r show ?thesis by (simp add: find_root_def)
  next
    case 3
    define cx' where "cx' = (if starts_slash path then cx else cx\<lparr>cx_base_skip := cx_base_skip cx - 1\<rparr>)"
    obtain idx seg where seg: "first_segment cx' (unslash path) = (idx, seg)" by (cases "first_segment cx' (unslash path)")
    have "gives (root_children cx' t prefix_root_value (unslash path) idx (cow_ref seg) (is_owned seg) segs)
        (first_route cx' (\<lambda>k v. root_accepts cx k v path) (item_routes (t_items t)))"
    proof (rule gives_root_children [OF wf t(2,3) _ _ _ _ _ seg])
      show "root_accepts cx [] v path = (prefix_root_value v \<noteq> None)" for v
        using 3 by (cases v) (auto simp: root_accepts_def)
      show "x = tree_value v" if "prefix_root_value v = Some x" for v x
        using that by (cases v) auto
      show "slash_ok cx' (route_segs (item_routes (t_items t))) (unslash path)"
        using slash_ok_unslash [OF S] r by (simp add: cx'_def)
    qed (auto simp: root_accepts_def 3 cx'_def)
    then show ?thesis
      using True 3 r seg by (simp add: find_root_def strip_first_unslash cx'_def split: if_splits)
  qed
next
  case False
  show ?thesis
  proof (cases "path = []")
    case True
    with False show ?thesis
      by (simp add: find_root_def root_accepts_def) (rule sym, rule first_route_none, auto simp: routes_alt)
  next
    case ne: False
    define cx' where "cx' = (if starts_slash path then cx else cx\<lparr>cx_base_skip := cx_base_skip cx - 1\<rparr>)"
    obtain seg where seg: "first_segment cx' (unslash path) = (find_slash (unslash path), seg)"
      using first_segment_find_slash by blast
    have "gives (find_inner_wrapped cx' t (unslash path) 1 None segs)
        (first_route cx' (\<lambda>k v. route_accepts cx' k v (unslash path)) (routes t))"
      using slash_ok_unslash [OF S] by (intro find_routes [OF t False _ seg]) (simp_all add: cx'_def)
    moreover have "first_route cx' (\<lambda>k v. route_accepts cx' k v (unslash path)) (routes t) =
        first_route cx (\<lambda>k v. root_accepts cx k v path) (routes t)"
      by (simp add: cx'_def) (intro conjI impI first_route_cong; use False ne in \<open>auto simp: routes_alt root_accepts_def\<close>)
    ultimately show ?thesis
      using False ne by (simp add: find_root_def strip_first_unslash cx'_def split: if_splits)
  qed
qed

end
