(* ===== verification/Router_Safe.thy ===== *)
theory Router_Safe
  imports Router_Routes
begin

text \<open>
  Invariants of a search in the pattern tree: it returns, it undoes the captures of a branch that
  fails, and the captured ranges stay inside the path. The locale \<open>search_inv\<close> carries an invariant
  of the captures through the search once.
\<close>

section \<open>Invariants of a search\<close>

text \<open>The result of a loop within a key, and of a call whose captures are undone if it fails.\<close>

definition safe_loop :: "(Captured \<Rightarrow> bool) \<Rightarrow> Captured \<Rightarrow> Found \<Rightarrow> bool" where
  "safe_loop I segs r \<longleftrightarrow> (\<exists>y ex. r = Returns (y, segs @ ex) \<and> (y \<noteq> None \<longrightarrow> I (segs @ ex)))"

definition safe_call :: "(Captured \<Rightarrow> bool) \<Rightarrow> Captured \<Rightarrow> ('r option \<times> Captured) run \<Rightarrow> bool" where
  "safe_call I segs r \<longleftrightarrow> (\<exists>y s ex. r = Returns (y, s) \<and> (if y = None then s = segs else s = segs @ ex \<and> I s))"

lemma safe_truncate: "safe_loop I segs r \<Longrightarrow> safe_call I segs (truncate_segs (length segs) r)"
  by (auto simp: safe_loop_def safe_call_def truncate_segs_def split: option.splits)

lemma safe_loop_extend: "safe_loop I (segs @ ex) r \<Longrightarrow> safe_loop I segs r"
  unfolding safe_loop_def by fastforce

lemma safe_call_loop: "safe_call I segs r \<Longrightarrow> safe_loop I segs r"
  by (auto simp: safe_call_def safe_loop_def split: if_splits)

lemma safe_call_None [simp]: "safe_call I segs (Returns (None, segs))"
  by (simp add: safe_call_def)

lemma safe_call_Some [simp]: "I segs \<Longrightarrow> safe_call I segs (Returns (Some r, segs))"
  by (simp add: safe_call_def)

lemma safe_check_value [simp]: "I segs \<Longrightarrow> safe_call I segs (check_value cx v skip segs)"
  by (cases v) (auto simp: safe_call_def)

lemma safe_check_root [simp]: "I segs \<Longrightarrow> safe_call I segs (check_root cx v segs)"
  by (cases v) (auto simp: safe_call_def)

lemma safe_skip_some: "safe_call I segs r \<Longrightarrow> safe_call I segs (skip_some r)"
  by (auto simp: safe_call_def skip_some_def split: option.splits)

lemma safe_for_each:
  assumes "\<And>x. x \<in> set xs \<Longrightarrow> safe_call I segs (f x segs)"
  shows "safe_call I segs (for_each f xs segs)"
  using assms
proof (induction xs)
  case (Cons x xs)
  from Cons.prems [of x] obtain y s ex where "f x segs = Returns (y, s)" "if y = None then s = segs else s = segs @ ex \<and> I s"
    by (auto simp: safe_call_def)
  with Cons show ?case
    by (cases y) (auto simp: safe_call_def)
qed simp

lemma safe_prefix_sub:
  assumes "t_key t = []" "list_all is_prefix_leaf (t_items t)" "I segs"
  shows "safe_call I segs (find_inner_wrapped cx t path skip f segs)"
proof -
  obtain vs where vs: "t_items t = map (\<lambda>v. Leaf (Prefix v)) vs"
    using prefix_sub [OF assms(1,2)] .
  have "safe_call I segs (prefix_items cx skip (t_items t) segs)"
    unfolding prefix_items_def vs by (rule safe_for_each) (use assms(3) in auto)
  then show ?thesis
    using safe_truncate [OF safe_call_loop]
    by (simp add: find_inner_wrapped.simps find_inner2.simps assms(1))
qed

text \<open>
  An invariant \<open>I\<close> of the captured segments, with what is known of the rest of the path and its
  position (\<open>Q\<close>), for keys with segments of \<open>S\<close>.
\<close>

locale search_inv =
  fixes cx :: Ctx and S :: "Segment set" and I :: "Captured \<Rightarrow> bool" and Q :: "bytes \<Rightarrow> nat \<Rightarrow> bool"
  assumes push: "\<lbrakk>k \<in> S; seg_fine k; Q path skip; first_segment cx path = (idx, seg); I segs;
      match_segment cx k path (cow_ref seg) (is_owned seg) False skip segs = Returns (True, segs')\<rbrakk> \<Longrightarrow> I segs'"
    and advance: "\<lbrakk>k \<in> S; accepts cx k path; Q path skip; find_slash path < length path\<rbrakk>
      \<Longrightarrow> Q (drop (find_slash path + 1) path) (skip + find_slash path + 1)"
    and only_slash: "\<lbrakk>k \<in> S; accepts cx k path; Q path skip; drop (find_slash path) path = [SLASH]\<rbrakk>
      \<Longrightarrow> Q [SLASH] (skip + find_slash path + 1)"
begin

lemma safe_below:
  assumes t: "items_wf (t_items t)" "tree_indexed t" "tree_fit t"
    and k: "k \<in> S" "accepts cx k path" "Q path skip" "find_slash path < length path" "I segs"
    and sub: "\<And>t' sp sidx seg skip. \<lbrakk>Subtree t' \<in> set (t_items t); t_key t' \<noteq> []; first_segment cx sp = (sidx, seg); Q sp skip\<rbrakk>
      \<Longrightarrow> safe_call I segs (find_inner_wrapped cx t' sp skip (Some (sidx, cow_ref seg, is_owned seg, False)) segs)"
  shows "safe_call I segs (below cx t (drop (find_slash path) path) (skip + find_slash path + 1) segs)"
proof -
  let ?p = "drop (find_slash path) path"
  define sp where "sp = (if length ?p = 1 then ?p else drop 1 ?p)"
  obtain sidx seg where seg: "first_segment cx sp = (sidx, seg)" by (cases "first_segment cx sp")
  have Qsp: "Q sp (skip + find_slash path + 1)"
  proof (cases "length ?p = 1")
    case True
    then have "?p = [SLASH]" using find_slash_drop [OF k(4)] by (simp add: length_Suc_conv)
    with only_slash [OF k(1-3)] show ?thesis by (simp add: sp_def)
  next
    case False
    then have "sp = drop (find_slash path + 1) path" by (simp add: sp_def)
    with advance [OF k(1-4)] show ?thesis by simp
  qed
  show ?thesis
    unfolding below_linear [OF t(2,3) sp_def seg]
  proof (rule safe_for_each)
    fix it assume it: "it \<in> set (t_items t)"
    show "safe_call I segs (item_body (\<lambda>v. check_value cx (slash_value (?p = [SLASH]) v) (skip + find_slash path + 1 - 1))
        (\<lambda>t'. find_inner_wrapped cx t' sp (skip + find_slash path + 1) (Some (sidx, cow_ref seg, is_owned seg, False))) it segs)"
    proof (cases it)
      case (Leaf v)
      then show ?thesis using k(5) by simp
    next
      case (Subtree t')
      note mem = it [unfolded Subtree]
      show ?thesis
      proof (cases "t_key t' = []")
        case True
        then show ?thesis
          using safe_prefix_sub [where I = I, OF True items_wfD(1) [OF t(1) mem True] k(5)] Subtree by simp
      next
        case False
        then show ?thesis using sub [OF mem False seg Qsp] Subtree by simp
      qed
    qed
  qed
qed

lemma safe_after_match:
  assumes t: "items_wf (t_items t)" "tree_indexed t" "tree_fit t"
    and sub: "\<And>t' sp sidx seg skip segs. \<lbrakk>Subtree t' \<in> set (t_items t); t_key t' \<noteq> []; first_segment cx sp = (sidx, seg); Q sp skip; I segs\<rbrakk>
      \<Longrightarrow> safe_call I segs (find_inner_wrapped cx t' sp skip (Some (sidx, cow_ref seg, is_owned seg, False)) segs)"
    and k: "k \<in> S" "seg_fine k" "accepts cx k path" "is_tail k \<Longrightarrow> key = [] \<and> list_all is_leaf (t_items t)"
    and Q: "Q path skip" "I segs" and idx: "idx = find_slash path"
    and loop: "\<lbrakk>key \<noteq> []; \<not> is_tail k; Q (drop (idx + 1) path) (skip + idx + 1)\<rbrakk>
      \<Longrightarrow> safe_loop I segs (find_loop cx t key (drop (idx + 1) path) (skip + idx + 1) None segs)"
  shows "safe_loop I segs (after_match cx t k key path skip idx segs)"
proof -
  note tc = tail_checked_fine [OF k(2)]
  consider "is_tail k" | "\<not> is_tail k" "idx = length path" | "\<not> is_tail k" "idx < length path" "key = []"
    | "\<not> is_tail k" "idx < length path" "key \<noteq> []"
    using find_slash_le [of path] idx by linarith
  then show ?thesis
  proof cases
    case 1
    with k(4) have "key = []" and leaves: "list_all is_leaf (t_items t)" by auto
    have "safe_call I segs (tail_items cx (skip + idx) (t_items t) segs)"
      unfolding tail_items_def
    proof (rule safe_for_each)
      fix it assume "it \<in> set (t_items t)"
      then have "is_leaf it" using leaves by (auto simp: list_all_iff)
      then show "safe_call I segs (case it of Leaf v \<Rightarrow> check_value cx (Some (tree_value v)) (skip + idx) segs | Subtree _ \<Rightarrow> Panics)"
        using Q(2) by (cases it) (auto simp: safe_call_def)
    qed
    moreover have "after_match cx t k key path skip idx segs = tail_items cx (skip + idx) (t_items t) segs"
      using 1 \<open>key = []\<close> by (simp add: after_match_def tc split: run.splits option.splits prod.splits)
    ultimately show ?thesis using safe_call_loop by simp
  next
    case 2
    have "safe_call I segs (consumed_items cx (skip + idx + 1) (t_items t) segs)"
      unfolding consumed_items_def
      by (rule safe_for_each) (use Q(2) in \<open>auto simp: safe_call_def split: TreeItem.splits TreeValue.splits\<close>)
    from safe_call_loop [OF this] show ?thesis
      using 2 by (auto simp: after_match_def tc safe_loop_def)
  next
    case 3
    have "safe_call I segs (below cx t (drop (find_slash path) path) (skip + find_slash path + 1) segs)"
      using 3 idx by (intro safe_below [OF t k(1,3) Q(1) _ Q(2)] sub Q(2)) auto
    from safe_call_loop [OF this] show ?thesis
      using 3 idx by (simp add: after_match_def tc)
  next
    case 4
    then show ?thesis
      using loop advance [OF k(1,3) Q(1)] idx by (simp add: after_match_def tc)
  qed
qed

lemma safe_find_loop:
  assumes t: "items_wf (t_items t)" "tree_indexed t" "tree_fit t"
    and sub: "\<And>t' sp sidx seg skip segs. \<lbrakk>Subtree t' \<in> set (t_items t); t_key t' \<noteq> []; first_segment cx sp = (sidx, seg); Q sp skip; I segs\<rbrakk>
      \<Longrightarrow> safe_call I segs (find_inner_wrapped cx t' sp skip (Some (sidx, cow_ref seg, is_owned seg, False)) segs)"
    and key: "key \<noteq> []" "key_ok key" "no_tail key \<or> list_all is_leaf (t_items t)" "set key \<subseteq> S"
    and Q: "Q path skip" "I segs"
    and f: "first_segment cx path = (idx, seg)" "f = None \<or> f = Some (idx, cow_ref seg, is_owned seg, False)"
  shows "safe_loop I segs (find_loop cx t key path skip f segs)"
  using key Q f
proof (induction key arbitrary: path skip f segs idx seg)
  case (Cons k key)
  have fine: "seg_fine k" and kS: "k \<in> S" and kt: "is_tail k \<Longrightarrow> key = [] \<and> list_all is_leaf (t_items t)"
    using Cons.prems(2-4) by (auto simp: key_ok_Cons)
  have idx: "idx = find_slash path" using fst_first_segment [OF Cons.prems(7)] .
  obtain ex where m: "match_segment cx k path (cow_ref seg) (is_owned seg) False skip segs = Returns (accepts cx k path, segs @ ex)"
    using match_segment_result [OF fine Cons.prems(7)] by blast
  have loop: "find_loop cx t (k # key) path skip f segs =
    (if accepts cx k path then after_match cx t k key path skip idx (segs @ ex) else Returns (None, segs @ ex))"
    by (simp add: find_loop_step next_segment_first [OF Cons.prems(7,8)] m)
  show ?case
  proof (cases "accepts cx k path")
    case False
    then show ?thesis unfolding loop by (simp add: safe_loop_def)
  next
    case acc: True
    have I: "I (segs @ ex)"
      using push [OF kS fine Cons.prems(5,7,6)] m acc by simp
    have "safe_loop I (segs @ ex) (after_match cx t k key path skip idx (segs @ ex))"
    proof (rule safe_after_match [OF t sub kS fine acc kt Cons.prems(5) I idx])
      obtain seg' where seg': "first_segment cx (drop (idx + 1) path) = (find_slash (drop (idx + 1) path), seg')"
        using first_segment_find_slash by blast
      assume "key \<noteq> []" "\<not> is_tail k" "Q (drop (idx + 1) path) (skip + idx + 1)"
      then show "safe_loop I (segs @ ex) (find_loop cx t key (drop (idx + 1) path) (skip + idx + 1) None (segs @ ex))"
        using Cons.prems(2-4) I by (intro Cons.IH [OF _ _ _ _ _ _ seg']) (auto simp: key_ok_Cons)
    qed
    from safe_loop_extend [OF this] show ?thesis unfolding loop using acc by simp
  qed
qed simp

lemma safe_find:
  assumes "tree_wf t" "tree_indexed t" "tree_fit t" "t_key t \<noteq> []" "route_segs (routes t) \<subseteq> S"
    "Q path skip" "I segs"
    "first_segment cx path = (idx, seg)" "f = None \<or> f = Some (idx, cow_ref seg, is_owned seg, False)"
  shows "safe_call I segs (find_inner_wrapped cx t path skip f segs)"
  using assms
proof (induction t arbitrary: path skip f segs idx seg rule: measure_induct_rule [where f = size])
  case (less t)
  have sub: "safe_call I segs (find_inner_wrapped cx t' sp skip (Some (sidx, cow_ref seg, is_owned seg, False)) segs)"
    if m: "Subtree t' \<in> set (t_items t)" "t_key t' \<noteq> []" "first_segment cx sp = (sidx, seg)" "Q sp skip" "I segs"
    for t' sp sidx seg skip segs
  proof -
    have wf: "tree_wf t'"
      using items_wfD(2) [OF _ m(1,2)] less.prems(1) by (simp add: tree_wf_alt)
    have S: "route_segs (routes t') \<subseteq> S"
      using route_segs_sub [OF m(1,2)] less.prems(5) by blast
    from less.IH [OF size_subtree [OF m(1)] wf tree_indexedD(2) [OF less.prems(2) m(1)]
        tree_fitD(3) [OF less.prems(3) m(1)] m(2) S m(4,5,3)]
    show ?thesis by simp
  qed
  have wf: "items_wf (t_items t)" "key_ok (t_key t)" "no_tail (t_key t) \<or> list_all is_leaf (t_items t)"
    using less.prems(1) by (auto simp: tree_wf_alt)
  have kS: "set (t_key t) \<subseteq> S" using t_key_routes [OF less.prems(1)] less.prems(5) by blast
  have "safe_loop I segs (find_loop cx t (t_key t) path skip f segs)"
    by (rule safe_find_loop [OF wf(1) less.prems(2,3) sub less.prems(4) wf(2,3) kS less.prems(6-9)])
  from safe_truncate [OF this] show ?case
    using less.prems(4) by (simp add: find_inner_wrapped.simps find_inner2.simps)
qed

lemma safe_root_children:
  assumes "tree_wf t" "tree_indexed t" "tree_fit t" "route_segs (routes t) \<subseteq> S" "Q path 1" "I segs"
    "first_segment cx path = (idx, seg)"
  shows "safe_call I segs (root_children cx t val path idx (cow_ref seg) (is_owned seg) segs)"
  unfolding root_children_linear [OF assms(2,3)]
proof (rule safe_for_each)
  fix it assume it: "it \<in> set (t_items t)"
  have wf: "items_wf (t_items t)" using assms(1) by (simp add: tree_wf_alt)
  show "safe_call I segs (item_body (\<lambda>v. check_root cx (val v))
      (\<lambda>t' segs. skip_some (find_inner_wrapped cx t' path 1 (Some (idx, cow_ref seg, is_owned seg, False)) segs)) it segs)"
  proof (cases it)
    case (Leaf v)
    then show ?thesis using assms(6) by simp
  next
    case (Subtree t')
    note mem = it [unfolded Subtree]
    have "safe_call I segs (find_inner_wrapped cx t' path 1 (Some (idx, cow_ref seg, is_owned seg, False)) segs)"
    proof (cases "t_key t' = []")
      case True
      show ?thesis by (rule safe_prefix_sub [where I = I, OF True items_wfD(1) [OF wf mem True] assms(6)])
    next
      case False
      have "route_segs (routes t') \<subseteq> S" using route_segs_sub [OF mem False] assms(4) by blast
      from safe_find [OF items_wfD(2) [OF wf mem False] tree_indexedD(2) [OF assms(2) mem]
          tree_fitD(3) [OF assms(3) mem] False this assms(5-7)]
      show ?thesis by simp
    qed
    with Subtree show ?thesis by (simp add: safe_skip_some)
  qed
qed

end

section \<open>The root\<close>

lemma safe_find_root:
  assumes t: "tree_wf t" "tree_indexed t" "tree_fit t" "route_segs (routes t) \<subseteq> S"
    and e: "cx_unquote cx \<longrightarrow> cx_decode cx [] = Borrowed []" and I: "I segs"
    and inv: "\<And>b. search_inv (cx\<lparr>cx_base_skip := b\<rparr>) S I (Q b)"
    and init: "path = [SLASH] \<Longrightarrow> Q (cx_base_skip cx - 1) [] 1"
      "path \<noteq> [] \<Longrightarrow> Q (if starts_slash path then cx_base_skip cx else cx_base_skip cx - 1) (unslash path) 1"
  shows "safe_call I segs (find_root cx t path segs)"
proof -
  define b where "b = (if starts_slash path then cx_base_skip cx else cx_base_skip cx - 1)"
  have cx': "(if starts_slash path then cx else cx\<lparr>cx_base_skip := cx_base_skip cx - 1\<rparr>) = cx\<lparr>cx_base_skip := b\<rparr>"
    by (simp add: b_def)
  obtain seg where seg: "first_segment (cx\<lparr>cx_base_skip := b\<rparr>) (unslash path) = (find_slash (unslash path), seg)"
    using first_segment_find_slash by blast
  consider "t_key t = []" "path = [SLASH]" | "t_key t = []" "path = []" | "t_key t = []" "path \<noteq> []" "path \<noteq> [SLASH]"
    | "t_key t \<noteq> []" "path = []" | "t_key t \<noteq> []" "path \<noteq> []" by blast
  then show ?thesis
  proof cases
    case 1
    let ?cx = "cx\<lparr>cx_base_skip := cx_base_skip cx - 1\<rparr>"
    have "first_segment ?cx [] = (0, Borrowed [])"
      using e by (simp add: first_segment_def find_slash_def)
    from search_inv.safe_root_children [OF inv t init(1) [OF 1(2)] I this, of slash_root_value]
    show ?thesis using 1 by (simp add: find_root_def)
  next
    case 2
    have "safe_call I segs (for_each (\<lambda>it. check_root cx (empty_root_value it)) (t_items t) segs)"
      by (rule safe_for_each) (use I in simp)
    with 2 show ?thesis by (simp add: find_root_def)
  next
    case 3
    from search_inv.safe_root_children [OF inv t init(2) [folded b_def, OF 3(2)] I seg, of prefix_root_value]
    show ?thesis
      using 3 seg by (simp add: find_root_def strip_first_unslash cx')
  next
    case 4
    then show ?thesis by (simp add: find_root_def)
  next
    case 5
    from search_inv.safe_find [OF inv t(1-3) 5(1) t(4) init(2) [folded b_def, OF 5(2)] I seg, of None]
    show ?thesis
      using 5 by (simp add: find_root_def strip_first_unslash cx' safe_skip_some)
  qed
qed

section \<open>A search returns\<close>

interpretation total: search_inv cx S "\<lambda>_. True" "\<lambda>_ _. True" for cx S
  by unfold_locales simp_all

lemma find_root_total:
  assumes "tree_wf t" "tree_indexed t" "tree_fit t" "cx_unquote cx \<longrightarrow> cx_decode cx [] = Borrowed []"
  shows "\<exists>y ex. find_root cx t path segs = Returns (y, if y = None then segs else segs @ ex)"
proof -
  have "safe_call (\<lambda>_. True) segs (find_root cx t path segs)"
    by (rule safe_find_root [OF assms(1-3) order_refl assms(4), where Q = "\<lambda>_ _ _. True"])
      (simp_all add: total.search_inv_axioms)
  then obtain y s ex where r: "find_root cx t path segs = Returns (y, s)" "if y = None then s = segs else s = segs @ ex"
    unfolding safe_call_def by metis
  then have "s = (if y = None then segs else segs @ ex)" by (simp split: if_splits)
  with r(1) show ?thesis by (intro exI [of _ y] exI [of _ ex]) (simp only: )
qed

section \<open>Captured ranges\<close>

text \<open>What the router relies on: ranges of captures are inside the string that was searched.\<close>

definition regex_ranges :: "Regex \<Rightarrow> bool" where
  "regex_ranges R \<longleftrightarrow> (\<forall>p s caps name a b. re_captures R p s = Some caps \<and> caps name = Some (a, b) \<longrightarrow>
     a \<le> b \<and> b \<le> length s)"

text \<open>
  What the router relies on for a path source: a borrowed result of \<^verbatim>\<open>unquote\<close> is the argument, the
  empty segment is not changed, and if nothing of a path is decoded then nothing of its segments is.
\<close>

locale path_source =
  fixes T :: ResourcePath
  assumes borrowed: "rp_unquote T s = Borrowed s' \<Longrightarrow> s' = s"
    and empty: "rp_unquote T [] = Borrowed []"
    and segments: "\<lbrakk>\<not> is_owned (rp_unquote T path); s \<in> set (split_on SLASH path)\<rbrakk> \<Longrightarrow> \<not> is_owned (rp_unquote T s)"

interpretation str_source: path_source str_resource_path
  by unfold_locales auto

lemma item_in_idx_item:
  assumes "0 \<le> cx_base_skip cx + int a" "a \<le> b" "cx_base_skip cx + int b \<le> int n" "n < 2 ^ 32"
  shows "item_in n (idx_item cx a b)"
proof -
  have u: "unat (of_int z :: u32) = nat z" if "0 \<le> z" "z \<le> int n" for z
  proof -
    have "(of_int z :: u32) = of_nat (nat z)" using that(1) by simp
    moreover have "nat z < 2 ^ 32" using that assms(4) by linarith
    ultimately show ?thesis by (simp add: unat_of_nat)
  qed
  have "unat (of_int (cx_base_skip cx + int a) :: u32) = nat (cx_base_skip cx + int a)"
    "unat (of_int (cx_base_skip cx + int b) :: u32) = nat (cx_base_skip cx + int b)"
    using assms by (intro u; linarith)+
  moreover have "nat (cx_base_skip cx + int a) \<le> nat (cx_base_skip cx + int b)" "nat (cx_base_skip cx + int b) \<le> n"
    using assms by linarith+
  ultimately show ?thesis
    by (simp add: idx_item_def word_le_nat_alt)
qed

definition segs_in :: "nat \<Rightarrow> Captured \<Rightarrow> bool" where
  "segs_in n segs \<longleftrightarrow> (\<forall>(name, it)\<in>set segs. item_in n it)"

lemma segs_in_simps [simp]:
  "segs_in n []" "segs_in n (xs @ ys) \<longleftrightarrow> segs_in n xs \<and> segs_in n ys" "segs_in n ((name, it) # xs) \<longleftrightarrow> item_in n it \<and> segs_in n xs"
  by (auto simp: segs_in_def)

lemma push_names_in:
  assumes "\<And>name a b. caps name = Some (a, b) \<Longrightarrow> a \<le> b \<and> b \<le> len"
    "0 \<le> cx_base_skip cx + int skip" "cx_base_skip cx + int skip + int len \<le> int n" "n < 2 ^ 32"
    "segs_in n segs"
  shows "segs_in n (snd (push_names cx seg q skip caps names segs))"
  using assms(5)
proof (induction names arbitrary: segs)
  case (Cons nm names)
  show ?case
  proof (cases "caps nm")
    case None
    then show ?thesis using Cons.prems by simp
  next
    case (Some ab)
    obtain a b where ab: "ab = (a, b)" by (cases ab)
    have r: "a \<le> b" "b \<le> len" using assms(1) Some ab by blast+
    let ?it = "if q then Item_Segment (take (b - a) (drop a seg)) else idx_item cx (skip + a) (skip + b)"
    have "item_in n (idx_item cx (skip + a) (skip + b))"
      using r assms(2-4) by (intro item_in_idx_item) auto
    then have "segs_in n (segs @ [(nm, ?it)])"
      using Cons.prems by (simp split: if_splits)
    from Cons.IH [OF this] show ?thesis by (simp add: Some ab)
  qed
qed simp

lemma match_segment_in:
  assumes "seg_fine k" "\<And>p s caps name a b. \<lbrakk>cx_captures cx p s = Some caps; caps name = Some (a, b)\<rbrakk> \<Longrightarrow> a \<le> b \<and> b \<le> length s"
    "0 \<le> cx_base_skip cx + int skip" "cx_base_skip cx + int skip + int (length path) \<le> int n" "n < 2 ^ 32"
    "\<not> q \<Longrightarrow> length seg \<le> length path" "segs_in n segs"
    "match_segment cx k path seg q m skip segs = Returns (b, segs')"
  shows "segs_in n segs'"
proof (cases k)
  case (Static s)
  with assms(7,8) show ?thesis by simp
next
  case (Dynamic p names tail whole)
  define s0 where "s0 = (if tail then path else seg)"
  have len: "\<not> q \<Longrightarrow> length s0 \<le> length path" using assms(6) by (simp add: s0_def)
  show ?thesis
  proof (cases whole)
    case True
    have "item_in n (idx_item cx skip (skip + length s0))" if "\<not> q"
      using assms(3-5) len [OF that] by (intro item_in_idx_item) auto
    then show ?thesis
      using assms(7,8) True
      by (auto simp: Dynamic match_dynamic_def simp flip: s0_def split: if_splits list.splits)
  next
    case False
    then have res: "(case cx_captures cx p s0 of None \<Rightarrow> (False, segs)
        | Some caps \<Rightarrow> push_names cx s0 q skip caps names segs) = (b, segs')"
      using assms(8) by (simp add: Dynamic match_dynamic_def flip: s0_def split: option.splits)
    have "segs_in n (snd (push_names cx s0 q skip caps names segs))" if "cx_captures cx p s0 = Some caps" for caps
    proof (cases q)
      case True
      have "segs_in n (snd (push_names cx s0 True skip caps names segs))"
        using assms(7) by (induction names arbitrary: segs) (auto split: option.splits)
      with True show ?thesis by simp
    next
      case nq: False
      show ?thesis
        using assms(2) [OF that] len [OF nq] assms(3-5,7)
        by (intro push_names_in [where len = "length s0"]) auto
    qed
    then show ?thesis
      using res assms(7) by (cases "cx_captures cx p s0") auto
  qed
qed

text \<open>The rest of the path lies inside the full path, unless it is the slash that no segment accepts.\<close>

definition in_path :: "Ctx \<Rightarrow> Segment set \<Rightarrow> nat \<Rightarrow> int \<Rightarrow> bytes \<Rightarrow> nat \<Rightarrow> bool" where
  "in_path cx S n b path skip \<longleftrightarrow> 0 \<le> b + int skip \<and>
     (b + int skip + int (length path) \<le> int n \<and> slash_ok cx S path \<or>
      path = [SLASH] \<and> (\<forall>k\<in>S. \<not> accepts cx k [SLASH]))"

lemma search_inv_bounds:
  assumes caps: "\<And>p s caps name a b. \<lbrakk>cx_captures cx p s = Some caps; caps name = Some (a, b)\<rbrakk> \<Longrightarrow> a \<le> b \<and> b \<le> length s"
    and dec: "\<And>s s'. cx_decode cx s = Borrowed s' \<Longrightarrow> s' = s" and n: "n < 2 ^ 32"
  shows "search_inv (cx\<lparr>cx_base_skip := b\<rparr>) S (segs_in n) (in_path cx S n b)"
proof
  fix k path skip idx seg segs segs'
  assume k: "k \<in> S" "seg_fine k" "in_path cx S n b path skip"
    "first_segment (cx\<lparr>cx_base_skip := b\<rparr>) path = (idx, seg)" "segs_in n segs"
    "match_segment (cx\<lparr>cx_base_skip := b\<rparr>) k path (cow_ref seg) (is_owned seg) False skip segs = Returns (True, segs')"
  have "accepts cx k path"
    using match_segment_result [OF k(2,4), of "is_owned seg" skip segs] k(6) by auto
  then have pos: "0 \<le> b + int skip" "b + int skip + int (length path) \<le> int n"
    using k(1,3) by (auto simp: in_path_def)
  have "seg = Borrowed (take idx path)" if "\<not> is_owned seg"
    using k(4) that dec by (cases seg) (auto simp: first_segment_def Let_def split: if_splits)
  then have "length (cow_ref seg) \<le> length path" if "\<not> is_owned seg"
    using that by simp
  then show "segs_in n segs'"
    by (intro match_segment_in [OF k(2) _ _ _ n _ k(5,6)]) (use caps pos in auto)
next
  fix k path skip
  assume k: "k \<in> S" "accepts (cx\<lparr>cx_base_skip := b\<rparr>) k path" "in_path cx S n b path skip" "find_slash path < length path"
  then have "0 \<le> b + int skip" "b + int skip + int (length path) \<le> int n" "slash_ok cx S path"
    by (auto simp: in_path_def)
  with k(4) show "in_path cx S n b (drop (find_slash path + 1) path) (skip + find_slash path + 1)"
    unfolding in_path_def by (auto intro!: slash_ok_drop simp: of_nat_diff)
next
  fix k path skip
  assume k: "k \<in> S" "accepts (cx\<lparr>cx_base_skip := b\<rparr>) k path" "in_path cx S n b path skip" "drop (find_slash path) path = [SLASH]"
  then have "0 \<le> b + int skip" "slash_ok cx S path"
    by (auto simp: in_path_def)
  moreover have "path \<noteq> []" "last path = SLASH"
    using k(4) last_drop [of "find_slash path" path] by (auto, metis drop_eq_Nil last.simps list.distinct(1) not_le)
  ultimately show "in_path cx S n b [SLASH] (skip + find_slash path + 1)"
    by (auto simp: in_path_def slash_ok_def)
qed

lemma find_root_bounds:
  assumes t: "tree_wf t" "tree_indexed t" "tree_fit t"
    and caps: "\<And>p s caps name a b. \<lbrakk>cx_captures cx p s = Some caps; caps name = Some (a, b)\<rbrakk> \<Longrightarrow> a \<le> b \<and> b \<le> length s"
    and dec: "\<And>s s'. cx_decode cx s = Borrowed s' \<Longrightarrow> s' = s" "cx_decode cx [] = Borrowed []"
    and n: "n < 2 ^ 32" "0 \<le> cx_base_skip cx" "cx_base_skip cx + int (length path) \<le> int n"
    and S: "slash_ok cx (route_segs (routes t)) path" and segs: "segs_in n segs"
  shows "safe_call (segs_in n) segs (find_root cx t path segs)"
proof (rule safe_find_root [where I = "segs_in n", OF t order_refl _ segs])
  show "search_inv (cx\<lparr>cx_base_skip := b\<rparr>) (route_segs (routes t)) (segs_in n) (in_path cx (route_segs (routes t)) n b)" for b
    using caps dec(1) n(1) by (rule search_inv_bounds)
  show "path = [SLASH] \<Longrightarrow> in_path cx (route_segs (routes t)) n (cx_base_skip cx - 1) [] 1"
    using n by (simp add: in_path_def slash_ok_def)
  show "path \<noteq> [] \<Longrightarrow> in_path cx (route_segs (routes t)) n
      (if starts_slash path then cx_base_skip cx else cx_base_skip cx - 1) (unslash path) 1"
    using n slash_ok_unslash [OF S] by (cases path) (auto simp: in_path_def unslash_def starts_slash_def)
qed (use dec(2) in simp)

section \<open>Matching a path\<close>

text \<open>The context of a match.\<close>

definition match_ctx :: "Regex \<Rightarrow> ResourcePath \<Rightarrow> Path \<Rightarrow> bool \<Rightarrow> (nat \<Rightarrow> Path \<Rightarrow> bool) \<Rightarrow> Ctx" where
  "match_ctx R T p insensitive check =
     \<lparr>cx_check = (\<lambda>v. check v (p\<lparr>p_segments := []\<rparr>)), cx_insensitive = insensitive,
      cx_unquote = rp_needs_unquote T (Path_path p), cx_base_skip = int (unat (p_skip p)),
      cx_captures = re_captures R, cx_decode = rp_unquote T\<rparr>"

lemma match_ctx_simps [simp]:
  "cx_check (match_ctx R T p ins check) v = check v (p\<lparr>p_segments := []\<rparr>)"
  "cx_insensitive (match_ctx R T p ins check) = ins"
  "cx_unquote (match_ctx R T p ins check) = rp_needs_unquote T (Path_path p)"
  "cx_base_skip (match_ctx R T p ins check) = int (unat (p_skip p))"
  "cx_captures (match_ctx R T p ins check) = re_captures R"
  "cx_decode (match_ctx R T p ins check) = rp_unquote T"
  by (simp_all add: match_ctx_def)

lemma Path_path_segments [simp]: "Path_path (p\<lparr>p_segments := s\<rparr>) = Path_path p"
  by (simp add: Path_path_def)

text \<open>The path after a match of the tree.\<close>

definition matched_path :: "Path \<Rightarrow> ((nat \<times> nat option) option \<times> Captured) \<Rightarrow> nat option \<times> Path" where
  "matched_path p r = (case r of
       (None, _) \<Rightarrow> (None, p\<lparr>p_segments := []\<rparr>)
     | (Some (v, skip), segs) \<Rightarrow>
         (Some v, (case skip of None \<Rightarrow> id | Some n \<Rightarrow> Path_skip (of_nat n)) (p\<lparr>p_segments := segs\<rparr>)))"

lemma find_checked_inner_alt:
  "find_checked_inner R T t p ins check =
     (case find_exact t (Path_path p) of
        Panics \<Rightarrow> Panics
      | Returns e \<Rightarrow>
          (case (case e of
                None \<Rightarrow> None
              | Some e \<Rightarrow>
                  (if (\<not> rp_needs_unquote T (Path_path p) \<or> \<not> is_owned (rp_unquote T (Path_path p))) \<and>
                      check (unat (ex_value e)) (p\<lparr>p_segments := []\<rparr>)
                   then Some (unat (ex_value e), Some (unat (ex_skip e))) else None)) of
             Some r \<Rightarrow> Returns (matched_path p (Some r, p_segments p))
           | None \<Rightarrow>
               (case find_root (match_ctx R T p ins check) t (Path_path p) (p_segments p) of
                  Panics \<Rightarrow> Panics
                | Returns r \<Rightarrow> Returns (matched_path p r))))"
  unfolding find_checked_inner_def Let_def Path_path_segments match_ctx_def
  by (simp add: matched_path_def split: run.split option.split prod.split)

lemma matched_path_ok:
  assumes "unat (p_skip p) \<le> length (p_resource p)" "length (p_resource p) < 2 ^ 32"
    "segs_in (length (p_resource p)) segs"
  shows "path_ok (snd (matched_path p (r, segs)))"
  using assms Path_skip_le [of "p\<lparr>p_segments := segs\<rparr>"]
  by (auto simp: matched_path_def path_ok_def segs_in_def split: option.splits prod.splits)

end
