(* ===== verification/Router_Build.thy ===== *)
theory Router_Build
  imports Router_Find
begin

text \<open>
  The table of static paths (\<^verbatim>\<open>Tree::set_exact\<close>) and the router itself,
  \<^verbatim>\<open>ntex-router/src/router.rs\<close>: the builder, the construction of the tree and \<^verbatim>\<open>recognize\<close>.
\<close>

section \<open>The table of static paths\<close>

text \<open>
  The loop over the paths: a path is kept if the tree matches it to its own value without
  captures.
\<close>

fun exact_found :: "Regex \<Rightarrow> Tree \<Rightarrow> bool \<Rightarrow> (nat \<times> bytes) list \<Rightarrow> (bytes \<times> u32 \<times> u32) list
    \<Rightarrow> (bytes \<times> u32 \<times> u32) list run" where
  "exact_found R t insensitive [] found = Returns found"
| "exact_found R t insensitive ((val, path) # paths) found =
     (if path \<in> fst ` set found then exact_found R t insensitive paths found
      else case find_checked_inner R str_resource_path t (Path_new path) insensitive (\<lambda>_ _. True) of
        Panics \<Rightarrow> Panics
      | Returns (r, res) \<Rightarrow>
          exact_found R t insensitive paths
            (if r = Some val \<and> p_segments res = [] \<and> int val < 2 ^ 32 \<and> (of_nat val :: u32) \<noteq> - 1
             then found @ [(path, of_nat val, p_skip res)] else found))"

fun place_exact :: "(bytes \<times> u32 \<times> u32) list \<Rightarrow> TreeExact list \<Rightarrow> TreeExact list run" where
  "place_exact [] table = Returns table"
| "place_exact ((path, val, skip) # es) table =
     (case probe exact_free table (static_slot (static_key path) (length table - 1)) of
        None \<Rightarrow> Panics
      | Some slot \<Rightarrow> place_exact es (table[slot :=
          \<lparr>ex_key = static_key path, ex_path = path, ex_value = val, ex_skip = skip\<rparr>]))"

fun with_exact :: "TreeExact list \<Rightarrow> Tree \<Rightarrow> Tree" where
  "with_exact ex (Tree k i s r e) = Tree k i s r ex"

definition set_exact :: "Regex \<Rightarrow> Tree \<Rightarrow> (nat \<times> bytes) list \<Rightarrow> bool \<Rightarrow> Tree run" where
  "set_exact R t paths insensitive =
     (let t = with_exact [] t
      in case exact_found R t insensitive paths [] of
           Panics \<Rightarrow> Panics
         | Returns found \<Rightarrow>
             (if found = [] then Returns t
              else case place_exact found (replicate (next_power_of_two (length found * 2))
                    \<lparr>ex_key = (0, 0, 0), ex_path = [], ex_value = - 1, ex_skip = 0\<rparr>) of
                Panics \<Rightarrow> Panics
              | Returns table \<Rightarrow> Returns (with_exact table t)))"

section \<open>Routers\<close>

record ('t, 'u) RouterEntry =
  re_rdef :: ResourceDef
  re_value :: 't
  re_check :: "'u option"

definition entry_set_check :: "'u option \<Rightarrow> ('t, 'u) RouterEntry \<Rightarrow> ('t, 'u) RouterEntry" where
  "entry_set_check c e = e\<lparr>re_check := c\<rparr>"

definition entry_set_id :: "u16 \<Rightarrow> ('t, 'u) RouterEntry \<Rightarrow> ('t, 'u) RouterEntry" where
  "entry_set_id i e = e\<lparr>re_rdef := ResourceDef_set_id i (re_rdef e)\<rparr>"

definition entry_set_name :: "bytes \<Rightarrow> ('t, 'u) RouterEntry \<Rightarrow> ('t, 'u) RouterEntry" where
  "entry_set_name name e = e\<lparr>re_rdef := ResourceDef_set_name name (re_rdef e)\<rparr>"

record ('t, 'u) RouterBuilder =
  rb_insensitive :: bool
  rb_resources :: "('t, 'u) RouterEntry list"

record ('t, 'u) Router =
  ro_tree :: Tree
  ro_resources :: "('t, 'u) RouterEntry list"
  ro_insensitive :: bool

definition Router_builder :: "('t, 'u) RouterBuilder" where
  "Router_builder = \<lparr>rb_insensitive = False, rb_resources = []\<rparr>"

definition case_insensitive :: "('t, 'u) RouterBuilder \<Rightarrow> ('t, 'u) RouterBuilder" where
  "case_insensitive b = b\<lparr>rb_insensitive := True\<rparr>"

definition builder_resource :: "ResourceDef \<Rightarrow> 't \<Rightarrow> ('t, 'u) RouterBuilder \<Rightarrow> ('t, 'u) RouterBuilder" where
  "builder_resource rd x b =
     b\<lparr>rb_resources := rb_resources b @ [\<lparr>re_rdef = rd, re_value = x, re_check = None\<rparr>]\<rparr>"

definition builder_path ::
    "Regex \<Rightarrow> bytes list \<Rightarrow> 't \<Rightarrow> ('t, 'u) RouterBuilder \<Rightarrow> ('t, 'u) RouterBuilder run" where
  "builder_path R path x b = (case ResourceDef_new R path of
       Panics \<Rightarrow> Panics | Returns rd \<Rightarrow> Returns (builder_resource rd x b))"

definition builder_prefix ::
    "Regex \<Rightarrow> bytes list \<Rightarrow> 't \<Rightarrow> ('t, 'u) RouterBuilder \<Rightarrow> ('t, 'u) RouterBuilder run" where
  "builder_prefix R path x b = (case ResourceDef_prefix R path of
       Panics \<Rightarrow> Panics | Returns rd \<Rightarrow> Returns (builder_resource rd x b))"

fun insert_resources :: "nat \<Rightarrow> ResourceDef list \<Rightarrow> Tree \<Rightarrow> Tree run" where
  "insert_resources idx [] t = Returns t"
| "insert_resources idx (rd # rds) t = (case Tree_insert t rd idx of
       Panics \<Rightarrow> Panics
     | Returns t \<Rightarrow> insert_resources (idx + 1) rds t)"

text \<open>The static paths of the resources from index \<open>idx\<close> on.\<close>

fun static_paths :: "nat \<Rightarrow> ResourceDef list \<Rightarrow> (nat \<times> bytes) list" where
  "static_paths idx [] = []"
| "static_paths idx (rd # rds) =
     (if rd_prefix rd then []
      else map (Pair idx) (filter (\<lambda>p. LBRACE \<notin> set p \<and> RBRACE \<notin> set p) (rd_patterns rd))) @
     static_paths (idx + 1) rds"

definition build_tree :: "Regex \<Rightarrow> bool \<Rightarrow> ResourceDef list \<Rightarrow> Tree run" where
  "build_tree R insensitive rds = (case rds of
       [] \<Rightarrow> Returns Tree_default
     | rd # rest \<Rightarrow>
         (case Tree_new rd 0 of
            Panics \<Rightarrow> Panics
          | Returns t \<Rightarrow>
              (case insert_resources 1 rest t of
                 Panics \<Rightarrow> Panics
               | Returns t \<Rightarrow> set_exact R t (static_paths 0 rds) insensitive)))"

definition builder_build :: "Regex \<Rightarrow> ('t, 'u) RouterBuilder \<Rightarrow> ('t, 'u) Router run" where
  "builder_build R b = (case build_tree R (rb_insensitive b) (map re_rdef (rb_resources b)) of
       Panics \<Rightarrow> Panics
     | Returns t \<Rightarrow> Returns \<lparr>ro_tree = t, ro_resources = rb_resources b,
         ro_insensitive = rb_insensitive b\<rparr>)"

text \<open>The value and the id of the resource at an index.\<close>

definition router_entry :: "('t, 'u) Router \<Rightarrow> (nat option \<times> Path) run \<Rightarrow> (('t \<times> u16) option \<times> Path) run" where
  "router_entry ro r = (case r of
       Panics \<Rightarrow> Panics
     | Returns (None, p) \<Rightarrow> Returns (None, p)
     | Returns (Some idx, p) \<Rightarrow>
         (if idx < length (ro_resources ro)
          then (let it = ro_resources ro ! idx in Returns (Some (re_value it, rd_id (re_rdef it)), p))
          else Panics))"

definition recognize :: "Regex \<Rightarrow> ResourcePath \<Rightarrow> ('t, 'u) Router \<Rightarrow> Path \<Rightarrow> (('t \<times> u16) option \<times> Path) run" where
  "recognize R T ro p = router_entry ro
     (if ro_insensitive ro then Tree_find_insensitive R T (ro_tree ro) p else Tree_find R T (ro_tree ro) p)"

text \<open>The closure that is passed to the tree indexes the resources as well. The tree holds only indices of
  resources (\<open>registered_value\<close>), so that the access is in range.\<close>

definition recognize_checked :: "Regex \<Rightarrow> ResourcePath \<Rightarrow> ('t, 'u) Router \<Rightarrow> Path \<Rightarrow> (Path \<Rightarrow> 'u option \<Rightarrow> bool)
    \<Rightarrow> (('t \<times> u16) option \<times> Path) run" where
  "recognize_checked R T ro p check =
     (let chk = (\<lambda>idx res. check res (re_check (ro_resources ro ! idx)))
      in router_entry ro
        (if ro_insensitive ro then Tree_find_checked_insensitive R T (ro_tree ro) p chk
         else Tree_find_checked R T (ro_tree ro) p chk))"

end
