(* ===== verification/Router_Exact.thy ===== *)
theory Router_Exact
  imports Router_Safe Router_Build
begin

text \<open>
  The table of static paths: a hit gives the result that the search in the tree gives. The proof
  compares the search that filled the table with the search that it replaces (locale \<open>search_sim\<close>).
\<close>

section \<open>Two searches of the same path\<close>

text \<open>
  \<open>rA\<close> is a search that accepts every value, \<open>rB\<close> one with a check \<open>chk\<close>: where \<open>rA\<close> finds nothing,
  \<open>rB\<close> does not; what \<open>rA\<close> finds without captures, \<open>rB\<close> finds if the check accepts it.
\<close>

definition sim_loop :: "(nat \<Rightarrow> bool) \<Rightarrow> Captured \<Rightarrow> Captured \<Rightarrow> ((nat \<times> 'k) option \<times> Captured) run
    \<Rightarrow> ((nat \<times> 'k) option \<times> Captured) run \<Rightarrow> bool" where
  "sim_loop chk a b rA rB \<longleftrightarrow> ((\<exists>s. rA = Returns (None, s)) \<longrightarrow> (\<exists>s. rB = Returns (None, s))) \<and>
     (\<forall>v sk. rA = Returns (Some (v, sk), a) \<and> chk v \<longrightarrow> rB = Returns (Some (v, sk), b))"

lemma sim_loop_refl_None [simp]: "sim_loop chk a b (Returns (None, s)) (Returns (None, s'))"
  by (simp add: sim_loop_def)

lemma sim_truncate: "sim_loop chk a b rA rB \<Longrightarrow> sim_loop chk a b (truncate_segs n rA) (truncate_segs m rB)"
  by (auto simp: sim_loop_def truncate_segs_def split: run.splits option.splits)

lemma sim_skip_some: "sim_loop chk a b rA rB \<Longrightarrow> sim_loop chk a b (skip_some rA) (skip_some rB)"
  by (auto simp: sim_loop_def skip_some_def split: run.splits option.splits)

lemma sim_for_each:
  assumes "\<And>x. x \<in> set xs \<Longrightarrow> sim_loop chk a b (fA x a) (fB x b)"
    "\<And>x. x \<in> set xs \<Longrightarrow> safe_call (\<lambda>_. True) a (fA x a)" "\<And>x. x \<in> set xs \<Longrightarrow> safe_call (\<lambda>_. True) b (fB x b)"
  shows "sim_loop chk a b (for_each fA xs a) (for_each fB xs b)"
  using assms
proof (induction xs)
  case (Cons x xs)
  have IH: "sim_loop chk a b (for_each fA xs a) (for_each fB xs b)" using Cons by simp
  obtain y s where A: "fA x a = Returns (y, s)" "y = None \<Longrightarrow> s = a"
    using Cons.prems(2) [of x] by (auto simp: safe_call_def split: if_splits)
  obtain y' s' where B: "fB x b = Returns (y', s')" "y' = None \<Longrightarrow> s' = b"
    using Cons.prems(3) [of x] by (auto simp: safe_call_def split: if_splits)
  have s: "sim_loop chk a b (Returns (y, s)) (Returns (y', s'))"
    using Cons.prems(1) [of x] A B by simp
  show ?case
  proof (cases y)
    case None
    with s have "y' = None" by (auto simp: sim_loop_def)
    with None A B IH show ?thesis by simp
  next
    case (Some r)
    show ?thesis
    proof (cases "y' = None")
      case True
      with s have "\<not> (\<exists>v sk. y = Some (v, sk) \<and> s = a \<and> chk v)" by (auto simp: sim_loop_def)
      with Some A show ?thesis by (auto simp: sim_loop_def)
    next
      case False
      with s Some A B show ?thesis by auto
    qed
  qed
qed simp

lemma sim_check_value: "\<lbrakk>\<And>v. cx_check cxA v; \<And>v. cx_check cxB v = chk v\<rbrakk> \<Longrightarrow> sim_loop chk a b (check_value cxA v skip a) (check_value cxB v skip b)"
  by (cases v) (auto simp: sim_loop_def)

lemma sim_check_root: "\<lbrakk>\<And>v. cx_check cxA v; \<And>v. cx_check cxB v = chk v\<rbrakk> \<Longrightarrow> sim_loop chk a b (check_root cxA v a) (check_root cxB v b)"
  by (cases v) (auto simp: sim_loop_def)

text \<open>A match captures the same number of segments in both searches.\<close>

lemma push_names_length:
  "\<exists>ex. push_names cx seg q skip caps names segs = (\<forall>name\<in>set names. caps name \<noteq> None, segs @ ex) \<and>
     length ex = length (takeWhile (\<lambda>n. caps n \<noteq> None) names)"
proof (induction names arbitrary: segs)
  case (Cons n names)
  show ?case
  proof (cases "caps n")
    case (Some ab)
    obtain a b where ab: "ab = (a, b)" by (cases ab)
    let ?it = "if q then Item_Segment (take (b - a) (drop a seg)) else idx_item cx (skip + a) (skip + b)"
    from Cons.IH [of "segs @ [(n, ?it)]"] show ?thesis
      by (auto simp: Some ab)
  qed simp
qed simp

lemma match_segment_sim:
  assumes "seg_fine k" "cx_insensitive cxA = cx_insensitive cxB" "cx_captures cxA = cx_captures cxB"
    "first_segment cxA path = (idx, seg)" "first_segment cxB path = (idx, seg)"
  obtains exA exB where
    "match_segment cxA k path (cow_ref seg) q False skip a = Returns (accepts cxA k path, a @ exA)"
    "match_segment cxB k path (cow_ref seg) q False skip b = Returns (accepts cxA k path, b @ exB)"
    "exA = [] \<longleftrightarrow> exB = []"
proof (cases k)
  case (Static s)
  then show ?thesis using that [of "[]" "[]"] assms by (simp add: seg_eq_def)
next
  case (Dynamic p names tail whole)
  define s where "s = (if tail then path else cow_ref seg)"
  have acc: "accepts cxA k path \<longleftrightarrow> (if whole then s \<noteq> [] \<and> 10 \<notin> set s
         else case cx_captures cxA p s of None \<Rightarrow> False | Some caps \<Rightarrow> \<forall>name\<in>set names. caps name \<noteq> None)"
    using assms(4) Dynamic by (simp add: Let_def s_def)
  have m: "match_segment cx k path (cow_ref seg) q False skip segs = match_dynamic cx p names whole s q skip segs" for cx segs
    by (simp add: Dynamic s_def)
  show ?thesis
  proof (cases whole)
    case True
    then obtain n where n: "names = [n]"
      using assms(1) Dynamic by (auto simp: length_Suc_conv)
    define it where "it cx = (if q then Item_Segment s else idx_item cx skip (skip + length s))" for cx
    show ?thesis
    proof (cases "s = [] \<or> 10 \<in> set s")
      case bad: True
      then show ?thesis
        using True n by (intro that [of "[]" "[]"]) (auto simp: acc m match_dynamic_def)
    next
      case False
      then show ?thesis
        using True n by (intro that [of "[(n, it cxA)]" "[(n, it cxB)]"])
          (auto simp: acc m match_dynamic_def it_def)
    qed
  next
    case False
    show ?thesis
    proof (cases "cx_captures cxA p s")
      case None
      then show ?thesis
        using False assms(3) by (intro that [of "[]" "[]"]) (auto simp: acc m match_dynamic_def)
    next
      case (Some caps)
      obtain exA where A: "push_names cxA s q skip caps names a = (\<forall>name\<in>set names. caps name \<noteq> None, a @ exA)"
        "length exA = length (takeWhile (\<lambda>n. caps n \<noteq> None) names)" using push_names_length by blast
      obtain exB where B: "push_names cxB s q skip caps names b = (\<forall>name\<in>set names. caps name \<noteq> None, b @ exB)"
        "length exB = length (takeWhile (\<lambda>n. caps n \<noteq> None) names)" using push_names_length by blast
      show ?thesis
        using False assms(3) Some A B
        by (intro that [of exA exB]) (auto simp: acc m match_dynamic_def)
    qed
  qed
qed

lemma total_item:
  assumes t: "items_wf (t_items t)" "tree_indexed t" "tree_fit t" "it \<in> set (t_items t)"
    and L: "\<And>v. safe_call (\<lambda>_. True) segs (L v segs)" and seg: "first_segment cx sp = (sidx, seg)"
  shows "safe_call (\<lambda>_. True) segs
    (item_body L (\<lambda>t'. find_inner_wrapped cx t' sp skip (Some (sidx, cow_ref seg, is_owned seg, False))) it segs)"
proof (cases it)
  case (Leaf v)
  then show ?thesis using L by simp
next
  case (Subtree t')
  note mem = t(4) [unfolded Subtree]
  show ?thesis
  proof (cases "t_key t' = []")
    case True
    then show ?thesis
      using safe_prefix_sub [where I = "\<lambda>_. True", OF True items_wfD(1) [OF t(1) mem True] TrueI] Subtree by simp
  next
    case False
    from total.safe_find [OF items_wfD(2) [OF t(1) mem False] tree_indexedD(2) [OF t(2) mem]
        tree_fitD(3) [OF t(3) mem] False order_refl TrueI TrueI seg]
    show ?thesis using Subtree by simp
  qed
qed

locale search_sim =
  fixes cxA cxB :: Ctx and chk :: "nat \<Rightarrow> bool" and G :: "bytes \<Rightarrow> bool"
  assumes check_all: "cx_check cxA v" and check_chk: "cx_check cxB v = chk v"
    and insens: "cx_insensitive cxA = cx_insensitive cxB" and caps: "cx_captures cxA = cx_captures cxB"
    and same: "G path \<Longrightarrow> first_segment cxB path = first_segment cxA path"
    and advance: "\<lbrakk>G path; find_slash path < length path\<rbrakk> \<Longrightarrow> G (drop (find_slash path + 1) path)"
    and only_slash: "\<lbrakk>G path; drop (find_slash path) path = [SLASH]\<rbrakk> \<Longrightarrow> G [SLASH]"
begin

lemma sim_prefix_sub:
  assumes "t_key t = []" "list_all is_prefix_leaf (t_items t)"
  shows "sim_loop chk a b (find_inner_wrapped cxA t path skip f a) (find_inner_wrapped cxB t path skip f b)"
proof -
  obtain vs where vs: "t_items t = map (\<lambda>v. Leaf (Prefix v)) vs"
    using prefix_sub [OF assms] .
  have "sim_loop chk a b (prefix_items cxA skip (t_items t) a) (prefix_items cxB skip (t_items t) b)"
    unfolding prefix_items_def vs
    by (rule sim_for_each) (auto simp: check_all check_chk sim_loop_def)
  then show ?thesis
    by (simp add: find_inner_wrapped.simps find_inner2.simps assms(1) sim_truncate)
qed

lemma sim_below:
  assumes t: "items_wf (t_items t)" "tree_indexed t" "tree_fit t"
    and G: "G path" "find_slash path < length path"
    and sub: "\<And>t' sp sidx seg. \<lbrakk>Subtree t' \<in> set (t_items t); t_key t' \<noteq> []; first_segment cxA sp = (sidx, seg); G sp\<rbrakk> \<Longrightarrow>
      sim_loop chk a b (find_inner_wrapped cxA t' sp skip (Some (sidx, cow_ref seg, is_owned seg, False)) a)
        (find_inner_wrapped cxB t' sp skip (Some (sidx, cow_ref seg, is_owned seg, False)) b)"
  shows "sim_loop chk a b (below cxA t (drop (find_slash path) path) skip a) (below cxB t (drop (find_slash path) path) skip b)"
proof -
  let ?p = "drop (find_slash path) path"
  define sp where "sp = (if length ?p = 1 then ?p else drop 1 ?p)"
  have Gsp: "G sp"
  proof (cases "length ?p = 1")
    case True
    then have "?p = [SLASH]" using find_slash_drop [OF G(2)] by (simp add: length_Suc_conv)
    with only_slash [OF G(1)] show ?thesis by (simp add: sp_def)
  next
    case False
    then have "sp = drop (find_slash path + 1) path" by (simp add: sp_def)
    with advance [OF G] show ?thesis by simp
  qed
  obtain sidx seg where segA: "first_segment cxA sp = (sidx, seg)" by (cases "first_segment cxA sp")
  have segB: "first_segment cxB sp = (sidx, seg)" using same [OF Gsp] segA by simp
  show ?thesis
    unfolding below_linear [OF t(2,3) sp_def segA] below_linear [OF t(2,3) sp_def segB]
  proof (rule sim_for_each)
    fix it assume it: "it \<in> set (t_items t)"
    show "sim_loop chk a b
      (item_body (\<lambda>v. check_value cxA (slash_value (?p = [SLASH]) v) (skip - 1))
        (\<lambda>t'. find_inner_wrapped cxA t' sp skip (Some (sidx, cow_ref seg, is_owned seg, False))) it a)
      (item_body (\<lambda>v. check_value cxB (slash_value (?p = [SLASH]) v) (skip - 1))
        (\<lambda>t'. find_inner_wrapped cxB t' sp skip (Some (sidx, cow_ref seg, is_owned seg, False))) it b)"
    proof (cases it)
      case (Leaf v)
      then show ?thesis by (simp add: sim_check_value check_all check_chk)
    next
      case (Subtree t')
      note mem = it [unfolded Subtree]
      show ?thesis
        using sim_prefix_sub items_wfD(1) [OF t(1) mem] sub [OF mem _ segA Gsp] Subtree
        by (cases "t_key t' = []") auto
    qed
  qed (use total_item [OF t] segA segB in auto)
qed

lemma sim_find_loop:
  assumes t: "items_wf (t_items t)" "tree_indexed t" "tree_fit t"
    and sub: "\<And>t' sp sidx seg skip a b. \<lbrakk>Subtree t' \<in> set (t_items t); t_key t' \<noteq> []; first_segment cxA sp = (sidx, seg); G sp\<rbrakk> \<Longrightarrow>
      sim_loop chk a b (find_inner_wrapped cxA t' sp skip (Some (sidx, cow_ref seg, is_owned seg, False)) a)
        (find_inner_wrapped cxB t' sp skip (Some (sidx, cow_ref seg, is_owned seg, False)) b)"
    and key: "key \<noteq> []" "key_ok key" "no_tail key \<or> list_all is_leaf (t_items t)"
    and G: "G path" and f: "first_segment cxA path = (idx, seg)" "f = None \<or> f = Some (idx, cow_ref seg, is_owned seg, False)"
  shows "sim_loop chk a b (find_loop cxA t key path skip f a) (find_loop cxB t key path skip f b)"
  using key G f
proof (induction key arbitrary: path skip f a b idx seg)
  case (Cons k key)
  have fine: "seg_fine k" using Cons.prems(2) by (simp add: key_ok_Cons)
  have idx: "idx = find_slash path" using fst_first_segment [OF Cons.prems(5)] .
  have segB: "first_segment cxB path = (idx, seg)" using same [OF Cons.prems(4)] Cons.prems(5) by simp
  obtain exA exB where m:
    "match_segment cxA k path (cow_ref seg) (is_owned seg) False skip a = Returns (accepts cxA k path, a @ exA)"
    "match_segment cxB k path (cow_ref seg) (is_owned seg) False skip b = Returns (accepts cxA k path, b @ exB)"
    "exA = [] \<longleftrightarrow> exB = []"
    using match_segment_sim [OF fine insens caps Cons.prems(5) segB] by metis
  have loop: "find_loop cxA t (k # key) path skip f a =
      (if accepts cxA k path then after_match cxA t k key path skip idx (a @ exA) else Returns (None, a @ exA))"
    "find_loop cxB t (k # key) path skip f b =
      (if accepts cxA k path then after_match cxB t k key path skip idx (b @ exB) else Returns (None, b @ exB))"
    using next_segment_first [OF Cons.prems(5,6)] next_segment_first [OF segB Cons.prems(6)]
    by (simp_all add: find_loop_step m)
  have tot: "safe_call (\<lambda>_. True) segs (find_inner_wrapped cxA t' sp skip (Some (sidx, cow_ref seg, is_owned seg, False)) segs)"
    if "Subtree t' \<in> set (t_items t)" "t_key t' \<noteq> []" "first_segment cxA sp = (sidx, seg)" for t' sp sidx seg skip segs
    using total.safe_find [OF items_wfD(2) [OF t(1) that(1,2)] tree_indexedD(2) [OF t(2) that(1)]
        tree_fitD(3) [OF t(3) that(1)] that(2) order_refl TrueI TrueI that(3)] by simp
  have kt: "is_tail k \<Longrightarrow> key = [] \<and> list_all is_leaf (t_items t)"
    using Cons.prems(2,3) by (auto simp: key_ok_Cons)
  have "safe_loop (\<lambda>_. True) (a @ exA) (after_match cxA t k key path skip idx (a @ exA))" if "accepts cxA k path"
  proof (rule total.safe_after_match [OF t tot UNIV_I fine that kt TrueI TrueI idx])
    obtain seg' where seg': "first_segment cxA (drop (idx + 1) path) = (find_slash (drop (idx + 1) path), seg')"
      using first_segment_find_slash by blast
    assume "key \<noteq> []" "\<not> is_tail k"
    then show "safe_loop (\<lambda>_. True) (a @ exA) (find_loop cxA t key (drop (idx + 1) path) (skip + idx + 1) None (a @ exA))"
      using Cons.prems(2,3) by (intro total.safe_find_loop [where S = UNIV, OF t tot _ _ _ _ TrueI TrueI seg']) (auto simp: key_ok_Cons)
  qed
  then have ext: "exA = []" if "after_match cxA t k key path skip idx (a @ exA) = Returns (Some r, a)" "accepts cxA k path" for r
    using that by (auto simp: safe_loop_def)
  have body: "sim_loop chk (a @ exA) (b @ exB) (after_match cxA t k key path skip idx (a @ exA)) (after_match cxB t k key path skip idx (b @ exB))"
    if acc: "accepts cxA k path"
  proof -
    let ?a = "a @ exA" and ?b = "b @ exB"
    consider "is_tail k" | "\<not> is_tail k" "idx = length path" "key = []" | "\<not> is_tail k" "idx = length path" "key \<noteq> []"
      | "\<not> is_tail k" "idx < length path" "key = []" | "\<not> is_tail k" "idx < length path" "key \<noteq> []"
      using find_slash_le [of path] idx by linarith
    then show ?thesis
    proof cases
      case 1
      then have "key = []" and leaves: "list_all is_leaf (t_items t)"
        using Cons.prems(2,3) by (auto simp: key_ok_Cons)
      have "sim_loop chk ?a ?b (tail_items cxA (skip + idx) (t_items t) ?a) (tail_items cxB (skip + idx) (t_items t) ?b)"
        unfolding tail_items_def
      proof (rule sim_for_each, goal_cases)
        case (1 it)
        then have "is_leaf it" using leaves by (auto simp: list_all_iff)
        then show ?case by (cases it) (auto simp: sim_loop_def check_all check_chk)
      next
        case (2 it)
        then have "is_leaf it" using leaves by (auto simp: list_all_iff)
        then show ?case by (cases it) (auto simp: safe_call_def)
      next
        case (3 it)
        then have "is_leaf it" using leaves by (auto simp: list_all_iff)
        then show ?case by (cases it) (auto simp: safe_call_def)
      qed
      moreover have "after_match cx t k key path skip idx s = tail_items cx (skip + idx) (t_items t) s" for cx s
        using 1 \<open>key = []\<close>
        by (simp add: after_match_def tail_checked_fine [OF fine] split: run.splits option.splits prod.splits)
      ultimately show ?thesis by simp
    next
      case 2
      have "sim_loop chk ?a ?b (consumed_items cxA (skip + idx + 1) (t_items t) ?a) (consumed_items cxB (skip + idx + 1) (t_items t) ?b)"
        unfolding consumed_items_def
        by (rule sim_for_each) (auto simp: sim_loop_def check_all check_chk safe_call_def split: TreeItem.splits TreeValue.splits)
      then show ?thesis
        using 2 by (simp add: after_match_def tail_checked_fine [OF fine])
    next
      case 3
      then show ?thesis
        by (simp add: after_match_def tail_checked_fine [OF fine])
    next
      case 4
      have "sim_loop chk ?a ?b (below cxA t (drop (find_slash path) path) (skip + idx + 1) ?a) (below cxB t (drop (find_slash path) path) (skip + idx + 1) ?b)"
        using 4 idx by (intro sim_below t Cons.prems(4) sub) auto
      then show ?thesis
        using 4 idx by (simp add: after_match_def tail_checked_fine [OF fine])
    next
      case 5
      let ?path = "drop (idx + 1) path"
      obtain seg' where seg': "first_segment cxA ?path = (find_slash ?path, seg')"
        using first_segment_find_slash by blast
      have "G ?path" using advance [OF Cons.prems(4)] 5 idx by simp
      then have "sim_loop chk ?a ?b (find_loop cxA t key ?path (skip + idx + 1) None ?a) (find_loop cxB t key ?path (skip + idx + 1) None ?b)"
        using Cons.prems(2,3) 5(3) by (intro Cons.IH [OF _ _ _ _ seg']) (auto simp: key_ok_Cons)
      then show ?thesis
        using 5 by (simp add: after_match_def tail_checked_fine [OF fine])
    qed
  qed
  show ?case
    unfolding loop using body ext m(3) by (fastforce simp: sim_loop_def)
qed simp

end

context search_sim
begin

lemma sim_find:
  assumes "tree_wf t" "tree_indexed t" "tree_fit t" "t_key t \<noteq> []" "G path"
    "first_segment cxA path = (idx, seg)" "f = None \<or> f = Some (idx, cow_ref seg, is_owned seg, False)"
  shows "sim_loop chk a b (find_inner_wrapped cxA t path skip f a) (find_inner_wrapped cxB t path skip f b)"
  using assms
proof (induction t arbitrary: path skip f a b idx seg rule: measure_induct_rule [where f = size])
  case (less t)
  have wf: "items_wf (t_items t)" "key_ok (t_key t)" "no_tail (t_key t) \<or> list_all is_leaf (t_items t)"
    using less.prems(1) by (auto simp: tree_wf_alt)
  have "sim_loop chk a b (find_loop cxA t (t_key t) path skip f a) (find_loop cxB t (t_key t) path skip f b)"
  proof (rule sim_find_loop [OF wf(1) less.prems(2,3) _ less.prems(4) wf(2,3) less.prems(5-7)])
    fix t' sp sidx seg skip a b
    assume m: "Subtree t' \<in> set (t_items t)" "t_key t' \<noteq> []" "first_segment cxA sp = (sidx, seg)" "G sp"
    from less.IH [OF size_subtree [OF m(1)] items_wfD(2) [OF wf(1) m(1,2)] tree_indexedD(2) [OF less.prems(2) m(1)]
        tree_fitD(3) [OF less.prems(3) m(1)] m(2,4,3)]
    show "sim_loop chk a b (find_inner_wrapped cxA t' sp skip (Some (sidx, cow_ref seg, is_owned seg, False)) a)
        (find_inner_wrapped cxB t' sp skip (Some (sidx, cow_ref seg, is_owned seg, False)) b)" by simp
  qed
  then show ?case
    using less.prems(4) by (simp add: find_inner_wrapped.simps find_inner2.simps sim_truncate)
qed

lemma sim_root_children:
  assumes t: "tree_wf t" "tree_indexed t" "tree_fit t" and G: "G path"
    and seg: "first_segment cxA path = (idx, seg)"
  shows "sim_loop chk a b (root_children cxA t val path idx (cow_ref seg) (is_owned seg) a)
    (root_children cxB t val path idx (cow_ref seg) (is_owned seg) b)"
  unfolding root_children_linear [OF t(2,3)]
proof (rule sim_for_each)
  have wf: "items_wf (t_items t)" using t(1) by (simp add: tree_wf_alt)
  have segB: "first_segment cxB path = (idx, seg)" using same [OF G] seg by simp
  fix it assume it: "it \<in> set (t_items t)"
  have tot: "safe_call (\<lambda>_. True) segs (item_body (\<lambda>v. check_root cx (val v))
      (\<lambda>t' segs. skip_some (find_inner_wrapped cx t' path 1 (Some (idx, cow_ref seg, is_owned seg, False)) segs)) it segs)"
    if "first_segment cx path = (idx, seg)" for cx segs
  proof (cases it)
    case (Leaf v)
    then show ?thesis by simp
  next
    case (Subtree t')
    with total_item [OF wf t(2,3) it _ that, of segs "\<lambda>_ s. Returns (None, s)" 1] show ?thesis
      by (simp add: safe_skip_some)
  qed
  from tot [OF seg] tot [OF segB]
  show "safe_call (\<lambda>_. True) a (item_body (\<lambda>v. check_root cxA (val v))
      (\<lambda>t' segs. skip_some (find_inner_wrapped cxA t' path 1 (Some (idx, cow_ref seg, is_owned seg, False)) segs)) it a)"
    "safe_call (\<lambda>_. True) b (item_body (\<lambda>v. check_root cxB (val v))
      (\<lambda>t' segs. skip_some (find_inner_wrapped cxB t' path 1 (Some (idx, cow_ref seg, is_owned seg, False)) segs)) it b)" .
  show "sim_loop chk a b (item_body (\<lambda>v. check_root cxA (val v))
      (\<lambda>t' segs. skip_some (find_inner_wrapped cxA t' path 1 (Some (idx, cow_ref seg, is_owned seg, False)) segs)) it a)
    (item_body (\<lambda>v. check_root cxB (val v))
      (\<lambda>t' segs. skip_some (find_inner_wrapped cxB t' path 1 (Some (idx, cow_ref seg, is_owned seg, False)) segs)) it b)"
  proof (cases it)
    case (Leaf v)
    then show ?thesis by (simp add: sim_check_root check_all check_chk)
  next
    case (Subtree t')
    note mem = it [unfolded Subtree]
    have "sim_loop chk a b (find_inner_wrapped cxA t' path 1 (Some (idx, cow_ref seg, is_owned seg, False)) a)
        (find_inner_wrapped cxB t' path 1 (Some (idx, cow_ref seg, is_owned seg, False)) b)"
      using sim_prefix_sub items_wfD [OF wf mem] sim_find [OF _ tree_indexedD(2) [OF t(2) mem] tree_fitD(3) [OF t(3) mem] _ G seg]
      by (cases "t_key t' = []") auto
    with Subtree show ?thesis by (simp add: sim_skip_some)
  qed
qed

end

lemma sim_find_root:
  assumes t: "tree_wf t" "tree_indexed t" "tree_fit t"
    and sim: "\<And>i j. search_sim (cxA\<lparr>cx_base_skip := i\<rparr>) (cxB\<lparr>cx_base_skip := j\<rparr>) chk G"
    and e: "cx_unquote cxA \<longrightarrow> cx_decode cxA [] = Borrowed []" and G: "G []" "G (unslash path)"
  shows "sim_loop chk a b (find_root cxA t path a) (find_root cxB t path b)"
proof -
  define i where "i = (if starts_slash path then cx_base_skip cxA else cx_base_skip cxA - 1)"
  define j where "j = (if starts_slash path then cx_base_skip cxB else cx_base_skip cxB - 1)"
  let ?A = "cxA\<lparr>cx_base_skip := i\<rparr>" and ?B = "cxB\<lparr>cx_base_skip := j\<rparr>"
  have cx: "(if starts_slash path then cxA else cxA\<lparr>cx_base_skip := cx_base_skip cxA - 1\<rparr>) = ?A"
    "(if starts_slash path then cxB else cxB\<lparr>cx_base_skip := cx_base_skip cxB - 1\<rparr>) = ?B"
    by (simp_all add: i_def j_def)
  obtain seg where seg: "first_segment ?A (unslash path) = (find_slash (unslash path), seg)"
    using first_segment_find_slash by blast
  have segB: "first_segment ?B (unslash path) = (find_slash (unslash path), seg)"
    using search_sim.same [OF sim G(2)] seg by simp
  have chk: "cx_check cxA v" "cx_check cxB v = chk v" for v
    using search_sim.check_all [OF sim] search_sim.check_chk [OF sim] by simp_all
  consider "t_key t = []" "path = [SLASH]" | "t_key t = []" "path = []" | "t_key t = []" "path \<noteq> []" "path \<noteq> [SLASH]"
    | "t_key t \<noteq> []" "path = []" | "t_key t \<noteq> []" "path \<noteq> []" by blast
  then show ?thesis
  proof cases
    case 1
    let ?A = "cxA\<lparr>cx_base_skip := cx_base_skip cxA - 1\<rparr>"
    have "first_segment ?A [] = (0, Borrowed [])"
      using e by (simp add: first_segment_def find_slash_def)
    from search_sim.sim_root_children [OF sim t G(1) this, of a b slash_root_value]
    show ?thesis using 1 by (simp add: find_root_def)
  next
    case 2
    have "sim_loop chk a b (for_each (\<lambda>it. check_root cxA (empty_root_value it)) (t_items t) a)
        (for_each (\<lambda>it. check_root cxB (empty_root_value it)) (t_items t) b)"
      by (rule sim_for_each) (simp_all add: sim_check_root chk)
    with 2 show ?thesis by (simp add: find_root_def)
  next
    case 3
    from search_sim.sim_root_children [OF sim t G(2) seg, of a b prefix_root_value]
    show ?thesis
      using 3 seg segB by (simp add: find_root_def strip_first_unslash cx)
  next
    case 4
    then show ?thesis by (simp add: find_root_def)
  next
    case 5
    from sim_skip_some [OF search_sim.sim_find [OF sim t 5(1) G(2) seg, of None a b 1]]
    show ?thesis
      using 5 by (simp add: find_root_def strip_first_unslash cx)
  qed
qed

section \<open>A path matched again\<close>

text \<open>The segments of a path are not changed by the decoding of its source.\<close>

definition plain :: "ResourcePath \<Rightarrow> bool \<Rightarrow> bytes \<Rightarrow> bool" where
  "plain T unquote path \<longleftrightarrow> (unquote \<longrightarrow> (\<forall>s\<in>set (split_on SLASH path). rp_unquote T s = Borrowed s))"

lemma split_on_find_slash:
  "split_on SLASH path = take (find_slash path) path #
     (if find_slash path < length path then split_on SLASH (drop (find_slash path + 1) path) else [])"
proof (induction path)
  case (Cons x xs)
  have "find_slash (x # xs) = (if x = SLASH then 0 else Suc (find_slash xs))"
    by (auto simp: find_slash_def split: option.splits)
  with Cons show ?case by auto
qed (simp add: find_slash_def)

lemma plainD:
  assumes "plain T u path"
  shows "u \<Longrightarrow> rp_unquote T (take (find_slash path) path) = Borrowed (take (find_slash path) path)"
    "find_slash path < length path \<Longrightarrow> plain T u (drop (find_slash path + 1) path)"
  using assms unfolding plain_def by (simp_all add: split_on_find_slash [of path])

lemma plain_slash:
  assumes "plain T u path" "drop (find_slash path) path = [SLASH]"
  shows "plain T u [SLASH]"
proof -
  have "length (drop (find_slash path) path) = 1" using assms(2) by simp
  then have "length path = find_slash path + 1" unfolding length_drop by linarith
  with plainD(2) [OF assms(1)] show ?thesis by (simp add: plain_def)
qed

text \<open>
  The search that fills the table, on the path alone and without a check, and a search that starts
  in the middle of a resource.
\<close>

interpretation exact_sim: search_sim "(match_ctx R str_resource_path (Path_new path) ins (\<lambda>_ _. True))\<lparr>cx_base_skip := i\<rparr>"
  "(match_ctx R T p ins check)\<lparr>cx_base_skip := j\<rparr>" "\<lambda>v. check v (p\<lparr>p_segments := []\<rparr>)"
  "plain T (rp_needs_unquote T (Path_path p))" for R path ins i T p check j
  by unfold_locales (auto simp: first_segment_def Let_def plainD plainD(2) [simplified] plain_slash)

context path_source
begin

lemma plain_path:
  assumes "\<not> u \<or> \<not> is_owned (rp_unquote T path)"
  shows "plain T u path"
proof (cases u)
  case True
  have "rp_unquote T s = Borrowed s" if "s \<in> set (split_on SLASH path)" for s
    using segments [OF _ that] borrowed [of s] True assms by (cases "rp_unquote T s") auto
  then show ?thesis by (simp add: plain_def)
qed (simp add: plain_def)

lemma plain_unslash: "plain T u path \<Longrightarrow> plain T u (unslash path)"
proof (cases path)
  case (Cons x xs)
  assume "plain T u path"
  with plainD(2) [OF this] Cons show ?thesis
    by (auto simp: unslash_def starts_slash_def find_slash_def)
qed (simp add: unslash_def starts_slash_def)

lemma plain_Nil: "plain T u []"
  using empty by (simp add: plain_def)

lemma match_again:
  assumes t: "tree_wf t" "tree_indexed t" "tree_fit t"
    and plain: "\<not> rp_needs_unquote T (Path_path p) \<or> \<not> is_owned (rp_unquote T (Path_path p))"
    and found: "find_root (match_ctx R str_resource_path (Path_new path) ins (\<lambda>_ _. True)) t (Path_path p) [] = Returns (Some (v, sk), [])"
    and check: "check v (p\<lparr>p_segments := []\<rparr>)"
  shows "find_root (match_ctx R T p ins check) t (Path_path p) (p_segments p) = Returns (Some (v, sk), p_segments p)"
proof -
  have "sim_loop (\<lambda>v. check v (p\<lparr>p_segments := []\<rparr>)) [] (p_segments p)
      (find_root (match_ctx R str_resource_path (Path_new path) ins (\<lambda>_ _. True)) t (Path_path p) [])
      (find_root (match_ctx R T p ins check) t (Path_path p) (p_segments p))"
    by (rule sim_find_root [OF t exact_sim.search_sim_axioms _ plain_Nil plain_unslash [OF plain_path [OF plain]]]) simp
  with found check show ?thesis by (auto simp: sim_loop_def)
qed

end

section \<open>Filling the table\<close>

definition exact_home :: "nat \<Rightarrow> TreeExact \<Rightarrow> nat" where
  "exact_home m e = static_slot (ex_key e) (m - 1)"

interpretation exacts: probing exact_free exact_home
  by unfold_locales (simp only: exact_home_def static_slot_less)

fun exact_entry :: "bytes \<times> u32 \<times> u32 \<Rightarrow> TreeExact" where
  "exact_entry (path, val, skip) = \<lparr>ex_key = static_key path, ex_path = path, ex_value = val, ex_skip = skip\<rparr>"

lemma place_exact_fill:
  "place_exact es table = (case fill exact_free exact_home (map exact_entry es) table of None \<Rightarrow> Panics | Some tab \<Rightarrow> Returns tab)"
  by (induction es table rule: place_exact.induct) (auto simp: exact_home_def split: option.splits)

lemma find_exact_table:
  assumes "length tab = 2 ^ k" "chained exact_free exact_home tab" "card (used exact_free tab) < length tab"
    "t_exact t = tab" "\<forall>e\<in>set tab. \<not> exact_free e \<longrightarrow> ex_key e = static_key (ex_path e)"
  obtains r where "find_exact t path = Returns r" "\<And>e. r = Some e \<Longrightarrow> e \<in> set tab \<and> \<not> exact_free e \<and> ex_path e = path"
proof -
  let ?P = "exact_hit (static_key path) path" and ?h = "static_slot (static_key path) (length tab - 1)"
  have h: "?h < length tab" using static_slot_less [of "static_key path" k] by (simp only: assms(1))
  have home: "\<forall>e\<in>set tab. \<not> exact_free e \<and> ?P e \<longrightarrow> exact_home (length tab) e = ?h"
    by (simp add: exact_hit_def exact_home_def)
  from exacts.lookup [OF assms(1-3) h home] obtain slot where slot:
    "probe (\<lambda>e. exact_free e \<or> ?P e) tab ?h = Some slot" "slot < length tab"
    "\<not> exact_free (tab ! slot) \<Longrightarrow> ?P (tab ! slot)" by metis
  have tab: "tab \<noteq> []" using slot(2) by auto
  have hit: "ex_path (tab ! slot) = path" if "\<not> exact_free (tab ! slot)"
  proof -
    have "static_key (ex_path (tab ! slot)) = static_key path"
      using slot(2,3) that assms(5) by (simp add: exact_hit_def)
    moreover have "length path \<le> 16 \<or> ex_path (tab ! slot) = path"
      using slot(3) [OF that] by (simp add: exact_hit_def)
    ultimately show ?thesis using static_key_inj_lemma [of path "ex_path (tab ! slot)"] by auto
  qed
  have "find_exact t path = Returns (if exact_free (tab ! slot) then None else Some (tab ! slot))"
    using assms(4) tab slot(1) by (simp add: find_exact_def)
  then show ?thesis
    using that slot(2) hit by (auto split: if_splits)
qed

lemma with_exact_simps [simp]:
  "t_exact (with_exact ex t) = ex" "unindexed (with_exact ex t) = unindexed t" "with_exact e (with_exact ex t) = with_exact e t"
  "tree_wf (with_exact ex t) \<longleftrightarrow> tree_wf t" "tree_fit (with_exact ex t) \<longleftrightarrow> tree_fit t" "routes (with_exact ex t) = routes t"
  by (cases t; simp)+

lemma tree_indexed_with_exact [simp]: "tree_indexed (with_exact ex t) \<longleftrightarrow> tree_indexed t"
proof (cases t)
  case (Tree k items s r e)
  have f: "find_static (Tree k items s r ex) key seg = find_static (Tree k items s r e) key seg" for key seg
    unfolding find_static_def static_hit_def static_bad_def static_at_def Tree.sel ..
  show ?thesis by (simp add: Tree node_indexed_def f)
qed

lemma find_root_with_exact:
  assumes "tree_indexed t" "tree_fit t"
  shows "find_root cx (with_exact ex t) path segs = find_root cx t path segs"
  using find_root_unindexed [of "with_exact ex t"] find_root_unindexed [OF assms] assms by simp

text \<open>A path of the table, with the value and the skip that the tree gives for it.\<close>

definition exact_for :: "Regex \<Rightarrow> Tree \<Rightarrow> bool \<Rightarrow> bytes \<times> u32 \<times> u32 \<Rightarrow> bool" where
  "exact_for R t ins = (\<lambda>(path, val, skip). val \<noteq> - 1 \<and>
     (\<exists>res. find_checked_inner R str_resource_path t (Path_new path) ins (\<lambda>_ _. True) = Returns (Some (unat val), res) \<and>
        p_segments res = [] \<and> p_skip res = skip))"

lemma find_checked_inner_plain:
  assumes "t_exact t = []"
  shows "find_checked_inner R T t p ins check =
     (case find_root (match_ctx R T p ins check) t (Path_path p) (p_segments p) of
        Panics \<Rightarrow> Panics | Returns r \<Rightarrow> Returns (matched_path p r))"
  using assms by (simp add: find_checked_inner_alt find_exact_def)

lemma find_checked_inner_total:
  assumes "tree_ready t" "rp_unquote T [] = Borrowed []"
  obtains r p' where "find_checked_inner R T t p ins check = Returns (r, p')"
proof -
  obtain x where "find_root (match_ctx R T p ins check) t (Path_path p) (p_segments p) = Returns x"
    using find_root_total [of t "match_ctx R T p ins check" "Path_path p" "p_segments p"] assms by (auto simp: tree_ready_def)
  then show ?thesis
    using that assms(1) by (cases "matched_path p x") (simp add: find_checked_inner_plain tree_ready_def)
qed

lemma exact_found_ok:
  assumes "tree_ready t" "\<forall>e\<in>set found. exact_for R t ins e"
  shows "\<exists>found'. exact_found R t ins paths found = Returns found' \<and> (\<forall>e\<in>set found'. exact_for R t ins e)"
  using assms
proof (induction R t ins paths found rule: exact_found.induct)
  case (2 R t ins val path paths found)
  obtain r res where m: "find_checked_inner R str_resource_path t (Path_new path) ins (\<lambda>_ _. True) = Returns (r, res)"
    using find_checked_inner_total [OF 2(3), of str_resource_path R "Path_new path" ins "\<lambda>_ _. True"] by auto
  let ?found = "if r = Some val \<and> p_segments res = [] \<and> int val < 2 ^ 32 \<and> (of_nat val :: u32) \<noteq> - 1
             then found @ [(path, of_nat val, p_skip res)] else found"
  have "unat (of_nat val :: u32) = val" if "int val < 2 ^ 32"
    using that by (simp add: unat_of_nat)
  then have "\<forall>e\<in>set ?found. exact_for R t ins e"
    using 2(4) m by (auto simp: exact_for_def)
  with 2(1) [OF _ 2(3,4)] 2(2) [OF _ m refl 2(3)] m show ?case by simp
qed auto

lemma set_exact_table:
  assumes "tree_ready t"
  obtains tab where "set_exact R t paths ins = Returns (with_exact tab t)"
    "\<And>path. \<exists>r. find_exact (with_exact tab t) path = Returns r \<and>
      (\<forall>e. r = Some e \<longrightarrow> exact_for R t ins (path, ex_value e, ex_skip e))"
proof -
  have t: "with_exact [] t = t" using assms by (cases t) (simp add: tree_ready_def)
  obtain found where found: "exact_found R t ins paths [] = Returns found" "\<forall>e\<in>set found. exact_for R t ins e"
    using exact_found_ok [OF assms, of "[]" R ins paths] by auto
  show ?thesis
  proof (cases "found = []")
    case True
    then show ?thesis
      using that [of "[]"] found assms by (simp add: set_exact_def Let_def t find_exact_def tree_ready_def)
  next
    case False
    let ?empty = "\<lparr>ex_key = (0, 0, 0), ex_path = [], ex_value = - 1, ex_skip = 0\<rparr> :: TreeExact"
    let ?n = "next_power_of_two (length found * 2)"
    have fr: "exact_free ?empty" by (simp add: exact_free_def)
    obtain k where k: "?n = 2 ^ k" using next_power_of_two_ok by blast
    have ents: "\<forall>e\<in>set (map exact_entry found). \<not> exact_free e"
      using found(2) by (auto simp: exact_for_def exact_free_def)
    have none: "{e \<in> set (replicate ?n ?empty). \<not> exact_free e} = {}" using fr by auto
    obtain tab where tab: "fill exact_free exact_home (map exact_entry found) (replicate ?n ?empty) = Some tab"
      "length tab = ?n" "chained exact_free exact_home tab" "card (used exact_free tab) = length found"
      "{e \<in> set tab. \<not> exact_free e} = exact_entry ` set found"
      using exacts.fill_ok [of "replicate ?n ?empty" k "map exact_entry found"] k ents table_room [of found]
        chained_replicate [where free = exact_free, OF fr] used_replicate [where free = exact_free, OF fr] none
      unfolding none by auto
    have entry: "\<exists>path val skip. e = exact_entry (path, val, skip) \<and> (path, val, skip) \<in> set found"
      if "e \<in> set tab" "\<not> exact_free e" for e
      using that tab(5) by force
    have key: "\<forall>e\<in>set tab. \<not> exact_free e \<longrightarrow> ex_key e = static_key (ex_path e)"
      using entry by force
    have "\<exists>r. find_exact (with_exact tab t) path = Returns r \<and>
        (\<forall>e. r = Some e \<longrightarrow> exact_for R t ins (path, ex_value e, ex_skip e))" for path
    proof -
      obtain r where r: "find_exact (with_exact tab t) path = Returns r"
        "\<And>e. r = Some e \<Longrightarrow> e \<in> set tab \<and> \<not> exact_free e \<and> ex_path e = path"
        using find_exact_table [of tab k "with_exact tab t" path] tab(2-4) k table_room [of found] key by auto
      then show ?thesis using entry found(2) by fastforce
    qed
    then show ?thesis
      using that [of tab] found(1) False tab(1) by (simp add: set_exact_def Let_def t place_exact_fill)
  qed
qed

section \<open>The table does not change the result\<close>

lemma matched_exact:
  assumes "unat (p_skip p) \<le> length (p_resource p)" "length (p_resource p) < 2 ^ 32"
    "matched_path (Path_new (Path_path p)) (Some (v, sk), []) = (Some v', res)"
  shows "matched_path p (Some (v, Some (unat (p_skip res))), segs) = matched_path p (Some (v, sk), segs)"
proof -
  let ?n = "unat (p_skip p)" and ?len = "length (p_resource p)"
  have len: "length (Path_path p) = ?len - ?n" using assms(1) by (simp add: Path_path_def)
  have eq: "Path_skip m q = Path_skip m' q"
    if "min (?n + unat m) ?len = min (?n + unat m') ?len" "p_resource q = p_resource p" "p_skip q = p_skip p" for m m' q
  proof -
    have "unat (p_skip (Path_skip m q)) = unat (p_skip (Path_skip m' q))"
      using that assms(2) by (simp add: unat_Path_skip)
    then have "p_skip (Path_skip m q) = p_skip (Path_skip m' q)" by (rule unsigned_word_eqI)
    then show ?thesis by (simp add: Path_skip_def)
  qed
  have id: "Path_skip 0 q = q" if "p_resource q = p_resource p" "p_skip q = p_skip p" for q
  proof -
    have "unat (p_skip (Path_skip 0 q)) = unat (p_skip q)"
      using that assms(1,2) by (simp add: unat_Path_skip)
    then have "p_skip (Path_skip 0 q) = p_skip q" by (rule unsigned_word_eqI)
    then show ?thesis by (simp add: Path_skip_def)
  qed
  show ?thesis
  proof (cases sk)
    case None
    then have "p_skip res = 0" using assms(3) by (auto simp: matched_path_def Path_new_def)
    then show ?thesis using None id by (simp add: matched_path_def)
  next
    case (Some m)
    have "res = Path_skip (of_nat m) (Path_new (Path_path p))"
      using assms(3) Some by (simp add: matched_path_def Path_new_def)
    then have "unat (p_skip res) = min (unat (of_nat m :: u32)) (?len - ?n)"
      using assms(2) len unat_Path_skip [of "Path_new (Path_path p)" "of_nat m"] by (simp add: Path_new_def)
    then have "min (?n + unat (p_skip res)) ?len = min (?n + unat (of_nat m :: u32)) ?len"
      using assms(1) by auto
    then have "Path_skip (p_skip res) (p\<lparr>p_segments := segs\<rparr>) = Path_skip (of_nat m) (p\<lparr>p_segments := segs\<rparr>)"
      by (intro eq) simp_all
    then show ?thesis using Some by (simp add: matched_path_def)
  qed
qed

lemma set_exact_same:
  assumes "tree_ready t" "path_source T"
    "unat (p_skip p) \<le> length (p_resource p)" "length (p_resource p) < 2 ^ 32"
    "set_exact R t paths ins = Returns t'"
  shows "find_checked_inner R T t' p ins check = find_checked_inner R T t p ins check"
proof -
  have t: "tree_wf t" "tree_indexed t" "tree_fit t" "t_exact t = []" using assms(1) by (simp_all add: tree_ready_def)
  obtain tab where tab: "t' = with_exact tab t"
    "\<And>path. \<exists>r. find_exact t' path = Returns r \<and> (\<forall>e. r = Some e \<longrightarrow> exact_for R t ins (path, ex_value e, ex_skip e))"
    using set_exact_table [OF assms(1), of R paths ins] assms(5) by (metis run.inject)
  obtain r where r: "find_exact t' (Path_path p) = Returns r"
    "\<And>e. r = Some e \<Longrightarrow> exact_for R t ins (Path_path p, ex_value e, ex_skip e)"
    using tab(2) by blast
  note root = find_root_with_exact [OF t(2,3), of _ tab, folded tab(1)]
  let ?plain = "\<not> rp_needs_unquote T (Path_path p) \<or> \<not> is_owned (rp_unquote T (Path_path p))"
  show ?thesis
  proof (cases "\<exists>e. r = Some e \<and> ?plain \<and> check (unat (ex_value e)) (p\<lparr>p_segments := []\<rparr>)")
    case False
    then show ?thesis
      unfolding find_checked_inner_plain [OF t(4)] find_checked_inner_alt [of R T t'] r(1) root
      by (auto split: option.split)
  next
    case True
    then obtain e where e: "r = Some e" ?plain "check (unat (ex_value e)) (p\<lparr>p_segments := []\<rparr>)" by blast
    have pp: "Path_path (Path_new path) = path" "p_segments (Path_new path) = []" for path
      by (simp_all add: Path_path_def Path_new_def)
    obtain res where res: "find_checked_inner R str_resource_path t (Path_new (Path_path p)) ins (\<lambda>_ _. True) =
        Returns (Some (unat (ex_value e)), res)" "p_segments res = []" "p_skip res = ex_skip e"
      using r(2) [OF e(1)] by (auto simp: exact_for_def)
    obtain v sk segs where f: "find_root (match_ctx R str_resource_path (Path_new (Path_path p)) ins (\<lambda>_ _. True)) t (Path_path p) [] =
        Returns (Some (v, sk), segs)" and mp: "matched_path (Path_new (Path_path p)) (Some (v, sk), segs) = (Some (unat (ex_value e)), res)"
      using res(1) by (auto simp: find_checked_inner_plain [OF t(4)] pp matched_path_def split: run.splits option.splits prod.splits)
    have s: "segs = []" "v = unat (ex_value e)"
      using mp res(2) by (auto simp: matched_path_def split: option.splits)
    from path_source.match_again [OF assms(2) t(1-3) e(2) f [unfolded s]] e(3)
    have "find_root (match_ctx R T p ins check) t (Path_path p) (p_segments p) = Returns (Some (v, sk), p_segments p)"
      using s by blast
    moreover have "matched_path p (Some (v, Some (unat (ex_skip e))), p_segments p) = matched_path p (Some (v, sk), p_segments p)"
      using matched_exact [OF assms(3,4) mp [unfolded s(1)]] res(3) by simp
    ultimately show ?thesis
      using e s by (simp add: find_checked_inner_plain [OF t(4)] find_checked_inner_alt [of R T t'] r(1))
  qed
qed

end
