(* ===== verification/Router_Recognize.thy ===== *)
theory Router_Recognize
  imports Router_Exact
begin

text \<open>
  The router as a whole: the builder returns a router for every list of parsed resources, the
  routes of its tree are the registered ones, and \<^verbatim>\<open>recognize\<close> finds a registered route that accepts
  the path if there is one.
\<close>

section \<open>The tree of the registered resources\<close>

fun registered :: "nat \<Rightarrow> ResourceDef list \<Rightarrow> (Segment list \<times> TreeValue) list" where
  "registered idx [] = []"
| "registered idx (rd # rds) = resource_routes rd idx @ registered (idx + 1) rds"

text \<open>The resources of a router: parsed, with a pattern at least, and less than \<open>2\<^sup>3\<^sup>2 - 1\<close> of them.\<close>

definition resources_ok :: "ResourceDef list \<Rightarrow> bool" where
  "resources_ok rds \<longleftrightarrow> (\<forall>rd\<in>set rds. resource_ok rd \<and> rd_tp rd \<noteq> []) \<and>
     int (sum_list (map (\<lambda>rd. length (rd_tp rd)) rds)) < 2 ^ 32 - 1"

lemma length_resource_routes [simp]: "length (resource_routes rd val) = length (rd_tp rd)"
  by (simp add: resource_routes_def)

lemma length_registered: "length (registered idx rds) = sum_list (map (\<lambda>rd. length (rd_tp rd)) rds)"
  by (induction idx rds rule: registered.induct) simp_all

lemma route_segs_append [simp]: "route_segs (xs @ ys) = route_segs xs \<union> route_segs ys"
  by (auto simp: route_segs_def)

lemma route_segs_mset: "mset xs = mset ys \<Longrightarrow> route_segs xs = route_segs ys"
  unfolding route_segs_def by (drule mset_eq_setD) simp

lemma registered_value: "(k, v) \<in> set (registered idx rds) \<Longrightarrow> idx \<le> tree_value v \<and> tree_value v < idx + length rds"
  by (induction idx rds rule: registered.induct) (auto simp: resource_routes_def)

lemma route_values_resource [simp]: "route_values (resource_routes rd val) = replicate_mset (length (rd_tp rd)) val"
  by (simp add: resource_routes_def route_values_def comp_def map_replicate_const mset_replicate)

lemma insert_resources_ok:
  assumes "tree_ready t" "\<forall>rd\<in>set rds. resource_ok rd" "int (length (routes t) + length (registered idx rds)) < 2 ^ 32 - 1"
  shows "\<exists>t'. insert_resources idx rds t = Returns t' \<and> tree_ready t' \<and>
    route_values (routes t') = route_values (routes t) + route_values (registered idx rds) \<and>
    (coherent (route_segs (routes t) \<union> route_segs (registered idx rds)) \<longrightarrow>
      mset (routes t') = mset (routes t) + mset (registered idx rds))"
  using assms
proof (induction idx rds t rule: insert_resources.induct)
  case (2 idx rd rds t)
  have bnd: "int (length (routes t) + length (rd_tp rd)) < 2 ^ 32 - 1" using 2(4) by simp
  have rd: "resource_ok rd" using 2(3) by simp
  have wf: "tree_wf t" using 2(2) by (simp add: tree_ready_def)
  obtain t1 where t1: "Tree_insert t rd idx = Returns t1" "tree_ready t1"
    "route_values (routes t1) = route_values (routes t) + replicate_mset (length (rd_tp rd)) idx"
    "coherent (route_segs (routes t) \<union> route_segs (resource_routes rd idx)) \<Longrightarrow>
      mset (routes t1) = mset (routes t) + mset (resource_routes rd idx)"
    using Tree_insert_ok [OF wf rd bnd, where val = idx] by blast
  have segs: "mset (routes t1) = mset (routes t) + mset (resource_routes rd idx)"
    "route_segs (routes t1) = route_segs (routes t) \<union> route_segs (resource_routes rd idx)"
    if "coherent (route_segs (routes t) \<union> route_segs (registered idx (rd # rds)))"
  proof -
    show m: "mset (routes t1) = mset (routes t) + mset (resource_routes rd idx)"
      by (rule t1(4), rule coherent_subset [OF that]) auto
    then have "mset (routes t1) = mset (routes t @ resource_routes rd idx)" by simp
    from route_segs_mset [OF this] show "route_segs (routes t1) = route_segs (routes t) \<union> route_segs (resource_routes rd idx)"
      by simp
  qed
  have "int (length (routes t1) + length (registered (idx + 1) rds)) < 2 ^ 32 - 1"
    using 2(4) arg_cong [OF t1(3), of size] by simp
  from 2(1) [OF t1(1,2) _ this] 2(3) obtain t' where t': "insert_resources (idx + 1) rds t1 = Returns t'" "tree_ready t'"
    "route_values (routes t') = route_values (routes t1) + route_values (registered (idx + 1) rds)"
    "coherent (route_segs (routes t1) \<union> route_segs (registered (idx + 1) rds)) \<longrightarrow>
      mset (routes t') = mset (routes t1) + mset (registered (idx + 1) rds)" by auto
  then show ?case
    using t1(1,3) segs by (auto simp: Un_assoc)
qed simp

lemma build_tree_ok:
  assumes "resources_ok rds" "rds \<noteq> []"
  obtains t0 t where "build_tree R ins rds = Returns t" "tree_ready t0"
    "set_exact R t0 (static_paths 0 rds) ins = Returns t" "route_values (routes t0) = route_values (registered 0 rds)"
    "coherent (route_segs (registered 0 rds)) \<Longrightarrow> mset (routes t0) = mset (registered 0 rds)"
proof -
  obtain rd rest where rds: "rds = rd # rest" using assms(2) by (cases rds) auto
  have ok: "resource_ok rd" "rd_tp rd \<noteq> []" "int (length (rd_tp rd) + length (registered 1 rest)) < 2 ^ 32 - 1"
    "\<forall>rd\<in>set rest. resource_ok rd"
    using assms(1) by (auto simp: rds resources_ok_def length_registered)
  have len: "int (length (rd_tp rd)) < 2 ^ 32 - 1" using ok(3) by simp
  obtain t1 where t1: "Tree_new rd 0 = Returns t1" "tree_ready t1" "route_values (routes t1) = replicate_mset (length (rd_tp rd)) 0"
    "coherent (route_segs (resource_routes rd 0)) \<Longrightarrow> mset (routes t1) = mset (resource_routes rd 0)"
    using Tree_new_ok [OF ok(1,2) len, where val = 0] by blast
  have "int (length (routes t1) + length (registered 1 rest)) < 2 ^ 32 - 1" using ok(3) arg_cong [OF t1(3), of size] by simp
  from insert_resources_ok [OF t1(2) ok(4) this] obtain t0 where t0: "insert_resources 1 rest t1 = Returns t0" "tree_ready t0"
    "route_values (routes t0) = route_values (routes t1) + route_values (registered 1 rest)"
    "coherent (route_segs (routes t1) \<union> route_segs (registered 1 rest)) \<longrightarrow>
      mset (routes t0) = mset (routes t1) + mset (registered 1 rest)" by auto
  have m: "mset (routes t0) = mset (registered 0 rds)" if c: "coherent (route_segs (registered 0 rds))"
  proof -
    have "mset (routes t1) = mset (resource_routes rd 0)"
      by (rule t1(4), rule coherent_subset [OF c]) (simp add: rds)
    then show ?thesis
      using t0(4) c route_segs_mset [of "routes t1" "resource_routes rd 0"] by (simp add: rds)
  qed
  obtain tab where "set_exact R t0 (static_paths 0 rds) ins = Returns (with_exact tab t0)"
    using set_exact_table [OF t0(2)] by metis
  then show ?thesis
    using that [of "with_exact tab t0" t0] t0(1-3) t1(1,3) m by (simp add: build_tree_def rds)
qed

section \<open>The values that a search finds\<close>

definition found_in :: "nat multiset \<Rightarrow> ((nat \<times> 'k) option \<times> 's) run \<Rightarrow> bool" where
  "found_in V r \<longleftrightarrow> (\<forall>v sk s. r = Returns (Some (v, sk), s) \<longrightarrow> v \<in># V)"

lemma found_in_Returns [simp]: "found_in V (Returns (None, s))" "found_in V (Returns (Some (v, sk), s)) \<longleftrightarrow> v \<in># V"
  "found_in V Panics"
  by (simp_all add: found_in_def)

lemma found_truncate: "found_in V r \<Longrightarrow> found_in V (truncate_segs n r)"
  by (auto simp: found_in_def truncate_segs_def split: run.splits option.splits)

lemma found_skip_some: "found_in V r \<Longrightarrow> found_in V (skip_some r)"
  by (auto simp: found_in_def skip_some_def split: run.splits option.splits)

lemma found_check [simp]:
  "found_in V (check_value cx v skip segs) \<longleftrightarrow> (\<forall>x. v = Some x \<and> cx_check cx x \<longrightarrow> x \<in># V)"
  "found_in V (check_root cx v segs) \<longleftrightarrow> (\<forall>x. v = Some x \<and> cx_check cx x \<longrightarrow> x \<in># V)"
  by (cases v; auto)+

lemma found_for_each: "(\<And>x s. x \<in> set xs \<Longrightarrow> found_in V (f x s)) \<Longrightarrow> found_in V (for_each f xs s)"
proof (induction xs arbitrary: s)
  case (Cons x xs)
  then have "found_in V (f x s)" "\<And>s. found_in V (for_each f xs s)" by simp_all
  then show ?case by (auto simp: found_in_def split: run.splits option.splits)
qed simp

lemma item_values:
  "Leaf v \<in> set items \<Longrightarrow> tree_value v \<in># route_values (item_routes items)"
  "\<lbrakk>Subtree t \<in> set items; x \<in># route_values (routes t)\<rbrakk> \<Longrightarrow> x \<in># route_values (item_routes items)"
  by (induction items rule: items_induct) auto

lemma found_children:
  assumes "\<And>v. Leaf v \<in> set (t_items t) \<Longrightarrow> \<forall>segs. found_in V (L v segs)"
    "\<And>t' m. Subtree t' \<in> set (t_items t) \<Longrightarrow> \<forall>segs. found_in V (W t' m segs)"
  shows "found_in V (case children t seg ins of
        Panics \<Rightarrow> Panics | Returns c \<Rightarrow> for_each (child_body L W) (children_collect c) segs)"
proof (cases "children t seg ins")
  case (Returns c)
  have "found_in V (child_body L W x s)" if "x \<in> set (children_collect c)" for x s
  proof -
    obtain it m where x: "x = (it, m)" by (cases x)
    show ?thesis
      using children_mem [OF Returns] that assms
      by (cases it) (auto simp: x child_body_def split: TreeItem.split)
  qed
  then show ?thesis using Returns found_for_each by (simp add: found_for_each)
qed simp

lemma find_values: "found_in (route_values (routes t)) (find_inner_wrapped cx t path skip f segs)"
proof (induction t arbitrary: path skip f segs rule: measure_induct_rule [where f = size])
  case (less t)
  let ?V = "route_values (routes t)"
  have V: "Leaf v \<in> set (t_items t) \<Longrightarrow> tree_value v \<in># ?V"
    "Subtree t' \<in> set (t_items t) \<Longrightarrow> x \<in># route_values (routes t') \<Longrightarrow> x \<in># ?V" for v t' x
    using item_values by (auto simp: route_values_routes [of t])
  have sl: "tree_value v = x" if "slash_value b v = Some x" for b v x
    using that by (cases v) (auto split: if_splits)
  have sub: "found_in ?V (find_inner_wrapped cx t' path skip f segs)" if "Subtree t' \<in> set (t_items t)" for t' path skip f segs
    using less [OF size_subtree [OF that]] V(2) [OF that] by (auto simp: found_in_def)
  have items: "found_in ?V (tail_items cx skip (t_items t) segs)" "found_in ?V (prefix_items cx skip (t_items t) segs)"
    "found_in ?V (consumed_items cx skip (t_items t) segs)" for skip segs
    unfolding tail_items_def prefix_items_def consumed_items_def
    by (rule found_for_each; use V(1) in \<open>force split: TreeItem.split TreeValue.split\<close>)+
  have below: "found_in ?V (below cx t path skip segs)" for path skip segs
    unfolding below_def Let_def split_def
    by (rule found_children) (use V(1) sl sub in auto)
  have loop: "found_in ?V (find_loop cx t key path skip f segs)" for key path skip f segs
  proof (induction key arbitrary: path skip f segs)
    case Nil
    then show ?case by (simp add: find_loop.simps)
  next
    case (Cons k key)
    have "found_in ?V (after_match cx t k key path skip idx segs)" for idx segs
      using items(1) [of "skip + idx" segs] items(3) below Cons.IH
      by (auto simp: after_match_def found_in_def split: run.splits option.splits)
    then show ?case
      by (auto simp: find_loop_step split: run.splits prod.splits bool.splits)
  qed
  show ?case
    by (simp add: find_inner_wrapped.simps find_inner2.simps found_truncate items loop)
qed

lemma find_root_values: "found_in (route_values (routes t)) (find_root cx t path segs)"
proof -
  let ?V = "route_values (routes t)"
  have V: "Leaf v \<in> set (t_items t) \<Longrightarrow> tree_value v \<in># ?V" for v
    using item_values by (auto simp: route_values_routes [of t])
  have sub: "found_in ?V (find_inner_wrapped cx t' path skip f segs)" if "Subtree t' \<in> set (t_items t)" for t' cx path skip f segs
    using find_values [of t'] item_values(2) [OF that] by (auto simp: found_in_def route_values_routes [of t])
  have root: "found_in ?V (root_children cx t val path idx seg q segs)"
    if "\<And>v x. val v = Some x \<Longrightarrow> tree_value v = x" for cx val path idx seg q segs
    unfolding root_children_body
    by (rule found_children) (use V that sub in \<open>auto intro: found_skip_some\<close>)
  have "tree_value v = x" if "slash_root_value v = Some x" for v x
    using that by (cases v) auto
  moreover have "tree_value v = x" if "prefix_root_value v = Some x" for v x
    using that by (cases v) auto
  moreover have "found_in ?V (for_each (\<lambda>it. check_root cx (empty_root_value it)) (t_items t) segs)"
    by (rule found_for_each) (use V in \<open>force elim!: empty_root_value.elims\<close>)
  ultimately show ?thesis
    using find_values [of t] by (auto simp: find_root_def split_def intro!: root found_skip_some split: option.split)
qed

section \<open>Searches of a built tree\<close>

lemma exact_for_value:
  assumes "tree_ready t" "exact_for R t ins (path, val, skip)"
  shows "unat val \<in># route_values (routes t)"
proof -
  let ?cx = "match_ctx R str_resource_path (Path_new path) ins (\<lambda>_ _. True)"
  obtain res where "find_checked_inner R str_resource_path t (Path_new path) ins (\<lambda>_ _. True) = Returns (Some (unat val), res)"
    using assms(2) by (auto simp: exact_for_def)
  then obtain sk segs where
    "find_root ?cx t (Path_path (Path_new path)) (p_segments (Path_new path)) = Returns (Some (unat val, sk), segs)"
    using assms(1) by (auto simp: tree_ready_def find_checked_inner_plain matched_path_def split: run.splits option.splits prod.splits)
  then show ?thesis
    using find_root_values [of t ?cx "Path_path (Path_new path)" "p_segments (Path_new path)"] by (simp add: found_in_def)
qed

lemma matched_path_value: "fst (matched_path p x) = map_option fst (fst x)"
  by (auto simp: matched_path_def split: prod.splits option.splits)

lemma set_exact_total:
  assumes "tree_ready t" "set_exact R t paths ins = Returns t'" "rp_unquote T [] = Borrowed []"
  obtains r p' where "find_checked_inner R T t' p ins check = Returns (r, p')"
    "\<And>v. r = Some v \<Longrightarrow> v \<in># route_values (routes t)"
proof -
  have t: "tree_indexed t" "tree_fit t" using assms(1) by (simp_all add: tree_ready_def)
  let ?cx = "match_ctx R T p ins check"
  obtain tab where tab: "t' = with_exact tab t"
    "\<And>path. \<exists>r. find_exact t' path = Returns r \<and> (\<forall>e. r = Some e \<longrightarrow> exact_for R t ins (path, ex_value e, ex_skip e))"
    using set_exact_table [OF assms(1), of R paths ins] assms(2) by (metis run.inject)
  obtain e where e: "find_exact t' (Path_path p) = Returns e"
    "\<And>x. e = Some x \<Longrightarrow> unat (ex_value x) \<in># route_values (routes t)"
    using tab(2) exact_for_value [OF assms(1)] by blast
  obtain y s where f: "find_root ?cx t (Path_path p) (p_segments p) = Returns (y, s)"
    using find_root_total [of t ?cx "Path_path p" "p_segments p"] assms(1,3) by (auto simp: tree_ready_def)
  have y: "map_option fst y = Some v \<Longrightarrow> v \<in># route_values (routes t)" for v
    using find_root_values [of t ?cx "Path_path p" "p_segments p"] f by (auto simp: found_in_def)
  let ?hit = "case e of None \<Rightarrow> None | Some e \<Rightarrow>
      (if (\<not> rp_needs_unquote T (Path_path p) \<or> \<not> is_owned (rp_unquote T (Path_path p))) \<and>
          check (unat (ex_value e)) (p\<lparr>p_segments := []\<rparr>)
       then Some (unat (ex_value e), Some (unat (ex_skip e))) else None)"
  have hit: "?hit = Some x \<Longrightarrow> fst x \<in># route_values (routes t)" for x
    using e(2) by (auto split: option.splits if_splits)
  define x where "x = (case ?hit of Some r \<Rightarrow> (Some r, p_segments p) | None \<Rightarrow> (y, s))"
  have "find_checked_inner R T t' p ins check = Returns (matched_path p x)"
    unfolding find_checked_inner_alt [of R T t'] e(1) run.case find_root_with_exact [OF t, of _ tab, folded tab(1)] f x_def
    by (cases ?hit) simp_all
  moreover have "v \<in># route_values (routes t)" if "fst (matched_path p x) = Some v" for v
    using that y hit unfolding matched_path_value x_def by (cases ?hit) auto
  ultimately show ?thesis
    using that by (cases "matched_path p x") simp
qed

lemma registered_values: "v \<in># route_values (registered idx rds) \<Longrightarrow> idx \<le> v \<and> v < idx + length rds"
  using registered_value by (force simp: route_values_def)

lemma find_default: "find_checked_inner R T Tree_default p ins check = Returns (None, p\<lparr>p_segments := []\<rparr>)"
  by (simp add: find_checked_inner_alt find_exact_def Tree_default_def find_root_def root_children_def children_def
    find_static_def children_collect.simps matched_path_def split: option.split prod.split)

lemma recognize_find:
  "recognize R T ro p = router_entry ro (find_checked_inner R T (ro_tree ro) p (ro_insensitive ro) (\<lambda>_ _. True))"
  "recognize_checked R T ro p check = router_entry ro (find_checked_inner R T (ro_tree ro) p (ro_insensitive ro)
     (\<lambda>idx res. check res (re_check (ro_resources ro ! idx))))"
  by (cases "ro_insensitive ro"; simp add: recognize_def Tree_find_def Tree_find_insensitive_def recognize_checked_def
      Let_def Tree_find_checked_def Tree_find_checked_insensitive_def)+

lemma build_tree_find:
  assumes "resources_ok rds" "rp_unquote T [] = Borrowed []"
  shows "\<exists>t. build_tree R ins rds = Returns t \<and> (\<forall>p check. \<exists>r p'.
    find_checked_inner R T t p ins check = Returns (r, p') \<and> (\<forall>v. r = Some v \<longrightarrow> v < length rds))"
proof (cases "rds = []")
  case True
  then show ?thesis using find_default by (auto simp: build_tree_def)
next
  case False
  obtain t0 t where t: "build_tree R ins rds = Returns t" "tree_ready t0" "set_exact R t0 (static_paths 0 rds) ins = Returns t"
    "route_values (routes t0) = route_values (registered 0 rds)"
    using build_tree_ok [OF assms(1) False] by metis
  have "\<exists>r p'. find_checked_inner R T t p ins check = Returns (r, p') \<and> (\<forall>v. r = Some v \<longrightarrow> v < length rds)" for p check
  proof -
    obtain r p' where "find_checked_inner R T t p ins check = Returns (r, p')"
      "\<And>v. r = Some v \<Longrightarrow> v \<in># route_values (routes t0)"
      using set_exact_total [OF t(2,3) assms(2), where p = p and check = check] by metis
    then show ?thesis using registered_values [of _ 0 rds] t(4) by auto
  qed
  with t(1) show ?thesis by blast
qed

lemma t_exact_unindexed [simp]: "t_exact (unindexed t) = []"
  by (cases t) simp

lemma tree_ready_unindexed:
  assumes "tree_ready t"
  shows "find_checked_inner R T t p ins check = find_checked_inner R T (unindexed t) p ins check"
  using assms find_root_unindexed [of t] by (simp add: tree_ready_def find_checked_inner_plain)

text \<open>The tree of a router gives the first route that accepts the path, and its captures are in the path.\<close>

lemma build_tree_routes:
  assumes "resources_ok rds" "rds \<noteq> []" "coherent (route_segs (registered 0 rds))" "path_source T"
    "unat (p_skip p) \<le> length (p_resource p)" "length (p_resource p) < 2 ^ 32"
    "slash_ok (match_ctx R T p ins check) (route_segs (registered 0 rds)) (Path_path p)"
  obtains t rs x segs where "build_tree R ins rds = Returns t" "mset rs = mset (registered 0 rds)"
    "find_checked_inner R T t p ins check = Returns (matched_path p (x, segs))"
    "map_option fst x = first_route (match_ctx R T p ins check)
       (\<lambda>k v. root_accepts (match_ctx R T p ins check) k v (Path_path p)) rs"
    "\<lbrakk>regex_ranges R; segs_in (length (p_resource p)) (p_segments p)\<rbrakk> \<Longrightarrow> x = None \<or> segs_in (length (p_resource p)) segs"
proof -
  let ?cx = "match_ctx R T p ins check" and ?n = "length (p_resource p)"
  obtain t0 t where t: "build_tree R ins rds = Returns t" "tree_ready t0"
    "set_exact R t0 (static_paths 0 rds) ins = Returns t" "mset (routes t0) = mset (registered 0 rds)"
    using build_tree_ok [OF assms(1,2)] assms(3) by metis
  have r: "tree_wf t0" "tree_indexed t0" "tree_fit t0" "t_exact t0 = []" using t(2) by (simp_all add: tree_ready_def)
  have S: "slash_ok ?cx (route_segs (routes t0)) (Path_path p)"
    using assms(7) route_segs_mset [OF t(4)] by simp
  have e: "rp_unquote T [] = Borrowed []" using path_source.empty [OF assms(4)] .
  obtain x segs where f: "find_root ?cx t0 (Path_path p) (p_segments p) = Returns (x, segs)"
    "map_option fst x = first_route ?cx (\<lambda>k v. root_accepts ?cx k v (Path_path p)) (routes t0)"
    using find_root_routes [OF r(1-3) S, of "p_segments p"] e by (auto simp: gives_def)
  have "find_checked_inner R T t p ins check = Returns (matched_path p (x, segs))"
    using set_exact_same [OF t(2) assms(4-6) t(3), of check] f(1) by (simp add: find_checked_inner_plain [OF r(4)])
  moreover have "x = None \<or> segs_in ?n segs" if "regex_ranges R" "segs_in ?n (p_segments p)"
  proof -
    have "safe_call (segs_in ?n) (p_segments p) (find_root ?cx t0 (Path_path p) (p_segments p))"
    proof (rule find_root_bounds [OF r(1-3) _ _ _ assms(6) _ _ S that(2)])
      show "a \<le> b' \<and> b' \<le> length s" if "cx_captures ?cx q s = Some caps" "caps name = Some (a, b')" for q s caps name a b'
        using \<open>regex_ranges R\<close> that unfolding regex_ranges_def match_ctx_simps by blast
      show "s' = s" if "cx_decode ?cx s = Borrowed s'" for s s'
        using path_source.borrowed [OF assms(4)] that by simp
    qed (use e assms(5) in \<open>auto simp: Path_path_def\<close>)
    then show ?thesis using f(1) by (cases x) (auto simp: safe_call_def split: if_splits)
  qed
  ultimately show ?thesis using that t(1,4) f(2) by blast
qed

lemma built_routes:
  assumes rds: "rds = map re_rdef (rb_resources b)"
    and ok: "resources_ok rds" "coherent (route_segs (registered 0 rds))" "path_source T"
    and p: "unat (p_skip p) \<le> length (p_resource p)" "length (p_resource p) < 2 ^ 32"
    and cx: "cx = match_ctx R T p (rb_insensitive b) chk"
      "slash_ok cx (route_segs (registered 0 rds)) (Path_path p)"
    and ro: "builder_build R b = Returns ro"
  shows "\<exists>r p'. find_checked_inner R T (ro_tree ro) p (ro_insensitive ro) chk = Returns (r, p') \<and>
    (r = None \<longleftrightarrow> (\<forall>(k, v)\<in>set (registered 0 rds). \<not> (root_accepts cx k v (Path_path p) \<and> cx_check cx (tree_value v)))) \<and>
    (\<forall>idx. r = Some idx \<longrightarrow> idx < length rds \<and> (\<exists>(k, v)\<in>set (registered 0 rds).
       root_accepts cx k v (Path_path p) \<and> cx_check cx (tree_value v) \<and> idx = tree_value v))"
proof (cases "rds = []")
  case True
  then have "ro = \<lparr>ro_tree = Tree_default, ro_resources = rb_resources b, ro_insensitive = rb_insensitive b\<rparr>"
    using ro by (simp add: builder_build_def build_tree_def rds)
  with True show ?thesis by (simp add: find_default)
next
  case False
  obtain t rs x segs where t: "build_tree R (rb_insensitive b) rds = Returns t" "mset rs = mset (registered 0 rds)"
    "find_checked_inner R T t p (rb_insensitive b) chk = Returns (matched_path p (x, segs))"
    "map_option fst x = first_route cx (\<lambda>k v. root_accepts cx k v (Path_path p)) rs"
    using build_tree_routes [OF ok(1) False ok(2,3) p cx(2) [unfolded cx(1)]] unfolding cx(1) by metis
  have set: "set rs = set (registered 0 rds)" using t(2) by (rule mset_eq_setD)
  have ro': "ro = \<lparr>ro_tree = t, ro_resources = rb_resources b, ro_insensitive = rb_insensitive b\<rparr>"
    using ro t(1) by (simp add: builder_build_def rds)
  obtain r p' where m: "matched_path p (x, segs) = (r, p')" by (cases "matched_path p (x, segs)")
  have r: "r = first_route cx (\<lambda>k v. root_accepts cx k v (Path_path p)) rs"
    using matched_path_value [of p "(x, segs)"] m t(4) by simp
  have "find_checked_inner R T (ro_tree ro) p (ro_insensitive ro) chk = Returns (r, p')"
    using t(3) m ro' by simp
  moreover have "r = None \<longleftrightarrow> (\<forall>(k, v)\<in>set (registered 0 rds). \<not> (root_accepts cx k v (Path_path p) \<and> cx_check cx (tree_value v)))"
    unfolding r first_route_None set ..
  moreover have "idx < length rds \<and> (\<exists>(k, v)\<in>set (registered 0 rds).
       root_accepts cx k v (Path_path p) \<and> cx_check cx (tree_value v) \<and> idx = tree_value v)" if "r = Some idx" for idx
    using first_route_Some [OF that [unfolded r]] registered_value [of _ _ 0 rds] unfolding set by fastforce
  ultimately show ?thesis by blast
qed

section \<open>A small router\<close>

text \<open>
  A router for concrete runs, with the routes \<^verbatim>\<open>/a/{n}\<close> and \<^verbatim>\<open>/a/b\<close>. The matcher knows patterns that
  consist of one variable, with the default expression or as a tail.
\<close>

definition demo_regex :: Regex where
  "demo_regex = \<lparr>re_escape = id,
     re_names = (\<lambda>p. Some (if take 4 (drop 1 p) = ascii ''(?P<'' then [takeWhile (\<lambda>c. c \<noteq> 62) (drop 5 p)] else [])),
     re_captures = (\<lambda>p s. if s = [] \<and> drop (length p - 5) p \<noteq> ascii ''>.*)$'' then None else Some (\<lambda>n. Some (0, length s)))\<rparr>"

fun demo_resources :: "bytes list \<Rightarrow> ResourceDef list" where
  "demo_resources [] = []"
| "demo_resources (p # ps) = (case ResourceDef_new demo_regex [p] of
       Panics \<Rightarrow> [] | Returns rd \<Rightarrow> rd # demo_resources ps)"

definition demo_defs :: "ResourceDef list" where
  "demo_defs = demo_resources [ascii ''/a/{n}'', ascii ''/a/b'']"

definition demo_builder :: "(string, unit) RouterBuilder" where
  "demo_builder = foldl (\<lambda>b (rd, x). builder_resource rd x b) Router_builder (zip demo_defs [''item'', ''page''])"

definition demo_tree :: Tree where
  "demo_tree = (case build_tree demo_regex False demo_defs of Panics \<Rightarrow> Tree_default | Returns t \<Rightarrow> t)"

lemma demo_ok: "resources_ok demo_defs" "coherent (route_segs (registered 0 demo_defs))"
  by code_simp+

lemma demo_rds: "demo_defs = map re_rdef (rb_resources demo_builder)"
  by code_simp

lemma demo_built: "build_tree demo_regex False demo_defs = Returns demo_tree"
  using build_tree_find [OF demo_ok(1), of str_resource_path demo_regex False] by (auto simp: demo_tree_def)

lemma demo_router:
  "builder_build demo_regex demo_builder = Returns \<lparr>ro_tree = demo_tree, ro_resources = rb_resources demo_builder, ro_insensitive = False\<rparr>"
proof -
  have "\<not> rb_insensitive demo_builder" by code_simp
  then show ?thesis using demo_built by (simp add: builder_build_def demo_rds)
qed

lemma demo_ranges: "regex_ranges demo_regex"
  by (auto simp: regex_ranges_def demo_regex_def split: if_splits)

lemma demo_slash:
  "slash_ok (match_ctx demo_regex str_resource_path (Path_new (ascii ''/a/x'')) False (\<lambda>_ _. True))
     (route_segs (registered 0 demo_defs)) (Path_path (Path_new (ascii ''/a/x'')))"
  by (simp add: slash_ok_def Path_path_def Path_new_def ascii_def)

section \<open>Properties of the router\<close>

text \<open>C13. No panic in the router: for parsed resources, each with a pattern and less than \<open>2\<^sup>3\<^sup>2 - 1\<close>
  patterns in all, \<^verbatim>\<open>build\<close> returns a router, and \<^verbatim>\<open>recognize\<close> and \<^verbatim>\<open>recognize_checked\<close> return on every path,
  whatever the matcher of regular expressions and the check answer. The probing of the two hash
  tables ends, the branches of the search that the code marks unreachable are not reached, and the
  index that is found is one of a registered resource.\<close>

theorem router_never_panics:
  assumes "resources_ok (map re_rdef (rb_resources b))" "rp_unquote T [] = Borrowed []"
  shows "\<exists>ro. builder_build R b = Returns ro \<and> (\<forall>p. \<exists>r. recognize R T ro p = Returns r) \<and>
    (\<forall>p check. \<exists>r. recognize_checked R T ro p check = Returns r)"
proof -
  let ?ins = "rb_insensitive b"
  obtain t where t: "build_tree R ?ins (map re_rdef (rb_resources b)) = Returns t"
    "\<forall>p check. \<exists>r p'. find_checked_inner R T t p ?ins check = Returns (r, p') \<and>
      (\<forall>v. r = Some v \<longrightarrow> v < length (rb_resources b))"
    using build_tree_find [OF assms] by fastforce
  let ?ro = "\<lparr>ro_tree = t, ro_resources = rb_resources b, ro_insensitive = ?ins\<rparr>"
  have entry: "\<exists>r. router_entry ?ro (find_checked_inner R T t p ?ins check) = Returns r" for p check
  proof -
    obtain r p' where "find_checked_inner R T t p ?ins check = Returns (r, p')" "\<forall>v. r = Some v \<longrightarrow> v < length (rb_resources b)"
      using t(2) by blast
    then show ?thesis by (cases r) (auto simp: router_entry_def Let_def)
  qed
  have "builder_build R b = Returns ?ro" by (simp add: builder_build_def t(1))
  moreover have "\<exists>r. recognize R T ?ro p = Returns r" "\<exists>r. recognize_checked R T ?ro p check = Returns r" for p check
    using entry by (simp_all add: recognize_find)
  ultimately show ?thesis by blast
qed

theorem router_never_panics_witness:
  "\<exists>ro. builder_build demo_regex demo_builder = Returns ro \<and> (\<forall>p. \<exists>r. recognize demo_regex str_resource_path ro p = Returns r) \<and>
    (\<forall>p check. \<exists>r. recognize_checked demo_regex str_resource_path ro p check = Returns r)"
  using router_never_panics [of demo_builder str_resource_path demo_regex] demo_ok(1) by (simp flip: demo_rds)

text \<open>C7. The index of the children and the table of static paths are not visible: a search in the tree
  of a router gives the resource, the captured segments and the skipped part that a search gives
  which visits every child in order and has no table, for every check and every path, also in the
  middle of a resource with segments captured before.\<close>

theorem index_like_linear_scan:
  assumes "resources_ok rds" "build_tree R ins rds = Returns t" "path_source T"
    "unat (p_skip p) \<le> length (p_resource p)" "length (p_resource p) < 2 ^ 32"
  shows "find_checked_inner R T t p ins check = find_checked_inner R T (unindexed t) p ins check"
proof (cases "rds = []")
  case True
  then show ?thesis using assms(2) by (auto simp: build_tree_def Tree_default_def)
next
  case False
  obtain t0 where t0: "tree_ready t0" "set_exact R t0 (static_paths 0 rds) ins = Returns t"
    using build_tree_ok [OF assms(1) False, of R ins] assms(2) by (metis run.inject)
  obtain tab where "t = with_exact tab t0"
    using set_exact_table [OF t0(1), of R _ ins] t0(2) by (metis run.inject)
  then have "unindexed t = unindexed t0" by simp
  with set_exact_same [OF t0(1) assms(3-5) t0(2), of check] tree_ready_unindexed [OF t0(1)] show ?thesis by simp
qed

theorem index_like_linear_scan_witness:
  "find_checked_inner demo_regex str_resource_path demo_tree (Path_new (ascii ''/a/b'')) False (\<lambda>v _. v \<noteq> 0) =
   find_checked_inner demo_regex str_resource_path (unindexed demo_tree) (Path_new (ascii ''/a/b'')) False (\<lambda>v _. v \<noteq> 0)"
  by (rule index_like_linear_scan [OF demo_ok(1) demo_built str_source.path_source_axioms])
    (simp_all add: Path_new_def ascii_def)

text \<open>C4. Recognition: \<^verbatim>\<open>recognize_checked\<close> finds nothing exactly if no route of the registered resources
  accepts the path and passes the check, and what it finds is the value and the id of the resource
  of such a route. A route is a pattern with its resource (\<open>registered\<close>); \<open>root_accepts\<close> says when it
  accepts a path, without the tree. Paths that end with a slash are covered if no segment matches
  the empty one (\<open>slash_ok\<close>).\<close>

theorem recognize_registered_route:
  assumes rds: "rds = map re_rdef (rb_resources b)"
    and ok: "resources_ok rds" "coherent (route_segs (registered 0 rds))" "path_source T"
    and p: "unat (p_skip p) \<le> length (p_resource p)" "length (p_resource p) < 2 ^ 32"
    and cx: "cx = match_ctx R T p (rb_insensitive b) (\<lambda>idx res. check res (re_check (rb_resources b ! idx)))"
      "slash_ok cx (route_segs (registered 0 rds)) (Path_path p)"
    and ro: "builder_build R b = Returns ro"
  shows "\<exists>r p'. recognize_checked R T ro p check = Returns (r, p') \<and>
    (r = None \<longleftrightarrow> (\<forall>(k, v)\<in>set (registered 0 rds). \<not> (root_accepts cx k v (Path_path p) \<and> cx_check cx (tree_value v)))) \<and>
    (\<forall>y i. r = Some (y, i) \<longrightarrow> (\<exists>(k, v)\<in>set (registered 0 rds). root_accepts cx k v (Path_path p) \<and> cx_check cx (tree_value v) \<and>
       y = re_value (rb_resources b ! tree_value v) \<and> i = rd_id (rds ! tree_value v)))"
proof -
  have res: "ro_resources ro = rb_resources b" using ro by (auto simp: builder_build_def split: run.splits)
  obtain r p' where r: "find_checked_inner R T (ro_tree ro) p (ro_insensitive ro)
      (\<lambda>idx res. check res (re_check (rb_resources b ! idx))) = Returns (r, p')"
    "r = None \<longleftrightarrow> (\<forall>(k, v)\<in>set (registered 0 rds). \<not> (root_accepts cx k v (Path_path p) \<and> cx_check cx (tree_value v)))"
    "\<And>idx. r = Some idx \<Longrightarrow> idx < length rds \<and> (\<exists>(k, v)\<in>set (registered 0 rds).
       root_accepts cx k v (Path_path p) \<and> cx_check cx (tree_value v) \<and> idx = tree_value v)"
    using built_routes [OF assms] by blast
  have rec: "recognize_checked R T ro p check = router_entry ro (Returns (r, p'))"
    using r(1) res by (simp add: recognize_find)
  show ?thesis
  proof (cases r)
    case None
    then show ?thesis using rec r(2) by (simp add: router_entry_def)
  next
    case (Some idx)
    then have "recognize_checked R T ro p check = Returns (Some (re_value (rb_resources b ! idx), rd_id (rds ! idx)), p')"
      using rec r(3) [OF Some] res rds by (simp add: router_entry_def Let_def)
    with r(2) r(3) [OF Some] Some show ?thesis by fastforce
  qed
qed

theorem recognize_registered_route_witness:
  "\<exists>ro cx r p'. builder_build demo_regex demo_builder = Returns ro \<and>
    recognize_checked demo_regex str_resource_path ro (Path_new (ascii ''/a/x'')) (\<lambda>_ _. True) = Returns (r, p') \<and>
    (r = None \<longleftrightarrow> (\<forall>(k, v)\<in>set (registered 0 demo_defs).
       \<not> (root_accepts cx k v (Path_path (Path_new (ascii ''/a/x''))) \<and> cx_check cx (tree_value v))))"
proof -
  have "\<not> rb_insensitive demo_builder" by code_simp
  then show ?thesis
    using recognize_registered_route [OF demo_rds demo_ok str_source.path_source_axioms _ _ refl _ demo_router,
        of "Path_new (ascii ''/a/x'')" "\<lambda>_ _. True"] demo_slash demo_router
    by (fastforce simp: Path_new_def ascii_def)
qed

text \<open>C17. Captured ranges: after a search the segments of the path lie inside the path, so that \<^verbatim>\<open>get\<close> and
  the iterator do not panic. This is for paths shorter than \<open>2\<^sup>3\<^sup>2\<close> bytes, a matcher whose ranges lie
  inside the string it searched (\<open>regex_ranges\<close>), and well-formed resources whose segments with the same
  pattern text are the same (\<open>coherent\<close>). Of the paths that end with a slash it covers those for which
  no segment of the routes matches the empty string or a lone slash (\<open>slash_ok\<close>): next to other routes
  a tail that does matches one byte too much there (\<open>trailing_slash_tail_panics\<close>).\<close>

theorem captures_inside_path:
  assumes "resources_ok rds" "coherent (route_segs (registered 0 rds))" "path_source T" "regex_ranges R"
    "path_ok p" "length (p_resource p) < 2 ^ 32"
    "slash_ok (match_ctx R T p ins check) (route_segs (registered 0 rds)) (Path_path p)"
    "build_tree R ins rds = Returns t" "find_checked_inner R T t p ins check = Returns (r, p')"
  shows "path_ok p' \<and> (\<forall>key. Path_get p' key \<noteq> Panics) \<and> (\<forall>i. PathIter_next p' i \<noteq> Panics)"
proof -
  have p: "unat (p_skip p) \<le> length (p_resource p)" "segs_in (length (p_resource p)) (p_segments p)"
    using assms(5) by (auto simp: path_ok_def segs_in_def)
  have "path_ok p'"
  proof (cases "rds = []")
    case True
    then have "p' = p\<lparr>p_segments := []\<rparr>"
      using assms(8,9) find_default [of R T p ins check] by (auto simp: build_tree_def)
    with p show ?thesis by (simp add: path_ok_def)
  next
    case False
    obtain t' x segs where "build_tree R ins rds = Returns t'"
      "find_checked_inner R T t' p ins check = Returns (matched_path p (x, segs))"
      "x = None \<or> segs_in (length (p_resource p)) segs"
      using build_tree_routes [OF assms(1) False assms(2,3) p(1) assms(6,7)] assms(4) p(2) by metis
    then have m: "(r, p') = matched_path p (x, segs)" "x = None \<or> segs_in (length (p_resource p)) segs"
      using assms(8,9) by simp_all
    have "path_ok (snd (matched_path p (x, segs)))"
    proof (cases x)
      case None
      then show ?thesis using p by (simp add: matched_path_def path_ok_def)
    next
      case (Some y)
      with m(2) show ?thesis by (intro matched_path_ok p(1) assms(6)) simp
    qed
    then show ?thesis by (simp flip: m(1))
  qed
  then show ?thesis using Path_get_ok PathIter_next_ok by blast
qed

theorem captures_inside_path_witness:
  "\<exists>r p'. find_checked_inner demo_regex str_resource_path demo_tree (Path_new (ascii ''/a/x'')) False (\<lambda>_ _. True) = Returns (r, p') \<and>
     Path_get p' (ascii ''n'') \<noteq> Panics"
proof -
  obtain r p' where r: "find_checked_inner demo_regex str_resource_path demo_tree (Path_new (ascii ''/a/x'')) False (\<lambda>_ _. True) = Returns (r, p')"
    using build_tree_find [OF demo_ok(1), of str_resource_path demo_regex False] demo_built by force
  have "path_ok p' \<and> (\<forall>key. Path_get p' key \<noteq> Panics) \<and> (\<forall>i. PathIter_next p' i \<noteq> Panics)"
    by (rule captures_inside_path [OF demo_ok str_source.path_source_axioms demo_ranges _ _ demo_slash demo_built r])
      (simp_all add: Path_new_def path_ok_def ascii_def)
  with r show ?thesis by blast
qed

end
