(* ===== verification/Router_Static.thy ===== *)
theory Router_Static
  imports Router_Recognize
begin

text \<open>
  Round trips of patterns: what \<^verbatim>\<open>build_path\<close> makes of a resource, and that a path registered
  without variables is recognised.
\<close>

section \<open>Building a path\<close>

lemma build_merge: "build_elements element (merge_elements es) len path s = build_elements element es len path s"
proof (induction es arbitrary: path s rule: merge_elements.induct)
  case (1 x y zs)
  show ?case
  proof (cases "is_str y \<and> as_str y = []")
    case True
    then have "y = Str []" by (cases y) auto
    with 1(1) show ?thesis by (cases x) (auto split: option.splits prod.splits)
  next
    case False
    show ?thesis
    proof (cases "is_str x \<and> is_str y")
      case True
      then obtain a b where "x = Str a" "y = Str b" by (cases x; cases y) auto
      with 1(2) False show ?thesis by simp
    next
      case nstr: False
      with 1(3) False show ?thesis by (cases x) (auto split: option.splits prod.splits)
    qed
  qed
qed simp_all

fun var_count :: "PathElement list \<Rightarrow> nat" where
  "var_count [] = 0"
| "var_count (Str s # es) = var_count es"
| "var_count (Var n # es) = Suc (var_count es)"

lemma build_elements_next:
  assumes "build_elements next_element es len path xs = (ok, path', xs')" "len \<le> length path"
  shows "(ok \<longleftrightarrow> var_count es \<le> length xs) \<and> (\<not> ok \<longrightarrow> path' = take len path) \<and> (ok \<longrightarrow> (\<exists>suffix. path' = path @ suffix))"
  using assms
proof (induction es arbitrary: path xs rule: var_count.induct)
  case (3 n es)
  show ?case
  proof (cases xs)
    case Nil
    then show ?thesis using 3 by auto
  next
    case (Cons x xs2)
    then show ?thesis using 3(1) [of "path @ x" xs2] 3(2,3) by auto
  qed
next
  case (2 s es)
  then show ?case using 2(1) [of "path @ s" xs] by auto
qed auto

text \<open>C40. \<^verbatim>\<open>build_path\<close> succeeds exactly if there is an element for each variable of the pattern; it appends
  to the path then, and leaves the path unchanged otherwise.\<close>

theorem build_path_all_or_nothing:
  assumes "build_path rd path elements = (ok, path', rest)"
  shows "(ok \<longleftrightarrow> var_count (rd_elements rd) \<le> length elements) \<and> (\<not> ok \<longrightarrow> path' = path) \<and>
    (ok \<longrightarrow> (\<exists>suffix. path' = path @ suffix))"
  using build_elements_next [of "rd_elements rd" "length path" path elements ok path' rest] assms
  by (simp add: build_path_def build_path_with_def)

theorem build_path_all_or_nothing_witness:
  "build_path (demo_defs ! 0) (ascii ''x'') [] = (False, ascii ''x'', []) \<and>
   (False \<longleftrightarrow> var_count (rd_elements (demo_defs ! 0)) \<le> length ([] :: bytes list))"
proof -
  have e: "build_path (demo_defs ! 0) (ascii ''x'') [] = (False, ascii ''x'', [])" by code_simp
  from build_path_all_or_nothing [OF e] e show ?thesis by simp
qed

section \<open>Patterns without variables\<close>

text \<open>The segments before the last one, each with the slash that follows it.\<close>

definition glue :: "bytes list \<Rightarrow> bytes" where
  "glue ss = concat (map (\<lambda>s. s @ [SLASH]) ss)"

lemma glue_simps [simp]: "glue [] = []" "glue (s # ss) = s @ SLASH # glue ss"
  by (simp_all add: glue_def)

lemma str_find_no_brace:
  "LBRACE \<notin> set s \<Longrightarrow> str_find (\<lambda>c. c = LBRACE \<or> c = SLASH) s = str_find ((=) SLASH) s"
  by (induction s) auto

lemma str_find_take_Suc: "str_find f s = Some i \<Longrightarrow> str_find f (take (Suc i) s) = Some i"
  by (auto simp: str_find_Some)

lemma drop_start: "drop (if starts_slash p then 1 else 0) p = unslash p"
  by (simp add: unslash_def drop_Suc)

lemma parse_loop_static:
  assumes "LBRACE \<notin> set p"
  shows "\<exists>pat ss els. parse_loop R p pe el = Returns (pat, pe @ map Static ss, el @ map Str els) \<and>
    concat els @ pat = p \<and> SLASH \<notin> set (unslash pat) \<and> unslash p = glue ss @ unslash pat \<and>
    (\<forall>s\<in>set ss. SLASH \<notin> set s) \<and> (p \<noteq> [] \<longrightarrow> pat \<noteq> []) \<and> (ss = [] \<longrightarrow> pat = p)"
  using assms
proof (induction "length p" arbitrary: p pe el rule: less_induct)
  case less
  let ?st = "if starts_slash p then 1 else 0 :: nat"
  have nb: "str_find (\<lambda>c. c = LBRACE \<or> c = SLASH) (unslash p) = str_find ((=) SLASH) (unslash p)"
    by (rule str_find_no_brace) (use less.prems in \<open>cases p; auto simp: unslash_def\<close>)
  show ?case
  proof (cases "str_find ((=) SLASH) (unslash p)")
    case None
    then have "parse_loop R p pe el = Returns (p, pe, el)"
      by (simp add: parse_loop.simps [of R p] Let_def drop_start nb del: One_nat_def)
    moreover have "SLASH \<notin> set (unslash p)" using None by (auto simp: str_find_None)
    ultimately show ?thesis
      by (intro exI [of _ p] exI [of _ "[]"]) simp
  next
    case (Some i)
    define q where "q = drop (i + ?st) p"
    have i: "i < length (unslash p)" "unslash p ! i = SLASH" "\<forall>j<i. unslash p ! j \<noteq> SLASH"
      using Some by (auto simp: str_find_Some)
    have q: "q = drop i (unslash p)"
      by (simp add: q_def add.commute flip: drop_start drop_drop)
    have qs: "q = SLASH # drop (Suc i) (unslash p)" using Cons_nth_drop_Suc [OF i(1)] i(2) by (simp add: q)
    then have uq: "unslash q = drop (Suc i) (unslash p)" by (simp add: unslash_def starts_slash_def)
    have seg: "drop ?st (take (i + ?st) p) = take i (unslash p)"
      by (simp add: take_drop [symmetric] flip: drop_start)
    have loop: "parse_loop R p pe el = parse_loop R q (pe @ [Static (take i (unslash p))]) (el @ [Str (take (i + ?st) p)])"
      unfolding parse_loop.simps [of R p] Let_def drop_start nb Some option.case str_find_take_Suc [OF Some] seg q_def ..
    have len: "length q < length p"
    proof (cases "starts_slash p")
      case True
      then show ?thesis by (cases p) (auto simp: q unslash_def starts_slash_def)
    next
      case False
      then have "i \<noteq> 0" using i(1,2) by (cases p; cases i) (auto simp: unslash_def starts_slash_def)
      with i(1) False show ?thesis by (simp add: q unslash_def)
    qed
    have "LBRACE \<notin> set q" using less.prems by (auto simp: q_def dest: in_set_dropD)
    from less.hyps [OF len this, of "pe @ [Static (take i (unslash p))]" "el @ [Str (take (i + ?st) p)]"]
    obtain pat ss els where IH: "parse_loop R q (pe @ [Static (take i (unslash p))]) (el @ [Str (take (i + ?st) p)]) =
        Returns (pat, (pe @ [Static (take i (unslash p))]) @ map Static ss, (el @ [Str (take (i + ?st) p)]) @ map Str els)"
      "concat els @ pat = q" "SLASH \<notin> set (unslash pat)" "unslash q = glue ss @ unslash pat"
      "\<forall>s\<in>set ss. SLASH \<notin> set s" "pat \<noteq> []" using qs by auto
    have "unslash p = take i (unslash p) @ SLASH # unslash q"
      using qs uq by (metis append_take_drop_id q)
    moreover have "SLASH \<notin> set (take i (unslash p))" using i by (auto simp: in_set_conv_nth)
    moreover have "take (i + ?st) p @ q = p" by (simp add: q_def)
    ultimately show ?thesis
      using IH loop by (intro exI [of _ pat] exI [of _ "take i (unslash p) # ss"] exI [of _ "take (i + ?st) p # els"]) auto
  qed
qed


text \<open>What a pattern without variables is parsed to: it ends with a slash or with its last segment.\<close>

lemma parse_static:
  assumes "LBRACE \<notin> set p" "p \<noteq> []" "last p \<noteq> STAR"
  obtains (slash) ss els where "unslash p = glue ss" "\<forall>s\<in>set ss. SLASH \<notin> set s" "ss = [] \<longrightarrow> p = [SLASH]"
      "parse_pattern R p = Returns (\<lparr>sg_tp = map Static ss, sg_slesh = True\<rparr>, merge_elements (map Str els))" "concat els = p"
  | (segment) ss x els where "unslash p = glue ss @ x" "\<forall>s\<in>set ss. SLASH \<notin> set s" "SLASH \<notin> set x" "x \<noteq> []"
      "parse_pattern R p = Returns (\<lparr>sg_tp = map Static (ss @ [x]), sg_slesh = False\<rparr>, merge_elements (map Str els))" "concat els = p"
proof -
  obtain pat ss els where l: "parse_loop R p [] [] = Returns (pat, map Static ss, map Str els)"
    "concat els @ pat = p" "SLASH \<notin> set (unslash pat)" "unslash p = glue ss @ unslash pat"
    "\<forall>s\<in>set ss. SLASH \<notin> set s" "pat \<noteq> []" "ss = [] \<longrightarrow> pat = p"
    using parse_loop_static [OF assms(1), of R "[]" "[]"] assms(2) by auto
  have lp: "last p = last pat" using l(2,6) by (metis last_appendR)
  show ?thesis
  proof (cases "last pat = SLASH")
    case True
    have pat: "pat = [SLASH]"
    proof (cases pat)
      case (Cons y ys)
      then show ?thesis using True l(3) last_in_set [of ys] by (cases "ys = []") (auto simp: unslash_def starts_slash_def split: if_splits)
    qed (use l(6) in simp)
    then have "parse_pattern R p = Returns (\<lparr>sg_tp = map Static ss, sg_slesh = True\<rparr>, merge_elements (map Str (els @ [[], [SLASH]])))"
      using l(1) assms(2) by (simp add: parse_pattern_def Let_def unslash_def starts_slash_def)
    then show ?thesis
      using pat l by (intro slash [of ss "els @ [[], [SLASH]]"]) (auto simp: unslash_def starts_slash_def)
  next
    case False
    have ne: "unslash pat \<noteq> []" "last (unslash pat) = last pat"
      using False l(6) by (cases pat; auto simp: unslash_def starts_slash_def split: if_splits)+
    then have "strip_last STAR (unslash pat) = None" using assms(3) lp by (simp add: strip_last_def)
    then have "parse_pattern R p = Returns (\<lparr>sg_tp = map Static (ss @ [unslash pat]), sg_slesh = False\<rparr>, merge_elements (map Str (els @ [pat])))"
      using l(1,6) assms(2) False ne by (simp add: parse_pattern_def Let_def)
    then show ?thesis
      using l ne by (intro segment [of ss "unslash pat" "els @ [pat]"]) auto
  qed
qed

lemma build_strs: "build_elements element (map Str els) len path s = (True, path @ concat els, s)"
  by (induction els arbitrary: path) simp_all

text \<open>A pattern without variables is built to itself.\<close>

lemma build_path_static:
  assumes "ResourceDef_new R (p # ps) = Returns rd" "LBRACE \<notin> set p" "p \<noteq> []" "last p \<noteq> STAR"
  shows "build_path rd path elements = (True, path @ p, elements)"
proof -
  obtain sg es where r: "parse_pattern R p = Returns (sg, es)" "rd_elements rd = es"
    using assms(1) by (auto simp: ResourceDef_new_def ResourceDef_create_def split: run.splits)
  from assms(2-4) obtain els where "es = merge_elements (map Str els)" "concat els = p"
    by (rule parse_static [of p R]) (use r in auto)
  then show ?thesis
    using r(2) by (simp add: build_path_def build_path_with_def build_merge build_strs)
qed

section \<open>A static path matches itself\<close>

lemma seg_eq_refl [simp]: "seg_eq cx s s"
  by (simp add: seg_eq_def eq_ignore_ascii_case_def)

lemma find_slash_simps:
  "SLASH \<notin> set s \<Longrightarrow> find_slash (s @ SLASH # q) = length s" "SLASH \<notin> set s \<Longrightarrow> find_slash s = length s"
  by (induction s) (auto simp: find_slash_def split: option.splits)

lemma accepts_static:
  assumes "\<not> cx_unquote cx" "SLASH \<notin> set s"
  shows "accepts cx (Static s) (s @ SLASH # q)" "accepts cx (Static s) s"
  using assms by (simp_all add: first_segment_def Let_def find_slash_simps)

lemma route_accepts_static:
  assumes "\<not> cx_unquote cx" "\<forall>s\<in>set ss. SLASH \<notin> set s"
  shows "ss \<noteq> [] \<Longrightarrow> route_accepts cx (map Static ss) (Slash v) (glue ss)"
    "SLASH \<notin> set x \<Longrightarrow> route_accepts cx (map Static (ss @ [x])) (Val v) (glue ss @ x)"
  using assms(2) by (induction ss)
    (auto simp: accepts_static [OF assms(1)] find_slash_simps Let_def simp del: accepts.simps)

lemma static_accepts_itself:
  assumes "LBRACE \<notin> set p" "p \<noteq> []" "last p \<noteq> STAR" "\<not> cx_unquote cx" "parse_pattern R p = Returns (sg, es)"
  shows "root_accepts cx (sg_tp sg) (resource_value (sg_slesh sg) False v) p"
  using assms(1-3)
proof (cases rule: parse_static [of p R, case_names slash segment])
  case (slash ss els)
  then show ?thesis
    using assms(2,4,5) route_accepts_static(1) [of cx ss] by (auto simp: root_accepts_def resource_value_def)
next
  case (segment ss x els)
  then show ?thesis
    using assms(2,4,5) route_accepts_static(2) [of cx ss x] by (auto simp: root_accepts_def resource_value_def)
qed

lemma parse_all_nth:
  "\<lbrakk>parse_all R ps = Returns xs; i < length ps\<rbrakk> \<Longrightarrow> i < length xs \<and> parse_pattern R (ps ! i) = Returns (xs ! i)"
proof (induction ps arbitrary: xs i)
  case (Cons p ps)
  then show ?case by (cases i) (auto split: run.splits)
qed simp

lemma pattern_route:
  assumes "ResourceDef_new R ps = Returns rd" "p \<in> set ps"
  obtains sg es where "parse_pattern R p = Returns (sg, es)"
    "(sg_tp sg, resource_value (sg_slesh sg) False idx) \<in> set (resource_routes rd idx)"
proof -
  obtain xs where xs: "parse_all R ps = Returns xs" "rd_tp rd = map fst xs" "\<not> rd_prefix rd"
    using assms(1) by (auto simp: ResourceDef_new_def ResourceDef_create_def split: run.splits)
  obtain i where i: "i < length ps" "ps ! i = p" using assms(2) by (auto simp: in_set_conv_nth)
  have x: "i < length xs" "parse_pattern R p = Returns (xs ! i)" using parse_all_nth [OF xs(1) i(1)] i(2) by auto
  then have "fst (xs ! i) \<in> set (rd_tp rd)" using xs(2) by simp
  then show ?thesis
    using that [of "fst (xs ! i)" "snd (xs ! i)"] x(2) xs(3) by (auto simp: resource_routes_def)
qed

lemma registered_nth: "n < length rds \<Longrightarrow> r \<in> set (resource_routes (rds ! n) (idx + n)) \<Longrightarrow> r \<in> set (registered idx rds)"
proof (induction idx rds arbitrary: n rule: registered.induct)
  case (2 idx rd rds)
  then show ?case by (cases n) auto
qed simp

text \<open>C25. A pattern registered without variables, that is not empty and does not end with \<^verbatim>\<open>*\<close>, recognises
  the path that is the same text: the pattern is parsed to segments that accept it, the insertion in
  the tree keeps the route, and the search finds the value and the id of a resource with a route that
  accepts the path; it is the resource of the pattern if no route of another one accepts the path. The
  path is one that its source does not decode before matching, shorter than \<open>2\<^sup>3\<^sup>2\<close> bytes; the resources
  are well-formed, segments with the same pattern text are the same (\<open>coherent\<close>), and if the path ends
  with a slash no segment of the routes matches the empty string or a lone slash (\<open>slash_ok\<close>).\<close>

theorem static_path_recognized:
  assumes rds: "rds = map re_rdef (rb_resources b)" "resources_ok rds" "coherent (route_segs (registered 0 rds))"
    and rd: "own < length rds" "ResourceDef_new R ps = Returns (rds ! own)" "p \<in> set ps"
    and p: "LBRACE \<notin> set p" "p \<noteq> []" "last p \<noteq> STAR" "length p < 2 ^ 32"
    and T: "path_source T" "\<not> rp_needs_unquote T p"
    and cx: "cx = match_ctx R T (Path_new p) (rb_insensitive b) (\<lambda>_ _. True)" "slash_ok cx (route_segs (registered 0 rds)) p"
    and ro: "builder_build R b = Returns ro"
  shows "\<exists>n p'. recognize R T ro (Path_new p) = Returns (Some (re_value (rb_resources b ! n), rd_id (rds ! n)), p') \<and> n < length rds \<and>
    (\<exists>(k, v)\<in>set (registered 0 rds). root_accepts cx k v p \<and> tree_value v = n) \<and>
    ((\<forall>(k, v)\<in>set (registered 0 rds). root_accepts cx k v p \<longrightarrow> tree_value v = own) \<longrightarrow> n = own)"
proof -
  have pp: "Path_path (Path_new p) = p" by (simp add: Path_path_def Path_new_def)
  have res: "unat (p_skip (Path_new p)) \<le> length (p_resource (Path_new p))" "p_resource (Path_new p) = p"
    by (simp_all add: Path_new_def)
  obtain r p' where r: "find_checked_inner R T (ro_tree ro) (Path_new p) (ro_insensitive ro) (\<lambda>_ _. True) = Returns (r, p')"
    "r = None \<longleftrightarrow> (\<forall>(k, v)\<in>set (registered 0 rds). \<not> (root_accepts cx k v p \<and> cx_check cx (tree_value v)))"
    "\<And>idx. r = Some idx \<Longrightarrow> idx < length rds \<and> (\<exists>(k, v)\<in>set (registered 0 rds). root_accepts cx k v p \<and> cx_check cx (tree_value v) \<and> idx = tree_value v)"
    using built_routes [OF rds T(1) _ _ cx(1) _ ro, unfolded pp] p(4) cx(2) res(1) unfolding res(2) by blast
  obtain sg es where sg: "parse_pattern R p = Returns (sg, es)"
    "(sg_tp sg, resource_value (sg_slesh sg) False own) \<in> set (resource_routes (rds ! own) (0 + own))"
    using pattern_route [OF rd(2,3), where idx = own] by auto
  have "\<not> cx_unquote cx" using T(2) pp by (simp add: cx(1))
  from static_accepts_itself [OF p(1-3) this sg(1)] registered_nth [OF rd(1) sg(2)] r(2)
  obtain idx where idx: "r = Some idx" by (fastforce simp: cx(1))
  moreover have "ro_resources ro = rb_resources b" using ro by (auto simp: builder_build_def split: run.splits)
  ultimately have "recognize R T ro (Path_new p) = Returns (Some (re_value (rb_resources b ! idx), rd_id (rds ! idx)), p')"
    using r(1,3) rds(1) by (simp add: recognize_find router_entry_def Let_def)
  moreover have "idx < length rds" "\<exists>(k, v)\<in>set (registered 0 rds). root_accepts cx k v p \<and> tree_value v = idx"
    using r(3) [OF idx] by blast+
  ultimately show ?thesis by (intro exI [of _ idx]) blast
qed

theorem static_path_recognized_witness:
  "\<exists>ro n p'. builder_build demo_regex demo_builder = Returns ro \<and> n < length demo_defs \<and>
     recognize demo_regex str_resource_path ro (Path_new (ascii ''/a/b'')) =
       Returns (Some (re_value (rb_resources demo_builder ! n), rd_id (demo_defs ! n)), p')"
proof -
  let ?ro = "\<lparr>ro_tree = demo_tree, ro_resources = rb_resources demo_builder, ro_insensitive = False\<rparr>"
  let ?cx = "match_ctx demo_regex str_resource_path (Path_new (ascii ''/a/b'')) (rb_insensitive demo_builder) (\<lambda>_ _. True)"
  have "\<exists>n p'. recognize demo_regex str_resource_path ?ro (Path_new (ascii ''/a/b'')) =
      Returns (Some (re_value (rb_resources demo_builder ! n), rd_id (demo_defs ! n)), p') \<and> n < length demo_defs \<and>
    (\<exists>(k, v)\<in>set (registered 0 demo_defs). root_accepts ?cx k v (ascii ''/a/b'') \<and> tree_value v = n) \<and>
    ((\<forall>(k, v)\<in>set (registered 0 demo_defs). root_accepts ?cx k v (ascii ''/a/b'') \<longrightarrow> tree_value v = 1) \<longrightarrow> n = 1)"
  proof (rule static_path_recognized [OF demo_rds demo_ok _ _ _ _ _ _ _ str_source.path_source_axioms _ refl _ demo_router])
    show "1 < length demo_defs" by code_simp
    show "ResourceDef_new demo_regex [ascii ''/a/b''] = Returns (demo_defs ! 1)" by code_simp
  qed (simp_all add: ascii_def slash_ok_def)
  then show ?thesis using demo_router by blast
qed

section \<open>Runs that show a defect\<close>

definition demo_run :: "bytes list \<Rightarrow> bytes \<Rightarrow> (nat option \<times> Path) run" where
  "demo_run patterns path = (case build_tree demo_regex False (demo_resources patterns) of
       Panics \<Rightarrow> Panics
     | Returns t \<Rightarrow> Tree_find demo_regex str_resource_path t (Path_new path))"

text \<open>A tail below a node with other children, matched against a path that ends with the slash before
  it, captures a range that ends behind the path: with the routes \<^verbatim>\<open>/a/{tail}*\<close> and \<^verbatim>\<open>/a/b\<close> the path \<^verbatim>\<open>/a/\<close>
  of three bytes is recognised with the range from 3 to 4 for \<^verbatim>\<open>tail\<close>, and \<^verbatim>\<open>Path::get\<close> panics on it.
  With the first route alone the range is the empty one at 3.\<close>

lemma trailing_slash_tail_panics:
  "demo_run [ascii ''/a/{tail}*'', ascii ''/a/b''] (ascii ''/a/'') =
     Returns (Some 0, \<lparr>p_resource = ascii ''/a/'', p_skip = 3, p_segments = [(ascii ''tail'', IdxSegment 3 4)]\<rparr>) \<and>
   Path_get \<lparr>p_resource = ascii ''/a/'', p_skip = 3, p_segments = [(ascii ''tail'', IdxSegment 3 4)]\<rparr> (ascii ''tail'') = Panics \<and>
   demo_run [ascii ''/a/{tail}*''] (ascii ''/a/'') =
     Returns (Some 0, \<lparr>p_resource = ascii ''/a/'', p_skip = 3, p_segments = [(ascii ''tail'', IdxSegment 3 3)]\<rparr>)"
  by code_simp

text \<open>
  The resource that is found need not be the one registered first: routes with a common prefix share
  a branch of the tree, which is searched before the routes registered in between.
\<close>

lemma later_resource_wins:
  "demo_run [ascii ''/{n}/y'', ascii ''/a/{z}''] (ascii ''/a/y'') =
     Returns (Some 0, \<lparr>p_resource = ascii ''/a/y'', p_skip = 4, p_segments = [(ascii ''n'', IdxSegment 1 2)]\<rparr>) \<and>
   demo_run [ascii ''/a/x'', ascii ''/{n}/y'', ascii ''/a/{z}''] (ascii ''/a/y'') =
     Returns (Some 2, \<lparr>p_resource = ascii ''/a/y'', p_skip = 4, p_segments = [(ascii ''z'', IdxSegment 3 4)]\<rparr>)"
  by code_simp

text \<open>The text that follows the last variable of a segment is not part of the path that is built.\<close>

lemma suffix_not_built:
  "map (\<lambda>rd. build_path rd [] [ascii ''x'']) (demo_resources [ascii ''/{id}.html'']) = [(True, ascii ''/x'', [])]"
  by code_simp

end
