(* ===== verification/Spec2Isabelle.thy ===== *)
theory Spec2Isabelle
  imports Ws_Codec Ws_Handshake H1_Body H1_Codec Timer_Callback Timer_Lowres Channel_Mpsc Channel_Condition
    Byte_Stream Service_Counter Router_Static
begin

text \<open>
  A verification library for ntex, a framework for composable network services in Rust.

  \<^bold>\<open>The program.\<close> A connection is served by an I/O layer (\<^verbatim>\<open>ntex-io\<close>, \<^verbatim>\<open>ntex-net\<close>), which moves bytes
  between a socket and buffers; a codec, which turns the bytes into messages and back; a dispatcher,
  which hands the messages to a service and the body of a message to a byte stream; and the timer wheel,
  which ends connections that are too slow. HTTP/1 (\<^verbatim>\<open>ntex/src/http/h1\<close>) and WebSockets (\<^verbatim>\<open>ntex/src/ws\<close>)
  are such codecs. A request that upgrades goes through the handshake, after which the WebSocket codec
  takes over the connection. The router (\<^verbatim>\<open>ntex-router\<close>) chooses the resource of the web framework that a
  request is for. The theories cover the codecs, the handshake, the containers they use, the timers, the
  channels and the router: the parts of the program that decide, without I/O, what is accepted, what is
  written, when a task is woken and which handler is chosen.

  \<^bold>\<open>Conventions.\<close> Structures of the source are records, enumerations are datatypes, machine integers
  whose width matters are words, and byte buffers are lists of bytes. A function that changes a buffer
  or \<^verbatim>\<open>self\<close> returns the changed value. A \<^verbatim>\<open>Result\<close> is a sum with the error on the left; a panic is a value
  of its own (\<open>Panic\<close>, \<open>Panics\<close>, or \<open>None\<close> for an operation that cannot fail otherwise), so that its absence is a
  theorem. Wakers are values: an operation returns those it calls. Code outside the repository (the
  parsers of \<^verbatim>\<open>ntex-httparse\<close>, \<^verbatim>\<open>base64\<close>, \<^verbatim>\<open>flate2\<close>, \<^verbatim>\<open>regex\<close>, tables of the \<^verbatim>\<open>http\<close> crate) and what the clock or a random
  generator returns are parameters.

  \<^bold>\<open>Shared theories.\<close>
  \<^item> \<open>Prelude\<close>: types, byte-order conversions, ASCII strings, list lemmas.
  \<^item> \<open>Incremental\<close>: the locale \<open>incremental\<close> of decoders that read from a growing buffer, with the lemmas
    that how the input is cut into reads does not matter.
  \<^item> \<open>Http_Types\<close>: versions, heads, connection types and errors of \<^verbatim>\<open>http/message.rs\<close>, \<^verbatim>\<open>http/error.rs\<close>.

  \<^bold>\<open>WebSockets\<close> (\<^verbatim>\<open>ntex/src/ws\<close>).
  \<^item> \<open>Ws_Mask\<close> (\<^verbatim>\<open>mask.rs\<close>): the word-wise masking equals masking byte by byte, whatever the alignment and
    the byte order (locale \<open>byte_order\<close>).
  \<^item> \<open>Ws_Proto\<close> (\<^verbatim>\<open>proto.rs\<close>, \<^verbatim>\<open>error.rs\<close>): operation codes, close codes and reasons.
  \<^item> \<open>Ws_Frame\<close> (\<^verbatim>\<open>frame.rs\<close>): the frame parser and writer. What is written is parsed back; what is
    parsed is the canonical encoding of its result; bounds and absence of overflow.
  \<^item> \<open>Ws_Codec\<close> (\<^verbatim>\<open>codec.rs\<close>): the codec state machine. A stream of encoded messages is decoded to the same
    messages, however it is segmented; accepted streams follow the rules of RFC 6455 for fragments,
    control frames and closing; the encoder accepts exactly the messages allowed in its state; no call
    panics; decoded sizes stay within the limit. Frames and messages interpret \<open>incremental\<close>.
  \<^item> \<open>Ws_Handshake\<close> (\<^verbatim>\<open>handshake.rs\<close>): the server handshake accepts exactly the valid upgrade requests,
    and the response key is the SHA-1 of the challenge, with SHA-1 defined from FIPS 180-4.

  \<^bold>\<open>HTTP.\<close>
  \<^item> \<open>Header_Map\<close> (\<^verbatim>\<open>ntex-http/src/map.rs\<close>): the header multimap with its iterators, as an implementation
    of the locale \<open>multimap\<close>.
  \<^item> \<open>H1_Encoder\<close> (\<^verbatim>\<open>h1/encoder.rs\<close>): start line, headers, body encodings. An encoded head is known line by
    line, and its framing is the one of the body, whatever the application sets; numbers are written
    exactly; a body with a length is exact.
  \<^item> \<open>H1_Payload\<close> (\<^verbatim>\<open>h1/decoder.rs\<close>, bodies): chunked bodies with extensions and trailers and their
    limits, bodies with a length and up to the end of the connection; the locale \<open>body_decoder\<close> is
    what their decoders have in common. Every call returns.
  \<^item> \<open>H1_Body\<close>: what the encoder writes for a body the payload decoder reads back.
  \<^item> \<open>H1_Message\<close>, \<open>H1_Head\<close> (\<^verbatim>\<open>h1/decoder.rs\<close>, heads): the decoder of request and response heads with its
    state between reads. It refines the function that reads the framing off a finished head; messages
    with conflicting framing are rejected, in one read or over several; sizes and numbers of headers are
    limited; no slice, split or unwrap fails.
  \<^item> \<open>H1_Codec\<close> (\<^verbatim>\<open>h1/codec.rs\<close>): the server codec over decoder and encoder. A connection that is kept open
    after a response has a body with exactly the framing that its head declares.

  \<^bold>\<open>Timers\<close> (\<^verbatim>\<open>ntex-util/src/time\<close>).
  \<^item> \<open>Timer_Wheel\<close> (\<^verbatim>\<open>wheel.rs\<close>): the wheel, its handles and the driver.
  \<^item> \<open>Timer_Clock\<close>: the arithmetic of the levels; the bucket of a delay; the search of the bitmaps.
  \<^item> \<open>Timer_Store\<close>: the invariant of the storage; the locale \<open>timer_store\<close>, which says what linking and
    unlinking do to the bucket of every timer and to the schedule, interpreted on the wheel.
  \<^item> \<open>Timer_Driver\<close>, \<open>Timer_Run\<close>: the invariant of the timer, every operation and the driver; over runs, a
    timer is never expired early, a poll of the driver expires what is due, and nothing panics. How late
    a timer may be depends on how far the clock of the wheel is behind.
  \<^item> \<open>Timer_Callback\<close> (\<^verbatim>\<open>callbacks.rs\<close>): callback timers and their delivery, at most once for each arm.
  \<^item> \<open>Timer_Lowres\<close>: the cached system time; a value is cached only while the task that clears it runs.

  \<^bold>\<open>Channels\<close> (\<^verbatim>\<open>ntex-util/src\<close>).
  \<^item> \<open>Local_Waker\<close> (\<^verbatim>\<open>task.rs\<close>): the slot of a waker and its contract, the locale \<open>waker_slot\<close>.
  \<^item> \<open>Channel_Mpsc\<close> (\<^verbatim>\<open>channel/mpsc.rs\<close>): first in, first out, and a waiting receiver has nothing to receive.
  \<^item> \<open>Channel_Condition\<close> (\<^verbatim>\<open>channel/condition.rs\<close>): a waiter that waits gets the next value, and keeps it,
    whatever other waiters do.
  \<^item> \<open>Service_Counter\<close> (\<^verbatim>\<open>services/counter.rs\<close>): the count of requests in flight; no wake-up is lost.
  \<^item> \<open>Byte_Stream\<close> (\<^verbatim>\<open>channel/bstream.rs\<close>): the stream of a body with its watermarks. Bytes arrive in order;
    sender and receiver do not wait for each other.

  \<^bold>\<open>Router\<close> (\<^verbatim>\<open>ntex-router/src\<close>).
  \<^item> \<open>Router_Path\<close> (\<^verbatim>\<open>path.rs\<close>, \<^verbatim>\<open>lib.rs\<close>): the state of a match, its captured segments and the path source.
  \<^item> \<open>Router_Resource\<close> (\<^verbatim>\<open>resource.rs\<close>): the parser of path patterns, whose results are well-formed, and
    the building of paths.
  \<^item> \<open>Router_Tree\<close>, \<open>Router_Find\<close> (\<^verbatim>\<open>tree.rs\<close>): the tree of patterns with the index of its static segments,
    insertion, and the search with backtracking.
  \<^item> \<open>Router_Build\<close> (\<^verbatim>\<open>tree.rs\<close>, \<^verbatim>\<open>router.rs\<close>): the table of static paths, the builder and recognition.
  \<^item> \<open>Router_Index\<close>, \<open>Router_Match\<close>: the keys of short strings determine them; the locale \<open>probing\<close> of hash
    tables with linear probing, interpreted on both tables; a search with the index is one without.
  \<^item> \<open>Router_Insert\<close>: the invariant of the tree; an insertion adds its route and changes no other.
  \<^item> \<open>Router_Routes\<close>: which routes accept a path, without the tree; a search gives the first that does.
  \<^item> \<open>Router_Safe\<close>: the locale \<open>search_inv\<close> carries an invariant of the captures through a search: it
    returns, and the captured ranges lie in the path. The locale \<open>path_source\<close> is what a path source
    promises of its decoding.
  \<^item> \<open>Router_Exact\<close>: a hit in the table of static paths gives what the search gives (locale \<open>search_sim\<close>).
  \<^item> \<open>Router_Recognize\<close>, \<open>Router_Static\<close>: the properties of the router as a whole; a static path is
    recognised; building of paths; runs that show where the code departs from its documentation.
  Strings are byte lists: a slice that starts inside a character of more than one byte panics in the
  program, but not in the model; the router itself cuts only at ASCII characters.

  \<^bold>\<open>Bounds.\<close> Loops over a finite structure are structural recursion, the others are functions with a
  termination proof, and linear probing, which would not end in a full table, is a partial function
  that is shown to return. \<open>chunked_loop\<close> has fuel, \<open>loop_fuel\<close>, which is shown to be
  enough for every input; and \<open>driver_loop\<close> has, since the sleep may be ready too early any number of
  times: 514 rounds and one for each early wake-up are enough, one for each of the 512 buckets, one for
  a stale expiry and one that waits. The clock of the wheel is assumed below \<open>2^63\<close> units, which
  at a resolution of a millisecond is 292 million years.

  \<^bold>\<open>Not modelled.\<close> The dispatchers and services (they are asynchronous code over generic traits), the I/O
  layer, the network drivers, TLS and the runtime (operating system interfaces and threads), HTTP/2 and
  content encodings (glue over other crates), the storage of \<^verbatim>\<open>ntex-bytes\<close> (raw pointers), the URL
  parser (a parameter of the message decoder), the deserializer of captured segments (driven by \<^verbatim>\<open>serde\<close>),
  the web framework, the client, and the macros. The one-shot and pooled channels, the services of
  \<^verbatim>\<open>ntex-util\<close> and the HTTP/1 dispatcher as a state machine over the codec are left. Debug and Display
  output is left out throughout. Destructors and wakers that call back into a structure while it is being changed are
  not modelled: the source forbids them for the wheel.
\<close>

end
